(* ===== verification/Prelude.thy ===== *)
theory Prelude
  imports Main "HOL-Library.Word"
begin

text \<open>
  Shared vocabulary of the development: the integer aliases of
  \<^verbatim>\<open>madbfs-common/aliases.hpp\<close>, the error codes of \<^verbatim>\<open>std::errc\<close>, the result type that
  stands for \<^verbatim>\<open>std::expected\<close> (with an extra value for undefined behaviour), unsigned
  64-bit arithmetic on naturals with its wrap-around written out, and the generic lemmas
  on lists, options and association lists that the component theories use.
\<close>

section \<open>Integer aliases\<close>

type_synonym u8 = "8 word"
type_synonym u16 = "16 word"
type_synonym u32 = "32 word"
type_synonym u64 = "64 word"
type_synonym i32 = "32 word"
type_synonym i64 = "64 word"
type_synonym str = string

text \<open>
  A \<^verbatim>\<open>usize\<close> that indexes containers is a natural number below \<open>2 ^ 64\<close>; the operations
  the code performs on it are unsigned, so they wrap around.
\<close>

definition add64 :: "nat \<Rightarrow> nat \<Rightarrow> nat" where
  "add64 a b = (a + b) mod 2 ^ 64"

definition sub64 :: "nat \<Rightarrow> nat \<Rightarrow> nat" where
  "sub64 a b = (if b \<le> a then a - b else a + 2 ^ 64 - b)"

definition mul64 :: "nat \<Rightarrow> nat \<Rightarrow> nat" where
  "mul64 a b = (a * b) mod 2 ^ 64"

definition cast32 :: "nat \<Rightarrow> nat" where
  "cast32 a = a mod 2 ^ 32"

lemma add64_small [simp]: "a + b < 2 ^ 64 \<Longrightarrow> add64 a b = a + b"
  by (simp add: add64_def)

lemma sub64_le [simp]: "b \<le> a \<Longrightarrow> sub64 a b = a - b"
  by (simp add: sub64_def)

lemma mul64_small [simp]: "a * b < 2 ^ 64 \<Longrightarrow> mul64 a b = a * b"
  by (simp add: mul64_def)

lemma cast32_small [simp]: "a < 2 ^ 32 \<Longrightarrow> cast32 a = a"
  by (simp add: cast32_def)

section \<open>Error codes and results\<close>

text \<open>
  \<^verbatim>\<open>std::errc\<close> is an enumeration over \<^verbatim>\<open>int\<close> whose enumerators are the \<^verbatim>\<open>errno\<close> values of
  the platform (Linux here); \<open>0\<close> is the value-initialised code, "no error".
\<close>

type_synonym errc = "32 word"

abbreviation errc_ok :: errc where "errc_ok \<equiv> 0"
abbreviation no_such_file_or_directory :: errc where "no_such_file_or_directory \<equiv> 2"
abbreviation io_error :: errc where "io_error \<equiv> 5"
abbreviation bad_file_descriptor :: errc where "bad_file_descriptor \<equiv> 9"
abbreviation resource_unavailable_try_again :: errc where "resource_unavailable_try_again \<equiv> 11"
abbreviation permission_denied :: errc where "permission_denied \<equiv> 13"
abbreviation file_exists :: errc where "file_exists \<equiv> 17"
abbreviation cross_device_link :: errc where "cross_device_link \<equiv> 18"
abbreviation no_such_device :: errc where "no_such_device \<equiv> 19"
abbreviation not_a_directory :: errc where "not_a_directory \<equiv> 20"
abbreviation is_a_directory :: errc where "is_a_directory \<equiv> 21"
abbreviation invalid_argument :: errc where "invalid_argument \<equiv> 22"
abbreviation read_only_file_system :: errc where "read_only_file_system \<equiv> 30"
abbreviation broken_pipe :: errc where "broken_pipe \<equiv> 32"
abbreviation filename_too_long :: errc where "filename_too_long \<equiv> 36"
abbreviation function_not_supported :: errc where "function_not_supported \<equiv> 38"
abbreviation directory_not_empty :: errc where "directory_not_empty \<equiv> 39"
abbreviation too_many_symbolic_link_levels :: errc where "too_many_symbolic_link_levels \<equiv> 40"
abbreviation bad_message :: errc where "bad_message \<equiv> 74"
abbreviation operation_not_supported :: errc where "operation_not_supported \<equiv> 95"
abbreviation already_connected :: errc where "already_connected \<equiv> 106"
abbreviation not_connected :: errc where "not_connected \<equiv> 107"
abbreviation timed_out :: errc where "timed_out \<equiv> 110"
abbreviation operation_in_progress :: errc where "operation_in_progress \<equiv> 115"
abbreviation operation_canceled :: errc where "operation_canceled \<equiv> 125"

text \<open>
  The outcome of a fallible operation: \<open>Inr v\<close> is the value, \<open>Inl (Errc e)\<close> is
  \<^verbatim>\<open>Unexpect{e}\<close>, and \<open>Inl UB\<close> marks an execution that C++ leaves undefined (a null or
  dangling dereference, an out-of-range span) or that a failing \<^verbatim>\<open>assert\<close> or an uncaught
  exception ends. \<open>Inl Hang\<close> is a loop that has used up the fuel it was given.
\<close>

datatype fault = Errc errc | UB | Hang

type_synonym 'a expect = "fault + 'a"

abbreviation Unexpect :: "errc \<Rightarrow> 'a expect" where
  "Unexpect e \<equiv> Inl (Errc e)"

text \<open>\<^verbatim>\<open>ok_or\<close> of aliases.hpp.\<close>

definition ok_or :: "'a option \<Rightarrow> errc \<Rightarrow> 'a expect" where
  "ok_or opt err = (case opt of Some v \<Rightarrow> Inr v | None \<Rightarrow> Unexpect err)"

text \<open>\<^verbatim>\<open>std::expected::and_then\<close> and \<^verbatim>\<open>transform\<close>.\<close>

definition and_then :: "'a expect \<Rightarrow> ('a \<Rightarrow> 'b expect) \<Rightarrow> 'b expect" where
  "and_then r f = (case r of Inl e \<Rightarrow> Inl e | Inr v \<Rightarrow> f v)"

definition transform :: "'a expect \<Rightarrow> ('a \<Rightarrow> 'b) \<Rightarrow> 'b expect" where
  "transform r f = (case r of Inl e \<Rightarrow> Inl e | Inr v \<Rightarrow> Inr (f v))"

definition is_ok :: "'a expect \<Rightarrow> bool" where
  "is_ok r = (case r of Inl _ \<Rightarrow> False | Inr _ \<Rightarrow> True)"

definition no_ub :: "'a expect \<Rightarrow> bool" where
  "no_ub r = (case r of Inl UB \<Rightarrow> False | _ \<Rightarrow> True)"

lemma and_then_simps [simp]:
  "and_then (Inr v) f = f v"
  "and_then (Inl e) f = Inl e"
  by (simp_all add: and_then_def)

lemma transform_simps [simp]:
  "transform (Inr v) f = Inr (f v)"
  "transform (Inl e) f = Inl e"
  by (simp_all add: transform_def)

lemma ok_or_simps [simp]:
  "ok_or (Some v) e = Inr v"
  "ok_or None e = Unexpect e"
  by (simp_all add: ok_or_def)

lemma no_ub_simps [simp]:
  "no_ub (Inr v)" "no_ub (Unexpect e)" "\<not> no_ub (Inl UB)" "no_ub (Inl Hang)"
  by (simp_all add: no_ub_def)

lemma is_ok_simps [simp]:
  "is_ok (Inr v)" "\<not> is_ok (Inl e)"
  by (simp_all add: is_ok_def)

lemma transform_Inr_iff: "transform r f = Inr y \<longleftrightarrow> (\<exists>v. r = Inr v \<and> y = f v)"
  by (cases r) auto

lemma and_then_Inr_iff: "and_then r f = Inr y \<longleftrightarrow> (\<exists>v. r = Inr v \<and> f v = Inr y)"
  by (cases r) auto

section \<open>Generic lemmas\<close>

named_theorems inv_intros \<open>preservation rules for component invariants\<close>
named_theorems wire_simps \<open>round trips of the wire primitives\<close>

text \<open>A slice of a list: \<^verbatim>\<open>str.substr(offset, size)\<close> with \<open>offset \<le> length\<close>.\<close>

definition sublist :: "nat \<Rightarrow> nat \<Rightarrow> 'a list \<Rightarrow> 'a list" where
  "sublist off n xs = take n (drop off xs)"

lemma length_sublist [simp]: "length (sublist off n xs) = min n (length xs - off)"
  by (simp add: sublist_def min.commute)

lemma sublist_append_left: "off + n \<le> length xs \<Longrightarrow> sublist off n (xs @ ys) = sublist off n xs"
  by (simp add: sublist_def)

lemma sublist_append_right: "sublist (length xs) n (xs @ ys) = take n ys"
  by (simp add: sublist_def)

lemma sublist_all: "length xs \<le> n \<Longrightarrow> sublist 0 n xs = xs"
  by (simp add: sublist_def)

lemma nth_sublist: "i < n \<Longrightarrow> off + i < length xs \<Longrightarrow> sublist off n xs ! i = xs ! (off + i)"
  by (simp add: sublist_def)

lemma sublist_take: "off + n \<le> m \<Longrightarrow> sublist off n (take m xs) = sublist off n xs"
  by (simp add: sublist_def drop_take min_def)

lemma sublist_join:
  assumes "a \<le> b" "b \<le> c"
  shows "sublist a (c - a) xs = sublist a (b - a) xs @ sublist b (c - b) xs"
proof -
  have "sublist a (c - a) xs = take ((b - a) + (c - b)) (drop a xs)"
    using assms by (simp add: sublist_def)
  also have "\<dots> = take (b - a) (drop a xs) @ take (c - b) (drop (b - a) (drop a xs))"
    by (rule take_add)
  also have "drop (b - a) (drop a xs) = drop b xs" using assms(1) by simp
  finally show ?thesis by (simp add: sublist_def)
qed

lemma drop_split:
  assumes "a \<le> b"
  shows "drop a xs = sublist a (b - a) xs @ drop b xs"
proof -
  have "drop a xs = take (b - a) (drop a xs) @ drop (b - a) (drop a xs)"
    by (simp only: append_take_drop_id)
  also have "drop (b - a) (drop a xs) = drop b xs" using assms by simp
  finally show ?thesis by (simp only: sublist_def)
qed

section \<open>Step relations\<close>

text \<open>A step relation with an invariant; interpreted on the step relations of the components.\<close>

locale step_invariant =
  fixes step :: "'s \<Rightarrow> 's \<Rightarrow> bool" and inv :: "'s \<Rightarrow> bool"
  assumes step_inv: "step s s' \<Longrightarrow> inv s \<Longrightarrow> inv s'"
begin

lemma reach_inv: "step\<^sup>*\<^sup>* s s' \<Longrightarrow> inv s \<Longrightarrow> inv s'"
  by (induction rule: rtranclp_induct) (auto intro: step_inv)

end

end
