(* ===== verification/Split.thy ===== *)
theory Split
  imports Prelude
begin

text \<open>
  The string utilities of \<^verbatim>\<open>madbfs-common/util/slice.hpp\<close> and \<^verbatim>\<open>util/split.hpp\<close>: index
  slices, the delimiter variant, the incremental \<^verbatim>\<open>StringSplitter\<close> with its cursor, the
  functions built on it (\<^verbatim>\<open>split\<close>, \<^verbatim>\<open>split_n\<close>) and the strip functions. The reference
  definition is \<open>tokens\<close>: the maximal non-empty delimiter-free runs of a string.
\<close>

section \<open>Slices\<close>

record slice =
  sl_offset :: nat
  sl_size :: nat

definition mk_slice :: "nat \<Rightarrow> nat \<Rightarrow> slice" where
  "mk_slice off n = \<lparr>sl_offset = off, sl_size = n\<rparr>"

definition to_str :: "slice \<Rightarrow> str \<Rightarrow> str" where
  "to_str sl s = sublist (sl_offset sl) (sl_size sl) s"

text \<open>
  \<^verbatim>\<open>keep_slice\<close>: first erase from \<open>offset + size\<close> on, then the first \<open>offset\<close>
  characters. The assertion of the source is the first test.
\<close>

definition keep_slice :: "slice \<Rightarrow> str \<Rightarrow> str expect" where
  "keep_slice sl s =
     (if sl_offset sl < length s \<and> sl_offset sl + sl_size sl \<le> length s
      then Inr (drop (sl_offset sl) (take (sl_offset sl + sl_size sl) s))
      else Inl UB)"

lemma mk_slice_sel [simp]:
  "sl_offset (mk_slice a b) = a" "sl_size (mk_slice a b) = b"
  by (simp_all add: mk_slice_def)

section \<open>Character scans\<close>

text \<open>\<^verbatim>\<open>while (i < str.size() and p(str[i])) ++i\<close>\<close>

function skip_while :: "(char \<Rightarrow> bool) \<Rightarrow> str \<Rightarrow> nat \<Rightarrow> nat" where
  "skip_while p s i = (if i < length s \<and> p (s ! i) then skip_while p s (Suc i) else i)"
  by pat_completeness auto
termination
  by (relation "measure (\<lambda>(p, s, i). length s - i)") auto

declare skip_while.simps [simp del]

text \<open>\<^verbatim>\<open>find\<close>/\<^verbatim>\<open>find_if\<close> from a position: the first index whose character satisfies \<open>p\<close>.\<close>

definition find_from :: "(char \<Rightarrow> bool) \<Rightarrow> str \<Rightarrow> nat \<Rightarrow> nat option" where
  "find_from p s i =
     (let j = skip_while (\<lambda>c. \<not> p c) s i in if j < length s then Some j else None)"

lemma skip_while_eq:
  "skip_while p s i = i + length (takeWhile p (drop i s))"
proof (induction p s i rule: skip_while.induct)
  case (1 p s i)
  show ?case
  proof (cases "i < length s \<and> p (s ! i)")
    case True
    then have d: "drop i s = s ! i # drop (Suc i) s"
      by (simp add: Cons_nth_drop_Suc)
    show ?thesis
      using 1 True by (simp add: d skip_while.simps [of p s i])
  next
    case False
    then have "takeWhile p (drop i s) = []"
      by (cases "drop i s") (auto simp: takeWhile_eq_Nil_iff dest: nth_via_drop)
    with False show ?thesis by (auto simp: skip_while.simps [of p s i])
  qed
qed

lemma skip_while_ge: "i \<le> skip_while p s i"
  by (simp add: skip_while_eq)

lemma skip_while_le: "i \<le> length s \<Longrightarrow> skip_while p s i \<le> length s"
proof -
  assume "i \<le> length s"
  moreover have "length (takeWhile p (drop i s)) \<le> length s - i"
    using length_takeWhile_le [of p "drop i s"] by simp
  ultimately show ?thesis by (simp add: skip_while_eq)
qed

lemma skip_while_stop: "skip_while p s i < length s \<Longrightarrow> \<not> p (s ! skip_while p s i)"
  by (induction p s i rule: skip_while.induct) (metis skip_while.simps)

lemma drop_skip_while: "drop (skip_while p s i) s = dropWhile p (drop i s)"
proof -
  have "drop (skip_while p s i) s = drop (length (takeWhile p (drop i s))) (drop i s)"
    by (simp add: skip_while_eq add.commute)
  also have "\<dots> = dropWhile p (drop i s)"
    by (metis append_eq_conv_conj takeWhile_dropWhile_id)
  finally show ?thesis .
qed

lemma find_from_None:
  "i \<le> length s \<Longrightarrow> find_from p s i = None \<longleftrightarrow> (\<forall>c\<in>set (drop i s). \<not> p c)"
proof -
  assume "i \<le> length s"
  have "find_from p s i = None \<longleftrightarrow> drop (skip_while (\<lambda>c. \<not> p c) s i) s = []"
    by (simp add: find_from_def Let_def)
  also have "\<dots> \<longleftrightarrow> (\<forall>c\<in>set (drop i s). \<not> p c)"
    by (simp add: drop_skip_while dropWhile_eq_Nil_conv)
  finally show ?thesis .
qed

lemma find_from_SomeD:
  assumes "find_from p s i = Some j"
  shows "i \<le> j" "j < length s" "p (s ! j)"
    and "sublist i (j - i) s = takeWhile (\<lambda>c. \<not> p c) (drop i s)"
    and "drop j s = dropWhile (\<lambda>c. \<not> p c) (drop i s)"
proof -
  have j: "j = skip_while (\<lambda>c. \<not> p c) s i" and l: "j < length s"
    using assms by (auto simp: find_from_def Let_def split: if_splits)
  show "i \<le> j" using j skip_while_ge by simp
  show "j < length s" by (rule l)
  show "p (s ! j)" using skip_while_stop [of "\<lambda>c. \<not> p c" s i] l j by simp
  have "sublist i (j - i) s = take (length (takeWhile (\<lambda>c. \<not> p c) (drop i s))) (drop i s)"
    by (simp add: j skip_while_eq sublist_def)
  also have "\<dots> = takeWhile (\<lambda>c. \<not> p c) (drop i s)"
    by (metis append_eq_conv_conj takeWhile_dropWhile_id)
  finally show "sublist i (j - i) s = takeWhile (\<lambda>c. \<not> p c) (drop i s)" .
  show "drop j s = dropWhile (\<lambda>c. \<not> p c) (drop i s)"
    by (simp add: j drop_skip_while)
qed

section \<open>The reference: tokens of a string\<close>

lemma length_dropWhile_less [termination_simp]: "length (dropWhile p xs) < Suc (length xs)"
  by (simp add: length_dropWhile_le le_imp_less_Suc)

fun tokens_at :: "(char \<Rightarrow> bool) \<Rightarrow> str \<Rightarrow> str list" where
  "tokens_at p [] = []"
| "tokens_at p (c # cs) =
     (if p c then tokens_at p cs
      else (c # takeWhile (\<lambda>x. \<not> p x) cs) # tokens_at p (dropWhile (\<lambda>x. \<not> p x) cs))"

abbreviation tokens :: "(char \<Rightarrow> bool) \<Rightarrow> str \<Rightarrow> str list" where
  "tokens \<equiv> tokens_at"

lemma tokens_dropWhile: "tokens p (dropWhile p s) = tokens p s"
  by (induction s) auto

lemma tokens_nonempty: "t \<in> set (tokens p s) \<Longrightarrow> t \<noteq> []"
  by (induction p s rule: tokens_at.induct) (auto split: if_splits)

lemma tokens_no_delim: "t \<in> set (tokens p s) \<Longrightarrow> c \<in> set t \<Longrightarrow> \<not> p c"
  by (induction p s rule: tokens_at.induct) (auto split: if_splits dest: set_takeWhileD)

lemma tokens_concat: "concat (tokens p s) = filter (\<lambda>c. \<not> p c) s"
proof (induction p s rule: tokens_at.induct)
  case (2 p c cs)
  have "filter (\<lambda>c. \<not> p c) cs =
      takeWhile (\<lambda>x. \<not> p x) cs @ filter (\<lambda>c. \<not> p c) (dropWhile (\<lambda>x. \<not> p x) cs)"
    by (metis (mono_tags, lifting) filter_True filter_append set_takeWhileD takeWhile_dropWhile_id)
  with 2 show ?case by auto
qed simp

lemma takeWhile_stop_append: "q c \<Longrightarrow> takeWhile (\<lambda>x. \<not> q x) (xs @ c # ys) = takeWhile (\<lambda>x. \<not> q x) xs"
  by (induction xs) auto

lemma dropWhile_stop_append:
  "q c \<Longrightarrow> dropWhile (\<lambda>x. \<not> q x) (xs @ c # ys) = dropWhile (\<lambda>x. \<not> q x) xs @ c # ys"
  by (induction xs) auto

lemma tokens_append_delim: "p c \<Longrightarrow> tokens p (xs @ c # ys) = tokens p xs @ tokens p ys"
proof (induction p xs rule: tokens_at.induct)
  case (2 p d ds)
  show ?case
  proof (cases "p d")
    case True
    with 2 show ?thesis by simp
  next
    case False
    with 2 show ?thesis by (simp add: takeWhile_stop_append dropWhile_stop_append)
  qed
qed simp

lemma tokens_single: "s \<noteq> [] \<Longrightarrow> \<forall>c\<in>set s. \<not> p c \<Longrightarrow> tokens p s = [s]"
proof (cases s)
  case (Cons c cs)
  assume "\<forall>c\<in>set s. \<not> p c"
  with Cons have tw: "takeWhile (\<lambda>x. \<not> p x) cs = cs"
    and dw: "dropWhile (\<lambda>x. \<not> p x) cs = []" and c: "\<not> p c"
    by (simp_all add: takeWhile_eq_all_conv dropWhile_eq_Nil_conv)
  show ?thesis by (simp only: Cons tokens_at.simps tw dw c if_False)
qed simp

lemma tokens_all_delim: "\<forall>c\<in>set s. p c \<Longrightarrow> tokens p s = []"
  by (induction s) auto

lemma tokens_delims_append: "\<forall>c\<in>set xs. p c \<Longrightarrow> tokens p (xs @ ys) = tokens p ys"
  by (induction xs) auto

lemma tokens_append_delims: "\<forall>c\<in>set ys. p c \<Longrightarrow> tokens p (xs @ ys) = tokens p xs"
proof (cases ys)
  case (Cons y zs)
  moreover assume "\<forall>c\<in>set ys. p c"
  ultimately show ?thesis by (simp add: tokens_append_delim tokens_all_delim)
qed simp

section \<open>Delimiters and the splitter\<close>

datatype split_delim = DelimChar char | DelimStr str

fun is_delim :: "split_delim \<Rightarrow> char \<Rightarrow> bool" where
  "is_delim (DelimChar d) ch = (ch = d)"
| "is_delim (DelimStr ds) ch = (ch \<in> set ds)"

record splitter =
  sp_str :: str
  sp_idx :: nat
  sp_delim :: split_delim

definition mk_splitter :: "str \<Rightarrow> split_delim \<Rightarrow> splitter" where
  "mk_splitter s d = \<lparr>sp_str = s, sp_idx = 0, sp_delim = d\<rparr>"

definition is_end :: "splitter \<Rightarrow> bool" where
  "is_end sp = (sp_idx sp \<ge> length (sp_str sp))"

definition splitter_next :: "splitter \<Rightarrow> str option \<times> splitter" where
  "splitter_next sp =
     (if is_end sp then (None, sp)
      else let s = sp_str sp; d = is_delim (sp_delim sp);
               i = skip_while d s (sp_idx sp)
           in case find_from d s i of
                Some pos \<Rightarrow> (Some (sublist i (pos - i) s), sp\<lparr>sp_idx := pos + 1\<rparr>)
              | None \<Rightarrow>
                  if i \<ge> length s then (None, sp\<lparr>sp_idx := i\<rparr>)
                  else (Some (drop i s), sp\<lparr>sp_idx := length s\<rparr>))"

lemma splitter_next_progress:
  assumes "splitter_next sp = (Some t, sp')"
  shows "sp_idx sp < sp_idx sp' \<and> sp_idx sp < length (sp_str sp) \<and> sp_str sp' = sp_str sp \<and>
    sp_delim sp' = sp_delim sp"
proof -
  let ?i = "skip_while (is_delim (sp_delim sp)) (sp_str sp) (sp_idx sp)"
  have ge: "sp_idx sp \<le> ?i"
    by (rule skip_while_ge)
  have lt: "sp_idx sp < length (sp_str sp)"
    using assms by (auto simp: splitter_next_def is_end_def split: if_splits)
  show ?thesis
  proof (cases "find_from (is_delim (sp_delim sp)) (sp_str sp) ?i")
    case None
    with assms lt show ?thesis
      by (auto simp: splitter_next_def is_end_def Let_def split: if_splits)
  next
    case (Some pos)
    with assms lt ge find_from_SomeD(1) [OF Some] show ?thesis
      by (auto simp: splitter_next_def is_end_def Let_def)
  qed
qed

text \<open>
  \<^verbatim>\<open>while_next\<close>: run the callback on every string the splitter still produces; the
  callback's captured state is threaded, the count of produced strings is returned.
\<close>

function while_next :: "(str \<Rightarrow> 's \<Rightarrow> 's) \<Rightarrow> splitter \<Rightarrow> 's \<Rightarrow> nat \<Rightarrow> 's \<times> nat" where
  "while_next fn sp st n =
     (case splitter_next sp of
        (None, _) \<Rightarrow> (st, n)
      | (Some t, sp') \<Rightarrow> while_next fn sp' (fn t st) (Suc n))"
  by pat_completeness auto
termination
proof (relation "measure (\<lambda>(fn, sp, st, n). length (sp_str sp) - sp_idx sp)", goal_cases)
  case (2 fn sp st n x sp' t)
  from 2(1) [symmetric] 2(2) have "splitter_next sp = (Some t, sp')" by simp
  from splitter_next_progress [OF this] show ?case by auto
qed auto

declare while_next.simps [simp del]

definition split :: "str \<Rightarrow> split_delim \<Rightarrow> str list" where
  "split s d = fst (while_next (\<lambda>t v. v @ [t]) (mk_splitter s d) [] 0)"

text \<open>
  \<^verbatim>\<open>split_n<N>\<close>: at most \<open>N\<close> strings, \<^verbatim>\<open>nullopt\<close> when there are fewer, and the remainder
  with its leading delimiters skipped.
\<close>

fun split_n_loop :: "nat \<Rightarrow> splitter \<Rightarrow> str list \<Rightarrow> (str list \<times> splitter) option" where
  "split_n_loop 0 sp res = Some (res, sp)"
| "split_n_loop (Suc n) sp res =
     (case splitter_next sp of
        (Some t, sp') \<Rightarrow> split_n_loop n sp' (res @ [t])
      | (None, _) \<Rightarrow> None)"

definition split_n :: "nat \<Rightarrow> str \<Rightarrow> split_delim \<Rightarrow> (str list \<times> str) option" where
  "split_n n s d =
     (case split_n_loop n (mk_splitter s d) [] of
        None \<Rightarrow> None
      | Some (res, sp) \<Rightarrow>
          Some (res, drop (skip_while (is_delim d) s (sp_idx sp)) s))"

function rstrip :: "str \<Rightarrow> split_delim \<Rightarrow> str" where
  "rstrip s d = (if s \<noteq> [] \<and> is_delim d (last s) then rstrip (butlast s) d else s)"
  by pat_completeness auto
termination
  by (relation "measure (\<lambda>(s, d). length s)") auto

declare rstrip.simps [simp del]

fun lstrip :: "str \<Rightarrow> split_delim \<Rightarrow> str" where
  "lstrip [] d = []"
| "lstrip (c # cs) d = (if is_delim d c then lstrip cs d else c # cs)"

definition strip :: "str \<Rightarrow> split_delim \<Rightarrow> str" where
  "strip s d = rstrip (lstrip s d) d"

text \<open>The default delimiters of the strip functions: blank, tabulator, newline.\<close>

definition whitespace :: split_delim where
  "whitespace = DelimStr [CHR '' '', CHR 0x09, CHR 0x0A]"

section \<open>Correctness of the splitter\<close>

definition remaining :: "splitter \<Rightarrow> str list" where
  "remaining sp = tokens (is_delim (sp_delim sp)) (drop (sp_idx sp) (sp_str sp))"

lemma splitter_next_None: "splitter_next sp = (None, sp') \<Longrightarrow> remaining sp = []"
proof -
  let ?p = "is_delim (sp_delim sp)" and ?s = "sp_str sp" and ?i = "sp_idx sp"
  assume a: "splitter_next sp = (None, sp')"
  have "drop (skip_while ?p ?s ?i) ?s = []"
    using a by (auto simp: splitter_next_def is_end_def Let_def split: if_splits option.splits
        intro: order_trans [OF _ skip_while_ge])
  then have "dropWhile ?p (drop ?i ?s) = []"
    by (simp only: drop_skip_while)
  then have "tokens ?p (dropWhile ?p (drop ?i ?s)) = []" by (simp only: tokens_at.simps)
  then show ?thesis by (simp only: remaining_def tokens_dropWhile)
qed

lemma splitter_next_Some:
  assumes "splitter_next sp = (Some t, sp')"
  shows "remaining sp = t # remaining sp'"
proof -
  define p where "p = is_delim (sp_delim sp)"
  define s where "s = sp_str sp"
  define i where "i = skip_while p s (sp_idx sp)"
  have lt: "\<not> is_end sp" using assms by (auto simp: splitter_next_def)
  have rem: "remaining sp = tokens p (drop i s)"
    unfolding remaining_def i_def p_def s_def drop_skip_while tokens_dropWhile ..
  have ile: "i \<le> length s"
    unfolding i_def using lt by (intro skip_while_le) (simp add: s_def is_end_def)
  consider (found) pos where "find_from p s i = Some pos" | (rest) "find_from p s i = None"
    by (cases "find_from p s i") auto
  then show ?thesis
  proof cases
    case found
    note f = find_from_SomeD [OF found]
    have t: "t = sublist i (pos - i) s" and sp': "sp' = sp\<lparr>sp_idx := pos + 1\<rparr>"
      using assms lt found by (auto simp: splitter_next_def Let_def p_def s_def i_def)
    have np: "\<not> p (s ! i)"
      using skip_while_stop [of p s "sp_idx sp"] f(1,2) by (auto simp: i_def)
    have i: "i < length s" using f(1,2) by simp
    then have d: "drop i s = s ! i # drop (Suc i) s" by (simp add: Cons_nth_drop_Suc)
    have ne: "pos \<noteq> i" using f(3) np by auto
    have *: "dropWhile (\<lambda>c. \<not> p c) (drop i s) = s ! pos # drop (Suc pos) s"
      using f(2,5) by (simp add: Cons_nth_drop_Suc)
    have "tokens p (drop i s) = takeWhile (\<lambda>c. \<not> p c) (drop i s) #
        tokens p (dropWhile (\<lambda>c. \<not> p c) (drop i s))"
      using np by (simp add: d)
    also have "\<dots> = t # tokens p (drop (Suc pos) s)"
      using f(3,4) by (simp add: * t)
    finally have "tokens p (drop i s) = t # remaining sp'"
      by (simp add: remaining_def sp' p_def s_def)
    then show ?thesis by (simp only: rem)
  next
    case rest
    have t: "t = drop i s" and i: "i < length s" and sp': "sp' = sp\<lparr>sp_idx := length s\<rparr>"
      using assms lt rest by (auto simp: splitter_next_def Let_def p_def s_def i_def split: if_splits)
    have "tokens p (drop i s) = [drop i s]"
      using rest find_from_None [OF ile, of p] i by (intro tokens_single) auto
    moreover have "remaining sp' = []" by (simp add: sp' remaining_def s_def)
    ultimately show ?thesis by (simp only: rem t)
  qed
qed

lemma while_next_eq:
  "while_next fn sp st n = (fold fn (remaining sp) st, n + length (remaining sp))"
proof (induction fn sp st n rule: while_next.induct)
  case (1 fn sp st n)
  obtain r sp' where nx: "splitter_next sp = (r, sp')" by fastforce
  show ?case
  proof (cases r)
    case None
    with nx splitter_next_None [of sp sp'] show ?thesis
      by (simp add: while_next.simps [of fn sp])
  next
    case (Some t)
    with nx 1 [of "Some t" sp' t] splitter_next_Some [of sp t sp'] show ?thesis
      by (simp add: while_next.simps [of fn sp])
  qed
qed

lemma remaining_mk [simp]: "remaining (mk_splitter s d) = tokens (is_delim d) s"
  by (simp add: remaining_def mk_splitter_def)

lemma fold_snoc: "fold (\<lambda>t v. v @ [t]) ts v = v @ ts"
  by (induction ts arbitrary: v) auto

lemma split_eq_tokens: "split s d = tokens (is_delim d) s"
  by (simp add: split_def while_next_eq fold_snoc)

lemma lstrip_eq: "lstrip s d = dropWhile (is_delim d) s"
  by (induction s d rule: lstrip.induct) auto

lemma rstrip_eq: "rstrip s d = rev (dropWhile (is_delim d) (rev s))"
proof (induction s rule: rev_induct)
  case Nil
  show ?case by (simp add: rstrip.simps)
next
  case (snoc c cs)
  then show ?case by (simp add: rstrip.simps [of "cs @ [c]"])
qed

lemma split_n_loop_None: "split_n_loop n sp res = None \<longleftrightarrow> length (remaining sp) < n"
proof (induction n sp res rule: split_n_loop.induct)
  case (2 n sp res)
  obtain r sp' where nx: "splitter_next sp = (r, sp')" by fastforce
  with 2 splitter_next_None [of sp sp'] splitter_next_Some [of sp _ sp'] show ?case
    by (cases r) auto
qed simp

lemma split_n_loop_Some:
  "split_n_loop n sp res = Some (out, sp') \<Longrightarrow>
     out = res @ take n (remaining sp) \<and> remaining sp' = drop n (remaining sp) \<and>
     sp_str sp' = sp_str sp \<and> sp_delim sp' = sp_delim sp"
proof (induction n sp res rule: split_n_loop.induct)
  case (2 n sp res)
  then obtain t sp1 where nx: "splitter_next sp = (Some t, sp1)"
    and lp: "split_n_loop n sp1 (res @ [t]) = Some (out, sp')"
    by (auto split: prod.splits option.splits)
  from 2(1) [OF nx [symmetric] refl lp] splitter_next_Some [OF nx] splitter_next_progress [OF nx]
  show ?case by simp
qed simp

lemma split_n_tokens:
  "(split_n n s d = None \<longleftrightarrow> length (tokens (is_delim d) s) < n) \<and>
   (\<forall>res rest. split_n n s d = Some (res, rest) \<longrightarrow>
      res = take n (tokens (is_delim d) s) \<and> tokens (is_delim d) rest = drop n (tokens (is_delim d) s))"
proof (intro conjI allI impI)
  show "split_n n s d = None \<longleftrightarrow> length (tokens (is_delim d) s) < n"
    using split_n_loop_None [of n "mk_splitter s d" "[]"]
    by (auto simp: split_n_def split: option.splits)
next
  fix res rest assume "split_n n s d = Some (res, rest)"
  then obtain sp where lp: "split_n_loop n (mk_splitter s d) [] = Some (res, sp)"
    and rest: "rest = drop (skip_while (is_delim d) s (sp_idx sp)) s"
    by (auto simp: split_n_def split: option.splits)
  note sp = split_n_loop_Some [OF lp]
  show "res = take n (tokens (is_delim d) s)" using sp by simp
  have "tokens (is_delim d) rest = remaining sp"
    unfolding rest drop_skip_while tokens_dropWhile
    using sp by (simp add: remaining_def mk_splitter_def)
  with sp show "tokens (is_delim d) rest = drop n (tokens (is_delim d) s)" by simp
qed

lemma split_n_rest_hd: "split_n n s d = Some (res, rest) \<Longrightarrow> rest \<noteq> [] \<Longrightarrow> \<not> is_delim d (hd rest)"
  using hd_dropWhile [of "is_delim d"]
  by (fastforce simp: split_n_def drop_skip_while split: option.splits)

section \<open>Properties\<close>

text \<open>C40: \<^verbatim>\<open>split\<close> returns exactly the maximal non-empty delimiter-free runs of the string, in
  order; none is empty or contains a delimiter, and no other character is lost.\<close>

theorem split_correct:
  "split s d = tokens (is_delim d) s \<and> [] \<notin> set (split s d) \<and>
   concat (split s d) = filter (\<lambda>c. \<not> is_delim d c) s"
  using tokens_nonempty [of "[]" "is_delim d" s] by (auto simp: split_eq_tokens tokens_concat)

text \<open>\<^verbatim>\<open>split_n\<close> fails exactly when there are fewer than \<open>n\<close> runs; otherwise it returns the
  first \<open>n\<close> and a remainder that starts with no delimiter and whose runs are the others.\<close>

theorem split_n_correct:
  "(split_n n s d = None \<longleftrightarrow> length (split s d) < n) \<and>
   (\<forall>res rest. split_n n s d = Some (res, rest) \<longrightarrow>
      res = take n (split s d) \<and> split rest d = drop n (split s d) \<and>
      (rest \<noteq> [] \<longrightarrow> \<not> is_delim d (hd rest)))"
  using split_n_tokens [of n s d] split_n_rest_hd [of n s d] by (auto simp: split_eq_tokens)

theorem split_n_correct_witness:
  "split_n 2 ''a  b c'' (DelimChar CHR '' '') = Some ([''a'', ''b''], ''c'') \<and>
   split ''c'' (DelimChar CHR '' '') = [''c'']"
proof -
  have a: "split_n 2 ''a  b c'' (DelimChar CHR '' '') = Some ([''a'', ''b''], ''c'')"
    by (simp add: split_n_def mk_splitter_def splitter_next_def is_end_def find_from_def skip_while.simps
        sublist_def numeral_2_eq_2)
  moreover have "split ''a  b c'' (DelimChar CHR '' '') = [''a'', ''b'', ''c'']"
    by (simp add: split_eq_tokens)
  ultimately show ?thesis
    using split_n_correct [of 2 "''a  b c''" "DelimChar CHR '' ''"] by simp
qed

text \<open>\<^verbatim>\<open>strip\<close> removes delimiters from both ends and nothing else: the string is the result
  between two runs of delimiters, and the result neither starts nor ends with one.\<close>

theorem strip_correct:
  "\<exists>pre post. s = pre @ strip s d @ post \<and> list_all (is_delim d) (pre @ post) \<and>
     (strip s d \<noteq> [] \<longrightarrow> \<not> is_delim d (hd (strip s d)) \<and> \<not> is_delim d (last (strip s d)))"
proof -
  let ?l = "lstrip s d"
  have l: "s = takeWhile (is_delim d) s @ ?l" by (simp add: lstrip_eq)
  have r: "?l = strip s d @ rev (takeWhile (is_delim d) (rev ?l))"
    unfolding strip_def rstrip_eq rev_append [symmetric] by simp
  have "s = takeWhile (is_delim d) s @ strip s d @ rev (takeWhile (is_delim d) (rev ?l))"
    using l r by simp
  moreover have "list_all (is_delim d) (takeWhile (is_delim d) s @ rev (takeWhile (is_delim d) (rev ?l)))"
    by (auto simp: list_all_iff dest: set_takeWhileD)
  moreover have "\<not> is_delim d (last (strip s d))" if "strip s d \<noteq> []"
    using that hd_dropWhile [of "is_delim d" "rev ?l"] by (simp add: strip_def rstrip_eq last_rev)
  moreover have "\<not> is_delim d (hd (strip s d))" if "strip s d \<noteq> []"
  proof -
    have "hd ?l = hd (strip s d)" "?l \<noteq> []" using that by (subst r; simp)+
    then show ?thesis using hd_dropWhile [of "is_delim d" s] by (simp add: lstrip_eq)
  qed
  ultimately show ?thesis by blast
qed

theorem strip_correct_witness:
  "strip '' a b '' whitespace = ''a b'' \<and>
   (\<exists>pre post. '' a b '' = pre @ ''a b'' @ post \<and> list_all (is_delim whitespace) (pre @ post))"
proof -
  have "strip '' a b '' whitespace = ''a b''"
    by (simp add: strip_def whitespace_def rstrip.simps)
  with strip_correct [of "'' a b ''" whitespace] show ?thesis by metis
qed

end
