(* ===== verification/Path.thy ===== *)
theory Path
  imports Split
begin

text \<open>
  The absolute device paths of \<^verbatim>\<open>madbfs/path.hpp\<close> and \<^verbatim>\<open>path.cpp\<close>: a string together with
  the slices of its components. \<^verbatim>\<open>Path\<close> (a view) and \<^verbatim>\<open>PathBuf\<close> (owning) hold the same two
  fields and are the same record here; where their methods differ (\<^verbatim>\<open>extend_copy\<close>) both
  are modelled. The invariant \<open>path_ok\<close> says that the slices are exactly the non-empty
  runs between slashes, and every operation keeps it.
\<close>

section \<open>Data\<close>

abbreviation slash :: char where "slash \<equiv> CHR ''/''"

abbreviation is_slash :: "char \<Rightarrow> bool" where "is_slash \<equiv> (\<lambda>c. c = slash)"

record path =
  m_path :: str
  m_components :: "slice list"

definition mk_path :: "str \<Rightarrow> slice list \<Rightarrow> path" where
  "mk_path s cs = \<lparr>m_path = s, m_components = cs\<rparr>"

lemma mk_path_sel [simp]: "m_path (mk_path s cs) = s" "m_components (mk_path s cs) = cs"
  by (simp_all add: mk_path_def)

text \<open>The default constructed path points to the root.\<close>

definition root_path :: path where
  "root_path = mk_path ''/'' []"

section \<open>Splitting a path string\<close>

function strip_suffix :: "str \<Rightarrow> str" where
  "strip_suffix p = (if length p > 1 \<and> last p = slash then strip_suffix (butlast p) else p)"
  by pat_completeness auto
termination
  by (relation "measure length") auto

declare strip_suffix.simps [simp del]

function strip_prefix :: "str \<Rightarrow> nat \<Rightarrow> str \<times> nat" where
  "strip_prefix p off =
     (if length p > 2 \<and> p ! 0 = slash \<and> p ! 1 = slash then strip_prefix (tl p) (Suc off)
      else (p, off))"
  by pat_completeness auto
termination
  by (relation "measure (\<lambda>(p, off). length p)") auto

declare strip_prefix.simps [simp del]

text \<open>The component loop of \<^verbatim>\<open>split_components\<close>; \<open>buf\<close> is \<^verbatim>\<open>comps_buf\<close>.\<close>

function comps_loop :: "str \<Rightarrow> nat \<Rightarrow> slice list \<Rightarrow> slice list" where
  "comps_loop p index buf =
     (if index < length p then
        let current = skip_while is_slash p index in
        case find_from is_slash p current of
          None \<Rightarrow> buf @ [mk_slice current (length p - current)]
        | Some nxt \<Rightarrow> comps_loop p nxt (buf @ [mk_slice current (nxt - current)])
      else buf)"
  by pat_completeness auto
termination
proof (relation "measure (\<lambda>(p, index, buf). length p - index)", goal_cases)
  case (2 p index buf current nxt)
  note f = find_from_SomeD [OF 2(3)]
  have "index \<le> current" using 2(2) skip_while_ge by simp
  moreover have "nxt \<noteq> current"
    using f(2,3) skip_while_stop [of is_slash p index] 2(2) by auto
  ultimately show ?case using f(1,2) by auto
qed simp

declare comps_loop.simps [simp del]

text \<open>
  \<^verbatim>\<open>split_components\<close> returns the slice of the cleaned path within the input and fills
  \<^verbatim>\<open>comps_buf\<close> (cleared first, on success only).
\<close>

definition split_components :: "str \<Rightarrow> (slice \<times> slice list) option" where
  "split_components p =
     (if p = [] \<or> hd p \<noteq> slash then None
      else let (p', offset_prefix) = strip_prefix (strip_suffix p) 0
           in if p' = ''/'' then Some (mk_slice 0 0, [])
              else Some (mk_slice offset_prefix (length p'), comps_loop p' 1 []))"

section \<open>Observers\<close>

definition is_root :: "path \<Rightarrow> bool" where
  "is_root p = (m_components p = [])"

definition filename :: "path \<Rightarrow> str" where
  "filename p = (if is_root p then ''/'' else to_str (last (m_components p)) (m_path p))"

definition iter :: "path \<Rightarrow> str list" where
  "iter p = map (\<lambda>sl. to_str sl (m_path p)) (m_components p)"

definition parent :: "path \<Rightarrow> str" where
  "parent p =
     (if is_root p \<or> length (m_components p) = 1 then ''/''
      else let par = m_components p ! (length (m_components p) - 2)
           in take (sl_offset par + sl_size par) (m_path p))"

definition parent_path :: "path \<Rightarrow> path" where
  "parent_path p = (if is_root p then p else mk_path (parent p) (butlast (m_components p)))"

section \<open>Modifiers\<close>

definition bad_name :: "str \<Rightarrow> bool" where
  "bad_name name = (name = [] \<or> slash \<in> set name \<or> name = ''.'' \<or> name = ''..'')"

text \<open>\<^verbatim>\<open>PathBuf::rename\<close>: replace the last component in place.\<close>

definition path_rename :: "path \<Rightarrow> str \<Rightarrow> bool \<times> path" where
  "path_rename p name =
     (if bad_name name then (False, p)
      else if is_root p then (False, p)
      else let back = last (m_components p)
           in (True, mk_path
                 (take (sl_offset back) (m_path p) @ name
                    @ drop (sl_offset back + sl_size back) (m_path p))
                 (butlast (m_components p) @ [mk_slice (sl_offset back) (length name)])))"

definition extend :: "path \<Rightarrow> str \<Rightarrow> bool \<times> path" where
  "extend p name =
     (if bad_name name then (False, p)
      else let s = (if is_root p then m_path p else m_path p @ [slash])
           in (True, mk_path (s @ name) (m_components p @ [mk_slice (length s) (length name)])))"

text \<open>\<^verbatim>\<open>Path::extend_copy\<close>: the result of \<^verbatim>\<open>extend\<close> on the copy is not looked at.\<close>

definition path_extend_copy :: "path \<Rightarrow> str \<Rightarrow> path option" where
  "path_extend_copy p name = (if slash \<in> set name then None else Some (snd (extend p name)))"

text \<open>\<^verbatim>\<open>PathBuf::extend_copy\<close>: \<^verbatim>\<open>nullopt\<close> when the extension fails.\<close>

definition pathbuf_extend_copy :: "path \<Rightarrow> str \<Rightarrow> path option" where
  "pathbuf_extend_copy p name = (let (ok, p') = extend p name in if ok then Some p' else None)"

section \<open>Construction\<close>

definition create :: "str \<Rightarrow> path option" where
  "create s =
     (case split_components s of
        None \<Rightarrow> None
      | Some (sl, comps) \<Rightarrow>
          if comps = [] then Some root_path else Some (mk_path (to_str sl s) comps))"

definition create_with :: "str \<Rightarrow> path option" where
  "create_with s =
     (case split_components s of
        None \<Rightarrow> None
      | Some (sl, comps) \<Rightarrow>
          if comps = [] then Some root_path else Some (mk_path (to_str sl s) comps))"

definition create_buf :: "str \<Rightarrow> path option expect" where
  "create_buf s =
     (case split_components s of
        None \<Rightarrow> Inr None
      | Some (sl, comps) \<Rightarrow>
          if comps = [] then Inr (Some (mk_path ''/'' comps))
          else transform (keep_slice sl s) (\<lambda>s'. Some (mk_path s' comps)))"

text \<open>
  \<^verbatim>\<open>resolve\<close>: the callback on one component (\<open>vec_pop_back\<close> is \<open>butlast\<close>), the
  concatenation of the kept components, and the whole function. The source asserts that
  \<open>s\<close> is not empty, and \<^verbatim>\<open>.value()\<close> on \<^verbatim>\<open>nullopt\<close> would throw.
\<close>

definition resolve_step :: "str \<Rightarrow> str list \<Rightarrow> str list" where
  "resolve_step c parents =
     (if c = ''.'' then parents
      else if c = ''..'' then (if parents \<noteq> [] then butlast parents else parents)
      else parents @ [c])"

definition join_path :: "str list \<Rightarrow> str" where
  "join_path cs = concat (map (\<lambda>c. slash # c) cs)"

definition resolve :: "path \<Rightarrow> str \<Rightarrow> path expect" where
  "resolve par s =
     (if s = [] then Inl UB
      else let parents0 = (if hd s \<noteq> slash then split (m_path par) (DelimChar slash) else []);
               parents = fst (while_next resolve_step (mk_splitter s (DelimChar slash)) parents0 0)
           in if parents = [] then Inr root_path
              else and_then (create_buf (join_path parents))
                     (\<lambda>r. case r of Some p \<Rightarrow> Inr p | None \<Rightarrow> Inl UB))"

section \<open>Well-formed paths\<close>

text \<open>
  \<open>chain s pos cs\<close>: from \<open>pos\<close> on, \<open>s\<close> is a sequence of slash runs and the components
  \<open>cs\<close>, and the last component ends the string.
\<close>

fun chain :: "str \<Rightarrow> nat \<Rightarrow> slice list \<Rightarrow> bool" where
  "chain s pos [] = (pos = length s)"
| "chain s pos (c # cs) =
     (pos < sl_offset c \<and> sl_offset c + sl_size c \<le> length s \<and>
      (set (sublist pos (sl_offset c - pos) s) \<subseteq> {slash}) \<and>
      0 < sl_size c \<and> slash \<notin> set (to_str c s) \<and>
      chain s (sl_offset c + sl_size c) cs)"

definition path_ok :: "path \<Rightarrow> bool" where
  "path_ok p = (if m_components p = [] then m_path p = ''/'' else chain (m_path p) 0 (m_components p))"

section \<open>Chains and tokens\<close>

lemma chain_bound: "chain s pos cs \<Longrightarrow> pos \<le> length s"
  by (cases cs) auto

lemma chain_slices: "chain s pos cs \<Longrightarrow> c \<in> set cs \<Longrightarrow> pos < sl_offset c \<and> 0 < sl_size c \<and>
   sl_offset c + sl_size c \<le> length s \<and> slash \<notin> set (to_str c s)"
proof (induction cs arbitrary: pos)
  case (Cons d ds)
  then show ?case
    by (cases "c = d") (fastforce dest: Cons.IH)+
qed simp

lemma chain_hd: "chain s pos (c # cs) \<Longrightarrow> pos < length s \<and> s ! pos = slash"
proof -
  assume a: "chain s pos (c # cs)"
  let ?g = "sublist pos (sl_offset c - pos) s"
  have l: "pos < length s" "0 < length ?g" using a by auto
  then have "?g ! 0 \<in> set ?g" by (intro nth_mem)
  moreover have "?g ! 0 = s ! pos" using a l by (simp add: nth_sublist)
  ultimately show ?thesis using a l by auto
qed

lemma tokens_comp_append:
  assumes "c \<noteq> []" "slash \<notin> set c" "rest = [] \<or> hd rest = slash"
  shows "tokens is_slash (c @ rest) = c # tokens is_slash rest"
proof (cases rest)
  case Nil
  with assms show ?thesis by (auto intro: tokens_single)
next
  case (Cons x xs)
  with assms have "tokens is_slash (c @ rest) = tokens is_slash c @ tokens is_slash xs"
    by (auto simp: tokens_append_delim)
  with Cons assms tokens_single [of c is_slash] show ?thesis by auto
qed

lemma chain_tokens: "chain s pos cs \<Longrightarrow> map (\<lambda>c. to_str c s) cs = tokens is_slash (drop pos s)"
proof (induction cs arbitrary: pos)
  case (Cons c cs)
  let ?gap = "sublist pos (sl_offset c - pos) s" and ?e = "sl_offset c + sl_size c"
  have ch: "chain s ?e cs" using Cons.prems by simp
  have e: "?e \<le> length s" using Cons.prems by simp
  have "drop pos s = ?gap @ drop (sl_offset c) s"
    using Cons.prems by (intro drop_split) simp
  moreover have "tokens is_slash (?gap @ drop (sl_offset c) s) = tokens is_slash (drop (sl_offset c) s)"
    using Cons.prems by (intro tokens_delims_append) auto
  moreover have "drop (sl_offset c) s = to_str c s @ drop ?e s"
    using drop_split [of "sl_offset c" ?e s] by (simp add: to_str_def)
  moreover have "to_str c s \<noteq> []"
    using Cons.prems by (simp add: to_str_def sublist_def)
  moreover have "drop ?e s = [] \<or> hd (drop ?e s) = slash"
    using ch chain_hd by (cases cs) (auto simp: hd_drop_conv_nth)
  ultimately have "tokens is_slash (drop pos s) = to_str c s # tokens is_slash (drop ?e s)"
    using Cons.prems by (simp add: tokens_comp_append)
  with Cons.IH [OF ch] show ?case by simp
qed simp

lemma path_ok_iter: "path_ok p \<Longrightarrow> iter p = tokens is_slash (m_path p)"
  using chain_tokens [of "m_path p" 0 "m_components p"]
  by (auto simp: path_ok_def iter_def split: if_splits)

lemma path_ok_root [simp]: "path_ok root_path" "iter root_path = []" "is_root root_path"
  by (simp_all add: path_ok_def root_path_def iter_def is_root_def)

section \<open>Construction yields well-formed paths\<close>

lemma strip_suffix_props:
  assumes "p \<noteq> []" "hd p = slash"
  shows "strip_suffix p \<noteq> [] \<and> hd (strip_suffix p) = slash \<and>
    (strip_suffix p = ''/'' \<or> last (strip_suffix p) \<noteq> slash) \<and>
    (\<exists>n. p = strip_suffix p @ replicate n slash)"
  using assms
proof (induction p rule: strip_suffix.induct)
  case (1 p)
  show ?case
  proof (cases "length p > 1 \<and> last p = slash")
    case True
    then have "butlast p \<noteq> []" "hd (butlast p) = slash"
      using 1(2,3) by (cases p; auto)+
    with 1 True obtain n where ih: "strip_suffix (butlast p) \<noteq> []"
      "hd (strip_suffix (butlast p)) = slash"
      "strip_suffix (butlast p) = ''/'' \<or> last (strip_suffix (butlast p)) \<noteq> slash"
      "butlast p = strip_suffix (butlast p) @ replicate n slash"
      by auto
    have "p = strip_suffix (butlast p) @ replicate (Suc n) slash"
      using ih(4) True 1(2)
      by (metis append_butlast_last_id append_assoc replicate_append_same replicate_Suc)
    with ih True show ?thesis
      by (simp only: strip_suffix.simps [of p] if_True simp_thms) (blast intro: exI [of _ "Suc n"])
  next
    case False
    have "p = ''/'' \<or> last p \<noteq> slash"
      using False 1(2,3) by (cases p) (auto split: if_splits)
    with False 1(2,3) show ?thesis
      by (simp add: strip_suffix.simps [of p]) (metis append_Nil2 replicate_0)
  qed
qed

lemma strip_prefix_props:
  assumes "p \<noteq> []" "hd p = slash" "strip_prefix p off = (p', off')"
  shows "p' \<noteq> [] \<and> hd p' = slash \<and> last p' = last p \<and> (2 < length p' \<longrightarrow> p' ! 1 \<noteq> slash) \<and>
    (\<exists>n. off' = off + n \<and> p = replicate n slash @ p')"
  using assms
proof (induction p off rule: strip_prefix.induct)
  case (1 p off)
  show ?case
  proof (cases "length p > 2 \<and> p ! 0 = slash \<and> p ! 1 = slash")
    case True
    then obtain a b q where p: "p = a # b # q" and ab: "a = slash" "b = slash" "q \<noteq> []"
      by (cases p; cases "tl p"; auto)
    have "strip_prefix (tl p) (Suc off) = (p', off')"
      using True 1(4) by (simp add: strip_prefix.simps [of p])
    then obtain n where ih: "p' \<noteq> []" "hd p' = slash" "last p' = last (tl p)"
      "2 < length p' \<longrightarrow> p' ! 1 \<noteq> slash" "off' = Suc off + n"
      "tl p = replicate n slash @ p'"
      using 1(1) True p ab by auto
    then have "off' = off + Suc n \<and> p = replicate (Suc n) slash @ p'"
      using p ab by simp
    with ih p show ?thesis by auto
  next
    case False
    with 1 have "p' = p \<and> off' = off" by (simp add: strip_prefix.simps [of p] split: if_splits)
    with 1(2,3) False show ?thesis by (auto simp: hd_conv_nth)
  qed
qed


lemma comps_loop_chain:
  assumes "index < length p" "last p \<noteq> slash" "pos \<le> index"
    and "set (sublist pos (index - pos) p) \<subseteq> {slash}"
    and "pos < index \<or> p ! index = slash"
  shows "\<exists>cs. comps_loop p index buf = buf @ cs \<and> cs \<noteq> [] \<and> chain p pos cs"
  using assms
proof (induction p index buf arbitrary: pos rule: comps_loop.induct)
  case (1 p index buf)
  let ?cur = "skip_while is_slash p index"
  have cur_le: "?cur \<le> length p" using 1(2) by (simp add: skip_while_le)
  have nosl: "p \<noteq> []" using 1(2) by auto
  have cur_lt: "?cur < length p"
  proof (rule ccontr)
    assume "\<not> ?thesis"
    then have "dropWhile is_slash (drop index p) = []"
      using drop_skip_while [of is_slash p index] by simp
    then have "\<forall>x\<in>set (drop index p). x = slash" by (simp add: dropWhile_eq_Nil_conv)
    moreover have "last p \<in> set (drop index p)"
      using 1(2) by (metis drop_eq_Nil last_drop last_in_set not_le)
    ultimately show False using 1(3) by blast
  qed
  have stop: "p ! ?cur \<noteq> slash" using skip_while_stop [OF cur_lt] .
  have ge: "index \<le> ?cur" by (rule skip_while_ge)
  have pos_cur: "pos < ?cur" 
  proof -
    have "p ! index = slash \<Longrightarrow> index \<noteq> ?cur" using stop by auto
    with 1(4,6) ge show ?thesis by auto
  qed
  have gap: "set (sublist pos (?cur - pos) p) \<subseteq> {slash}"
  proof -
    have "sublist pos (?cur - pos) p = sublist pos (index - pos) p @ sublist index (?cur - index) p"
      using 1(4) ge by (rule sublist_join)
    moreover have "sublist index (?cur - index) p = takeWhile is_slash (drop index p)"
      using takeWhile_eq_take [of is_slash "drop index p", symmetric]
      by (simp only: sublist_def skip_while_eq add_diff_cancel_left')
    ultimately show ?thesis using 1(5) by (auto dest: set_takeWhileD)
  qed
  show ?case
  proof (cases "find_from is_slash p ?cur")
    case None
    then have "slash \<notin> set (drop ?cur p)" using iffD1 [OF find_from_None [OF cur_le] None] by blast
    with None 1(2) cur_lt pos_cur gap show ?thesis
      by (simp add: comps_loop.simps [of p index] to_str_def sublist_def Let_def)
  next
    case (Some nxt)
    note f = find_from_SomeD [OF Some]
    have ne: "?cur < nxt" using f(1,3) stop by (metis le_neq_implies_less)
    obtain cs where cs: "comps_loop p nxt (buf @ [mk_slice ?cur (nxt - ?cur)]) =
        (buf @ [mk_slice ?cur (nxt - ?cur)]) @ cs" "chain p nxt cs"
      using 1(1) [OF 1(2) refl Some, of nxt] f(2,3) 1(3) by (auto simp: sublist_def)
    have "slash \<notin> set (sublist ?cur (nxt - ?cur) p)"
      using f(4) by (auto dest: set_takeWhileD)
    with cs ne f(2) pos_cur gap Some 1(2) show ?thesis
      by (simp add: comps_loop.simps [of p index] to_str_def Let_def)
  qed
qed


lemma split_components_Some:
  assumes "split_components s = Some (sl, comps)"
  shows "(comps = [] \<longleftrightarrow> tokens is_slash s = []) \<and>
    (comps \<noteq> [] \<longrightarrow> chain (to_str sl s) 0 comps \<and> tokens is_slash (to_str sl s) = tokens is_slash s \<and>
       sl_offset sl + sl_size sl \<le> length s \<and> sl_offset sl < length s)"
proof -
  obtain p' off where sp: "strip_prefix (strip_suffix s) 0 = (p', off)" by fastforce
  have s: "s \<noteq> []" "hd s = slash" using assms by (auto simp: split_components_def split: if_splits)
  obtain n where n: "s = strip_suffix s @ replicate n slash" and
    suf: "strip_suffix s \<noteq> []" "hd (strip_suffix s) = slash"
      "strip_suffix s = ''/'' \<or> last (strip_suffix s) \<noteq> slash"
    using strip_suffix_props [OF s] by blast
  obtain m where m: "off = m" "strip_suffix s = replicate m slash @ p'" and
    pre: "p' \<noteq> []" "hd p' = slash" "last p' = last (strip_suffix s)"
    using strip_prefix_props [OF suf(1,2) sp] by (metis add_0)
  have decomp: "s = replicate m slash @ p' @ replicate n slash" using n m(2) by simp
  have tok: "tokens is_slash s = tokens is_slash p'"
    by (subst decomp) (simp add: tokens_delims_append tokens_append_delims)
  have str: "to_str (mk_slice off (length p')) s = p'"
    unfolding to_str_def sublist_def by (subst decomp) (simp add: m(1))
  show ?thesis
  proof (cases "p' = ''/''")
    case True
    with assms sp s tok show ?thesis by (auto simp: split_components_def)
  next
    case False
    have len: "1 < length p'" using False pre by (cases p') auto
    have "length (strip_suffix s) = m + length p'" by (simp add: m(2))
    with len have "strip_suffix s \<noteq> ''/''" by auto
    with suf(3) pre(3) have "last p' \<noteq> slash" by simp
    moreover have "p' ! 0 = slash" using pre by (simp add: hd_conv_nth)
    then have "set (sublist 0 (1 - 0) p') \<subseteq> {slash}"
      using pre by (cases p') (auto simp: sublist_def)
    ultimately obtain cs where cs: "comps_loop p' 1 [] = cs" "cs \<noteq> []" "chain p' 0 cs"
      using comps_loop_chain [OF len, of 0 "[]"] by auto
    have "length s = m + length p' + n" using decomp by (metis add.assoc length_append length_replicate)
    moreover have "tokens is_slash s \<noteq> []" using chain_tokens [OF cs(3)] cs(2) tok by auto
    moreover have "sl = mk_slice off (length p')" "comps = cs"
      using assms sp s False cs(1) by (simp_all add: split_components_def)
    ultimately show ?thesis using cs str tok len m(1) by (auto simp del: length_greater_0_conv)
  qed
qed

text \<open>The construction functions agree, and the slice kept by \<^verbatim>\<open>create_buf\<close> is in range.\<close>

lemma create_with_eq: "create_with s = create s"
  by (simp add: create_with_def create_def)

lemma create_buf_eq: "create_buf s = Inr (create s)"
proof (cases "split_components s")
  case (Some r)
  obtain sl comps where r: "r = (sl, comps)" by fastforce
  with Some split_components_Some [of s sl comps] show ?thesis
    by (auto simp: create_buf_def create_def keep_slice_def to_str_def sublist_def root_path_def
        drop_take)
qed (simp add: create_buf_def create_def)

lemma create_None_iff: "create s = None \<longleftrightarrow> s = [] \<or> hd s \<noteq> slash"
  by (auto simp: create_def split_components_def Let_def split: prod.splits option.splits)

lemma create_SomeD:
  assumes "create s = Some p"
  shows "path_ok p" "iter p = tokens is_slash s"
proof -
  obtain sl comps where sc: "split_components s = Some (sl, comps)"
    and p: "p = (if comps = [] then root_path else mk_path (to_str sl s) comps)"
    using assms by (auto simp: create_def split: option.splits if_splits)
  note h = split_components_Some [OF sc]
  show "path_ok p" using h p path_ok_root(1)
    by (cases "comps = []") (simp_all add: path_ok_def)
  then show "iter p = tokens is_slash s" using h p path_ok_root(2)
    by (cases "comps = []") (simp_all add: path_ok_iter)
qed


section \<open>Operations on well-formed paths\<close>

text \<open>
  Chains are built and taken apart at their end: the prefix up to a component, and a new
  component after one slash.
\<close>

lemma chain_snoc:
  "chain s pos (cs @ [c]) \<Longrightarrow> chain (take (sl_offset (last cs) + sl_size (last cs)) s) pos cs" if "cs \<noteq> []"
  using that
proof (induction cs arbitrary: pos)
  case (Cons d ds)
  let ?e = "sl_offset (last (d # ds)) + sl_size (last (d # ds))"
  have last: "last (d # ds) \<in> set ((d # ds) @ [c])" by (metis Un_iff last_in_set list.distinct(1) set_append)
  have e: "?e \<le> length s" using chain_slices [OF Cons.prems(1) last] by simp
  have d: "sl_offset d + sl_size d \<le> ?e"
  proof (cases ds)
    case (Cons x xs)
    with Cons.prems(1) have "chain s (sl_offset d + sl_size d) ((x # xs) @ [c])" by simp
    moreover have "last (d # ds) \<in> set ((x # xs) @ [c])" using Cons by auto
    ultimately show ?thesis using chain_slices by fastforce
  qed simp
  have "sublist pos (sl_offset d - pos) (take ?e s) = sublist pos (sl_offset d - pos) s"
    "to_str d (take ?e s) = to_str d s"
    using d Cons.prems(1) by (simp_all add: to_str_def sublist_take)
  moreover have "chain (take ?e s) (sl_offset d + sl_size d) ds"
  proof (cases "ds = []")
    case True
    with e show ?thesis by simp
  next
    case False
    with Cons.IH [of "sl_offset d + sl_size d"] Cons.prems(1) show ?thesis by simp
  qed
  ultimately show ?case using Cons.prems(1) d e by simp
qed simp

lemma chain_extend:
  assumes "chain s pos cs" "name \<noteq> []" "slash \<notin> set name"
  shows "chain (s @ slash # name) pos (cs @ [mk_slice (Suc (length s)) (length name)])"
  using assms(1)
proof (induction cs arbitrary: pos)
  case Nil
  with assms show ?case by (simp add: to_str_def sublist_def)
next
  case (Cons c cs)
  then show ?case by (simp add: to_str_def sublist_def)
qed

lemma path_ok_not_empty [simp]: "path_ok p \<Longrightarrow> m_path p \<noteq> []"
  using chain_hd [of "m_path p" 0] by (cases "m_components p") (auto simp: path_ok_def)

lemma extend_ok:
  assumes "path_ok p" "\<not> bad_name name"
  shows "fst (extend p name)" "path_ok (snd (extend p name))"
    "iter (snd (extend p name)) = iter p @ [name]" "filename (snd (extend p name)) = name"
proof -
  show "fst (extend p name)" using assms by (simp add: extend_def Let_def)
  have n: "name \<noteq> []" "slash \<notin> set name" using assms(2) by (auto simp: bad_name_def)
  have str: "m_path (snd (extend p name)) = (if is_root p then ''/'' else m_path p @ [slash]) @ name"
    using assms by (auto simp: extend_def Let_def is_root_def path_ok_def)
  show ok: "path_ok (snd (extend p name))"
  proof (cases "is_root p")
    case True
    with assms n show ?thesis
      by (simp add: extend_def path_ok_def is_root_def to_str_def sublist_def)
  next
    case False
    with assms n chain_extend [of "m_path p" 0 "m_components p" name] show ?thesis
      by (simp add: extend_def path_ok_def is_root_def Let_def)
  qed
  have "tokens is_slash (m_path (snd (extend p name))) = tokens is_slash (m_path p) @ [name]"
    using n tokens_single [of name is_slash] assms(1)
    by (auto simp: str tokens_append_delim is_root_def path_ok_def)
  then show "iter (snd (extend p name)) = iter p @ [name]"
    using ok assms(1) by (simp add: path_ok_iter)
  show "filename (snd (extend p name)) = name"
    using assms by (auto simp: filename_def is_root_def extend_def Let_def to_str_def sublist_def)
qed

lemma extend_fail: "bad_name name \<Longrightarrow> extend p name = (False, p)"
  by (simp add: extend_def)

lemma parent_path_ok:
  assumes "path_ok p"
  shows "path_ok (parent_path p)" "iter (parent_path p) = butlast (iter p)"
    "m_path (parent_path p) = parent p"
proof -
  consider (root) "m_components p = []" | (one) c where "m_components p = [c]"
    | (more) cs d c where "m_components p = cs @ [d, c]"
    by (cases "m_components p" rule: rev_cases; cases "butlast (m_components p)" rule: rev_cases) auto
  then have "path_ok (parent_path p) \<and> iter (parent_path p) = butlast (iter p) \<and>
    m_path (parent_path p) = parent p"
  proof cases
    case root
    with assms show ?thesis by (auto simp: parent_path_def is_root_def iter_def parent_def path_ok_def)
  next
    case one
    then show ?thesis by (simp add: parent_path_def is_root_def iter_def parent_def path_ok_def)
  next
    case more
    let ?e = "sl_offset d + sl_size d"
    have par: "parent_path p = mk_path (take ?e (m_path p)) (cs @ [d])"
      using more by (simp add: parent_path_def is_root_def parent_def Let_def nth_append butlast_append)
    have ch: "chain (m_path p) 0 ((cs @ [d]) @ [c])" using assms more by (simp add: path_ok_def)
    have "to_str x (take ?e (m_path p)) = to_str x (m_path p)" if "x \<in> set (cs @ [d])" for x
    proof -
      have "chain (take ?e (m_path p)) 0 (cs @ [d])" using chain_snoc [OF _ ch] by simp
      from chain_slices [OF this that] show ?thesis
        by (simp add: to_str_def sublist_take)
    qed
    then have "iter (parent_path p) = butlast (iter p)"
      using more by (simp add: iter_def par butlast_append)
    moreover have "path_ok (parent_path p)" using chain_snoc [OF _ ch] by (simp add: par path_ok_def)
    moreover have "m_path (parent_path p) = parent p"
      using more by (simp add: par parent_def is_root_def nth_append)
    ultimately show ?thesis by simp
  qed
  then show "path_ok (parent_path p)" "iter (parent_path p) = butlast (iter p)"
    "m_path (parent_path p) = parent p" by auto
qed


lemma chain_snoc_before: "chain s pos (bs @ [c]) \<Longrightarrow> b \<in> set bs \<Longrightarrow> sl_offset b + sl_size b < sl_offset c"
proof (induction bs arbitrary: pos)
  case (Cons d ds)
  have ch: "chain s (sl_offset d + sl_size d) (ds @ [c])" using Cons.prems(1) by simp
  show ?case
  proof (cases "b = d")
    case True
    with chain_slices [OF ch, of c] show ?thesis by simp
  next
    case False
    with Cons ch show ?thesis by auto
  qed
qed simp

lemma chain_snoc_end: "chain s pos (bs @ [c]) \<Longrightarrow> sl_offset c + sl_size c = length s"
  by (induction bs arbitrary: pos) auto

lemma chain_rename:
  assumes "chain s pos (bs @ [c])" "name \<noteq> []" "slash \<notin> set name"
  shows "chain (take (sl_offset c) s @ name) pos (bs @ [mk_slice (sl_offset c) (length name)])"
  using assms(1)
proof (induction bs arbitrary: pos)
  case Nil
  then have len: "length (take (sl_offset c) s) = sl_offset c" by simp
  have "to_str (mk_slice (sl_offset c) (length name)) (take (sl_offset c) s @ name) = name"
    using len by (simp add: to_str_def sublist_def)
  moreover have "sublist pos (sl_offset c - pos) (take (sl_offset c) s @ name) =
      sublist pos (sl_offset c - pos) s"
    using Nil len by (simp add: sublist_append_left sublist_take)
  ultimately show ?case using Nil assms(2,3) len by simp
next
  case (Cons d ds)
  have e: "sl_offset d + sl_size d < sl_offset c" "sl_offset c + sl_size c = length s"
    using chain_snoc_before [OF Cons.prems, of d] chain_snoc_end [OF Cons.prems] by simp_all
  then have "to_str d (take (sl_offset c) s @ name) = to_str d s"
    "sublist pos (sl_offset d - pos) (take (sl_offset c) s @ name) = sublist pos (sl_offset d - pos) s"
    using Cons.prems by (simp_all add: to_str_def sublist_append_left sublist_take)
  with Cons e show ?case by simp
qed

lemma rename_ok:
  assumes "path_ok p" "\<not> bad_name name" "\<not> is_root p"
  shows "fst (path_rename p name)" "path_ok (snd (path_rename p name))"
    "iter (snd (path_rename p name)) = butlast (iter p) @ [name]"
proof -
  show "fst (path_rename p name)" using assms by (simp add: path_rename_def Let_def)
  have n: "name \<noteq> []" "slash \<notin> set name" using assms(2) by (auto simp: bad_name_def)
  obtain bs c where cs: "m_components p = bs @ [c]"
    using assms(3) by (metis append_butlast_last_id is_root_def)
  have ch: "chain (m_path p) 0 (bs @ [c])" using assms(1) cs by (simp add: path_ok_def)
  note e = chain_snoc_end [OF ch]
  have r: "snd (path_rename p name) =
      mk_path (take (sl_offset c) (m_path p) @ name) (bs @ [mk_slice (sl_offset c) (length name)])"
    using assms(2,3) cs e by (simp add: path_rename_def Let_def)
  show "path_ok (snd (path_rename p name))"
    using chain_rename [OF ch n] by (simp add: r path_ok_def)
  have "to_str x (take (sl_offset c) (m_path p) @ name) = to_str x (m_path p)" if "x \<in> set bs" for x
    using chain_snoc_before [OF ch that] e by (simp add: to_str_def sublist_append_left sublist_take)
  then show "iter (snd (path_rename p name)) = butlast (iter p) @ [name]"
    using e by (simp add: iter_def r cs butlast_append to_str_def sublist_def)
qed

lemma rename_fail: "bad_name name \<or> is_root p \<Longrightarrow> path_rename p name = (False, p)"
  by (auto simp: path_rename_def)

subsection \<open>Resolution\<close>

definition plain_component :: "str \<Rightarrow> bool" where
  "plain_component c = (c \<noteq> [] \<and> slash \<notin> set c)"

lemma tokens_join: "\<forall>c\<in>set cs. plain_component c \<Longrightarrow> tokens is_slash (join_path cs) = cs"
proof (induction cs)
  case (Cons c cs)
  then have "join_path cs = [] \<or> hd (join_path cs) = slash"
    by (cases cs) (auto simp: join_path_def)
  with Cons tokens_comp_append [of c "join_path cs"] show ?case
    by (simp add: join_path_def plain_component_def)
qed (simp add: join_path_def)

lemma tokens_plain: "c \<in> set (tokens is_slash s) \<Longrightarrow> plain_component c"
  using tokens_nonempty [of c is_slash s] tokens_no_delim [of c is_slash s slash]
  by (auto simp: plain_component_def)

lemma resolve_fold_plain:
  "\<forall>c\<in>set ts \<union> set ps. plain_component c \<Longrightarrow> \<forall>c\<in>set (fold resolve_step ts ps). plain_component c"
proof (induction ts arbitrary: ps)
  case (Cons t ts)
  have "\<forall>c\<in>set ts \<union> set (resolve_step t ps). plain_component c"
    using Cons.prems by (auto simp: resolve_step_def dest: in_set_butlastD)
  with Cons.IH show ?case by simp
qed simp

text \<open>
  What resolution means, read from the last component to the first: a dot counts for nothing, a double
  dot cancels the nearest name before it that is not yet cancelled, and the other names survive.
\<close>

fun survivors :: "nat \<Rightarrow> str list \<Rightarrow> str list" where
  "survivors n [] = []"
| "survivors n (c # cs) =
     (if c = ''.'' then survivors n cs
      else if c = ''..'' then survivors (Suc n) cs
      else case n of 0 \<Rightarrow> c # survivors 0 cs | Suc m \<Rightarrow> survivors m cs)"

definition dotless :: "str list \<Rightarrow> bool" where
  "dotless cs = (''.'' \<notin> set cs \<and> ''..'' \<notin> set cs)"

definition resolved :: "str list \<Rightarrow> str list" where
  "resolved cs = rev (survivors 0 (rev cs))"

lemma survivors_dotless: "dotless cs \<Longrightarrow> survivors n cs = drop n cs"
  by (induction n cs rule: survivors.induct) (auto simp: dotless_def split: nat.split)

lemma dotless_survivors: "dotless (survivors n cs)"
  by (induction n cs rule: survivors.induct) (auto simp: dotless_def split: nat.split)

lemma survivors_fold:
  assumes "dotless ps"
  shows "survivors n (rev (ps @ ts)) = drop n (rev (fold resolve_step ts ps))"
proof (induction ts arbitrary: n rule: rev_induct)
  case Nil
  have "dotless (rev ps)" using assms by (simp add: dotless_def)
  then show ?case by (simp add: survivors_dotless)
next
  case (snoc t ts)
  have "drop (Suc n) (rev qs) = drop n (rev (butlast qs))" for qs :: "str list"
    by (cases qs rule: rev_cases) simp_all
  with snoc show ?case by (auto simp: resolve_step_def split: nat.split)
qed

lemma resolve_fold: "dotless ps \<Longrightarrow> fold resolve_step ts ps = resolved (ps @ ts)"
  using survivors_fold [of ps 0 ts] by (simp add: resolved_def)

lemma is_delim_slash [simp]: "is_delim (DelimChar slash) = is_slash"
  by (rule ext) simp

lemma resolve_spec:
  assumes "path_ok par" "s \<noteq> []"
  shows "\<exists>p. resolve par s = Inr p \<and> path_ok p \<and>
    iter p = fold resolve_step (tokens is_slash s) (if hd s = slash then [] else iter par)"
proof -
  let ?ps = "fold resolve_step (tokens is_slash s) (if hd s = slash then [] else iter par)"
  have iter: "iter par = tokens is_slash (m_path par)" by (rule path_ok_iter [OF assms(1)])
  have plain: "\<forall>c\<in>set ?ps. plain_component c"
    by (rule resolve_fold_plain) (auto simp: iter intro: tokens_plain)
  have r: "resolve par s = (if ?ps = [] then Inr root_path
      else and_then (create_buf (join_path ?ps)) (\<lambda>r. case r of Some p \<Rightarrow> Inr p | None \<Rightarrow> Inl UB))"
    using assms(2) by (auto simp: resolve_def Let_def while_next_eq split_eq_tokens iter)
  show ?thesis
  proof (cases "?ps = []")
    case True
    then show ?thesis unfolding r by (simp add: path_ok_root)
  next
    case False
    then have "create (join_path ?ps) \<noteq> None"
      unfolding create_None_iff by (cases ?ps) (auto simp: join_path_def)
    then obtain p where p: "create (join_path ?ps) = Some p" by blast
    from create_SomeD [OF p] tokens_join [OF plain] have "path_ok p" "iter p = ?ps" by simp_all
    with False p show ?thesis unfolding r by (simp add: create_buf_eq)
  qed
qed

section \<open>Properties\<close>

text \<open>C39: construction. A path is refused exactly when the string is empty or not absolute; an
  accepted one is well formed and its components are the runs between the slashes; the three
  constructors agree and none leaves its string's bounds.\<close>

theorem create_correct:
  "create_buf s = Inr (create s) \<and> create_with s = create s \<and>
   (create s = None \<longleftrightarrow> s = [] \<or> hd s \<noteq> slash) \<and>
   (\<forall>p. create s = Some p \<longrightarrow> path_ok p \<and> iter p = tokens is_slash s)"
  by (simp only: create_buf_eq create_with_eq create_None_iff) (simp add: create_SomeD)

theorem create_correct_witness:
  "\<exists>p. create ''//a//b/'' = Some p \<and> path_ok p \<and> iter p = [''a'', ''b'']"
proof -
  have "create ''//a//b/'' \<noteq> None" by (simp add: create_None_iff)
  then show ?thesis using create_correct [of "''//a//b/''"] by auto
qed

text \<open>\<^verbatim>\<open>parent_path\<close> of a well-formed path is well formed, drops the last component (the
  root is its own parent) and its string is what \<^verbatim>\<open>parent\<close> returns.\<close>

theorem parent_path_correct:
  "path_ok p \<Longrightarrow> path_ok (parent_path p) \<and> iter (parent_path p) = butlast (iter p) \<and>
     m_path (parent_path p) = parent p"
  using parent_path_ok by blast

theorem parent_path_correct_witness:
  "iter (parent_path (mk_path ''/a/bc'' [mk_slice 1 1, mk_slice 3 2])) = [''a'']"
proof -
  let ?p = "mk_path ''/a/bc'' [mk_slice 1 1, mk_slice 3 2]"
  have "path_ok ?p" "iter ?p = [''a'', ''bc'']"
    by (simp_all add: path_ok_def to_str_def sublist_def iter_def)
  with parent_path_correct [of ?p] show ?thesis by simp
qed

text \<open>\<^verbatim>\<open>extend\<close> and \<^verbatim>\<open>rename\<close> succeed exactly for proper names (and \<^verbatim>\<open>rename\<close> not on the
  root); then they append, respectively replace, the last component of a well-formed path and
  keep it well formed, and a failure leaves the path as it was.\<close>

theorem extend_rename_correct:
  assumes "path_ok p"
  shows "(if bad_name name then extend p name = (False, p)
     else \<exists>q. extend p name = (True, q) \<and> path_ok q \<and> iter q = iter p @ [name] \<and> filename q = name)
   \<and> (if bad_name name \<or> is_root p then path_rename p name = (False, p)
     else \<exists>q. path_rename p name = (True, q) \<and> path_ok q \<and> iter q = butlast (iter p) @ [name])"
  using extend_ok [OF assms, of name] rename_ok [OF assms, of name] extend_fail rename_fail
  by (metis (full_types) prod.collapse)

theorem extend_rename_correct_witness:
  "\<exists>q. extend (mk_path ''/a'' [mk_slice 1 1]) ''b'' = (True, q) \<and> iter q = [''a'', ''b'']"
proof -
  let ?p = "mk_path ''/a'' [mk_slice 1 1]"
  have "path_ok ?p" "iter ?p = [''a'']" "\<not> bad_name ''b''"
    by (simp_all add: path_ok_def to_str_def sublist_def iter_def bad_name_def)
  with extend_rename_correct [of ?p "''b''"] show ?thesis by auto
qed

text \<open>C38: \<^verbatim>\<open>resolve\<close> of a non-empty string returns a well-formed path without dot components: the names
  that survive when every double dot cancels the nearest name before it, in the string alone when it
  is absolute and otherwise in the components of the directory, which must have no dots itself,
  followed by those of the string.\<close>

theorem resolve_correct:
  assumes "path_ok par" "s \<noteq> []" "hd s = slash \<or> dotless (iter par)"
  shows "\<exists>p. resolve par s = Inr p \<and> path_ok p \<and> dotless (iter p) \<and>
    iter p = resolved ((if hd s = slash then [] else iter par) @ tokens is_slash s)"
proof -
  let ?base = "if hd s = slash then [] else iter par"
  have "dotless ?base" using assms(3) by (auto simp: dotless_def)
  moreover have "dotless (resolved cs)" for cs
    using dotless_survivors [of 0 "rev cs"] by (simp add: resolved_def dotless_def)
  ultimately show ?thesis using resolve_spec [OF assms(1,2)] by (auto simp: resolve_fold)
qed

theorem resolve_correct_witness:
  "\<exists>p. resolve (mk_path ''/a/b'' [mk_slice 1 1, mk_slice 3 1]) ''../c/./e/../d'' = Inr p \<and>
     iter p = [''a'', ''c'', ''d'']"
proof -
  let ?p = "mk_path ''/a/b'' [mk_slice 1 1, mk_slice 3 1]"
  have "path_ok ?p" "iter ?p = [''a'', ''b'']"
    by (simp_all add: path_ok_def to_str_def sublist_def iter_def)
  with resolve_correct [of ?p "''../c/./e/../d''"] show ?thesis
    by (auto simp: resolved_def dotless_def)
qed

end
