(* ===== verification/Wire.thy ===== *)
theory Wire
  imports Prelude
begin

text \<open>
  The byte level of the RPC protocol, the first half of \<^verbatim>\<open>madbfs-common/src/rpc.cpp\<close>:
  integers in network order on a host of either endianness, \<^verbatim>\<open>PayloadBuilder\<close> (a growing
  byte vector) and \<^verbatim>\<open>PayloadReader\<close> (a cursor with its bound checks in 64-bit arithmetic).
  The interface between the two is the locale \<open>codec\<close>: reading at the place where an
  encoding was written gives the value back and moves the cursor past it.
\<close>

section \<open>Integers as bytes\<close>

fun le_bytes :: "nat \<Rightarrow> nat \<Rightarrow> u8 list" where
  "le_bytes 0 v = []"
| "le_bytes (Suc n) v = word_of_nat v # le_bytes n (v div 256)"

fun le_nat :: "u8 list \<Rightarrow> nat" where
  "le_nat [] = 0"
| "le_nat (b # bs) = unat b + 256 * le_nat bs"

text \<open>
  \<^verbatim>\<open>std::bit_cast\<close> between an integer and its object representation, on a big-endian host
  (\<open>big\<close>) or a little-endian one, and \<^verbatim>\<open>std::byteswap\<close>.
\<close>

definition size_of :: "'a::len word \<Rightarrow> nat" where
  "size_of (_ :: 'a word) = LENGTH('a) div 8"

definition bit_cast_bytes :: "bool \<Rightarrow> 'a::len word \<Rightarrow> u8 list" where
  "bit_cast_bytes big v =
     (if big then rev (le_bytes (size_of v) (unat v)) else le_bytes (size_of v) (unat v))"

definition bit_cast_int :: "bool \<Rightarrow> u8 list \<Rightarrow> 'a::len word" where
  "bit_cast_int big bs = word_of_nat (if big then le_nat (rev bs) else le_nat bs)"

definition byteswap :: "'a::len word \<Rightarrow> 'a word" where
  "byteswap v = word_of_nat (le_nat (rev (le_bytes (size_of v) (unat v))))"

definition to_net_bytes :: "bool \<Rightarrow> 'a::len word \<Rightarrow> u8 list" where
  "to_net_bytes big v = (if big then bit_cast_bytes big v else bit_cast_bytes big (byteswap v))"

definition from_net_bytes :: "bool \<Rightarrow> u8 list \<Rightarrow> 'a::len word" where
  "from_net_bytes big bs = (if big then bit_cast_int big bs else byteswap (bit_cast_int big bs))"

text \<open>Characters and bytes: the \<^verbatim>\<open>reinterpret_cast\<close> between \<^verbatim>\<open>char*\<close> and \<^verbatim>\<open>u8*\<close>.\<close>

definition bytes_of :: "str \<Rightarrow> u8 list" where
  "bytes_of s = map (\<lambda>c. word_of_nat (of_char c)) s"

definition str_of :: "u8 list \<Rightarrow> str" where
  "str_of bs = map (\<lambda>b. char_of (unat b)) bs"

section \<open>PayloadBuilder\<close>

definition write_int :: "bool \<Rightarrow> 'a::len word \<Rightarrow> u8 list \<Rightarrow> u8 list" where
  "write_int big v buf = buf @ to_net_bytes big v"

definition write_bytes :: "bool \<Rightarrow> u8 list \<Rightarrow> u8 list \<Rightarrow> u8 list" where
  "write_bytes big bytes buf = write_int big (word_of_nat (length bytes) :: u64) buf @ bytes"

definition write_path :: "bool \<Rightarrow> str \<Rightarrow> u8 list \<Rightarrow> u8 list" where
  "write_path big p buf =
     write_int big (word_of_nat (length p + 1) :: u64) buf @ bytes_of p @ [0]"

section \<open>PayloadReader\<close>

record reader =
  m_index :: nat
  m_buffer :: "u8 list"

text \<open>
  A read returns an \<^verbatim>\<open>Opt\<close> and moves the cursor, also on some failures; \<open>Inl UB\<close> is an
  access outside the buffer. \<open>TRY\<close> is the macro of the source.
\<close>

type_synonym 'a rd = "reader \<Rightarrow> ('a option \<times> reader) expect"

definition TRY :: "'a rd \<Rightarrow> ('a \<Rightarrow> 'b rd) \<Rightarrow> 'b rd" where
  "TRY m f r = (case m r of
       Inl e \<Rightarrow> Inl e
     | Inr (None, r') \<Rightarrow> Inr (None, r')
     | Inr (Some v, r') \<Rightarrow> f v r')"

definition rd_return :: "'a \<Rightarrow> 'a rd" where
  "rd_return v r = Inr (Some v, r)"

definition rd_nullopt :: "'a rd" where
  "rd_nullopt r = Inr (None, r)"

definition mk_reader :: "u8 list \<Rightarrow> reader" where
  "mk_reader buf = \<lparr>m_index = 0, m_buffer = buf\<rparr>"

text \<open>\<^verbatim>\<open>span::subspan\<close>, whose count \<open>2 ^ 64 - 1\<close> is \<^verbatim>\<open>std::dynamic_extent\<close>.\<close>

definition subspan :: "u8 list \<Rightarrow> nat \<Rightarrow> nat \<Rightarrow> u8 list expect" where
  "subspan buf off count =
     (if off > length buf then Inl UB
      else if count = 2 ^ 64 - 1 then Inr (drop off buf)
      else if count \<le> length buf - off then Inr (sublist off count buf)
      else Inl UB)"

definition read_int :: "bool \<Rightarrow> 'a::len word rd" where
  "read_int big r =
     (let n = size_of (0 :: 'a word); i = m_index r; buf = m_buffer r in
      if sub64 (add64 i n) 1 \<ge> length buf then Inr (None, r)
      else if i + n \<le> length buf
      then Inr (Some (from_net_bytes big (sublist i n buf)), r\<lparr>m_index := add64 i n\<rparr>)
      else Inl UB)"

definition read_bytes :: "bool \<Rightarrow> u8 list rd" where
  "read_bytes big = TRY (read_int big) (\<lambda>(sz :: u64) r.
     let size = unat sz; i = m_index r; buf = m_buffer r in
     if sub64 (add64 i size) 1 \<ge> length buf then Inr (None, r)
     else case subspan buf i size of
            Inl e \<Rightarrow> Inl e
          | Inr s \<Rightarrow> Inr (Some s, r\<lparr>m_index := add64 i size\<rparr>))"

definition read_path :: "bool \<Rightarrow> str rd" where
  "read_path big = TRY (read_int big) (\<lambda>(sz :: u64) r.
     let size = unat sz; i = m_index r; buf = m_buffer r in
     if sub64 (add64 i size) 1 \<ge> length buf then Inr (None, r)
     else case subspan buf i (sub64 size 1) of
            Inl e \<Rightarrow> Inl e
          | Inr s \<Rightarrow> Inr (Some (str_of s), r\<lparr>m_index := add64 i size\<rparr>))"

section \<open>Integers: host independence and round trip\<close>

lemma length_le_bytes [simp]: "length (le_bytes n v) = n"
  by (induction n arbitrary: v) auto

lemma unat_u8_of_nat: "unat (word_of_nat v :: u8) = v mod 256"
  by (simp add: unat_of_nat)

lemma le_nat_le_bytes: "le_nat (le_bytes n v) = v mod 256 ^ n"
proof (induction n arbitrary: v)
  case (Suc n)
  have "v mod 256 + 256 * (v div 256 mod 256 ^ n) = v mod (256 * 256 ^ n)"
    by (simp add: mod_mult2_eq)
  with Suc show ?case by (simp add: unat_u8_of_nat)
qed simp

lemma le_nat_bound: "le_nat bs < 256 ^ length bs"
proof (induction bs)
  case (Cons b bs)
  have "unat b < 256" using unsigned_less [of b] by simp
  with Cons show ?case by simp
qed simp

lemma le_bytes_le_nat: "le_bytes (length bs) (le_nat bs) = bs"
proof (induction bs)
  case (Cons b bs)
  have b: "unat b < 256" using unsigned_less [of b] by simp
  have "unat (word_of_nat (unat b + 256 * le_nat bs) :: u8) = unat b"
    by (simp only: unat_u8_of_nat) (simp add: b)
  then have "word_of_nat (unat b + 256 * le_nat bs) = (b :: u8)"
    by (rule unsigned_word_eqI)
  with Cons b show ?case by simp
qed simp

text \<open>The object sizes of the integer types that cross the wire.\<close>

definition wire_type :: "'a::len word \<Rightarrow> bool" where
  "wire_type (v :: 'a word) = (LENGTH('a) = 8 * size_of v \<and> 0 < size_of v \<and> size_of v < 2 ^ 32)"

lemma size_of_simps [simp]:
  "size_of (a :: u8) = 1" "size_of (b :: u32) = 4" "size_of (c :: u64) = 8"
  by (simp_all add: size_of_def)

lemma wire_type_simps [simp]:
  "wire_type (a :: u8)" "wire_type (b :: u32)" "wire_type (c :: u64)"
  by (simp_all add: wire_type_def)

lemma size_of_any: "size_of (a :: 'a::len word) = size_of (b :: 'a word)"
  by (simp add: size_of_def)

lemma unat_wire_bound: "wire_type v \<Longrightarrow> unat v < 256 ^ size_of v"
  using unsigned_less [of v] by (simp add: wire_type_def power_mult)

lemma word_of_nat_wire: "wire_type (w :: 'a::len word) \<Longrightarrow> n < 256 ^ size_of w \<Longrightarrow> unat (word_of_nat n :: 'a word) = n"
  by (simp add: wire_type_def unat_of_nat power_mult)

text \<open>Network order is the big-endian digits of the value, whatever the host is.\<close>

lemma to_net_bytes_eq:
  assumes "wire_type v"
  shows "to_net_bytes big v = rev (le_bytes (size_of v) (unat v))"
proof (cases big)
  case False
  let ?l = "rev (le_bytes (size_of v) (unat v))"
  have "le_nat ?l < 256 ^ size_of v" using le_nat_bound [of ?l] by simp
  then have "unat (byteswap v) = le_nat ?l"
    using word_of_nat_wire [OF assms] by (simp add: byteswap_def)
  then have "to_net_bytes big v = le_bytes (length ?l) (le_nat ?l)"
    using False by (simp add: to_net_bytes_def bit_cast_bytes_def size_of_any [of "byteswap v" v])
  then show ?thesis by (simp only: le_bytes_le_nat)
qed (simp add: to_net_bytes_def bit_cast_bytes_def)

lemma from_net_bytes_eq:
  assumes "wire_type (v :: 'a::len word)" "length bs = size_of v"
  shows "(from_net_bytes big bs :: 'a word) = word_of_nat (le_nat (rev bs))"
proof (cases big)
  case False
  have "le_nat bs < 256 ^ size_of v" using le_nat_bound [of bs] assms(2) by simp
  then have u: "unat (word_of_nat (le_nat bs) :: 'a word) = le_nat bs"
    by (rule word_of_nat_wire [OF assms(1)])
  have "le_bytes (size_of (word_of_nat (le_nat bs) :: 'a word)) (le_nat bs) = bs"
    using le_bytes_le_nat [of bs] assms(2) by (simp add: size_of_any [of "word_of_nat (le_nat bs)" v])
  with False u show ?thesis by (simp add: from_net_bytes_def bit_cast_int_def byteswap_def)
qed (simp add: from_net_bytes_def bit_cast_int_def)

lemma length_to_net_bytes [simp]: "wire_type v \<Longrightarrow> length (to_net_bytes big v) = size_of v"
  by (simp add: to_net_bytes_eq)

lemma net_bytes_roundtrip:
  fixes v :: "'a::len word"
  assumes "wire_type v"
  shows "from_net_bytes big' (to_net_bytes big v) = v"
proof -
  have "(from_net_bytes big' (to_net_bytes big v) :: 'a word) = word_of_nat (le_nat (le_bytes (size_of v) (unat v)))"
    using assms by (simp add: from_net_bytes_eq [of v] to_net_bytes_eq)
  also have "\<dots> = v"
    using unat_wire_bound [OF assms] by (simp add: le_nat_le_bytes)
  finally show ?thesis .
qed

lemma length_bytes_of [simp]: "length (bytes_of s) = length s"
  by (simp add: bytes_of_def)

lemma length_str_of [simp]: "length (str_of bs) = length bs"
  by (simp add: str_of_def)

lemma str_of_bytes_of [simp]: "str_of (bytes_of s) = s"
proof -
  have "char_of (unat (word_of_nat (of_char c) :: u8)) = c" for c :: char
    by (simp add: unat_u8_of_nat)
  then show ?thesis by (simp add: str_of_def bytes_of_def comp_def map_idI)
qed

section \<open>The codec interface\<close>

text \<open>\<open>rd_at pre post\<close>: the cursor stands between \<open>pre\<close> and \<open>post\<close>.\<close>

definition rd_at :: "u8 list \<Rightarrow> u8 list \<Rightarrow> reader" where
  "rd_at pre post = \<lparr>m_index = length pre, m_buffer = pre @ post\<rparr>"

lemma mk_reader_at: "mk_reader buf = rd_at [] buf"
  by (simp add: mk_reader_def rd_at_def)

lemma rd_at_sel [simp]: "m_index (rd_at pre post) = length pre" "m_buffer (rd_at pre post) = pre @ post"
  by (simp_all add: rd_at_def)

text \<open>Buffers are shorter than \<open>2 ^ 63\<close>, the largest size a vector can have.\<close>

definition small :: "'a list \<Rightarrow> bool" where
  "small xs = (length xs < 2 ^ 63)"

locale codec =
  fixes enc :: "'a \<Rightarrow> u8 list"
    and dec :: "'a rd"
    and ok :: "'a \<Rightarrow> bool"
  assumes dec_enc: "ok x \<Longrightarrow> small (pre @ enc x @ post) \<Longrightarrow>
    dec (rd_at pre (enc x @ post)) = Inr (Some x, rd_at (pre @ enc x) post)"
    and dec_trunc: "ok x \<Longrightarrow> small (pre @ enc x) \<Longrightarrow> n < length (enc x) \<Longrightarrow>
      transform (dec (rd_at pre (take n (enc x)))) fst = Inr None"
begin

lemma TRY_enc:
  "ok x \<Longrightarrow> small (pre @ enc x @ post) \<Longrightarrow>
     TRY dec f (rd_at pre (enc x @ post)) = f x (rd_at (pre @ enc x) post)"
  by (simp add: TRY_def dec_enc)

text \<open>
  Reading from the first \<open>n\<close> bytes of what was written: \<^verbatim>\<open>nullopt\<close> as soon as the encoding
  is cut, the value and the rest otherwise.
\<close>

lemma TRY_take:
  assumes "ok x" "small (pre @ enc x @ post)"
  shows "transform (TRY dec f (rd_at pre (take n (enc x @ post)))) fst =
    (if n < length (enc x) then Inr None
     else transform (f x (rd_at (pre @ enc x) (take (n - length (enc x)) post))) fst)"
proof (cases "n < length (enc x)")
  case True
  have "small (pre @ enc x)" using assms(2) by (simp add: small_def)
  from dec_trunc [OF assms(1) this True] True show ?thesis
    by (auto simp: TRY_def transform_def split: sum.splits option.splits prod.splits)
next
  case False
  have "small (pre @ enc x @ take (n - length (enc x)) post)"
    using assms(2) by (simp add: small_def)
  from dec_enc [OF assms(1) this] False show ?thesis by (simp add: TRY_def)
qed

lemma TRY_take_end:
  assumes "ok x" "small (pre @ enc x)"
  shows "transform (TRY dec f (rd_at pre (take n (enc x)))) fst =
    (if n < length (enc x) then Inr None else transform (f x (rd_at (pre @ enc x) [])) fst)"
  using TRY_take [of x pre "[]" f n] assms by (simp only: append_Nil2 take_Nil)

end

lemma read_int_at:
  fixes x :: "'a::len word"
  assumes "wire_type x" "small (pre @ to_net_bytes big x @ post)"
  shows "read_int big' (rd_at pre (to_net_bytes big x @ post)) =
    Inr (Some x, rd_at (pre @ to_net_bytes big x) post)"
proof -
  let ?n = "size_of x"
  have n: "0 < ?n" "size_of (0 :: 'a word) = ?n"
    using assms(1) size_of_any [of 0 x] by (simp_all add: wire_type_def)
  have len: "length pre + ?n + length post < 2 ^ 63"
    using assms by (simp add: small_def)
  have "sublist (length pre) ?n (pre @ to_net_bytes big x @ post) = to_net_bytes big x"
    using assms(1) by (simp add: sublist_append_right)
  with n len assms(1) show ?thesis
    by (simp add: read_int_def Let_def net_bytes_roundtrip)
qed

lemma read_int_trunc:
  fixes x :: "'a::len word"
  assumes "wire_type x" "small (pre @ to_net_bytes big x)" "n < length (to_net_bytes big x)"
  shows "transform (read_int big' (rd_at pre (take n (to_net_bytes big x))) :: ('a word option \<times> _) expect)
    fst = Inr None"
proof -
  have "size_of (0 :: 'a word) = size_of x" by (rule size_of_any)
  with assms show ?thesis by (simp add: read_int_def Let_def small_def)
qed

interpretation int_codec: codec "to_net_bytes big" "read_int big'" wire_type for big big'
  by unfold_locales (rule read_int_at, assumption+, rule read_int_trunc)

definition enc_bytes :: "bool \<Rightarrow> u8 list \<Rightarrow> u8 list" where
  "enc_bytes big bs = to_net_bytes big (word_of_nat (length bs) :: u64) @ bs"

definition enc_path :: "bool \<Rightarrow> str \<Rightarrow> u8 list" where
  "enc_path big p = to_net_bytes big (word_of_nat (length p + 1) :: u64) @ bytes_of p @ [0]"

lemma unat_u64: "n < 2 ^ 64 \<Longrightarrow> unat (word_of_nat n :: u64) = n"
  by (simp add: unat_of_nat)

lemma read_bytes_at:
  assumes "small (pre @ enc_bytes big x @ post)"
  shows "read_bytes big' (rd_at pre (enc_bytes big x @ post)) =
    Inr (Some x, rd_at (pre @ enc_bytes big x) post)"
proof -
  let ?sz = "word_of_nat (length x) :: u64"
  have len: "length pre + 8 + length x + length post < 2 ^ 63"
    using assms by (simp add: small_def enc_bytes_def)
  have u: "unat ?sz = length x" using len by (intro unat_u64) simp
  have "read_bytes big' (rd_at pre (enc_bytes big x @ post)) =
     (case subspan (pre @ to_net_bytes big ?sz @ x @ post) (length pre + 8) (length x) of
            Inl e \<Rightarrow> Inl e
          | Inr s \<Rightarrow> Inr (Some s, rd_at (pre @ to_net_bytes big ?sz @ x) post))"
    using len by (simp add: read_bytes_def enc_bytes_def int_codec.TRY_enc small_def u Let_def
        split: sum.splits)
  also have "\<dots> = Inr (Some x, rd_at (pre @ enc_bytes big x) post)"
    using len by (simp add: subspan_def enc_bytes_def sublist_def)
  finally show ?thesis .
qed

lemma read_bytes_trunc:
  assumes "small (pre @ enc_bytes big x)" "n < length (enc_bytes big x)"
  shows "transform (read_bytes big' (rd_at pre (take n (enc_bytes big x)))) fst = Inr None"
proof -
  have u: "unat (word_of_nat (length x) :: u64) = length x"
    using assms(1) by (intro unat_u64) (simp add: small_def enc_bytes_def)
  show ?thesis
    unfolding read_bytes_def enc_bytes_def
    using assms by (subst int_codec.TRY_take) (auto simp: enc_bytes_def small_def u Let_def)
qed

interpretation bytes_codec: codec "enc_bytes big" "read_bytes big'" "\<lambda>_. True" for big big'
  by unfold_locales (rule read_bytes_at read_bytes_trunc, assumption+)+

lemma read_path_at:
  assumes "small (pre @ enc_path big x @ post)"
  shows "read_path big' (rd_at pre (enc_path big x @ post)) =
    Inr (Some x, rd_at (pre @ enc_path big x) post)"
proof -
  let ?sz = "word_of_nat (length x + 1) :: u64"
  have len: "length pre + 9 + length x + length post < 2 ^ 63"
    using assms by (simp add: small_def enc_path_def)
  have u: "unat ?sz = length x + 1" using len by (intro unat_u64) simp
  have "read_path big' (rd_at pre (enc_path big x @ post)) =
     (case subspan (pre @ to_net_bytes big ?sz @ (bytes_of x @ [0]) @ post) (length pre + 8) (length x) of
            Inl e \<Rightarrow> Inl e
          | Inr s \<Rightarrow> Inr (Some (str_of s), rd_at (pre @ to_net_bytes big ?sz @ bytes_of x @ [0]) post))"
    using len u by (simp add: read_path_def enc_path_def int_codec.TRY_enc small_def Let_def
        split: sum.splits)
  also have "\<dots> = Inr (Some x, rd_at (pre @ enc_path big x) post)"
    using len by (simp add: subspan_def enc_path_def sublist_def)
  finally show ?thesis .
qed

lemma read_path_trunc:
  assumes "small (pre @ enc_path big x)" "n < length (enc_path big x)"
  shows "transform (read_path big' (rd_at pre (take n (enc_path big x)))) fst = Inr None"
proof -
  have u: "unat (word_of_nat (length x + 1) :: u64) = length x + 1"
    using assms(1) by (intro unat_u64) (simp add: small_def enc_path_def)
  show ?thesis
    unfolding read_path_def enc_path_def
    using assms u by (subst int_codec.TRY_take) (auto simp: enc_path_def small_def Let_def)
qed

interpretation path_codec: codec "enc_path big" "read_path big'" "\<lambda>_. True" for big big'
  by unfold_locales (rule read_path_at read_path_trunc, assumption+)+

lemmas codec_take = int_codec.TRY_take int_codec.TRY_take_end bytes_codec.TRY_take
  bytes_codec.TRY_take_end path_codec.TRY_take path_codec.TRY_take_end

lemma write_simps [wire_simps]:
  "write_int big v buf = buf @ to_net_bytes big v"
  "write_bytes big bs buf = buf @ enc_bytes big bs"
  "write_path big p buf = buf @ enc_path big p"
  by (simp_all add: write_int_def write_bytes_def write_path_def enc_bytes_def enc_path_def)

lemma length_enc [simp]:
  "length (enc_bytes big bs) = 8 + length bs"
  "length (enc_path big p) = 9 + length p"
  by (simp_all add: enc_bytes_def enc_path_def)

end
