(* ===== verification/Rpc.thy ===== *)
theory Rpc
  imports Wire
begin

text \<open>
  The RPC messages of \<^verbatim>\<open>madbfs-common/rpc.hpp\<close> and the second half of \<^verbatim>\<open>src/rpc.cpp\<close>:
  requests and responses as variants, their serialisation (\<^verbatim>\<open>build_request\<close>,
  \<^verbatim>\<open>build_response\<close>), their parsers, and the functions that receive headers and payloads
  from a socket. The socket's \<^verbatim>\<open>async_read\<close>, \<^verbatim>\<open>async_write\<close> are parameters.
\<close>

section \<open>Messages\<close>

datatype procedure =
    PStat | PListdir | PReadlink | PMknod | PMkdir | PUnlink | PRmdir | PRename | PTruncate
  | PUtimens | PCopyFileRange | POpen | PClose | PRead | PWrite | PPing

definition procedures :: "procedure list" where
  "procedures = [PStat, PListdir, PReadlink, PMknod, PMkdir, PUnlink, PRmdir, PRename, PTruncate,
     PUtimens, PCopyFileRange, POpen, PClose, PRead, PWrite, PPing]"

primrec proc_u8 :: "procedure \<Rightarrow> u8" where
  "proc_u8 PStat = 0"
| "proc_u8 PListdir = 1"
| "proc_u8 PReadlink = 2"
| "proc_u8 PMknod = 3"
| "proc_u8 PMkdir = 4"
| "proc_u8 PUnlink = 5"
| "proc_u8 PRmdir = 6"
| "proc_u8 PRename = 7"
| "proc_u8 PTruncate = 8"
| "proc_u8 PUtimens = 9"
| "proc_u8 PCopyFileRange = 10"
| "proc_u8 POpen = 11"
| "proc_u8 PClose = 12"
| "proc_u8 PRead = 13"
| "proc_u8 PWrite = 14"
| "proc_u8 PPing = 15"

text \<open>\<^verbatim>\<open>OpenMode\<close> has a fixed underlying type and is read unchecked: any byte can occur.\<close>

type_synonym open_mode = u8

abbreviation om_read :: open_mode where "om_read \<equiv> 0"
abbreviation om_write :: open_mode where "om_write \<equiv> 1"
abbreviation om_read_write :: open_mode where "om_read_write \<equiv> 2"

record timespec =
  tv_sec :: i64
  tv_nsec :: i64

definition to_timespec :: "i64 \<Rightarrow> i64 \<Rightarrow> timespec" where
  "to_timespec s ns = \<lparr>tv_sec = s, tv_nsec = ns\<rparr>"

record rpc_stat =
  rs_size :: i64
  rs_links :: u64
  rs_mtime :: timespec
  rs_atime :: timespec
  rs_ctime :: timespec
  rs_mode :: u32
  rs_uid :: u32
  rs_gid :: u32

text \<open>
  The output buffers of \<^verbatim>\<open>req::Listdir\<close> and \<^verbatim>\<open>req::Readlink\<close> are where the response's data
  is placed; the model's responses hold the data. \<^verbatim>\<open>req::Read\<close> keeps the size of its buffer.
\<close>

datatype request =
    ReqStat str
  | ReqListdir str
  | ReqReadlink str
  | ReqMknod str u32 u64
  | ReqMkdir str u32
  | ReqUnlink str
  | ReqRmdir str
  | ReqRename str str u32
  | ReqTruncate str i64
  | ReqUtimens str timespec timespec
  | ReqCopyFileRange str i64 str i64 u64
  | ReqOpen str open_mode
  | ReqClose u64
  | ReqRead u64 i64 u64
  | ReqWrite u64 i64 "u8 list"
  | ReqPing u64

datatype response =
    RespStat rpc_stat
  | RespListdir "(str \<times> rpc_stat) list"
  | RespReadlink str
  | RespMknod
  | RespMkdir
  | RespUnlink
  | RespRmdir
  | RespRename
  | RespTruncate
  | RespUtimens
  | RespCopyFileRange u64
  | RespOpen u64
  | RespClose
  | RespRead "u8 list"
  | RespWrite u64
  | RespPing u64

datatype fallible_response = OkResponse response | FailedResponse procedure errc

primrec req_proc :: "request \<Rightarrow> procedure" where
  "req_proc (ReqStat p) = PStat"
| "req_proc (ReqListdir p) = PListdir"
| "req_proc (ReqReadlink p) = PReadlink"
| "req_proc (ReqMknod p m d) = PMknod"
| "req_proc (ReqMkdir p m) = PMkdir"
| "req_proc (ReqUnlink p) = PUnlink"
| "req_proc (ReqRmdir p) = PRmdir"
| "req_proc (ReqRename p q f) = PRename"
| "req_proc (ReqTruncate p s) = PTruncate"
| "req_proc (ReqUtimens p a m) = PUtimens"
| "req_proc (ReqCopyFileRange p i q j s) = PCopyFileRange"
| "req_proc (ReqOpen p m) = POpen"
| "req_proc (ReqClose f) = PClose"
| "req_proc (ReqRead f i s) = PRead"
| "req_proc (ReqWrite f i b) = PWrite"
| "req_proc (ReqPing n) = PPing"

primrec resp_proc :: "response \<Rightarrow> procedure" where
  "resp_proc (RespStat s) = PStat"
| "resp_proc (RespListdir es) = PListdir"
| "resp_proc (RespReadlink t) = PReadlink"
| "resp_proc RespMknod = PMknod"
| "resp_proc RespMkdir = PMkdir"
| "resp_proc RespUnlink = PUnlink"
| "resp_proc RespRmdir = PRmdir"
| "resp_proc RespRename = PRename"
| "resp_proc RespTruncate = PTruncate"
| "resp_proc RespUtimens = PUtimens"
| "resp_proc (RespCopyFileRange n) = PCopyFileRange"
| "resp_proc (RespOpen f) = POpen"
| "resp_proc RespClose = PClose"
| "resp_proc (RespRead b) = PRead"
| "resp_proc (RespWrite n) = PWrite"
| "resp_proc (RespPing n) = PPing"

record request_header =
  qh_id :: u32
  qh_proc :: procedure
  qh_size :: u64

record response_header =
  ph_id :: u32
  ph_proc :: procedure
  ph_status :: errc
  ph_size :: u64

section \<open>Building\<close>

definition write_procedure :: "bool \<Rightarrow> procedure \<Rightarrow> u8 list \<Rightarrow> u8 list" where
  "write_procedure big p buf = write_int big (proc_u8 p) buf"

definition write_status :: "bool \<Rightarrow> errc \<Rightarrow> u8 list \<Rightarrow> u8 list" where
  "write_status big (st :: errc) buf = write_int big st buf"

definition write_id :: "bool \<Rightarrow> u32 \<Rightarrow> u8 list \<Rightarrow> u8 list" where
  "write_id big (rid :: u32) buf = write_int big rid buf"

definition write_open_mode :: "bool \<Rightarrow> open_mode \<Rightarrow> u8 list \<Rightarrow> u8 list" where
  "write_open_mode big (m :: u8) buf = write_int big m buf"

definition request_header_size :: nat where
  "request_header_size = 4 + 1 + 8"

definition response_header_size :: nat where
  "response_header_size = 4 + 1 + 4 + 8"

definition request_builder :: "bool \<Rightarrow> u32 \<Rightarrow> procedure \<Rightarrow> u8 list" where
  "request_builder big rid p = write_int big (0 :: u64) (write_procedure big p (write_id big rid []))"

definition response_builder :: "bool \<Rightarrow> u32 \<Rightarrow> procedure \<Rightarrow> errc \<Rightarrow> u8 list" where
  "response_builder big rid p st =
     write_int big (0 :: u64) (write_status big st (write_procedure big p (write_id big rid [])))"

text \<open>\<^verbatim>\<open>build()\<close>: the size field, written as zero before, is overwritten in place.\<close>

definition build :: "bool \<Rightarrow> nat \<Rightarrow> u8 list \<Rightarrow> u8 list" where
  "build big header_size buf =
     (let arr = to_net_bytes big (word_of_nat (sub64 (length buf) header_size) :: u64)
      in take (header_size - 8) buf @ arr @ drop header_size buf)"

primrec write_request :: "bool \<Rightarrow> request \<Rightarrow> u8 list \<Rightarrow> u8 list" where
  "write_request big (ReqStat p) b = write_path big p b"
| "write_request big (ReqListdir p) b = write_path big p b"
| "write_request big (ReqReadlink p) b = write_path big p b"
| "write_request big (ReqMknod p m d) b = write_int big d (write_int big m (write_path big p b))"
| "write_request big (ReqMkdir p m) b = write_int big m (write_path big p b)"
| "write_request big (ReqUnlink p) b = write_path big p b"
| "write_request big (ReqRmdir p) b = write_path big p b"
| "write_request big (ReqRename p q f) b = write_int big f (write_path big q (write_path big p b))"
| "write_request big (ReqTruncate p s) b = write_int big s (write_path big p b)"
| "write_request big (ReqUtimens p a m) b =
     write_int big (tv_nsec m) (write_int big (tv_sec m)
       (write_int big (tv_nsec a) (write_int big (tv_sec a) (write_path big p b))))"
| "write_request big (ReqCopyFileRange p i q j s) b =
     write_int big s (write_int big j (write_path big q (write_int big i (write_path big p b))))"
| "write_request big (ReqOpen p m) b = write_open_mode big m (write_path big p b)"
| "write_request big (ReqClose f) b = write_int big f b"
| "write_request big (ReqRead f i s) b = write_int big s (write_int big i (write_int big f b))"
| "write_request big (ReqWrite f i bs) b = write_bytes big bs (write_int big i (write_int big f b))"
| "write_request big (ReqPing n) b = write_int big n b"

definition build_request :: "bool \<Rightarrow> request \<Rightarrow> u32 \<Rightarrow> u8 list" where
  "build_request big req rid =
     build big request_header_size (write_request big req (request_builder big rid (req_proc req)))"

definition write_stat :: "bool \<Rightarrow> rpc_stat \<Rightarrow> u8 list \<Rightarrow> u8 list" where
  "write_stat big s b =
     write_int big (rs_gid s) (write_int big (rs_uid s) (write_int big (rs_mode s)
      (write_int big (tv_nsec (rs_ctime s)) (write_int big (tv_sec (rs_ctime s))
      (write_int big (tv_nsec (rs_atime s)) (write_int big (tv_sec (rs_atime s))
      (write_int big (tv_nsec (rs_mtime s)) (write_int big (tv_sec (rs_mtime s))
      (write_int big (rs_links s) (write_int big (rs_size s) b))))))))))"

primrec write_entries :: "bool \<Rightarrow> (str \<times> rpc_stat) list \<Rightarrow> u8 list \<Rightarrow> u8 list" where
  "write_entries big [] b = b"
| "write_entries big (e # es) b = write_entries big es (write_stat big (snd e) (write_path big (fst e) b))"

primrec write_response :: "bool \<Rightarrow> response \<Rightarrow> u8 list \<Rightarrow> u8 list" where
  "write_response big (RespStat s) b = write_stat big s b"
| "write_response big (RespListdir es) b =
     write_entries big es (write_int big (word_of_nat (length es) :: u64) b)"
| "write_response big (RespReadlink t) b = write_path big t b"
| "write_response big RespMknod b = b"
| "write_response big RespMkdir b = b"
| "write_response big RespUnlink b = b"
| "write_response big RespRmdir b = b"
| "write_response big RespRename b = b"
| "write_response big RespTruncate b = b"
| "write_response big RespUtimens b = b"
| "write_response big (RespCopyFileRange n) b = write_int big n b"
| "write_response big (RespOpen f) b = write_int big f b"
| "write_response big RespClose b = b"
| "write_response big (RespRead bs) b = write_bytes big bs b"
| "write_response big (RespWrite n) b = write_int big n b"
| "write_response big (RespPing n) b = write_int big n b"

primrec build_response :: "bool \<Rightarrow> fallible_response \<Rightarrow> u32 \<Rightarrow> u8 list" where
  "build_response big (FailedResponse p st) rid =
     build big response_header_size (response_builder big rid p st)"
| "build_response big (OkResponse resp) rid =
     build big response_header_size
       (write_response big resp (response_builder big rid (resp_proc resp) errc_ok))"

section \<open>Parsing\<close>

definition rd_map :: "('a \<Rightarrow> 'b option) \<Rightarrow> 'a rd \<Rightarrow> 'b rd" where
  "rd_map f m r = (case m r of
       Inl e \<Rightarrow> Inl e
     | Inr (None, r') \<Rightarrow> Inr (None, r')
     | Inr (Some v, r') \<Rightarrow> Inr (f v, r'))"

definition proc_of_u8 :: "u8 \<Rightarrow> procedure option" where
  "proc_of_u8 v = (if unat v < length procedures then Some (procedures ! unat v) else None)"

definition read_procedure :: "bool \<Rightarrow> procedure rd" where
  "read_procedure big = rd_map proc_of_u8 (read_int big)"

text \<open>\<^verbatim>\<open>read_status\<close>: the lambda's parameter is a \<^verbatim>\<open>u8\<close>, so the \<^verbatim>\<open>i32\<close> is narrowed.\<close>

definition read_status :: "bool \<Rightarrow> errc rd" where
  "read_status big = rd_map (\<lambda>v :: i32. Some (ucast (ucast v :: u8))) (read_int big)"

definition read_id :: "bool \<Rightarrow> u32 rd" where
  "read_id big = read_int big"

definition read_open_mode :: "bool \<Rightarrow> open_mode rd" where
  "read_open_mode big = read_int big"

text \<open>
  \<^verbatim>\<open>vector::resize\<close> and \<^verbatim>\<open>reserve\<close> throw beyond \<^verbatim>\<open>max_size()\<close>; nothing in this code catches
  it. \<open>max_size\<close> is \<open>2 ^ 63 - 1\<close> divided by the size of an element.
\<close>

definition max_size :: "nat \<Rightarrow> nat" where
  "max_size elem = (2 ^ 63 - 1) div elem"

definition parse_request :: "bool \<Rightarrow> u8 list \<Rightarrow> procedure \<Rightarrow> request option expect" where
  "parse_request big payload p = transform ((case p of
       PStat \<Rightarrow> TRY (read_path big) (\<lambda>p. rd_return (ReqStat p))
     | PListdir \<Rightarrow> TRY (read_path big) (\<lambda>p. rd_return (ReqListdir p))
     | PReadlink \<Rightarrow> TRY (read_path big) (\<lambda>p. rd_return (ReqReadlink p))
     | PMknod \<Rightarrow> TRY (read_path big) (\<lambda>p. TRY (read_int big) (\<lambda>mode. TRY (read_int big) (\<lambda>dev.
         rd_return (ReqMknod p mode dev))))
     | PMkdir \<Rightarrow> TRY (read_path big) (\<lambda>p. TRY (read_int big) (\<lambda>mode. rd_return (ReqMkdir p mode)))
     | PUnlink \<Rightarrow> TRY (read_path big) (\<lambda>p. rd_return (ReqUnlink p))
     | PRmdir \<Rightarrow> TRY (read_path big) (\<lambda>p. rd_return (ReqRmdir p))
     | PRename \<Rightarrow> TRY (read_path big) (\<lambda>from. TRY (read_path big) (\<lambda>to. TRY (read_int big) (\<lambda>flags.
         rd_return (ReqRename from to flags))))
     | PTruncate \<Rightarrow> TRY (read_path big) (\<lambda>p. TRY (read_int big) (\<lambda>size. rd_return (ReqTruncate p size)))
     | PUtimens \<Rightarrow> TRY (read_path big) (\<lambda>p.
         TRY (read_int big) (\<lambda>atime_sec. TRY (read_int big) (\<lambda>atime_nsec.
         TRY (read_int big) (\<lambda>mtime_sec. TRY (read_int big) (\<lambda>mtime_nsec.
         rd_return (ReqUtimens p (to_timespec atime_sec atime_nsec) (to_timespec mtime_sec mtime_nsec)))))))
     | PCopyFileRange \<Rightarrow> TRY (read_path big) (\<lambda>in_path. TRY (read_int big) (\<lambda>in_offset.
         TRY (read_path big) (\<lambda>out_path. TRY (read_int big) (\<lambda>out_offset. TRY (read_int big) (\<lambda>size.
         rd_return (ReqCopyFileRange in_path in_offset out_path out_offset size))))))
     | POpen \<Rightarrow> TRY (read_path big) (\<lambda>p. TRY (read_open_mode big) (\<lambda>mode. rd_return (ReqOpen p mode)))
     | PClose \<Rightarrow> TRY (read_int big) (\<lambda>fd. rd_return (ReqClose fd))
     | PRead \<Rightarrow> TRY (read_int big) (\<lambda>fd. TRY (read_int big) (\<lambda>offset. TRY (read_int big) (\<lambda>size.
         if unat size > max_size 1 then (\<lambda>_. Inl UB) else rd_return (ReqRead fd offset size))))
     | PWrite \<Rightarrow> TRY (read_int big) (\<lambda>fd. TRY (read_int big) (\<lambda>offset. TRY (read_bytes big) (\<lambda>bytes.
         rd_return (ReqWrite fd offset bytes))))
     | PPing \<Rightarrow> TRY (read_int big) (\<lambda>num. rd_return (ReqPing num))) (mk_reader payload)) fst"

definition read_stat :: "bool \<Rightarrow> rpc_stat rd" where
  "read_stat big =
     TRY (read_int big) (\<lambda>size. TRY (read_int big) (\<lambda>links.
     TRY (read_int big) (\<lambda>mtime_sec. TRY (read_int big) (\<lambda>mtime_nsec.
     TRY (read_int big) (\<lambda>atime_sec. TRY (read_int big) (\<lambda>atime_nsec.
     TRY (read_int big) (\<lambda>ctime_sec. TRY (read_int big) (\<lambda>ctime_nsec.
     TRY (read_int big) (\<lambda>mode. TRY (read_int big) (\<lambda>uid. TRY (read_int big) (\<lambda>gid.
     rd_return \<lparr>rs_size = size, rs_links = links, rs_mtime = to_timespec mtime_sec mtime_nsec,
       rs_atime = to_timespec atime_sec atime_nsec, rs_ctime = to_timespec ctime_sec ctime_nsec,
       rs_mode = mode, rs_uid = uid, rs_gid = gid\<rparr>)))))))))))"

text \<open>
  The listing loop: names are appended to the request's buffer (with a terminator) and
  remembered as offset and size; the views are taken after the loop, when the buffer no
  longer moves.
\<close>

fun read_entries :: "bool \<Rightarrow> nat \<Rightarrow> u8 list \<Rightarrow> (nat \<times> nat \<times> rpc_stat) list \<Rightarrow>
    (u8 list \<times> (nat \<times> nat \<times> rpc_stat) list) rd" where
  "read_entries big 0 buf slices = rd_return (buf, slices)"
| "read_entries big (Suc n) buf slices =
     TRY (read_path big) (\<lambda>p. TRY (read_stat big) (\<lambda>st.
       read_entries big n (buf @ bytes_of p @ [0]) (slices @ [(length buf, length p, st)])))"

definition view_entries :: "u8 list \<Rightarrow> (nat \<times> nat \<times> rpc_stat) list \<Rightarrow> (str \<times> rpc_stat) list" where
  "view_entries buf slices = map (\<lambda>(off, n, st). (str_of (sublist off n buf), st)) slices"

definition parse_response :: "bool \<Rightarrow> u8 list \<Rightarrow> request \<Rightarrow> response option expect" where
  "parse_response big buffer req = transform ((case req_proc req of
       PStat \<Rightarrow> TRY (read_stat big) (\<lambda>st. rd_return (RespStat st))
     | PListdir \<Rightarrow> TRY (read_int big) (\<lambda>size :: u64.
         if unat size > max_size 96 then (\<lambda>_. Inl UB)
         else TRY (read_entries big (unat size) [] [])
                (\<lambda>(buf, slices). rd_return (RespListdir (view_entries buf slices))))
     | PReadlink \<Rightarrow> TRY (read_path big) (\<lambda>p. rd_return (RespReadlink p))
     | PMknod \<Rightarrow> rd_return RespMknod
     | PMkdir \<Rightarrow> rd_return RespMkdir
     | PUnlink \<Rightarrow> rd_return RespUnlink
     | PRmdir \<Rightarrow> rd_return RespRmdir
     | PRename \<Rightarrow> rd_return RespRename
     | PTruncate \<Rightarrow> rd_return RespTruncate
     | PUtimens \<Rightarrow> rd_return RespUtimens
     | PCopyFileRange \<Rightarrow> TRY (read_int big) (\<lambda>size. rd_return (RespCopyFileRange size))
     | POpen \<Rightarrow> TRY (read_int big) (\<lambda>fd. rd_return (RespOpen fd))
     | PClose \<Rightarrow> rd_return RespClose
     | PRead \<Rightarrow> TRY (read_bytes big) (\<lambda>bytes.
         let out_size = (case req of ReqRead _ _ n \<Rightarrow> unat n | _ \<Rightarrow> 0) in
         rd_return (RespRead (take (min (length bytes) out_size) bytes)))
     | PWrite \<Rightarrow> TRY (read_int big) (\<lambda>size. rd_return (RespWrite size))
     | PPing \<Rightarrow> TRY (read_int big) (\<lambda>num. rd_return (RespPing num))) (mk_reader buffer)) fst"

section \<open>Receiving\<close>

text \<open>
  Errors of the socket: an error code of the generic or system category is an \<^verbatim>\<open>errno\<close>,
  any other category (\<^verbatim>\<open>asio.misc\<close>: end of file) is replaced by the fallback.
\<close>

datatype net_error = SystemError errc | OtherError nat

definition to_generic_err :: "net_error \<Rightarrow> errc \<Rightarrow> errc" where
  "to_generic_err ec fallback =
     (case ec of SystemError e \<Rightarrow> e
      | OtherError _ \<Rightarrow> if fallback \<noteq> errc_ok then fallback else invalid_argument)"

type_synonym 's sock_read = "nat \<Rightarrow> 's \<Rightarrow> (net_error + u8 list) \<times> 's"
type_synonym 's sock_write = "u8 list \<Rightarrow> 's \<Rightarrow> (net_error + nat) \<times> 's"

definition handle_read :: "(net_error + u8 list) \<Rightarrow> nat \<Rightarrow> u8 list expect" where
  "handle_read res want =
     (case res of Inl ec \<Rightarrow> Unexpect (to_generic_err ec not_connected)
      | Inr bs \<Rightarrow> if length bs \<noteq> want then Unexpect bad_message else Inr bs)"

definition handle_write :: "(net_error + nat) \<Rightarrow> nat \<Rightarrow> unit expect" where
  "handle_write res want =
     (case res of Inl ec \<Rightarrow> Unexpect (to_generic_err ec not_connected)
      | Inr n \<Rightarrow> if n \<noteq> want then Unexpect bad_message else Inr ())"

definition send_request :: "'s sock_write \<Rightarrow> bool \<Rightarrow> request \<Rightarrow> u32 \<Rightarrow> 's \<Rightarrow> unit expect \<times> 's" where
  "send_request wr big req rid s =
     (let payload = build_request big req rid; (n, s') = wr payload s
      in (handle_write n (length payload), s'))"

definition send_response :: "'s sock_write \<Rightarrow> bool \<Rightarrow> fallible_response \<Rightarrow> u32 \<Rightarrow> 's \<Rightarrow> unit expect \<times> 's" where
  "send_response wr big resp rid s =
     (let payload = build_response big resp rid; (n, s') = wr payload s
      in (handle_write n (length payload), s'))"

text \<open>
  \<^verbatim>\<open>Opt::value()\<close> throws on \<^verbatim>\<open>nullopt\<close>, which nothing catches here. A failed
  \<^verbatim>\<open>read_procedure\<close> does not end the function: the remaining fields are still read.
\<close>

definition rd_value :: "'a rd \<Rightarrow> ('a \<Rightarrow> reader \<Rightarrow> 'b expect) \<Rightarrow> reader \<Rightarrow> 'b expect" where
  "rd_value m f r = (case m r of
       Inl e \<Rightarrow> Inl e
     | Inr (None, r') \<Rightarrow> Inl UB
     | Inr (Some v, r') \<Rightarrow> f v r')"

definition rd_opt :: "'a rd \<Rightarrow> ('a option \<Rightarrow> reader \<Rightarrow> 'b expect) \<Rightarrow> reader \<Rightarrow> 'b expect" where
  "rd_opt m f r = (case m r of Inl e \<Rightarrow> Inl e | Inr (v, r') \<Rightarrow> f v r')"

definition parse_request_header :: "bool \<Rightarrow> u8 list \<Rightarrow> request_header expect" where
  "parse_request_header big header =
     rd_value (read_id big) (\<lambda>id. rd_opt (read_procedure big) (\<lambda>proc. rd_value (read_int big) (\<lambda>size r.
       case proc of None \<Rightarrow> Unexpect bad_message
       | Some p \<Rightarrow> Inr \<lparr>qh_id = id, qh_proc = p, qh_size = size\<rparr>))) (mk_reader header)"

definition parse_response_header :: "bool \<Rightarrow> u8 list \<Rightarrow> response_header expect" where
  "parse_response_header big header =
     rd_value (read_id big) (\<lambda>id. rd_opt (read_procedure big) (\<lambda>proc.
       rd_value (read_status big) (\<lambda>status. rd_value (read_int big) (\<lambda>size r.
       case proc of None \<Rightarrow> Unexpect bad_message
       | Some p \<Rightarrow> Inr \<lparr>ph_id = id, ph_proc = p, ph_status = status, ph_size = size\<rparr>)))) (mk_reader header)"

definition receive_request_header :: "'s sock_read \<Rightarrow> bool \<Rightarrow> 's \<Rightarrow> request_header expect \<times> 's" where
  "receive_request_header rd big s =
     (let (n, s') = rd request_header_size s
      in (and_then (handle_read n request_header_size) (parse_request_header big), s'))"

definition receive_response_header :: "'s sock_read \<Rightarrow> bool \<Rightarrow> 's \<Rightarrow> response_header expect \<times> 's" where
  "receive_response_header rd big s =
     (let (n, s') = rd response_header_size s
      in (and_then (handle_read n response_header_size) (parse_response_header big), s'))"

definition receive_request :: "'s sock_read \<Rightarrow> bool \<Rightarrow> request_header \<Rightarrow> 's \<Rightarrow> request expect \<times> 's" where
  "receive_request rd big h s =
     (let size = unat (qh_size h) in
      if size > max_size 1 then (Inl UB, s)
      else let (n, s') = rd size s in
        (and_then (handle_read n size) (\<lambda>buf.
           and_then (parse_request big buf (qh_proc h)) (\<lambda>r. ok_or r bad_message)), s'))"

definition receive_response :: "'s sock_read \<Rightarrow> bool \<Rightarrow> response_header \<Rightarrow> request \<Rightarrow> 's \<Rightarrow> response expect \<times> 's" where
  "receive_response rd big h req s =
     (if ph_status h \<noteq> errc_ok then (Unexpect (ph_status h), s)
      else if ph_proc h \<noteq> req_proc req then (Unexpect bad_message, s)
      else let size = unat (ph_size h) in
        if size > max_size 1 then (Inl UB, s)
        else let (n, s') = rd size s in
          (and_then (handle_read n size) (\<lambda>buf.
             and_then (parse_response big buf req) (\<lambda>r. ok_or r bad_message)), s'))"

section \<open>Payload encodings\<close>

lemma transform_rd_return [simp]: "transform (rd_return v r) fst = Inr (Some v)"
  by (simp add: rd_return_def)

definition enc_stat :: "bool \<Rightarrow> rpc_stat \<Rightarrow> u8 list" where
  "enc_stat big s =
     to_net_bytes big (rs_size s) @ to_net_bytes big (rs_links s) @
     to_net_bytes big (tv_sec (rs_mtime s)) @ to_net_bytes big (tv_nsec (rs_mtime s)) @
     to_net_bytes big (tv_sec (rs_atime s)) @ to_net_bytes big (tv_nsec (rs_atime s)) @
     to_net_bytes big (tv_sec (rs_ctime s)) @ to_net_bytes big (tv_nsec (rs_ctime s)) @
     to_net_bytes big (rs_mode s) @ to_net_bytes big (rs_uid s) @ to_net_bytes big (rs_gid s)"

lemma length_enc_stat [simp]: "length (enc_stat big s) = 76"
  by (simp add: enc_stat_def)

lemma write_stat_eq [wire_simps]: "write_stat big s b = b @ enc_stat big s"
  by (simp add: write_stat_def enc_stat_def write_simps)

lemma to_timespec_eta [simp]: "to_timespec (tv_sec t) (tv_nsec t) = t"
  by (simp add: to_timespec_def)

lemma read_stat_at:
  assumes "small (pre @ enc_stat big x @ post)"
  shows "read_stat big' (rd_at pre (enc_stat big x @ post)) = Inr (Some x, rd_at (pre @ enc_stat big x) post)"
proof -
  have "length pre + length post + 76 < 2 ^ 63" using assms by (simp add: small_def)
  then show ?thesis
    by (simp add: read_stat_def enc_stat_def int_codec.TRY_enc small_def rd_return_def)
qed

lemma read_stat_trunc:
  assumes "small (pre @ enc_stat big x)" "n < length (enc_stat big x)"
  shows "transform (read_stat big' (rd_at pre (take n (enc_stat big x)))) fst = Inr None"
proof -
  have "length pre + 76 < 2 ^ 63" "n < 76" using assms by (simp_all add: small_def)
  then show ?thesis
    by (simp add: read_stat_def enc_stat_def int_codec.TRY_take int_codec.TRY_take_end small_def
        del: take_append)
qed

interpretation stat_codec: codec "enc_stat big" "read_stat big'" "\<lambda>_. True" for big big'
  by unfold_locales (rule read_stat_at read_stat_trunc, assumption+)+

lemma TRY_assoc: "TRY (TRY m f) g = TRY m (\<lambda>x. TRY (f x) g)"
  by (rule ext) (simp add: TRY_def split: sum.splits option.splits prod.splits)

lemma TRY_return [simp]: "TRY (rd_return v) f = f v"
  by (rule ext) (simp add: TRY_def rd_return_def)

primrec enc_entries :: "bool \<Rightarrow> (str \<times> rpc_stat) list \<Rightarrow> u8 list" where
  "enc_entries big [] = []"
| "enc_entries big (e # es) = enc_path big (fst e) @ enc_stat big (snd e) @ enc_entries big es"

lemma write_entries_eq [wire_simps]: "write_entries big es b = b @ enc_entries big es"
  by (induction es arbitrary: b) (simp_all add: wire_simps)

primrec entry_slices :: "nat \<Rightarrow> (str \<times> rpc_stat) list \<Rightarrow> (nat \<times> nat \<times> rpc_stat) list" where
  "entry_slices off [] = []"
| "entry_slices off (e # es) =
     (off, length (fst e), snd e) # entry_slices (off + length (fst e) + 1) es"

definition entry_names :: "(str \<times> rpc_stat) list \<Rightarrow> u8 list" where
  "entry_names es = concat (map (\<lambda>e. bytes_of (fst e) @ [0]) es)"

lemma entry_names_simps [simp]:
  "entry_names [] = []" "entry_names (e # es) = bytes_of (fst e) @ 0 # entry_names es"
  by (simp_all add: entry_names_def)

lemma view_entry_slices: "view_entries (buf @ entry_names es) (entry_slices (length buf) es) = es"
proof (induction es arbitrary: buf)
  case (Cons e es)
  have "view_entries ((buf @ bytes_of (fst e) @ [0]) @ entry_names es)
     (entry_slices (length (buf @ bytes_of (fst e) @ [0])) es) = es"
    by (rule Cons.IH)
  then show ?case by (simp add: view_entries_def sublist_def)
qed (simp add: view_entries_def)

lemma read_entries_take:
  assumes "small (pre @ enc_entries big es)"
  shows "transform (TRY (read_entries big' (length es) buf slices) f (rd_at pre (take n (enc_entries big es)))) fst =
    (if n < length (enc_entries big es) then Inr None
     else transform (f (buf @ entry_names es, slices @ entry_slices (length buf) es)
            (rd_at (pre @ enc_entries big es) [])) fst)"
  using assms
proof (induction es arbitrary: pre buf slices n)
  case (Cons e es)
  let ?b = "buf @ bytes_of (fst e) @ [0]" and ?s = "slices @ [(length buf, length (fst e), snd e)]"
  have len: "length pre + (9 + length (fst e)) + 76 + length (enc_entries big es) < 2 ^ 63"
    using Cons.prems by (simp add: small_def)
  have "small ((pre @ enc_path big (fst e) @ enc_stat big (snd e)) @ enc_entries big es)"
    using Cons.prems by (simp add: small_def)
  note ih = Cons.IH [OF this, of ?b ?s]
  show ?case
    using len
    by (simp add: TRY_assoc path_codec.TRY_take stat_codec.TRY_take small_def ih del: take_append take_all) auto
qed simp

lemma write_request_append: "write_request big r b = b @ write_request big r []"
  by (cases r) (simp_all add: wire_simps write_open_mode_def)

lemma write_response_append: "write_response big r b = b @ write_response big r []"
  by (cases r) (simp_all add: wire_simps)

text \<open>
  What fits: every buffer is below \<open>2 ^ 63\<close> bytes, a requested read size is one a vector
  can have, and a listing does not exceed \<^verbatim>\<open>reserve\<close>'s limit.
\<close>

definition request_fits :: "bool \<Rightarrow> request \<Rightarrow> bool" where
  "request_fits big r = (small (write_request big r []) \<and>
     (case r of ReqRead _ _ n \<Rightarrow> unat n \<le> max_size 1 | _ \<Rightarrow> True))"

definition response_fits :: "bool \<Rightarrow> request \<Rightarrow> response \<Rightarrow> bool" where
  "response_fits big req r = (small (write_response big r []) \<and> resp_proc r = req_proc req \<and>
     (case r of RespListdir es \<Rightarrow> length es \<le> max_size 96
      | RespRead bs \<Rightarrow> (case req of ReqRead _ _ n \<Rightarrow> length bs \<le> unat n | _ \<Rightarrow> True)
      | _ \<Rightarrow> True))"

lemma parse_request_take:
  assumes "request_fits big r"
  shows "parse_request big' (take n (write_request big r [])) (req_proc r) =
    Inr (if n < length (write_request big r []) then None else Some r)"
  using assms
  by (cases r) (auto simp: request_fits_def parse_request_def wire_simps write_open_mode_def
      read_open_mode_def mk_reader_at codec_take small_def simp del: take_append take_all)


lemma parse_response_take:
  assumes "response_fits big req r"
  shows "parse_response big' (take n (write_response big r [])) req =
    Inr (if n < length (write_response big r []) then None else Some r)"
proof (cases r)
  case (RespListdir es)
  have m: "max_size 96 < 2 ^ 64" by (simp add: max_size_def)
  have p: "req_proc req = PListdir" and le: "length es \<le> max_size 96"
    and sm: "8 + length (enc_entries big es) < 2 ^ 63"
    using assms RespListdir by (auto simp: response_fits_def wire_simps small_def)
  have u: "unat (word_of_nat (length es) :: u64) = length es"
    by (rule unat_u64) (use le m in linarith)
  have "small (to_net_bytes big (word_of_nat (length es) :: u64) @ enc_entries big es)"
    using sm by (simp add: small_def)
  note rd = read_entries_take [OF this, of big' "[]" "[]"]
  show ?thesis
    using sm le view_entry_slices [of "[]" es]
    by (simp add: RespListdir parse_response_def p wire_simps mk_reader_at int_codec.TRY_take
        small_def u rd del: take_append take_all) auto
qed (use assms in \<open>auto simp: response_fits_def parse_response_def wire_simps mk_reader_at codec_take
      stat_codec.TRY_take_end small_def split: request.splits simp del: take_append take_all\<close>)

section \<open>Headers\<close>

lemma build_request_eq:
  "build_request big r rid = to_net_bytes big rid @ to_net_bytes big (proc_u8 (req_proc r)) @
     to_net_bytes big (word_of_nat (length (write_request big r [])) :: u64) @ write_request big r []"
  by (simp add: build_request_def build_def Let_def request_header_size_def request_builder_def
      write_id_def write_procedure_def write_request_append [of big r "_ @ _"] wire_simps)

lemma build_response_eq:
  "build_response big (OkResponse r) rid = to_net_bytes big rid @ to_net_bytes big (proc_u8 (resp_proc r)) @
     to_net_bytes big (0 :: errc) @
     to_net_bytes big (word_of_nat (length (write_response big r [])) :: u64) @ write_response big r []"
  "build_response big (FailedResponse p st) rid = to_net_bytes big rid @ to_net_bytes big (proc_u8 p) @
     to_net_bytes big st @ to_net_bytes big (0 :: u64)"
  by (simp_all add: build_def Let_def response_header_size_def response_builder_def
      write_id_def write_procedure_def write_status_def write_response_append [of big r "_ @ _"] wire_simps)

lemma proc_of_proc_u8 [simp]: "proc_of_u8 (proc_u8 p) = Some p"
  by (cases p) (simp_all add: proc_of_u8_def procedures_def)

lemma rd_map_at:
  "codec enc dec ok \<Longrightarrow> ok x \<Longrightarrow> small (pre @ enc x @ post) \<Longrightarrow>
     rd_map f dec (rd_at pre (enc x @ post)) = Inr (f x, rd_at (pre @ enc x) post)"
  by (simp add: rd_map_def codec.dec_enc)

lemmas header_reads =
  rd_map_at [OF int_codec.codec_axioms] rd_map_at [OF int_codec.codec_axioms, where post = "[]", simplified]
  int_codec.dec_enc int_codec.dec_enc [where post = "[]", simplified]

lemma parse_request_header_eq:
  "parse_request_header big' (to_net_bytes big rid @ to_net_bytes big v @ to_net_bytes big sz) =
     (case proc_of_u8 v of None \<Rightarrow> Unexpect bad_message
      | Some p \<Rightarrow> Inr \<lparr>qh_id = rid, qh_proc = p, qh_size = sz\<rparr>)"
  by (simp add: parse_request_header_def rd_value_def rd_opt_def read_id_def read_procedure_def
      mk_reader_at header_reads small_def)

lemma parse_response_header_eq:
  "parse_response_header big' (to_net_bytes big rid @ to_net_bytes big v @
     to_net_bytes big (st :: errc) @ to_net_bytes big sz) =
     (case proc_of_u8 v of None \<Rightarrow> Unexpect bad_message
      | Some p \<Rightarrow> Inr \<lparr>ph_id = rid, ph_proc = p, ph_status = ucast (ucast st :: u8), ph_size = sz\<rparr>)"
  by (simp add: parse_response_header_def rd_value_def rd_opt_def read_id_def read_procedure_def
      read_status_def mk_reader_at header_reads small_def)

section \<open>Messages over a byte stream\<close>

text \<open>
  What the code relies on of \<^verbatim>\<open>async_read\<close>: while enough bytes are pending it delivers
  exactly the requested number, in order, and consumes them.
\<close>

definition stream_ok :: "'s sock_read \<Rightarrow> ('s \<Rightarrow> u8 list) \<Rightarrow> bool" where
  "stream_ok rd pend = (\<forall>n s. n \<le> length (pend s) \<longrightarrow>
     (\<exists>s'. rd n s = (Inr (take n (pend s)), s') \<and> pend s' = drop n (pend s)))"

lemma stream_okD:
  assumes "stream_ok rd pend" "pend s = xs @ ys" "n = length xs"
  obtains s' where "rd n s = (Inr xs, s')" "pend s' = ys"
proof -
  have "n \<le> length (pend s)" "take n (pend s) = xs" "drop n (pend s) = ys"
    using assms(2,3) by simp_all
  with assms(1) that show ?thesis unfolding stream_ok_def by metis
qed

lemma fits_max_size: "small xs \<Longrightarrow> length xs \<le> max_size 1 \<and> unat (word_of_nat (length xs) :: u64) = length xs"
  using unat_u64 [of "length xs"] by (auto simp: small_def max_size_def)

lemma receive_request_at:
  assumes "stream_ok rd pend" "request_fits big req" "pend s = build_request big req rid @ rest"
  shows "\<exists>h s1 s2. receive_request_header rd big' s = (Inr h, s1) \<and> qh_id h = rid \<and>
    receive_request rd big' h s1 = (Inr req, s2) \<and> pend s2 = rest"
proof -
  let ?p = "write_request big req []"
  let ?sz = "word_of_nat (length ?p) :: u64"
  let ?h = "to_net_bytes big rid @ to_net_bytes big (proc_u8 (req_proc req)) @ to_net_bytes big ?sz"
  have p: "pend s = ?h @ ?p @ rest" using assms(3) by (simp add: build_request_eq)
  then obtain s1 where r1: "rd request_header_size s = (Inr ?h, s1)" and p1: "pend s1 = ?p @ rest"
    by (rule stream_okD [OF assms(1)]) (simp_all add: request_header_size_def)
  obtain s2 where r2: "rd (length ?p) s1 = (Inr ?p, s2)" and p2: "pend s2 = rest"
    by (rule stream_okD [OF assms(1) p1 refl])
  have sz: "length ?p \<le> max_size 1" "unat ?sz = length ?p"
    using fits_max_size [of ?p] assms(2) by (auto simp: request_fits_def)
  have "receive_request_header rd big' s = (Inr \<lparr>qh_id = rid, qh_proc = req_proc req, qh_size = ?sz\<rparr>, s1)"
    by (simp add: receive_request_header_def r1 handle_read_def parse_request_header_eq)
      (simp add: request_header_size_def)
  moreover have "receive_request rd big' \<lparr>qh_id = rid, qh_proc = req_proc req, qh_size = ?sz\<rparr> s1 = (Inr req, s2)"
    using sz parse_request_take [OF assms(2), of big' "length ?p"]
    by (simp add: receive_request_def r2 handle_read_def)
  ultimately show ?thesis using p2 by auto
qed

lemma receive_response_at:
  assumes "stream_ok rd pend" "response_fits big req resp"
    "pend s = build_response big (OkResponse resp) rid @ rest"
  shows "\<exists>h s1 s2. receive_response_header rd big' s = (Inr h, s1) \<and> ph_id h = rid \<and>
    receive_response rd big' h req s1 = (Inr resp, s2) \<and> pend s2 = rest"
proof -
  let ?p = "write_response big resp []"
  let ?sz = "word_of_nat (length ?p) :: u64"
  let ?h = "to_net_bytes big rid @ to_net_bytes big (proc_u8 (resp_proc resp)) @
    to_net_bytes big (0 :: errc) @ to_net_bytes big ?sz"
  have p: "pend s = ?h @ ?p @ rest" using assms(3) by (simp add: build_response_eq del: build_response.simps)
  then obtain s1 where r1: "rd response_header_size s = (Inr ?h, s1)" and p1: "pend s1 = ?p @ rest"
    by (rule stream_okD [OF assms(1)]) (simp_all add: response_header_size_def)
  obtain s2 where r2: "rd (length ?p) s1 = (Inr ?p, s2)" and p2: "pend s2 = rest"
    by (rule stream_okD [OF assms(1) p1 refl])
  have sz: "length ?p \<le> max_size 1" "unat ?sz = length ?p"
    using fits_max_size [of ?p] assms(2) by (auto simp: response_fits_def)
  let ?hd = "\<lparr>ph_id = rid, ph_proc = resp_proc resp, ph_status = 0, ph_size = ?sz\<rparr>"
  have "receive_response_header rd big' s = (Inr ?hd, s1)"
    by (simp add: receive_response_header_def r1 handle_read_def parse_response_header_eq)
      (simp add: response_header_size_def)
  moreover have "receive_response rd big' ?hd req s1 = (Inr resp, s2)"
    using sz parse_response_take [OF assms(2), of big' "length ?p"] assms(2)
    by (simp add: receive_response_def r2 handle_read_def response_fits_def)
  ultimately show ?thesis using p2 by auto
qed

lemma receive_failure_at:
  assumes "stream_ok rd pend" "pend s = build_response big (FailedResponse p st) rid @ rest"
  shows "\<exists>h s1. receive_response_header rd big' s = (Inr h, s1) \<and> ph_id h = rid \<and> ph_proc h = p \<and>
    ph_status h = ucast (ucast st :: u8) \<and> pend s1 = rest"
proof -
  let ?h = "to_net_bytes big rid @ to_net_bytes big (proc_u8 p) @ to_net_bytes big st @ to_net_bytes big (0 :: u64)"
  have p: "pend s = ?h @ rest" using assms(2) by (simp add: build_response_eq del: build_response.simps)
  then obtain s1 where r1: "rd response_header_size s = (Inr ?h, s1)" and p1: "pend s1 = rest"
    by (rule stream_okD [OF assms(1)]) (simp_all add: response_header_size_def)
  have "receive_response_header rd big' s =
      (Inr \<lparr>ph_id = rid, ph_proc = p, ph_status = ucast (ucast st :: u8), ph_size = 0\<rparr>, s1)"
    by (simp add: receive_response_header_def r1 handle_read_def parse_response_header_eq)
      (simp add: response_header_size_def)
  with p1 show ?thesis by auto
qed

section \<open>Properties\<close>

text \<open>Network order does not depend on the host: any two hosts write the same bytes, read
  back the value the other wrote, and the most significant byte comes first.\<close>

theorem net_order_correct:
  fixes v :: u64 and w :: u32
  shows "to_net_bytes big v = to_net_bytes big' v \<and> from_net_bytes big' (to_net_bytes big v) = v \<and>
    to_net_bytes big w = to_net_bytes big' w \<and> from_net_bytes big' (to_net_bytes big w) = w \<and>
    to_net_bytes big v = rev (le_bytes 8 (unat v))"
  by (simp add: net_bytes_roundtrip) (simp add: to_net_bytes_eq)

text \<open>C31: the request parser, given the first \<open>n\<close> bytes of the payload a client of any endianness
  built, returns the request when the payload is complete and \<^verbatim>\<open>nullopt\<close> when it is cut
  anywhere; it never reads outside the buffer.\<close>

theorem parse_request_correct:
  "request_fits big r \<Longrightarrow>
   parse_request big' (take n (write_request big r [])) (req_proc r) =
     Inr (if n < length (write_request big r []) then None else Some r)"
  by (rule parse_request_take)

theorem parse_request_correct_witness:
  "parse_request True (write_request False (ReqRename ''/a'' ''/b'' 1) []) PRename =
     Inr (Some (ReqRename ''/a'' ''/b'' 1)) \<and>
   parse_request True (take 20 (write_request False (ReqRename ''/a'' ''/b'' 1) [])) PRename = Inr None"
proof -
  let ?r = "ReqRename ''/a'' ''/b'' 1"
  have l: "length (write_request False ?r []) = 26" by (simp add: wire_simps)
  then have f: "request_fits False ?r" by (simp add: request_fits_def small_def del: write_request.simps)
  from l parse_request_correct [OF f, of True 26] parse_request_correct [OF f, of True 20]
  show ?thesis by (simp del: write_request.simps)
qed

text \<open>The response parser does the same for the payload of a response to the given request:
  every field, every directory entry and name comes back, and a cut payload is refused.\<close>

theorem parse_response_correct:
  "response_fits big req r \<Longrightarrow>
   parse_response big' (take n (write_response big r [])) req =
     Inr (if n < length (write_response big r []) then None else Some r)"
  by (rule parse_response_take)

theorem parse_response_correct_witness:
  "parse_response True (write_response False (RespRead [1, 2, 3]) []) (ReqRead 7 0 4) =
     Inr (Some (RespRead [1, 2, 3]))"
proof -
  have l: "length (write_response False (RespRead [1, 2, 3]) []) = 11" by (simp add: wire_simps)
  then have "response_fits False (ReqRead 7 0 4) (RespRead [1, 2, 3])"
    by (simp add: response_fits_def small_def del: write_response.simps)
  from l parse_response_correct [OF this, of True 11] show ?thesis by (simp del: write_response.simps)
qed

text \<open>C29: framing of requests. When the bytes of one sent request are next in the stream, the
  server receives its identifier and exactly that request, and the stream is left at the first
  byte after it, so the next request can be received the same way.\<close>

theorem receive_request_framing:
  assumes "stream_ok rd pend" "request_fits big req" "pend s = build_request big req rid @ rest"
  shows "\<exists>h s1 s2. receive_request_header rd big' s = (Inr h, s1) \<and> qh_id h = rid \<and>
    receive_request rd big' h s1 = (Inr req, s2) \<and> pend s2 = rest"
  by (rule receive_request_at [OF assms])

definition list_read :: "u8 list sock_read" where
  "list_read n s = (if n \<le> length s then (Inr (take n s), drop n s) else (Inl (OtherError 2), []))"

lemma list_read_ok: "stream_ok list_read (\<lambda>s. s)"
  by (simp add: stream_ok_def list_read_def)

theorem receive_request_framing_witness:
  "\<exists>h s1 s2. receive_request_header list_read True (build_request False (ReqClose 5) 9 @ [1, 2]) = (Inr h, s1) \<and>
    qh_id h = 9 \<and> receive_request list_read True h s1 = (Inr (ReqClose 5), s2) \<and> s2 = [1, 2]"
  by (rule receive_request_framing [OF list_read_ok, of False "ReqClose 5"])
    (simp_all add: request_fits_def small_def wire_simps)

text \<open>C30: framing of responses. A successful response is received with its identifier and
  contents and consumes exactly its bytes; a failure response has no payload and is received
  with its status modulo 256, that is, with its status when that is below 256.\<close>

theorem receive_response_framing:
  assumes "stream_ok rd pend"
  shows "(response_fits big req resp \<and> pend s = build_response big (OkResponse resp) rid @ rest \<longrightarrow>
      (\<exists>h s1 s2. receive_response_header rd big' s = (Inr h, s1) \<and> ph_id h = rid \<and>
        receive_response rd big' h req s1 = (Inr resp, s2) \<and> pend s2 = rest)) \<and>
    (pend s = build_response big (FailedResponse p st) rid @ rest \<longrightarrow>
      (\<exists>h s1. receive_response_header rd big' s = (Inr h, s1) \<and> ph_id h = rid \<and> ph_proc h = p \<and>
        unat (ph_status h) = unat st mod 256 \<and> (unat st < 256 \<longrightarrow> ph_status h = st) \<and> pend s1 = rest))"
proof -
  have m: "unat (ucast (ucast st :: u8) :: errc) = unat st mod 256"
    by (simp add: unsigned_ucast_eq take_bit_eq_mod unat_mod_distrib)
  then have "unat st < 256 \<longrightarrow> (ucast (ucast st :: u8) :: errc) = st" by (simp add: word_unat_eq_iff)
  with m show ?thesis using receive_response_at [OF assms] receive_failure_at [OF assms] by metis
qed

theorem receive_response_framing_witness:
  "\<exists>h s1 s2. receive_response_header list_read True (build_response False (OkResponse (RespOpen 5)) 9 @ [1]) = (Inr h, s1) \<and>
    ph_id h = 9 \<and> receive_response list_read True h (ReqOpen ''/a'' 0) s1 = (Inr (RespOpen 5), s2) \<and> s2 = [1]"
  using receive_response_framing [OF list_read_ok, of False "ReqOpen ''/a'' 0" "RespOpen 5"
      "build_response False (OkResponse (RespOpen 5)) 9 @ [1]" 9 "[1]" True]
  by (simp add: response_fits_def small_def wire_simps del: build_response.simps)

text \<open>\<^verbatim>\<open>read_status\<close> narrows the 32-bit status to 8 bits: a failure response is received as
  a success exactly when the status is a multiple of 256.\<close>

theorem status_narrowed:
  "\<exists>h. parse_response_header big' (build_response big (FailedResponse p st) rid) = Inr h \<and>
     (ph_status h = errc_ok \<longleftrightarrow> unat st mod 256 = 0)"
proof -
  have "unat (ucast (ucast st :: u8) :: errc) = unat st mod 256"
    by (simp add: unsigned_ucast_eq take_bit_eq_mod unat_mod_distrib)
  then have "(ucast (ucast st :: u8) :: errc) = 0 \<longleftrightarrow> unat st mod 256 = 0"
    by (metis unsigned_eq_0_iff)
  then show ?thesis by (simp add: build_response_eq parse_response_header_eq del: build_response.simps)
qed

text \<open>The bound check of \<^verbatim>\<open>read_path\<close> wraps around: a 16-byte payload whose size field is
  \<open>2 ^ 64 - 7\<close> passes it and makes the parser form a span outside the buffer.\<close>

theorem read_path_overflow:
  "parse_request big (to_net_bytes big (word_of_nat (2 ^ 64 - 7) :: u64) @ replicate 8 0) PStat = Inl UB"
proof -
  have "unat (word_of_nat (2 ^ 64 - 7) :: u64) = 2 ^ 64 - 7" by (rule unat_u64) simp
  then show ?thesis
    by (simp add: parse_request_def mk_reader_at read_path_def TRY_assoc
        int_codec.TRY_enc small_def del: of_nat_numeral)
      (simp add: TRY_def Let_def add64_def sub64_def subspan_def)
qed

end
