(* ===== verification/Stat.thy ===== *)
theory Stat
  imports Rpc
begin

text \<open>
  The file status and open mode of \<^verbatim>\<open>madbfs/stat.hpp\<close>, with the conversions the connection
  performs between the RPC representation and this one.
\<close>

record stat =
  st_links :: u64
  st_size :: i64
  st_mtime :: timespec
  st_atime :: timespec
  st_ctime :: timespec
  st_mode :: u32
  st_uid :: u32
  st_gid :: u32

definition zero_time :: timespec where
  "zero_time = to_timespec 0 0"

definition default_stat :: stat where
  "default_stat = \<lparr>st_links = 1, st_size = 0, st_mtime = zero_time, st_atime = zero_time,
     st_ctime = zero_time, st_mode = 0, st_uid = 0, st_gid = 0\<rparr>"

definition to_stat :: "rpc_stat \<Rightarrow> stat" where
  "to_stat s = \<lparr>st_links = rs_links s, st_size = rs_size s, st_mtime = rs_mtime s,
     st_atime = rs_atime s, st_ctime = rs_ctime s, st_mode = rs_mode s, st_uid = rs_uid s,
     st_gid = rs_gid s\<rparr>"

text \<open>
  \<^verbatim>\<open>detect_modification\<close>: a signed comparison of the seconds, with a tolerance of two. The
  difference is taken over the integers (a signed overflow needs times \<open>2 ^ 63\<close> apart).
\<close>

definition detect_modification :: "stat \<Rightarrow> stat \<Rightarrow> bool" where
  "detect_modification host remote =
     (sint (tv_sec (st_mtime remote)) - sint (tv_sec (st_mtime host)) > 2)"

datatype omode = OM_Read | OM_Write | OM_ReadWrite

primrec to_open_mode :: "omode \<Rightarrow> open_mode" where
  "to_open_mode OM_Read = om_read"
| "to_open_mode OM_Write = om_write"
| "to_open_mode OM_ReadWrite = om_read_write"

text \<open>The file type bits of a mode: \<^verbatim>\<open>S_IFMT\<close> and the tests of \<^verbatim>\<open>sys/stat.h\<close>.\<close>

abbreviation S_IFMT :: u32 where "S_IFMT \<equiv> 0xF000"
abbreviation S_IFREG :: u32 where "S_IFREG \<equiv> 0x8000"
abbreviation S_IFDIR :: u32 where "S_IFDIR \<equiv> 0x4000"
abbreviation S_IFLNK :: u32 where "S_IFLNK \<equiv> 0xA000"

definition s_ifmt :: "u32 \<Rightarrow> u32" where
  "s_ifmt m = and m S_IFMT"

end
