(* ===== verification/Handles.thy ===== *)
theory Handles
  imports Stat
begin

text \<open>
  \<^verbatim>\<open>FileHandleStore\<close> of \<^verbatim>\<open>madbfs/file_handle_store.hpp\<close> and \<^verbatim>\<open>file_handle_store.cpp\<close>: a vector of
  seats, each empty (null node) or held by an open file. The contract a client relies on is
  the locale \<open>handle_table\<close>; it is interpreted on the operations of the store.
\<close>

section \<open>State and operations\<close>

type_synonym addr = nat

record file_handle =
  fh_node :: "addr option"
  fh_mode :: omode
  fh_real_fd :: u64

text \<open>A value-initialised handle: null node, mode and descriptor zero.\<close>

definition empty_handle :: file_handle where
  "empty_handle = \<lparr>fh_node = None, fh_mode = OM_Read, fh_real_fd = 0\<rparr>"

type_synonym handles = "file_handle list"

definition hs_find :: "handles \<Rightarrow> nat \<Rightarrow> file_handle option" where
  "hs_find hs fd = (if fd < length hs then Some (hs ! fd) else None)"

definition hs_find_mode :: "handles \<Rightarrow> nat \<Rightarrow> omode \<Rightarrow> file_handle option" where
  "hs_find_mode hs fd mode =
     (if fd \<ge> length hs then None
      else let handle = hs ! fd; ok = (fh_mode handle = mode \<or> fh_mode handle = OM_ReadWrite)
           in if fh_node handle \<noteq> None \<and> ok then Some handle else None)"

text \<open>\<^verbatim>\<open>sr::find(m_handles, nullptr, &FileHandle::node)\<close>: the first empty seat.\<close>

fun first_empty :: "handles \<Rightarrow> nat option" where
  "first_empty [] = None"
| "first_empty (h # hs) = (if fh_node h = None then Some 0 else map_option Suc (first_empty hs))"

definition hs_store :: "addr option \<Rightarrow> omode \<Rightarrow> u64 \<Rightarrow> handles \<Rightarrow> nat \<times> handles" where
  "hs_store node mode real_fd hs =
     (let seat = \<lparr>fh_node = node, fh_mode = mode, fh_real_fd = real_fd\<rparr> in
      case first_empty hs of
        Some dist \<Rightarrow> (dist, hs[dist := seat])
      | None \<Rightarrow>
          let n = length hs;
              hs' = (if hs = [] then replicate 1024 empty_handle else hs @ replicate n empty_handle)
          in (n, hs'[n := seat]))"

definition hs_release :: "nat \<Rightarrow> handles \<Rightarrow> file_handle option \<times> handles" where
  "hs_release fd hs =
     (if fd < length hs then (Some (hs ! fd), hs[fd := empty_handle]) else (None, hs))"

definition hs_erase :: "addr \<Rightarrow> handles \<Rightarrow> nat \<times> handles" where
  "hs_erase node hs =
     (length (filter (\<lambda>h. fh_node h = Some node) hs),
      map (\<lambda>h. if fh_node h = Some node then h\<lparr>fh_node := None\<rparr> else h) hs)"

definition count_open :: "handles \<Rightarrow> nat" where
  "count_open hs = length (filter (\<lambda>h. fh_node h \<noteq> None) hs)"

definition count_empty :: "handles \<Rightarrow> nat" where
  "count_empty hs = length hs - count_open hs"

text \<open>The node an fd is open on, if any.\<close>

definition live_node :: "handles \<Rightarrow> nat \<Rightarrow> addr option" where
  "live_node hs fd = (if fd < length hs then fh_node (hs ! fd) else None)"

section \<open>The contract\<close>

locale handle_table =
  fixes look :: "'s \<Rightarrow> nat \<Rightarrow> addr option"
    and alloc :: "addr \<Rightarrow> 's \<Rightarrow> nat \<times> 's"
    and free :: "nat \<Rightarrow> 's \<Rightarrow> 's"
  assumes alloc_fresh: "alloc a s = (fd, s') \<Longrightarrow> look s fd = None"
    and alloc_look: "alloc a s = (fd, s') \<Longrightarrow> look s' k = (if k = fd then Some a else look s k)"
    and free_look: "look (free fd s) k = (if k = fd then None else look s k)"
begin

text \<open>Descriptors that are open at the same time are different, and stay what they were.\<close>

lemma alloc_live: "alloc a s = (fd, s') \<Longrightarrow> look s' fd = Some a"
  by (simp add: alloc_look)

lemma alloc_keeps: "alloc a s = (fd, s') \<Longrightarrow> look s k = Some b \<Longrightarrow> look s' k = Some b \<and> k \<noteq> fd"
  using alloc_fresh alloc_look by fastforce

lemma alloc_distinct:
  "alloc a s = (fd, s1) \<Longrightarrow> alloc b s1 = (fd', s2) \<Longrightarrow> fd \<noteq> fd' \<and> look s2 fd = Some a \<and> look s2 fd' = Some b"
  using alloc_live alloc_keeps by metis

lemma alloc_free: "alloc a s = (fd, s') \<Longrightarrow> look (free fd s') = look s"
proof
  fix k assume a: "alloc a s = (fd, s')"
  show "look (free fd s') k = look s k"
    using alloc_fresh [OF a] alloc_look [OF a, of k] by (simp add: free_look)
qed

end

section \<open>The store satisfies it\<close>

lemma first_empty_Some:
  "first_empty hs = Some i \<Longrightarrow> i < length hs \<and> fh_node (hs ! i) = None \<and> (\<forall>j<i. fh_node (hs ! j) \<noteq> None)"
proof (induction hs arbitrary: i)
  case (Cons h hs)
  then show ?case by (cases i) (auto split: if_splits simp: less_Suc_eq_0_disj)
qed simp

lemma first_empty_None: "first_empty hs = None \<longleftrightarrow> (\<forall>h\<in>set hs. fh_node h \<noteq> None)"
  by (induction hs) auto

lemma store_live:
  assumes "hs_store (Some a) m r hs = (fd, hs')"
  shows "live_node hs fd = None" "live_node hs' k = (if k = fd then Some a else live_node hs k)"
proof -
  have "live_node hs fd = None \<and> live_node hs' k = (if k = fd then Some a else live_node hs k)"
  proof (cases "first_empty hs")
    case (Some i)
    with assms first_empty_Some [OF Some] show ?thesis
      by (auto simp: hs_store_def live_node_def)
  next
    case None
    with assms show ?thesis
      by (auto simp: hs_store_def live_node_def Let_def nth_append empty_handle_def nth_list_update
          split: if_splits)
  qed
  then show "live_node hs fd = None" "live_node hs' k = (if k = fd then Some a else live_node hs k)"
    by auto
qed

lemma release_live: "live_node (snd (hs_release fd hs)) k = (if k = fd then None else live_node hs k)"
  by (auto simp: hs_release_def live_node_def empty_handle_def)

interpretation store: handle_table live_node "\<lambda>a. hs_store (Some a) m r" "\<lambda>fd hs. snd (hs_release fd hs)" for m r
  by unfold_locales (simp_all add: store_live release_live)

lemma erase_live: "live_node (snd (hs_erase a hs)) k = (if live_node hs k = Some a then None else live_node hs k)"
  by (auto simp: hs_erase_def live_node_def)

lemma count_open_eq: "count_open hs = card {k. live_node hs k \<noteq> None}"
proof -
  have "{k. live_node hs k \<noteq> None} = {i. i < length hs \<and> fh_node (hs ! i) \<noteq> None}"
    by (auto simp: live_node_def split: if_splits)
  then show ?thesis by (simp add: count_open_def length_filter_conv_card)
qed

lemma live_finite: "finite {k. live_node hs k \<noteq> None}"
  by (rule finite_subset [of _ "{..<length hs}"]) (auto simp: live_node_def split: if_splits)

lemma count_open_store:
  assumes "hs_store (Some a) m r hs = (fd, hs')"
  shows "count_open hs' = count_open hs + 1"
proof -
  have "{k. live_node hs' k \<noteq> None} = insert fd {k. live_node hs k \<noteq> None}"
    using store_live(2) [OF assms] by auto
  moreover have "fd \<notin> {k. live_node hs k \<noteq> None}" using store_live(1) [OF assms] by simp
  ultimately show ?thesis
    using card_insert_disjoint [OF live_finite] by (simp only: count_open_eq Suc_eq_plus1)
qed

lemma store_find:
  assumes "hs_store (Some a) m r hs = (fd, hs')"
  shows "hs_find hs' fd = Some \<lparr>fh_node = Some a, fh_mode = m, fh_real_fd = r\<rparr>"
proof (cases "first_empty hs")
  case (Some i)
  with assms first_empty_Some [OF Some] show ?thesis by (auto simp: hs_store_def hs_find_def)
next
  case None
  with assms show ?thesis
    by (auto simp: hs_store_def hs_find_def Let_def split: if_splits)
qed

section \<open>Properties\<close>

text \<open>C34: \<^verbatim>\<open>store\<close> takes a seat that was empty, the lowest one if there is any; the new descriptor
  finds exactly what was stored, every other descriptor is untouched, and releasing it restores
  what every descriptor was open on.\<close>

theorem store_correct:
  assumes "hs_store (Some a) m r hs = (fd, hs')"
  shows "live_node hs fd = None \<and> (\<forall>k<fd. live_node hs k \<noteq> None) \<and>
    hs_find hs' fd = Some \<lparr>fh_node = Some a, fh_mode = m, fh_real_fd = r\<rparr> \<and>
    (\<forall>k. k \<noteq> fd \<longrightarrow> live_node hs' k = live_node hs k) \<and> count_open hs' = count_open hs + 1 \<and>
    live_node (snd (hs_release fd hs')) = live_node hs"
proof -
  have "\<forall>k<fd. live_node hs k \<noteq> None"
    using assms first_empty_Some [of hs fd] first_empty_None [of hs]
    by (auto simp: hs_store_def live_node_def Let_def split: option.splits)
  with store_live [OF assms] store_find [OF assms] count_open_store [OF assms]
    store.alloc_free [OF assms] show ?thesis by auto
qed

theorem store_correct_witness:
  "live_node (snd (hs_release 0 (snd (hs_store (Some 7) OM_Read 0 [])))) = live_node []"
proof -
  have "hs_store (Some 7) OM_Read 0 [] = (0, snd (hs_store (Some 7) OM_Read 0 []))"
    by (simp add: hs_store_def Let_def)
  from store_correct [OF this] show ?thesis by simp
qed

text \<open>C32: \<^verbatim>\<open>erase\<close> clears every handle on the node, and only those, and returns how many there
  were; a lookup with a mode afterwards finds no handle on it.\<close>

theorem erase_correct:
  "hs_erase a hs = (n, hs') \<Longrightarrow>
     n = card {k. live_node hs k = Some a} \<and>
     (\<forall>k. live_node hs' k = (if live_node hs k = Some a then None else live_node hs k)) \<and>
     (\<forall>k m h. hs_find_mode hs' k m = Some h \<longrightarrow> fh_node h \<noteq> None \<and> fh_node h \<noteq> Some a)"
proof -
  assume a: "hs_erase a hs = (n, hs')"
  have "{k. live_node hs k = Some a} = {i. i < length hs \<and> fh_node (hs ! i) = Some a}"
    by (auto simp: live_node_def split: if_splits)
  then have "n = card {k. live_node hs k = Some a}"
    using a by (auto simp: hs_erase_def length_filter_conv_card)
  moreover have "\<forall>k m h. hs_find_mode hs' k m = Some h \<longrightarrow> fh_node h \<noteq> None \<and> fh_node h \<noteq> Some a"
    using a by (auto simp: hs_erase_def hs_find_mode_def Let_def split: if_splits)
  ultimately show ?thesis using erase_live [of a hs] a by auto
qed

theorem erase_correct_witness:
  "\<forall>k. live_node (snd (hs_erase 7 (snd (hs_store (Some 7) OM_Read 0 [])))) k \<noteq> Some 7"
  using erase_correct [OF prod.collapse [symmetric], of 7 "snd (hs_store (Some 7) OM_Read 0 [])"]
  by simp

end
