(* ===== verification/Connection.thy ===== *)
theory Connection
  imports Stat Path
begin

text \<open>
  \<^verbatim>\<open>Connection\<close> of \<^verbatim>\<open>madbfs/connection.hpp\<close> and \<^verbatim>\<open>connection.cpp\<close>: the typed requests with their
  retry loop over an abstract transport (\<^verbatim>\<open>transport/transport.hpp\<close>), and the replacement of
  the transport (\<^verbatim>\<open>reconnect\<close>, \<^verbatim>\<open>optimize\<close>) as a step relation between suspension points.
\<close>

section \<open>The environment\<close>

text \<open>
  \<open>'d\<close> is the state of everything outside the process: the device behind the transport, and
  the clocks. \<open>ev_send\<close> is the virtual \<^verbatim>\<open>Transport::send\<close>; \<open>ev_reconnection\<close> is what
  \<^verbatim>\<open>check_reconnection\<close> delivers after waiting (\<open>None\<close> when no reconnection is going on);
  \<open>ev_fuel\<close> bounds the iterations of the loops that repeat a request until it makes progress.
\<close>

record 'd env =
  ev_send :: "request \<Rightarrow> 'd \<Rightarrow> (errc + response) \<times> 'd"
  ev_reconnection :: "'d \<Rightarrow> errc option \<times> 'd"
  ev_steady :: "'d \<Rightarrow> int"
  ev_system :: "'d \<Rightarrow> timespec"
  ev_fuel :: nat

text \<open>\<^verbatim>\<open>Transport::send_req\<close>: the response must be the variant that belongs to the request.\<close>

definition transport_send_req :: "'d env \<Rightarrow> request \<Rightarrow> 'd \<Rightarrow> response expect \<times> 'd" where
  "transport_send_req env req d =
     (case ev_send env req d of
        (Inl e, d') \<Rightarrow> (Unexpect e, d')
      | (Inr resp, d') \<Rightarrow> (if resp_proc resp = req_proc req then Inr resp else Unexpect bad_message, d'))"

fun send_req_loop :: "nat \<Rightarrow> 'd env \<Rightarrow> request \<Rightarrow> 'd \<Rightarrow> response expect \<times> 'd" where
  "send_req_loop 0 env req d = (Unexpect timed_out, d)"
| "send_req_loop (Suc n) env req d =
     (case transport_send_req env req d of
        (Inr resp, d') \<Rightarrow> (Inr resp, d')
      | (Inl e, d') \<Rightarrow>
          if e = Errc resource_unavailable_try_again then
            (case ev_reconnection env d' of
               (res, d'') \<Rightarrow>
                 if res = None \<or> res \<noteq> Some errc_ok then (Inl e, d'')
                 else send_req_loop n env req d'')
          else (Inl e, d'))"

definition max_attempts :: nat where
  "max_attempts = 5"

definition send_req :: "'d env \<Rightarrow> request \<Rightarrow> 'd \<Rightarrow> response expect \<times> 'd" where
  "send_req env req d = send_req_loop max_attempts env req d"

section \<open>Typed requests\<close>

text \<open>
  \<^verbatim>\<open>ToResp<Req>\<close> makes the other response variants impossible; \<open>get_resp\<close> is the projection,
  undefined on them.
\<close>

definition get_resp :: "(response \<Rightarrow> 'a option) \<Rightarrow> response expect \<times> 'd \<Rightarrow> 'a expect \<times> 'd" where
  "get_resp f rd =
     (case rd of (Inl e, d) \<Rightarrow> (Inl e, d)
      | (Inr resp, d) \<Rightarrow> (case f resp of Some v \<Rightarrow> Inr v | None \<Rightarrow> Inl UB, d))"

definition sink_void :: "response \<Rightarrow> unit option" where
  "sink_void _ = Some ()"

definition conn_ping :: "'d env \<Rightarrow> u64 \<Rightarrow> 'd \<Rightarrow> unit expect \<times> 'd" where
  "conn_ping env num d =
     (let (r, d') = get_resp (\<lambda>r. case r of RespPing n \<Rightarrow> Some n | _ \<Rightarrow> None)
                      (transport_send_req env (ReqPing num) d)
      in (and_then r (\<lambda>n. if num \<noteq> n then Unexpect invalid_argument else Inr ()), d'))"

definition conn_statdir :: "'d env \<Rightarrow> path \<Rightarrow> 'd \<Rightarrow> (str \<times> stat) list expect \<times> 'd" where
  "conn_statdir env p d =
     get_resp (\<lambda>r. case r of RespListdir es \<Rightarrow> Some (map (\<lambda>(n, s). (n, to_stat s)) es) | _ \<Rightarrow> None)
       (send_req env (ReqListdir (m_path p)) d)"

definition conn_stat :: "'d env \<Rightarrow> path \<Rightarrow> 'd \<Rightarrow> stat expect \<times> 'd" where
  "conn_stat env p d =
     get_resp (\<lambda>r. case r of RespStat s \<Rightarrow> Some (to_stat s) | _ \<Rightarrow> None)
       (send_req env (ReqStat (m_path p)) d)"

definition conn_readlink :: "'d env \<Rightarrow> path \<Rightarrow> 'd \<Rightarrow> str expect \<times> 'd" where
  "conn_readlink env p d =
     get_resp (\<lambda>r. case r of RespReadlink t \<Rightarrow> Some t | _ \<Rightarrow> None)
       (send_req env (ReqReadlink (m_path p)) d)"

definition conn_mknod :: "'d env \<Rightarrow> path \<Rightarrow> u32 \<Rightarrow> u64 \<Rightarrow> 'd \<Rightarrow> unit expect \<times> 'd" where
  "conn_mknod env p mode dev d = get_resp sink_void (send_req env (ReqMknod (m_path p) mode dev) d)"

definition conn_mkdir :: "'d env \<Rightarrow> path \<Rightarrow> u32 \<Rightarrow> 'd \<Rightarrow> unit expect \<times> 'd" where
  "conn_mkdir env p mode d = get_resp sink_void (send_req env (ReqMkdir (m_path p) mode) d)"

definition conn_unlink :: "'d env \<Rightarrow> path \<Rightarrow> 'd \<Rightarrow> unit expect \<times> 'd" where
  "conn_unlink env p d = get_resp sink_void (send_req env (ReqUnlink (m_path p)) d)"

definition conn_rmdir :: "'d env \<Rightarrow> path \<Rightarrow> 'd \<Rightarrow> unit expect \<times> 'd" where
  "conn_rmdir env p d = get_resp sink_void (send_req env (ReqRmdir (m_path p)) d)"

definition conn_rename :: "'d env \<Rightarrow> path \<Rightarrow> path \<Rightarrow> u32 \<Rightarrow> 'd \<Rightarrow> unit expect \<times> 'd" where
  "conn_rename env from to flags d =
     get_resp sink_void (send_req env (ReqRename (m_path from) (m_path to) flags) d)"

definition conn_truncate :: "'d env \<Rightarrow> path \<Rightarrow> i64 \<Rightarrow> 'd \<Rightarrow> unit expect \<times> 'd" where
  "conn_truncate env p sz d = get_resp sink_void (send_req env (ReqTruncate (m_path p) sz) d)"

definition conn_utimens :: "'d env \<Rightarrow> path \<Rightarrow> timespec \<Rightarrow> timespec \<Rightarrow> 'd \<Rightarrow> unit expect \<times> 'd" where
  "conn_utimens env p at mt d = get_resp sink_void (send_req env (ReqUtimens (m_path p) at mt) d)"

definition conn_copy_file_range ::
    "'d env \<Rightarrow> path \<Rightarrow> i64 \<Rightarrow> path \<Rightarrow> i64 \<Rightarrow> u64 \<Rightarrow> 'd \<Rightarrow> u64 expect \<times> 'd" where
  "conn_copy_file_range env p_in in_off p_out out_off sz d =
     get_resp (\<lambda>r. case r of RespCopyFileRange n \<Rightarrow> Some n | _ \<Rightarrow> None)
       (send_req env (ReqCopyFileRange (m_path p_in) in_off (m_path p_out) out_off sz) d)"

definition conn_open :: "'d env \<Rightarrow> path \<Rightarrow> omode \<Rightarrow> 'd \<Rightarrow> u64 expect \<times> 'd" where
  "conn_open env p mode d =
     get_resp (\<lambda>r. case r of RespOpen fd \<Rightarrow> Some fd | _ \<Rightarrow> None)
       (send_req env (ReqOpen (m_path p) (to_open_mode mode)) d)"

definition conn_close :: "'d env \<Rightarrow> u64 \<Rightarrow> 'd \<Rightarrow> unit expect \<times> 'd" where
  "conn_close env fd d = get_resp sink_void (send_req env (ReqClose fd) d)"

text \<open>
  \<^verbatim>\<open>read\<close>: the transport places the data at the front of the caller's buffer and returns the
  span of it; the model returns those bytes, their number is the result.
\<close>

definition conn_read :: "'d env \<Rightarrow> u64 \<Rightarrow> nat \<Rightarrow> i64 \<Rightarrow> 'd \<Rightarrow> u8 list expect \<times> 'd" where
  "conn_read env fd out_size off d =
     get_resp (\<lambda>r. case r of RespRead bs \<Rightarrow> Some bs | _ \<Rightarrow> None)
       (send_req env (ReqRead fd off (word_of_nat out_size)) d)"

definition conn_write :: "'d env \<Rightarrow> u64 \<Rightarrow> u8 list \<Rightarrow> i64 \<Rightarrow> 'd \<Rightarrow> u64 expect \<times> 'd" where
  "conn_write env fd bs off d =
     get_resp (\<lambda>r. case r of RespWrite n \<Rightarrow> Some n | _ \<Rightarrow> None)
       (send_req env (ReqWrite fd off bs) d)"

section \<open>The retry loop\<close>

lemma send_req_proc:
  "send_req_loop n env req d = (Inr resp, d') \<Longrightarrow> resp_proc resp = req_proc req"
  by (induction n env req d rule: send_req_loop.induct)
    (auto simp: transport_send_req_def split: prod.splits sum.splits if_splits)

text \<open>Typed responses: the projections never meet a foreign variant.\<close>

lemma get_resp_no_ub:
  assumes "\<And>resp. resp_proc resp = req_proc req \<Longrightarrow> f resp \<noteq> None"
    and "no_ub (fst (send_req env req d))"
  shows "no_ub (fst (get_resp f (send_req env req d)))"
proof (cases "send_req env req d")
  case (Pair r d')
  show ?thesis
  proof (cases r)
    case (Inl e)
    with Pair assms(2) show ?thesis by (cases e) (simp_all add: get_resp_def)
  next
    case (Inr resp)
    with Pair send_req_proc [of max_attempts env req d resp d'] assms(1) [of resp] show ?thesis
      by (auto simp: get_resp_def send_req_def)
  qed
qed

lemma send_req_loop_no_ub [simp]: "no_ub (fst (send_req_loop n env req d))"
  by (induction n env req d rule: send_req_loop.induct)
    (auto simp: transport_send_req_def split: prod.splits sum.splits if_splits)

lemma send_req_no_ub [simp]: "no_ub (fst (send_req env req d))"
  by (simp add: send_req_def)

lemma conn_no_ub [simp]:
  "no_ub (fst (conn_statdir env p d))" "no_ub (fst (conn_stat env p d))"
  "no_ub (fst (conn_readlink env p d))" "no_ub (fst (conn_open env p mode d))"
  "no_ub (fst (conn_read env fd n off d))" "no_ub (fst (conn_write env fd bs off d))"
  "no_ub (fst (conn_copy_file_range env p i q j sz d))"
  unfolding conn_statdir_def conn_stat_def conn_readlink_def conn_open_def conn_read_def
    conn_write_def conn_copy_file_range_def
  by (rule get_resp_no_ub; (simp add: split: response.splits)?; (rename_tac r, case_tac r)?; simp)+

lemma conn_void_no_ub [simp]:
  "no_ub (fst (conn_mknod env p mode dev d))" "no_ub (fst (conn_mkdir env p mode d))"
  "no_ub (fst (conn_unlink env p d))" "no_ub (fst (conn_rmdir env p d))"
  "no_ub (fst (conn_rename env p q fl d))" "no_ub (fst (conn_truncate env p sz d))"
  "no_ub (fst (conn_utimens env p t u d))" "no_ub (fst (conn_close env fd d))"
  unfolding conn_mknod_def conn_mkdir_def conn_unlink_def conn_rmdir_def conn_rename_def
    conn_truncate_def conn_utimens_def conn_close_def
  by (rule get_resp_no_ub; simp add: sink_void_def)+

section \<open>Replacing the transport\<close>

text \<open>
  The strategy, and the creation of a transport from it. Creating the proxy or the adb
  transport talks to the device and may fail; the created objects are values of \<open>'t\<close>.
\<close>

datatype strategy = Proxy "str option" u16 | Adb | Null | Custom

record ('t, 'd) factory =
  fa_proxy :: "str option \<Rightarrow> u16 \<Rightarrow> 'd \<Rightarrow> (errc + 't) \<times> 'd"
  fa_adb :: "'d \<Rightarrow> (errc + 't) \<times> 'd"
  fa_custom :: "'d \<Rightarrow> 't \<times> 'd"
  fa_null :: "errc \<Rightarrow> 't"
  fa_name :: "'t \<Rightarrow> str"

definition strategy_name :: "strategy \<Rightarrow> str" where
  "strategy_name s =
     (case s of Proxy _ _ \<Rightarrow> ''proxy'' | Adb \<Rightarrow> ''adb'' | Null \<Rightarrow> ''null'' | Custom \<Rightarrow> ''custom'')"

definition create_adb_or_null :: "('t, 'd) factory \<Rightarrow> 'd \<Rightarrow> 't \<times> 'd" where
  "create_adb_or_null fa d =
     (case fa_adb fa d of (Inr t, d') \<Rightarrow> (t, d') | (Inl _, d') \<Rightarrow> (fa_null fa not_connected, d'))"

definition create_transport :: "('t, 'd) factory \<Rightarrow> strategy \<Rightarrow> 'd \<Rightarrow> 't \<times> 'd" where
  "create_transport fa strat d =
     (case strat of
        Custom \<Rightarrow> fa_custom fa d
      | Proxy abi port \<Rightarrow>
          (case fa_proxy fa abi port d of
             (Inr t, d') \<Rightarrow> (t, d')
           | (Inl _, d') \<Rightarrow> create_adb_or_null fa d')
      | Adb \<Rightarrow> create_adb_or_null fa d
      | Null \<Rightarrow> (fa_null fa not_connected, d))"

definition create_optimized_transport :: "('t, 'd) factory \<Rightarrow> strategy \<Rightarrow> 'd \<Rightarrow> (errc + 't) \<times> 'd" where
  "create_optimized_transport fa strat d =
     (case strat of
        Custom \<Rightarrow> (let (t, d') = fa_custom fa d in (Inr t, d'))
      | Proxy abi port \<Rightarrow> fa_proxy fa abi port d
      | Adb \<Rightarrow> fa_adb fa d
      | Null \<Rightarrow> (Inr (fa_null fa not_connected), d))"

text \<open>
  The object between suspension points: the current transport and whether \<^verbatim>\<open>start\<close> was called
  on it and \<^verbatim>\<open>stop\<close> not since, the reconnection future, and the coroutines of \<^verbatim>\<open>reconnect\<close> and
  \<^verbatim>\<open>optimize\<close> that wait for a transport to be created. A transport is created stopped. That its
  coroutines end by themselves is the transport's own affair and shows as failing requests; the null
  transport ignores both calls.
\<close>

record 't conn =
  cn_transport :: 't
  cn_started :: bool
  cn_strategy :: strategy
  cn_reconnection :: bool
  cn_reconnecting :: nat
  cn_optimizing :: nat

definition is_optimal :: "('t, 'd) factory \<Rightarrow> 't conn \<Rightarrow> bool" where
  "is_optimal fa c = (fa_name fa (cn_transport c) = strategy_name (cn_strategy c))"

definition conn_init :: "strategy \<Rightarrow> 't \<Rightarrow> 't conn" where
  "conn_init strat t = \<lparr>cn_transport = t, cn_started = False, cn_strategy = strat,
     cn_reconnection = False, cn_reconnecting = 0, cn_optimizing = 0\<rparr>"

definition conn_start :: "'t conn \<Rightarrow> 't conn" where
  "conn_start c = c\<lparr>cn_started := True\<rparr>"

definition conn_cancel :: "'t conn \<Rightarrow> 't conn" where
  "conn_cancel c = c\<lparr>cn_started := False\<rparr>"

definition reconnect_start :: "'t conn \<Rightarrow> unit expect \<times> 't conn" where
  "reconnect_start c =
     (if cn_reconnection c then (Unexpect operation_in_progress, c)
      else (Inr (), (conn_cancel c)\<lparr>cn_reconnection := True,
              cn_reconnecting := Suc (cn_reconnecting c)\<rparr>))"

definition reconnect_finish :: "'t \<Rightarrow> 't conn \<Rightarrow> 't conn" where
  "reconnect_finish t c =
     c\<lparr>cn_transport := t, cn_started := False, cn_reconnection := False,
       cn_reconnecting := cn_reconnecting c - 1\<rparr>"

definition optimize_start :: "('t, 'd) factory \<Rightarrow> 't conn \<Rightarrow> unit expect \<times> 't conn" where
  "optimize_start fa c =
     (if is_optimal fa c then (Unexpect already_connected, c)
      else (Inr (), c\<lparr>cn_optimizing := Suc (cn_optimizing c)\<rparr>))"

text \<open>
  After the creation there is no further suspension point: the future is set and reset, and
  the old transport stopped and replaced, in one go. A transport of the same name is dropped, and
  the current one left as it is.
\<close>

definition optimize_finish :: "('t, 'd) factory \<Rightarrow> (errc + 't) \<Rightarrow> 't conn \<Rightarrow> unit expect \<times> 't conn" where
  "optimize_finish fa res c =
     (let c = c\<lparr>cn_optimizing := cn_optimizing c - 1\<rparr> in
      case res of
        Inl e \<Rightarrow> (Unexpect e, c)
      | Inr t \<Rightarrow>
          if fa_name fa t = fa_name fa (cn_transport c) then (Inr (), c)
          else if cn_reconnection c then (Unexpect operation_in_progress, c)
          else (Inr (), (conn_cancel c)\<lparr>cn_transport := t, cn_started := False, cn_reconnection := False\<rparr>))"

text \<open>
  A step is labelled with what it does to the transport: nothing (\<open>None\<close>), a \<^verbatim>\<open>start\<close> or a \<^verbatim>\<open>cancel\<close>,
  the acceptance or the completion of a \<^verbatim>\<open>reconnect\<close>, or the replacement by \<^verbatim>\<open>optimize\<close>.
\<close>

datatype conn_event = Started | Cancelled | Accepted | Reconnected | Optimized

inductive conn_step :: "('t, 'd) factory \<Rightarrow> 't conn \<Rightarrow> conn_event option \<Rightarrow> 't conn \<Rightarrow> bool" for fa where
  start: "conn_step fa c (Some Started) (conn_start c)"
| cancel: "conn_step fa c (Some Cancelled) (conn_cancel c)"
| reconnect_begin: "reconnect_start c = (Inr (), c') \<Longrightarrow> conn_step fa c (Some Accepted) c'"
| reconnect_refused: "reconnect_start c = (Inl e, c') \<Longrightarrow> conn_step fa c None c'"
| reconnect_end: "0 < cn_reconnecting c \<Longrightarrow> create_transport fa (cn_strategy c) d = (t, d') \<Longrightarrow>
     conn_step fa c (Some Reconnected) (reconnect_finish t c)"
| optimize_begin: "conn_step fa c None (snd (optimize_start fa c))"
| optimize_failed: "0 < cn_optimizing c \<Longrightarrow> create_optimized_transport fa (cn_strategy c) d = (res, d') \<Longrightarrow>
     optimize_finish fa res c = (Inl e, c') \<Longrightarrow> conn_step fa c None c'"
| optimize_same: "0 < cn_optimizing c \<Longrightarrow> create_optimized_transport fa (cn_strategy c) d = (Inr t, d') \<Longrightarrow>
     fa_name fa t = fa_name fa (cn_transport c) \<Longrightarrow> optimize_finish fa (Inr t) c = (Inr (), c') \<Longrightarrow> conn_step fa c None c'"
| optimize_end: "0 < cn_optimizing c \<Longrightarrow> create_optimized_transport fa (cn_strategy c) d = (Inr t, d') \<Longrightarrow>
     fa_name fa t \<noteq> fa_name fa (cn_transport c) \<Longrightarrow> optimize_finish fa (Inr t) c = (Inr (), c') \<Longrightarrow>
     conn_step fa c (Some Optimized) c'"

text \<open>Runs, with their events newest first.\<close>

inductive conn_run :: "('t, 'd) factory \<Rightarrow> 't conn \<Rightarrow> conn_event list \<Rightarrow> 't conn \<Rightarrow> bool" for fa c0 where
  init: "conn_run fa c0 [] c0"
| step: "conn_run fa c0 es c \<Longrightarrow> conn_step fa c ev c' \<Longrightarrow>
     conn_run fa c0 (case ev of None \<Rightarrow> es | Some e \<Rightarrow> e # es) c'"

text \<open>What the history says: a reconnection goes on when its acceptance is the last replacement event.\<close>

definition pending :: "conn_event list \<Rightarrow> bool" where
  "pending es = (\<exists>es'. filter (\<lambda>e. e \<noteq> Started \<and> e \<noteq> Cancelled) es = Accepted # es')"

definition conn_inv :: "strategy \<Rightarrow> conn_event list \<Rightarrow> 't conn \<Rightarrow> bool" where
  "conn_inv strat es c = (cn_strategy c = strat \<and> cn_reconnecting c = (if cn_reconnection c then 1 else 0) \<and>
     (cn_reconnection c \<longleftrightarrow> pending es) \<and> (cn_started c \<longleftrightarrow> (\<exists>es'. es = Started # es')) \<and>
     count_list es Accepted = count_list es Reconnected + cn_reconnecting c)"

lemma pending_simps [simp]:
  "\<not> pending []" "pending (Started # es) = pending es" "pending (Cancelled # es) = pending es"
  "pending (Accepted # es)" "\<not> pending (Reconnected # es)" "\<not> pending (Optimized # es)"
  by (simp_all add: pending_def)

lemmas conn_ops = conn_start_def conn_cancel_def reconnect_start_def reconnect_finish_def
  optimize_start_def optimize_finish_def

lemma conn_step_inv:
  "conn_step fa c ev c' \<Longrightarrow> conn_inv strat es c \<Longrightarrow> conn_inv strat (case ev of None \<Rightarrow> es | Some e \<Rightarrow> e # es) c'"
  by (induction rule: conn_step.induct)
    (auto simp: conn_inv_def conn_ops Let_def split: sum.splits if_splits)

lemma conn_run_inv: "conn_run fa c0 es c \<Longrightarrow> conn_inv strat [] c0 \<Longrightarrow> conn_inv strat es c"
  by (induction rule: conn_run.induct) (auto intro: conn_step_inv)

lemma conn_init_inv: "conn_inv strat [] (conn_init strat t)"
  by (simp add: conn_inv_def conn_init_def)

section \<open>Properties\<close>

text \<open>C33: the typed requests. Whatever the transport returns, every operation of the connection
  yields a value of its own type or an error code: a response of another procedure is turned
  into \<^verbatim>\<open>bad_message\<close> before the typed projection can meet it.\<close>

theorem connection_typed:
  "(send_req env req d = (Inr resp, d') \<longrightarrow> resp_proc resp = req_proc req) \<and>
   no_ub (fst (conn_stat env p d)) \<and> no_ub (fst (conn_statdir env p d)) \<and>
   no_ub (fst (conn_readlink env p d)) \<and> no_ub (fst (conn_open env p m d)) \<and>
   no_ub (fst (conn_read env fd n off d)) \<and> no_ub (fst (conn_write env fd bs off d)) \<and>
   no_ub (fst (conn_copy_file_range env p i q j sz d))"
  by (auto simp: send_req_def dest: send_req_proc)

definition echo_env :: "nat env" where
  "echo_env = \<lparr>ev_send = (\<lambda>req d. (case req of ReqPing n \<Rightarrow> Inr (RespPing n)
       | _ \<Rightarrow> Inl resource_unavailable_try_again, Suc d)),
     ev_reconnection = (\<lambda>d. (Some errc_ok, d)), ev_steady = int, ev_system = (\<lambda>d. zero_time), ev_fuel = 8\<rparr>"

theorem connection_typed_witness:
  "send_req echo_env (ReqPing 3) 0 = (Inr (RespPing 3), 1) \<and> resp_proc (RespPing 3) = req_proc (ReqPing 3)"
proof -
  have "send_req echo_env (ReqPing 3) 0 = (Inr (RespPing 3), 1)"
    by (simp add: send_req_def max_attempts_def eval_nat_numeral transport_send_req_def echo_env_def)
  with connection_typed [of echo_env "ReqPing 3" 0 "RespPing 3" 1] show ?thesis by blast
qed

definition retry_round :: "'d env \<Rightarrow> request \<Rightarrow> 'd \<Rightarrow> 'd option" where
  "retry_round env req d =
     (case transport_send_req env req d of
        (Inl (Errc e), d') \<Rightarrow>
          if e = resource_unavailable_try_again then
            (case ev_reconnection env d' of (res, d'') \<Rightarrow> if res = Some errc_ok then Some d'' else None)
          else None
      | _ \<Rightarrow> None)"

primrec retry_rounds :: "nat \<Rightarrow> 'd env \<Rightarrow> request \<Rightarrow> 'd \<Rightarrow> 'd option" where
  "retry_rounds 0 env req d = Some d"
| "retry_rounds (Suc n) env req d = Option.bind (retry_round env req d) (retry_rounds n env req)"

lemma send_req_loop_Suc:
  "send_req_loop (Suc n) env req d =
     (case retry_round env req d of
        Some d' \<Rightarrow> send_req_loop n env req d'
      | None \<Rightarrow>
          (case transport_send_req env req d of
             (Inl (Errc e), d') \<Rightarrow>
               (Unexpect e, if e = resource_unavailable_try_again then snd (ev_reconnection env d') else d')
           | (r, d') \<Rightarrow> (r, d')))"
  by (auto simp: retry_round_def split: prod.splits sum.splits fault.splits option.splits if_splits)

lemma retry_exhausted:
  "retry_rounds n env req d = Some d' \<Longrightarrow> send_req_loop n env req d = (Unexpect timed_out, d')"
  by (induction n arbitrary: d) (auto simp: send_req_loop_Suc bind_eq_Some_conv simp del: send_req_loop.simps(2))

lemma retry_stops:
  "retry_rounds n env req d = Some d' \<Longrightarrow> retry_round env req d' = None \<Longrightarrow> n < k \<Longrightarrow>
     send_req_loop k env req d = send_req_loop 1 env req d'"
proof (induction n arbitrary: d k)
  case 0
  then obtain j where "k = Suc j" by (cases k) auto
  with 0 show ?case by (simp add: send_req_loop_Suc del: send_req_loop.simps(2))
next
  case (Suc n)
  then obtain j where "k = Suc j" by (cases k) auto
  with Suc show ?case by (auto simp: send_req_loop_Suc bind_eq_Some_conv simp del: send_req_loop.simps(2))
qed

text \<open>The retry loop sends a request again only after a finished reconnection, and gives up
  with \<^verbatim>\<open>timed_out\<close> exactly when five attempts in a row found the transport replaced: the state of
  the device is then the one after five rounds of sending and waiting.\<close>

theorem send_req_retries:
  "(retry_rounds 5 env req d = Some d' \<longrightarrow> send_req env req d = (Unexpect timed_out, d')) \<and>
   (\<forall>n<5. retry_rounds n env req d = Some d' \<and> retry_round env req d' = None \<longrightarrow>
      send_req env req d =
        (case transport_send_req env req d' of
           (Inl (Errc e), d'') \<Rightarrow>
             (Unexpect e, if e = resource_unavailable_try_again then snd (ev_reconnection env d'') else d'')
         | (r, d'') \<Rightarrow> (r, d'')))"
  using retry_exhausted [of 5 env req d d'] retry_stops [of _ env req d d' 5]
  by (auto simp: send_req_def max_attempts_def send_req_loop_Suc [of 0, simplified])

theorem send_req_retries_witness:
  "send_req echo_env (ReqClose 1) 0 = (Unexpect timed_out, 5)"
proof -
  have "retry_rounds 5 echo_env (ReqClose 1) 0 = Some 5"
    by (simp add: eval_nat_numeral retry_round_def transport_send_req_def echo_env_def)
  with send_req_retries [of echo_env "ReqClose 1" 0 5] show ?thesis by blast
qed

text \<open>C32: in every interleaving of \<^verbatim>\<open>start\<close>, \<^verbatim>\<open>cancel\<close>, \<^verbatim>\<open>reconnect\<close> and \<^verbatim>\<open>optimize\<close> the strategy never changes
  and at most one reconnection goes on: every accepted one but the last is completed, the future is
  set exactly while the last is not, and \<^verbatim>\<open>optimize\<close> replaces nothing in between. The connection is
  started exactly when \<^verbatim>\<open>start\<close> was called after the creation of the transport and after every accepted or
  completed reconnection, replacement and \<^verbatim>\<open>cancel\<close>.\<close>

theorem reconnect_exclusive:
  assumes "conn_run fa (conn_init strat t) es c"
  shows "cn_strategy c = strat \<and>
     count_list es Accepted = count_list es Reconnected + (if cn_reconnection c then 1 else 0) \<and>
     (cn_reconnection c \<longleftrightarrow> pending es) \<and> (cn_reconnection c \<longleftrightarrow> cn_reconnecting c = 1) \<and> cn_reconnecting c \<le> 1 \<and>
     (cn_started c \<longleftrightarrow> (\<exists>es'. es = Started # es'))"
  using conn_run_inv [OF assms conn_init_inv] by (auto simp: conn_inv_def split: if_splits)

definition unit_factory :: "(nat, unit) factory" where
  "unit_factory = \<lparr>fa_proxy = (\<lambda>_ _ d. (Inl not_connected, d)), fa_adb = (\<lambda>d. (Inr 1, d)),
     fa_custom = (\<lambda>d. (2, d)), fa_null = (\<lambda>_. 0), fa_name = (\<lambda>t. if t = 1 then ''adb'' else ''null'')\<rparr>"

text \<open>A connection that is started, reconnects and is started again.\<close>

definition renewed_conn :: "nat conn" where
  "renewed_conn = conn_start (reconnect_finish 1 (snd (reconnect_start (conn_start (conn_init Adb 0)))))"

theorem reconnect_exclusive_witness:
  "conn_run unit_factory (conn_init Adb 0) [Started, Reconnected, Accepted, Started] renewed_conn \<and>
   cn_started renewed_conn \<and> \<not> cn_reconnection renewed_conn"
proof -
  let ?run = "conn_run unit_factory (conn_init Adb 0)"
  let ?c1 = "conn_start (conn_init Adb (0 :: nat))"
  let ?c2 = "snd (reconnect_start ?c1)"
  have "?run [Started] ?c1"
    using conn_run.step [OF conn_run.init conn_step.start, of unit_factory "conn_init Adb 0"] by simp
  moreover have "conn_step unit_factory ?c1 (Some Accepted) ?c2"
    by (rule conn_step.reconnect_begin) (simp add: reconnect_start_def conn_start_def conn_init_def)
  ultimately have "?run [Accepted, Started] ?c2" using conn_run.step by fastforce
  moreover have "conn_step unit_factory ?c2 (Some Reconnected) (reconnect_finish 1 ?c2)"
    by (rule conn_step.reconnect_end) (simp_all add: reconnect_start_def conn_cancel_def conn_start_def conn_init_def
        create_transport_def create_adb_or_null_def unit_factory_def)
  ultimately have "?run [Reconnected, Accepted, Started] (reconnect_finish 1 ?c2)" using conn_run.step by fastforce
  from conn_run.step [OF this conn_step.start] have r: "?run [Started, Reconnected, Accepted, Started] renewed_conn"
    by (simp add: renewed_conn_def)
  with reconnect_exclusive [OF r] show ?thesis by simp
qed

text \<open>The transport a connection is created with follows the strategy, falling back from the
  proxy to adb and from adb to the null transport, so construction never fails.\<close>

theorem create_transport_fallback:
  "create_transport fa strat d =
     (case strat of
        Custom \<Rightarrow> fa_custom fa d
      | Null \<Rightarrow> (fa_null fa not_connected, d)
      | Adb \<Rightarrow> (case create_optimized_transport fa Adb d of
            (Inr t, d') \<Rightarrow> (t, d') | (Inl e, d') \<Rightarrow> create_transport fa Null d')
      | Proxy abi port \<Rightarrow> (case create_optimized_transport fa strat d of
            (Inr t, d') \<Rightarrow> (t, d') | (Inl e, d') \<Rightarrow> create_transport fa Adb d'))"
  by (cases strat) (auto simp: create_transport_def create_optimized_transport_def
      create_adb_or_null_def split: prod.splits sum.splits)

end
