(* ===== verification/Cache.thy ===== *)
theory Cache
  imports Connection "HOL-Library.AList"
begin

text \<open>
  The page cache of \<^verbatim>\<open>madbfs/cache.hpp\<close> and \<^verbatim>\<open>cache.cpp\<close>: pages in one list in order of use (most
  recent first), a lookup entry per file with the iterators of its pages, the counts of readers
  and writers and the descriptors on the device, and every operation of the class. An
  iterator into the list is a number that never repeats, so that using one whose page is gone
  is visible as undefined behaviour.

  Operations run to completion here: no other operation of the cache is interleaved with the
  requests one operation sends, and the pages of one read or write are visited in order. Sizes
  and indices are naturals with the 64- and 32-bit wrap-around of the code written out.
\<close>

section \<open>Pages\<close>

record page =
  pg_id :: nat
  pg_index :: nat
  pg_data :: "u8 list"
  pg_size :: nat
  pg_page_size :: nat
  pg_dirty :: bool

definition mk_page :: "nat \<Rightarrow> nat \<Rightarrow> u8 list \<Rightarrow> nat \<Rightarrow> nat \<Rightarrow> page" where
  "mk_page fid index data sz page_size =
     \<lparr>pg_id = fid, pg_index = index, pg_data = data, pg_size = cast32 sz,
      pg_page_size = cast32 page_size, pg_dirty = False\<rparr>"

text \<open>\<^verbatim>\<open>Page::read\<close> into a buffer of \<open>n\<close> bytes: the bytes copied to its front.\<close>

definition page_read :: "page \<Rightarrow> nat \<Rightarrow> nat \<Rightarrow> u8 list expect" where
  "page_read pg n offset =
     (let sz = min (sub64 (pg_size pg) offset) n
      in if offset + sz \<le> length (pg_data pg) then Inr (sublist offset sz (pg_data pg)) else Inl UB)"

definition overwrite :: "'a list \<Rightarrow> nat \<Rightarrow> 'a list \<Rightarrow> 'a list" where
  "overwrite xs off ys = take off xs @ ys @ drop (off + length ys) xs"

definition page_write :: "page \<Rightarrow> u8 list \<Rightarrow> nat \<Rightarrow> (nat \<times> page) expect" where
  "page_write pg bs offset =
     (if offset \<ge> pg_page_size pg then Inr (0, pg)
      else let end0 = cast32 (offset + length bs);
               end = (if end0 > pg_page_size pg then min end0 (pg_page_size pg) else end0)
           in if end < offset \<or> end > length (pg_data pg) then Inl UB
              else Inr (end - offset,
                     pg\<lparr>pg_data := overwrite (pg_data pg) offset (take (end - offset) bs),
                        pg_size := max end (pg_size pg)\<rparr>))"

definition page_truncate :: "page \<Rightarrow> nat \<Rightarrow> page" where
  "page_truncate pg sz = pg\<lparr>pg_size := min (cast32 sz) (pg_page_size pg)\<rparr>"

section \<open>State\<close>

record entry =
  e_pages :: "(nat \<times> nat) list"
  e_path :: path
  e_reader :: nat
  e_writer :: nat
  e_read_fd :: "u64 option"
  e_write_fd :: "u64 option"
  e_read_inflight :: int
  e_write_inflight :: int
  e_dirty :: bool

definition is_free :: "entry \<Rightarrow> bool" where
  "is_free e = (e_pages e = [] \<and> e_reader e = 0 \<and> e_writer e = 0 \<and> e_read_inflight e = 0 \<and>
     e_write_inflight e = 0 \<and> \<not> e_dirty e)"

definition new_entry :: "path \<Rightarrow> entry" where
  "new_entry p = \<lparr>e_pages = [], e_path = p, e_reader = 0, e_writer = 0, e_read_fd = None,
     e_write_fd = None, e_read_inflight = 0, e_write_inflight = 0, e_dirty = False\<rparr>"

datatype fd_kind = FdRead | FdWrite

text \<open>
  \<open>m_lru\<close> pairs each page with its iterator; \<open>m_table\<close> lists the entries in the order an
  iteration of the unordered map visits them; \<open>m_read_queue\<close> holds the keys being pulled
  with the value their future delivers.
\<close>

record cache =
  m_lru :: "(nat \<times> page) list"
  m_next :: nat
  m_table :: "(nat \<times> entry) list"
  m_read_queue :: "((nat \<times> nat) \<times> errc) list"
  m_stale_fds :: "(nat \<times> fd_kind) list"
  m_page_size :: nat
  m_max_pages :: nat

text \<open>\<^verbatim>\<open>std::bit_ceil\<close>: the smallest power of two that is not smaller.\<close>

fun bit_ceil_from :: "nat \<Rightarrow> nat \<Rightarrow> nat \<Rightarrow> nat" where
  "bit_ceil_from 0 p n = p"
| "bit_ceil_from (Suc k) p n = (if n \<le> p then p else bit_ceil_from k (2 * p) n)"

definition bit_ceil :: "nat \<Rightarrow> nat" where
  "bit_ceil n = bit_ceil_from 63 1 n"

definition mk_cache :: "nat \<Rightarrow> nat \<Rightarrow> cache" where
  "mk_cache page_size max_pages =
     \<lparr>m_lru = [], m_next = 0, m_table = [], m_read_queue = [], m_stale_fds = [],
      m_page_size = bit_ceil page_size, m_max_pages = max_pages\<rparr>"

text \<open>The ordered map from page indices to iterators.\<close>

fun pages_emplace :: "nat \<Rightarrow> nat \<Rightarrow> (nat \<times> nat) list \<Rightarrow> (nat \<times> nat) list" where
  "pages_emplace i it [] = [(i, it)]"
| "pages_emplace i it ((j, jt) # ps) =
     (if i < j then (i, it) # (j, jt) # ps
      else if i = j then (j, jt) # ps
      else (j, jt) # pages_emplace i it ps)"

definition pages_erase :: "nat \<Rightarrow> (nat \<times> nat) list \<Rightarrow> (nat \<times> nat) list" where
  "pages_erase i ps = filter (\<lambda>(j, _). j \<noteq> i) ps"

definition lru_get :: "nat \<Rightarrow> cache \<Rightarrow> page option" where
  "lru_get it c = map_of (m_lru c) it"

definition lru_set :: "nat \<Rightarrow> page \<Rightarrow> cache \<Rightarrow> cache" where
  "lru_set it pg c = c\<lparr>m_lru := AList.update it pg (m_lru c)\<rparr>"

definition lru_erase :: "nat \<Rightarrow> cache \<Rightarrow> cache" where
  "lru_erase it c = c\<lparr>m_lru := AList.delete it (m_lru c)\<rparr>"

definition lru_push_front :: "page \<Rightarrow> cache \<Rightarrow> nat \<times> cache" where
  "lru_push_front pg c = (m_next c, c\<lparr>m_lru := (m_next c, pg) # m_lru c, m_next := Suc (m_next c)\<rparr>)"

text \<open>\<^verbatim>\<open>m_lru.splice(m_lru.begin(), m_lru, page)\<close>\<close>

definition lru_to_front :: "nat \<Rightarrow> page \<Rightarrow> cache \<Rightarrow> cache" where
  "lru_to_front it pg c = c\<lparr>m_lru := (it, pg) # AList.delete it (m_lru c)\<rparr>"

definition lookup :: "nat \<Rightarrow> cache \<Rightarrow> entry option" where
  "lookup fid c = map_of (m_table c) fid"

definition set_entry :: "nat \<Rightarrow> entry \<Rightarrow> cache \<Rightarrow> cache" where
  "set_entry fid e c = c\<lparr>m_table := AList.update fid e (m_table c)\<rparr>"

definition upd_entry :: "nat \<Rightarrow> (entry \<Rightarrow> entry) \<Rightarrow> cache \<Rightarrow> cache" where
  "upd_entry fid f c = (case lookup fid c of None \<Rightarrow> c | Some e \<Rightarrow> set_entry fid (f e) c)"

text \<open>\<^verbatim>\<open>m_table.try_emplace\<close>: a new entry only if there is none.\<close>

definition new_lookup :: "nat \<Rightarrow> path \<Rightarrow> cache \<Rightarrow> cache" where
  "new_lookup fid p c =
     (case lookup fid c of Some _ \<Rightarrow> c | None \<Rightarrow> c\<lparr>m_table := m_table c @ [(fid, new_entry p)]\<rparr>)"

section \<open>Opening and closing\<close>

definition reads :: "omode \<Rightarrow> bool" where
  "reads mode = (mode = OM_Read \<or> mode = OM_ReadWrite)"

definition writes :: "omode \<Rightarrow> bool" where
  "writes mode = (mode = OM_Write \<or> mode = OM_ReadWrite)"

definition hint_open :: "nat \<Rightarrow> path \<Rightarrow> omode \<Rightarrow> cache \<Rightarrow> unit expect \<times> cache" where
  "hint_open fid p mode c =
     (let c = new_lookup fid p c in
      case lookup fid c of
        None \<Rightarrow> (Inl UB, c)
      | Some e \<Rightarrow>
          if m_path (e_path e) \<noteq> m_path p then (Unexpect io_error, c)
          else
            let e' = e\<lparr>e_reader := e_reader e + of_bool (reads mode),
                       e_writer := e_writer e + of_bool (writes mode)\<rparr>;
                c = set_entry fid e' c;
                c = (if e_reader e = 0 \<and> e_reader e' > 0
                     then c\<lparr>m_stale_fds := filter (\<lambda>v. v \<noteq> (fid, FdRead)) (m_stale_fds c)\<rparr> else c);
                c = (if e_writer e = 0 \<and> e_writer e' > 0
                     then c\<lparr>m_stale_fds := filter (\<lambda>v. v \<noteq> (fid, FdWrite)) (m_stale_fds c)\<rparr> else c)
            in (Inr (), c))"

definition hint_close :: "nat \<Rightarrow> omode \<Rightarrow> cache \<Rightarrow> unit expect \<times> cache" where
  "hint_close fid mode c =
     (case lookup fid c of
        None \<Rightarrow> (Unexpect bad_file_descriptor, c)
      | Some e \<Rightarrow>
          if (reads mode \<and> e_reader e = 0) \<or> (writes mode \<and> e_writer e = 0)
          then (Unexpect bad_file_descriptor, c)
          else
            let e' = e\<lparr>e_reader := e_reader e - of_bool (reads mode),
                       e_writer := e_writer e - of_bool (writes mode)\<rparr>;
                c = set_entry fid e' c;
                c = (if e_reader e' = 0 \<and> e_read_fd e' \<noteq> None
                     then c\<lparr>m_stale_fds := m_stale_fds c @ [(fid, FdRead)]\<rparr> else c);
                c = (if e_writer e' = 0 \<and> e_write_fd e' \<noteq> None
                     then c\<lparr>m_stale_fds := m_stale_fds c @ [(fid, FdWrite)]\<rparr> else c)
            in (Inr (), c))"

section \<open>Flushing and evicting\<close>

text \<open>Waiting for a page that is being pulled: the error its future delivers, if any.\<close>

definition await_queued :: "nat \<Rightarrow> nat \<Rightarrow> cache \<Rightarrow> errc option" where
  "await_queued fid index c =
     (case map_of (m_read_queue c) (fid, index) of
        Some err \<Rightarrow> if err \<noteq> errc_ok then Some err else None
      | None \<Rightarrow> None)"

definition pg_buf :: "page \<Rightarrow> u8 list" where
  "pg_buf pg = take (pg_size pg) (pg_data pg)"

fun flush_loop :: "nat \<Rightarrow> 'd env \<Rightarrow> u64 \<Rightarrow> nat \<Rightarrow> page \<Rightarrow> nat \<Rightarrow> 'd \<Rightarrow> unit expect \<times> 'd" where
  "flush_loop fuel env fd page_size pg written d =
     (if written < pg_size pg then
        case fuel of
          0 \<Rightarrow> (Inl Hang, d)
        | Suc fuel' \<Rightarrow>
            (let span = drop written (pg_buf pg);
                 off = add64 (mul64 (pg_index pg) page_size) written
             in case conn_write env fd span (word_of_nat off) d of
                  (Inl e, d') \<Rightarrow> (Inl e, d')
                | (Inr n, d') \<Rightarrow> flush_loop fuel' env fd page_size pg (add64 written (unat n)) d')
      else (Inr (), d))"

declare flush_loop.simps [simp del]

definition flush_at :: "'d env \<Rightarrow> u64 \<Rightarrow> page \<Rightarrow> cache \<Rightarrow> 'd \<Rightarrow> unit expect \<times> page \<times> 'd" where
  "flush_at env fd pg c d =
     (case await_queued (pg_id pg) (pg_index pg) c of
        Some err \<Rightarrow> (Unexpect err, pg, d)
      | None \<Rightarrow>
          (case flush_loop (ev_fuel env) env fd (m_page_size c) pg 0 d of
             (Inl e, d') \<Rightarrow> (Inl e, pg, d')
           | (Inr _, d') \<Rightarrow> (Inr (), pg\<lparr>pg_dirty := False\<rparr>, d')))"

fun flush_pages :: "'d env \<Rightarrow> nat \<Rightarrow> (nat \<times> nat) list \<Rightarrow> cache \<Rightarrow> 'd \<Rightarrow> unit expect \<times> cache \<times> 'd" where
  "flush_pages env fid [] c d = (Inr (), c, d)"
| "flush_pages env fid ((i, it) # ps) c d =
     (case lru_get it c of
        None \<Rightarrow> (Inl UB, c, d)
      | Some pg \<Rightarrow>
          if \<not> pg_dirty pg then flush_pages env fid ps c d
          else
            (case Option.bind (lookup fid c) e_write_fd of
               None \<Rightarrow> (Inl UB, c, d)
             | Some fd \<Rightarrow>
                 (case flush_at env fd pg c d of
                    (Inl e, pg', d') \<Rightarrow> (Inl e, lru_set it pg' c, d')
                  | (Inr _, pg', d') \<Rightarrow> flush_pages env fid ps (lru_set it pg' c) d')))"

definition inc_write :: "nat \<Rightarrow> cache \<Rightarrow> cache" where
  "inc_write fid c = upd_entry fid (\<lambda>e. e\<lparr>e_write_inflight := e_write_inflight e + 1\<rparr>) c"

definition dec_write :: "nat \<Rightarrow> cache \<Rightarrow> cache" where
  "dec_write fid c = upd_entry fid (\<lambda>e. e\<lparr>e_write_inflight := e_write_inflight e - 1\<rparr>) c"

definition inc_read :: "nat \<Rightarrow> cache \<Rightarrow> cache" where
  "inc_read fid c = upd_entry fid (\<lambda>e. e\<lparr>e_read_inflight := e_read_inflight e + 1\<rparr>) c"

definition dec_read :: "nat \<Rightarrow> cache \<Rightarrow> cache" where
  "dec_read fid c = upd_entry fid (\<lambda>e. e\<lparr>e_read_inflight := e_read_inflight e - 1\<rparr>) c"

text \<open>\<^verbatim>\<open>if (not e.write_fd) open\<close>, shared by \<^verbatim>\<open>flush\<close> and \<^verbatim>\<open>evict\<close>.\<close>

definition ensure_write_fd :: "'d env \<Rightarrow> nat \<Rightarrow> entry \<Rightarrow> cache \<Rightarrow> 'd \<Rightarrow> u64 expect \<times> cache \<times> 'd" where
  "ensure_write_fd env fid e c d =
     (case e_write_fd e of
        Some fd \<Rightarrow> (Inr fd, c, d)
      | None \<Rightarrow>
          (case conn_open env (e_path e) OM_Write d of
             (Inl err, d') \<Rightarrow> (Inl err, c, d')
           | (Inr fd, d') \<Rightarrow> (Inr fd, upd_entry fid (\<lambda>e. e\<lparr>e_write_fd := Some fd\<rparr>) c, d')))"

definition flush :: "'d env \<Rightarrow> nat \<Rightarrow> cache \<Rightarrow> 'd \<Rightarrow> unit expect \<times> cache \<times> 'd" where
  "flush env fid c d =
     (case lookup fid c of
        None \<Rightarrow> (Inr (), c, d)
      | Some e \<Rightarrow>
          if \<not> e_dirty e then (Inr (), c, d)
          else
            (case ensure_write_fd env fid e c d of
               (Inl err, c, d) \<Rightarrow> (Inl err, c, d)
             | (Inr _, c, d) \<Rightarrow>
                 (case flush_pages env fid (e_pages e) (inc_write fid c) d of
                    (Inl err, c, d) \<Rightarrow> (Inl err, dec_write fid c, d)
                  | (Inr _, c, d) \<Rightarrow>
                      (Inr (), dec_write fid (upd_entry fid (\<lambda>e. e\<lparr>e_dirty := False\<rparr>) c), d))))"

text \<open>One turn of the loop of \<^verbatim>\<open>evict\<close>: the least recently used page leaves the list.\<close>

definition evict_one :: "'d env \<Rightarrow> page \<Rightarrow> cache \<Rightarrow> 'd \<Rightarrow> cache \<times> 'd" where
  "evict_one env pg c d =
     (case lookup (pg_id pg) c of
        None \<Rightarrow> (c, d)
      | Some e \<Rightarrow>
          if pg_dirty pg then
            (case ensure_write_fd env (pg_id pg) e (inc_write (pg_id pg) c) d of
               (Inl _, c, d) \<Rightarrow> (dec_write (pg_id pg) c, d)
             | (Inr fd, c, d) \<Rightarrow>
                 (case flush_at env fd pg c d of
                    (_, _, d) \<Rightarrow>
                      (upd_entry (pg_id pg) (\<lambda>e. e\<lparr>e_pages := pages_erase (pg_index pg) (e_pages e)\<rparr>)
                         (dec_write (pg_id pg) c), d)))
          else (upd_entry (pg_id pg) (\<lambda>e. e\<lparr>e_pages := pages_erase (pg_index pg) (e_pages e)\<rparr>) c, d))"

primrec evict :: "'d env \<Rightarrow> nat \<Rightarrow> cache \<Rightarrow> 'd \<Rightarrow> cache \<times> 'd" where
  "evict env 0 c d = (c, d)"
| "evict env (Suc n) c d =
     (if m_lru c = [] then (c, d)
      else case evict_one env (snd (last (m_lru c))) (c\<lparr>m_lru := butlast (m_lru c)\<rparr>) d of
             (c', d') \<Rightarrow> evict env n c' d')"

definition evict_excess :: "'d env \<Rightarrow> cache \<Rightarrow> 'd \<Rightarrow> cache \<times> 'd" where
  "evict_excess env c d =
     (if length (m_lru c) > m_max_pages c then evict env (length (m_lru c) - m_max_pages c) c d
      else (c, d))"

section \<open>Reading and writing\<close>

text \<open>The part of a page that an access of \<open>n\<close> bytes at \<open>offset\<close> touches, in the code's arithmetic.\<close>

definition local_offset :: "nat \<Rightarrow> nat \<Rightarrow> nat \<Rightarrow> nat \<Rightarrow> nat" where
  "local_offset ps index first offset = (if index = first then offset mod ps else 0)"

definition local_size :: "nat \<Rightarrow> nat \<Rightarrow> nat \<Rightarrow> nat \<Rightarrow> nat \<Rightarrow> nat \<Rightarrow> nat" where
  "local_size ps index first lst n offset =
     (let lo = local_offset ps index first offset;
          sz = (if index = first then sub64 ps lo else ps)
      in if index = lst
         then sub64 (add64 (sub64 (add64 n (offset mod ps)) 1 mod ps) 1) lo
         else sz)"

definition buf_offset :: "nat \<Rightarrow> nat \<Rightarrow> nat \<Rightarrow> nat \<Rightarrow> nat" where
  "buf_offset ps index first offset =
     (if index \<ge> add64 first 1 then sub64 (mul64 (sub64 index first) ps) (offset mod ps) else 0)"

text \<open>
  Pulling a missing page. The future is put in the queue, the request is sent, and the page
  is inserted unless the queue was cleared meanwhile.
\<close>

definition ensure_read_fd :: "'d env \<Rightarrow> nat \<Rightarrow> entry \<Rightarrow> cache \<Rightarrow> 'd \<Rightarrow> u64 expect \<times> cache \<times> 'd" where
  "ensure_read_fd env fid e c d =
     (case e_read_fd e of
        Some fd \<Rightarrow> (Inr fd, c, d)
      | None \<Rightarrow>
          (case conn_open env (e_path e) OM_Read d of
             (Inl err, d') \<Rightarrow> (Inl err, c, d')
           | (Inr fd, d') \<Rightarrow> (Inr fd, upd_entry fid (\<lambda>e. e\<lparr>e_read_fd := Some fd\<rparr>) c, d')))"

definition pull_page :: "'d env \<Rightarrow> nat \<Rightarrow> nat \<Rightarrow> u64 \<Rightarrow> cache \<Rightarrow> 'd \<Rightarrow> unit expect \<times> cache \<times> 'd" where
  "pull_page env fid index fd c d =
     (let ps = m_page_size c;
          c = c\<lparr>m_read_queue := m_read_queue c @ [((fid, index), errc_ok)]\<rparr>
      in case conn_read env fd ps (word_of_nat (mul64 index ps)) d of
           (Inl err, d') \<Rightarrow>
             (Inl err, c\<lparr>m_read_queue := filter (\<lambda>q. fst q \<noteq> (fid, index)) (m_read_queue c)\<rparr>, d')
         | (Inr bs, d') \<Rightarrow>
             if (fid, index) \<notin> fst ` set (m_read_queue c) then (Unexpect operation_canceled, c, d')
             else
               let data = take ps (bs @ replicate ps 0);
                   (it, c) = lru_push_front (mk_page fid index data (length bs) ps) c;
                   c = upd_entry fid (\<lambda>e. e\<lparr>e_pages := pages_emplace index it (e_pages e)\<rparr>) c;
                   c = c\<lparr>m_read_queue := filter (\<lambda>q. fst q \<noteq> (fid, index)) (m_read_queue c)\<rparr>;
                   (c, d') = evict_excess env c d'
               in (Inr (), c, d'))"

definition fetch_page :: "'d env \<Rightarrow> nat \<Rightarrow> nat \<Rightarrow> cache \<Rightarrow> 'd \<Rightarrow> unit expect \<times> cache \<times> 'd" where
  "fetch_page env fid index c d =
     (case lookup fid c of
        None \<Rightarrow> (Inl UB, c, d)
      | Some e \<Rightarrow>
          (case ensure_read_fd env fid e c d of
             (Inl err, c, d) \<Rightarrow> (Inl err, c, d)
           | (Inr fd, c, d) \<Rightarrow> pull_page env fid index fd c d))"

text \<open>The page behind the map iterator; an erased index or page is a dangling dereference.\<close>

definition page_at :: "nat \<Rightarrow> nat \<Rightarrow> cache \<Rightarrow> (nat \<times> page) option" where
  "page_at fid index c =
     (case lookup fid c of
        None \<Rightarrow> None
      | Some e \<Rightarrow>
          (case map_of (e_pages e) index of
             None \<Rightarrow> None
           | Some it \<Rightarrow> map_option (\<lambda>pg. (it, pg)) (lru_get it c)))"

definition has_page :: "nat \<Rightarrow> nat \<Rightarrow> cache \<Rightarrow> bool" where
  "has_page fid index c =
     (case lookup fid c of None \<Rightarrow> False | Some e \<Rightarrow> map_of (e_pages e) index \<noteq> None)"

definition read_page :: "nat \<Rightarrow> u8 list \<Rightarrow> nat \<Rightarrow> nat \<Rightarrow> nat \<Rightarrow> nat \<Rightarrow> cache \<Rightarrow>
    (nat \<times> u8 list) expect \<times> cache" where
  "read_page fid out index first lst offset c =
     (case page_at fid index c of
        None \<Rightarrow> (Inl UB, c)
      | Some (it, pg) \<Rightarrow>
          let c = lru_to_front it pg c; ps = m_page_size c;
              lo = local_offset ps index first offset;
              sz = local_size ps index first lst (length out) offset;
              oo = buf_offset ps index first offset
          in case page_read pg sz lo of
               Inl err \<Rightarrow> (Inl err, c)
             | Inr bs \<Rightarrow>
                 if oo + length bs \<le> length out then (Inr (length bs, overwrite out oo bs), c)
                 else (Inl UB, c))"

definition read_at :: "'d env \<Rightarrow> nat \<Rightarrow> u8 list \<Rightarrow> nat \<Rightarrow> nat \<Rightarrow> nat \<Rightarrow> nat \<Rightarrow> cache \<Rightarrow> 'd \<Rightarrow>
    (nat \<times> u8 list) expect \<times> cache \<times> 'd" where
  "read_at env fid out index first lst offset c d =
     (let c = inc_read fid c in
      case await_queued fid index c of
        Some err \<Rightarrow> (Unexpect err, dec_read fid c, d)
      | None \<Rightarrow>
          (case (if has_page fid index c then (Inr (), c, d) else fetch_page env fid index c d) of
             (Inl err, c, d) \<Rightarrow> (Inl err, dec_read fid c, d)
           | (Inr _, c, d) \<Rightarrow>
               (case read_page fid out index first lst offset c of
                  (r, c) \<Rightarrow> (r, dec_read fid c, d))))"

text \<open>
  \<^verbatim>\<open>wait_all\<close>: every page is visited even if an earlier one failed; the first error, in order of
  the pages, is the result.
\<close>

fun read_all :: "'d env \<Rightarrow> nat \<Rightarrow> nat list \<Rightarrow> nat \<Rightarrow> nat \<Rightarrow> nat \<Rightarrow> u8 list \<Rightarrow> nat expect \<Rightarrow> cache \<Rightarrow> 'd \<Rightarrow>
    nat expect \<times> u8 list \<times> cache \<times> 'd" where
  "read_all env fid [] first lst offset out acc c d = (acc, out, c, d)"
| "read_all env fid (i # is) first lst offset out acc c d =
     (case read_at env fid out i first lst offset c d of
        (Inl err, c, d) \<Rightarrow>
          read_all env fid is first lst offset out (case acc of Inl e \<Rightarrow> Inl e | Inr _ \<Rightarrow> Inl err) c d
      | (Inr (n, out), c, d) \<Rightarrow>
          read_all env fid is first lst offset out (transform acc (\<lambda>m. m + n)) c d)"

text \<open>\<open>last\<close> is computed in unsigned 64-bit arithmetic; \<^verbatim>\<open>iota(first, last + 1)\<close> is the range.\<close>

definition page_range :: "nat \<Rightarrow> nat \<Rightarrow> nat \<Rightarrow> nat \<times> nat" where
  "page_range ps n offset = (offset div ps, sub64 (add64 offset n) 1 div ps)"

definition read :: "'d env \<Rightarrow> nat \<Rightarrow> u8 list \<Rightarrow> nat \<Rightarrow> cache \<Rightarrow> 'd \<Rightarrow> nat expect \<times> u8 list \<times> cache \<times> 'd" where
  "read env fid out offset c d =
     (let (first, lst) = page_range (m_page_size c) (length out) offset in
      case lookup fid c of
        None \<Rightarrow> (Unexpect bad_file_descriptor, out, c, d)
      | Some _ \<Rightarrow> read_all env fid [first..<Suc lst] first lst offset out (Inr 0) c d)"

definition write_page :: "nat \<Rightarrow> u8 list \<Rightarrow> nat \<Rightarrow> nat \<Rightarrow> nat \<Rightarrow> nat \<Rightarrow> cache \<Rightarrow> nat expect \<times> cache" where
  "write_page fid bs index first lst offset c =
     (case page_at fid index c of
        None \<Rightarrow> (Inl UB, c)
      | Some (it, pg) \<Rightarrow>
          let c = lru_to_front it pg c; ps = m_page_size c;
              lo = local_offset ps index first offset;
              sz = local_size ps index first lst (length bs) offset;
              io = buf_offset ps index first offset
          in if io + sz > length bs then (Inl UB, c)
             else case page_write pg (sublist io sz bs) lo of
                    Inl err \<Rightarrow> (Inl err, c)
                  | Inr (n, pg') \<Rightarrow> (Inr n, lru_set it (pg'\<lparr>pg_dirty := True\<rparr>) c))"

text \<open>A missing page is made empty in memory; nothing is pulled from the device.\<close>

definition prepare_page :: "'d env \<Rightarrow> nat \<Rightarrow> nat \<Rightarrow> cache \<Rightarrow> 'd \<Rightarrow> cache \<times> 'd" where
  "prepare_page env fid index c d =
     (if has_page fid index c then (c, d)
      else let ps = m_page_size c;
               (it, c) = lru_push_front (mk_page fid index (replicate ps 0) 0 ps) c;
               c = upd_entry fid (\<lambda>e. e\<lparr>e_pages := pages_emplace index it (e_pages e)\<rparr>) c
           in evict_excess env c d)"

definition write_at :: "'d env \<Rightarrow> nat \<Rightarrow> u8 list \<Rightarrow> nat \<Rightarrow> nat \<Rightarrow> nat \<Rightarrow> nat \<Rightarrow> cache \<Rightarrow> 'd \<Rightarrow>
    nat expect \<times> cache \<times> 'd" where
  "write_at env fid bs index first lst offset c d =
     (case await_queued fid index c of
        Some err \<Rightarrow> (Unexpect err, c, d)
      | None \<Rightarrow>
          (case prepare_page env fid index c d of
             (c, d) \<Rightarrow> (case write_page fid bs index first lst offset c of (r, c) \<Rightarrow> (r, c, d))))"

fun write_all :: "'d env \<Rightarrow> nat \<Rightarrow> nat list \<Rightarrow> nat \<Rightarrow> nat \<Rightarrow> nat \<Rightarrow> u8 list \<Rightarrow> nat expect \<Rightarrow> cache \<Rightarrow> 'd \<Rightarrow>
    nat expect \<times> cache \<times> 'd" where
  "write_all env fid [] first lst offset bs acc c d = (acc, c, d)"
| "write_all env fid (i # is) first lst offset bs acc c d =
     (case write_at env fid bs i first lst offset c d of
        (Inl err, c, d) \<Rightarrow>
          write_all env fid is first lst offset bs (case acc of Inl e \<Rightarrow> Inl e | Inr _ \<Rightarrow> Inl err) c d
      | (Inr n, c, d) \<Rightarrow>
          write_all env fid is first lst offset bs (transform acc (\<lambda>m. m + n)) c d)"

definition cache_write :: "'d env \<Rightarrow> nat \<Rightarrow> u8 list \<Rightarrow> nat \<Rightarrow> cache \<Rightarrow> 'd \<Rightarrow> nat expect \<times> cache \<times> 'd" where
  "cache_write env fid bs offset c d =
     (let (first, lst) = page_range (m_page_size c) (length bs) offset in
      case lookup fid c of
        None \<Rightarrow> (Unexpect bad_file_descriptor, c, d)
      | Some e \<Rightarrow>
          write_all env fid [first..<Suc lst] first lst offset bs (Inr 0)
            (set_entry fid (e\<lparr>e_dirty := True\<rparr>) c) d)"

section \<open>Truncation\<close>

text \<open>
  The loop of \<^verbatim>\<open>truncate\<close> over the entry's pages; \<^verbatim>\<open>emplace\<close> on an index that is present leaves
  the map as it is, so the page pushed in the grow branch stays in the list without an index.
\<close>

fun truncate_loop :: "nat \<Rightarrow> (nat \<times> nat) list \<Rightarrow> nat \<Rightarrow> nat \<Rightarrow> nat \<Rightarrow> nat \<Rightarrow> nat \<Rightarrow> cache \<Rightarrow> unit expect \<times> cache" where
  "truncate_loop fid [] off_pages num_pages old_num new_num new_size c = (Inr (), c)"
| "truncate_loop fid ((index, it) # ps) off_pages num_pages old_num new_num new_size c =
     (if index < off_pages \<or> index \<ge> num_pages
      then truncate_loop fid ps off_pages num_pages old_num new_num new_size c
      else if index < sub64 old_num 1 then
        (if lru_get it c = None then (Inl UB, c)
         else truncate_loop fid ps off_pages num_pages old_num new_num new_size
                (upd_entry fid (\<lambda>e. e\<lparr>e_pages := pages_erase index (e_pages e)\<rparr>) (lru_erase it c)))
      else if index > sub64 old_num 1 then
        (let psz = m_page_size c; rem0 = sub64 new_size (mul64 index psz);
             rem = (if rem0 > psz then psz else rem0);
             (it', c) = lru_push_front (mk_page fid index (replicate psz 0) rem psz) c;
             c = upd_entry fid (\<lambda>e. e\<lparr>e_pages := pages_emplace index it' (e_pages e)\<rparr>) c
         in truncate_loop fid ps off_pages num_pages old_num new_num new_size c)
      else
        (case lru_get it c of
           None \<Rightarrow> (Inl UB, c)
         | Some pg \<Rightarrow>
             let psz = m_page_size c;
                 pg' = (if index = sub64 new_num 1
                        then page_truncate pg (sub64 new_size 1 mod psz + 1)
                        else page_truncate pg psz)
             in truncate_loop fid ps off_pages num_pages old_num new_num new_size (lru_set it pg' c)))"

definition num_pages_of :: "nat \<Rightarrow> nat \<Rightarrow> nat" where
  "num_pages_of ps n = n div ps + of_bool (n mod ps \<noteq> 0)"

text \<open>
  \<^verbatim>\<open>page_it\<close> is taken before the eviction; if the eviction erases the page it points to, the loop
  starts from a dangling iterator.
\<close>

definition cache_truncate :: "'d env \<Rightarrow> nat \<Rightarrow> nat \<Rightarrow> nat \<Rightarrow> cache \<Rightarrow> 'd \<Rightarrow> unit expect \<times> cache \<times> 'd" where
  "cache_truncate env fid old_size new_size c d =
     (case lookup fid c of
        None \<Rightarrow> (Inr (), c, d)
      | Some e \<Rightarrow>
          let old_num = num_pages_of (m_page_size c) old_size;
              new_num = num_pages_of (m_page_size c) new_size;
              num_pages = max old_num new_num;
              off_pages = max 1 (min old_num new_num) - 1;
              diff = new_num - old_num;
              (c, d) = (if new_num > old_num \<and> length (m_lru c) + diff > m_max_pages c
                        then evict env (length (m_lru c) + diff - m_max_pages c) c d else (c, d))
          in (case lookup fid c of
                None \<Rightarrow> (Inl UB, c, d)
              | Some e' \<Rightarrow>
                  if e_pages e \<noteq> [] \<and> map_of (e_pages e') (fst (hd (e_pages e))) = None
                  then (Inl UB, c, d)
                  else
                    (case truncate_loop fid (e_pages e') off_pages num_pages old_num new_num new_size c of
                       (r, c) \<Rightarrow> (r, c, d))))"

section \<open>Renaming, invalidation, descriptors\<close>

definition cache_rename :: "nat \<Rightarrow> path \<Rightarrow> cache \<Rightarrow> cache" where
  "cache_rename fid p c = upd_entry fid (\<lambda>e. e\<lparr>e_path := p\<rparr>) c"

fun erase_pages :: "(nat \<times> nat) list \<Rightarrow> cache \<Rightarrow> unit expect \<times> cache" where
  "erase_pages [] c = (Inr (), c)"
| "erase_pages ((i, it) # ps) c =
     (if lru_get it c = None then (Inl UB, c) else erase_pages ps (lru_erase it c))"

definition invalidate_one :: "'d env \<Rightarrow> nat \<Rightarrow> bool \<Rightarrow> cache \<Rightarrow> 'd \<Rightarrow> unit expect \<times> cache \<times> 'd" where
  "invalidate_one env fid should_flush c d =
     (case (if should_flush then flush env fid c d else (Inr (), c, d)) of
        (r, c, d) \<Rightarrow>
          if r = Inl UB \<or> r = Inl Hang then (r, c, d)
          else (case lookup fid c of
                  None \<Rightarrow> (Inr (), c, d)
                | Some e \<Rightarrow>
                    (case erase_pages (e_pages e) (c\<lparr>m_table := AList.delete fid (m_table c)\<rparr>) of
                       (r, c) \<Rightarrow> (r, c, d))))"

fun close_all :: "'d env \<Rightarrow> u64 list \<Rightarrow> 'd \<Rightarrow> 'd" where
  "close_all env [] d = d"
| "close_all env (fd # fds) d = close_all env fds (snd (conn_close env fd d))"

definition entry_fds :: "entry \<Rightarrow> u64 list" where
  "entry_fds e = (case e_read_fd e of Some fd \<Rightarrow> [fd] | None \<Rightarrow> []) @
     (case e_write_fd e of Some fd \<Rightarrow> [fd] | None \<Rightarrow> [])"

definition invalidate_fds :: "'d env \<Rightarrow> bool \<Rightarrow> cache \<Rightarrow> 'd \<Rightarrow> cache \<times> 'd" where
  "invalidate_fds env close c d =
     (let to_close = concat (map (entry_fds \<circ> snd) (m_table c));
          c = c\<lparr>m_table := map (\<lambda>(i, e). (i, e\<lparr>e_read_fd := None, e_write_fd := None\<rparr>)) (m_table c)\<rparr>
      in (c, if close then close_all env to_close d else d))"

text \<open>\<^verbatim>\<open>shutdown\<close>: errors of a flush are logged only.\<close>

fun flush_ids :: "'d env \<Rightarrow> nat list \<Rightarrow> cache \<Rightarrow> 'd \<Rightarrow> unit expect \<times> cache \<times> 'd" where
  "flush_ids env [] c d = (Inr (), c, d)"
| "flush_ids env (i # is) c d =
     (case flush env i c d of
        (r, c, d) \<Rightarrow> if r = Inl UB \<or> r = Inl Hang then (r, c, d) else flush_ids env is c d)"

definition shutdown :: "'d env \<Rightarrow> cache \<Rightarrow> 'd \<Rightarrow> unit expect \<times> cache \<times> 'd" where
  "shutdown env c d =
     (let c = c\<lparr>m_read_queue := []\<rparr> in
      case flush_ids env (map fst (m_table c)) c d of
        (Inl e, c, d) \<Rightarrow> (Inl e, c, d)
      | (Inr _, c, d) \<Rightarrow>
          (let (c, d) = invalidate_fds env True c d
           in (Inr (), c\<lparr>m_table := [], m_lru := []\<rparr>, d)))"

definition invalidate_all :: "'d env \<Rightarrow> cache \<Rightarrow> 'd \<Rightarrow> unit expect \<times> cache \<times> 'd" where
  "invalidate_all env c d = shutdown env c d"

definition set_page_size :: "'d env \<Rightarrow> nat \<Rightarrow> cache \<Rightarrow> 'd \<Rightarrow> unit expect \<times> cache \<times> 'd" where
  "set_page_size env n c d =
     (case shutdown env c d of
        (Inl e, c, d) \<Rightarrow> (Inl e, c, d)
      | (Inr _, c, d) \<Rightarrow> (Inr (), c\<lparr>m_page_size := n\<rparr>, d))"

definition set_max_pages :: "'d env \<Rightarrow> nat \<Rightarrow> cache \<Rightarrow> 'd \<Rightarrow> unit expect \<times> cache \<times> 'd" where
  "set_max_pages env n c d =
     (case shutdown env c d of
        (Inl e, c, d) \<Rightarrow> (Inl e, c, d)
      | (Inr _, c, d) \<Rightarrow> (Inr (), c\<lparr>m_max_pages := n\<rparr>, d))"

text \<open>
  \<^verbatim>\<open>clean_stale_fds\<close>: first pass over the stale list (taking the descriptors that no request is
  using), then the closes, then the removal of free entries.
\<close>

fun stale_pass :: "(nat \<times> fd_kind) list \<Rightarrow> cache \<Rightarrow> u64 list \<times> (nat \<times> fd_kind) list \<times> cache" where
  "stale_pass [] c = ([], [], c)"
| "stale_pass ((fid, kind) # vs) c =
     (case lookup fid c of
        None \<Rightarrow> stale_pass vs c
      | Some e \<Rightarrow>
          let (fd, e') =
            (case kind of
               FdRead \<Rightarrow> if e_read_inflight e = 0 then (e_read_fd e, e\<lparr>e_read_fd := None\<rparr>) else (None, e)
             | FdWrite \<Rightarrow> if e_write_inflight e = 0 then (e_write_fd e, e\<lparr>e_write_fd := None\<rparr>) else (None, e));
              (fds, keep, c) = stale_pass vs (set_entry fid e' c)
          in (case fd of Some f \<Rightarrow> (f # fds, keep, c) | None \<Rightarrow> (fds, (fid, kind) # keep, c)))"

definition clean_stale_fds :: "'d env \<Rightarrow> cache \<Rightarrow> 'd \<Rightarrow> cache \<times> 'd" where
  "clean_stale_fds env c d =
     (let (fds, keep, c) = stale_pass (m_stale_fds c) c;
          c = c\<lparr>m_stale_fds := keep\<rparr>;
          d = close_all env fds d;
          c = c\<lparr>m_table := filter (\<lambda>(i, e). \<not> is_free e) (m_table c)\<rparr>
      in (c, d))"

end
