(* ===== verification/Cache_Inv.thy ===== *)
theory Cache_Inv
  imports Cache
begin

text \<open>
  The invariant of the cache (every iterator an entry holds points to the page of that file and
  index, every page in the list is held by its file's entry, pages have the page size) and its
  preservation by the operations.
\<close>

section \<open>Projections of the updates\<close>

lemma upd_entry_sel [simp]:
  "m_lru (upd_entry fid f c) = m_lru c" "m_next (upd_entry fid f c) = m_next c"
  "m_read_queue (upd_entry fid f c) = m_read_queue c" "m_stale_fds (upd_entry fid f c) = m_stale_fds c"
  "m_page_size (upd_entry fid f c) = m_page_size c" "m_max_pages (upd_entry fid f c) = m_max_pages c"
  by (simp_all add: upd_entry_def set_entry_def split: option.splits)

lemma lookup_upd_entry [simp]:
  "lookup k (upd_entry fid f c) = (if k = fid then map_option f (lookup fid c) else lookup k c)"
  by (simp add: upd_entry_def lookup_def set_entry_def update_conv' split: option.splits)

lemma lru_get_upd_entry [simp]: "lru_get it (upd_entry fid f c) = lru_get it c"
  by (simp add: lru_get_def)

lemma upd_entry_keys [simp]: "map fst (m_table (upd_entry fid f c)) = map fst (m_table c)"
proof (cases "lookup fid c")
  case (Some e)
  then have "fid \<in> fst ` set (m_table c)" by (force simp: lookup_def dest: map_of_SomeD)
  with Some show ?thesis by (simp add: upd_entry_def set_entry_def update_keys)
qed (simp add: upd_entry_def)

lemma set_entry_sel [simp]:
  "m_lru (set_entry fid e c) = m_lru c" "m_next (set_entry fid e c) = m_next c"
  "m_read_queue (set_entry fid e c) = m_read_queue c" "m_stale_fds (set_entry fid e c) = m_stale_fds c"
  "m_page_size (set_entry fid e c) = m_page_size c" "m_max_pages (set_entry fid e c) = m_max_pages c"
  "lookup k (set_entry fid e c) = (if k = fid then Some e else lookup k c)"
  "lru_get it (set_entry fid e c) = lru_get it c"
  by (simp_all add: set_entry_def lookup_def lru_get_def update_conv')

lemma set_entry_upd: "lookup fid c = Some e0 \<Longrightarrow> set_entry fid e c = upd_entry fid (\<lambda>_. e) c"
  by (simp add: upd_entry_def)

lemma field_upd_sel [simp]:
  "lookup k (c\<lparr>m_stale_fds := v\<rparr>) = lookup k c" "lru_get it (c\<lparr>m_stale_fds := v\<rparr>) = lru_get it c"
  "lookup k (c\<lparr>m_read_queue := q\<rparr>) = lookup k c" "lru_get it (c\<lparr>m_read_queue := q\<rparr>) = lru_get it c"
  "lookup k (c\<lparr>m_lru := l\<rparr>) = lookup k c" "lru_get it (c\<lparr>m_table := t\<rparr>) = lru_get it c"
  "lookup k (c\<lparr>m_next := n\<rparr>) = lookup k c" "lru_get it (c\<lparr>m_next := n\<rparr>) = lru_get it c"
  by (simp_all add: lookup_def lru_get_def)

lemma lru_set_sel [simp]:
  "m_table (lru_set it pg c) = m_table c" "m_next (lru_set it pg c) = m_next c"
  "m_read_queue (lru_set it pg c) = m_read_queue c" "m_page_size (lru_set it pg c) = m_page_size c"
  "m_max_pages (lru_set it pg c) = m_max_pages c" "m_stale_fds (lru_set it pg c) = m_stale_fds c"
  "lookup k (lru_set it pg c) = lookup k c"
  "lru_get j (lru_set it pg c) = (if j = it then Some pg else lru_get j c)"
  by (simp_all add: lru_set_def lookup_def lru_get_def update_conv')

lemma lru_erase_sel [simp]:
  "m_table (lru_erase it c) = m_table c" "m_next (lru_erase it c) = m_next c"
  "m_read_queue (lru_erase it c) = m_read_queue c" "m_page_size (lru_erase it c) = m_page_size c"
  "m_max_pages (lru_erase it c) = m_max_pages c" "m_stale_fds (lru_erase it c) = m_stale_fds c"
  "lookup k (lru_erase it c) = lookup k c"
  "lru_get j (lru_erase it c) = (if j = it then None else lru_get j c)"
  by (simp_all add: lru_erase_def lookup_def lru_get_def delete_conv')

lemma lru_to_front_sel [simp]:
  "m_table (lru_to_front it pg c) = m_table c" "m_next (lru_to_front it pg c) = m_next c"
  "m_read_queue (lru_to_front it pg c) = m_read_queue c" "m_page_size (lru_to_front it pg c) = m_page_size c"
  "m_max_pages (lru_to_front it pg c) = m_max_pages c" "m_stale_fds (lru_to_front it pg c) = m_stale_fds c"
  "lookup k (lru_to_front it pg c) = lookup k c"
  "lru_get j (lru_to_front it pg c) = (if j = it then Some pg else lru_get j c)"
  by (simp_all add: lru_to_front_def lookup_def lru_get_def delete_conv')

lemma lru_length_to_front:
  "lru_get it c = Some p \<Longrightarrow> distinct (map fst (m_lru c)) \<Longrightarrow> length (m_lru (lru_to_front it pg c)) = length (m_lru c)"
proof -
  assume g: "lru_get it c = Some p" and d: "distinct (map fst (m_lru c))"
  then have i: "it \<in> set (map fst (m_lru c))" by (force simp: lru_get_def dest: map_of_SomeD)
  have "map fst (AList.delete it (m_lru c)) = remove1 it (map fst (m_lru c))"
    using d by (simp add: delete_keys distinct_remove1_removeAll)
  then have "length (AList.delete it (m_lru c)) = length (remove1 it (map fst (m_lru c)))"
    by (metis length_map)
  moreover have "0 < length (m_lru c)" using i by (cases "m_lru c") auto
  ultimately show ?thesis using i by (simp add: lru_to_front_def length_remove1)
qed

lemma lru_length_set: "lru_get it c = Some p \<Longrightarrow> length (m_lru (lru_set it pg c)) = length (m_lru c)"
proof -
  assume "lru_get it c = Some p"
  then have "it \<in> set (map fst (m_lru c))" by (force simp: lru_get_def dest: map_of_SomeD)
  then have "map fst (m_lru (lru_set it pg c)) = map fst (m_lru c)"
    by (simp add: lru_set_def update_keys)
  then show ?thesis by (metis length_map)
qed

section \<open>Ordered page maps\<close>

lemma map_of_emplace:
  "map_of ps i = None \<Longrightarrow> map_of (pages_emplace i it ps) = (map_of ps)(i \<mapsto> it)"
proof (induction i it ps rule: pages_emplace.induct)
  case (2 i it j jt ps)
  then show ?case by (auto simp: fun_upd_twist split: if_splits)
qed simp

lemma emplace_present: "sorted (map fst ps) \<Longrightarrow> i \<in> fst ` set ps \<Longrightarrow> pages_emplace i it ps = ps"
  by (induction i it ps rule: pages_emplace.induct) force+

lemma keys_emplace: "set (map fst (pages_emplace i it ps)) = insert i (set (map fst ps))"
  by (induction i it ps rule: pages_emplace.induct) auto

lemma distinct_emplace: "distinct (map fst ps) \<Longrightarrow> map_of ps i = None \<Longrightarrow> distinct (map fst (pages_emplace i it ps))"
proof (induction i it ps rule: pages_emplace.induct)
  case (2 i it j jt ps)
  have "j \<noteq> i \<Longrightarrow> j \<notin> fst ` set (pages_emplace i it ps)"
    using keys_emplace [of i it ps] 2(2) by auto
  with 2 show ?case by (auto simp: map_of_eq_None_iff split: if_splits)
qed simp

lemma map_of_pages_erase: "map_of (pages_erase i ps) = (map_of ps)(i := None)"
  by (induction ps) (auto simp: pages_erase_def fun_eq_iff)

lemma distinct_pages_erase: "distinct (map fst ps) \<Longrightarrow> distinct (map fst (pages_erase i ps))"
  by (simp add: pages_erase_def distinct_map_filter)

section \<open>The invariant\<close>

definition page_ok :: "nat \<Rightarrow> page \<Rightarrow> bool" where
  "page_ok ps pg = (length (pg_data pg) = ps \<and> pg_size pg \<le> ps \<and> pg_page_size pg = ps)"

definition indexed :: "cache \<Rightarrow> nat \<Rightarrow> page \<Rightarrow> bool" where
  "indexed c it pg = (\<exists>e. lookup (pg_id pg) c = Some e \<and> map_of (e_pages e) (pg_index pg) = Some it)"

definition entry_ok :: "cache \<Rightarrow> nat \<Rightarrow> entry \<Rightarrow> bool" where
  "entry_ok c fid e = (distinct (map fst (e_pages e)) \<and>
     (\<forall>i it. map_of (e_pages e) i = Some it \<longrightarrow>
        (\<exists>pg. lru_get it c = Some pg \<and> pg_id pg = fid \<and> pg_index pg = i)))"

definition cache_inv :: "cache \<Rightarrow> bool" where
  "cache_inv c = (0 < m_page_size c \<and> m_page_size c < 2 ^ 32 \<and> m_read_queue c = [] \<and>
     distinct (map fst (m_lru c)) \<and> distinct (map fst (m_table c)) \<and>
     (\<forall>it pg. lru_get it c = Some pg \<longrightarrow> it < m_next c \<and> page_ok (m_page_size c) pg \<and> indexed c it pg) \<and>
     (\<forall>fid e. lookup fid c = Some e \<longrightarrow> entry_ok c fid e))"

lemma cache_invD:
  assumes "cache_inv c"
  shows "0 < m_page_size c" "m_page_size c < 2 ^ 32" "m_read_queue c = []"
    "distinct (map fst (m_lru c))" "distinct (map fst (m_table c))"
    "lru_get it c = Some pg \<Longrightarrow> it < m_next c"
    "lru_get it c = Some pg \<Longrightarrow> page_ok (m_page_size c) pg"
    "lru_get it c = Some pg \<Longrightarrow> indexed c it pg"
    "lookup fid c = Some e \<Longrightarrow> entry_ok c fid e"
  using assms by (auto simp: cache_inv_def)

lemma entry_okE:
  assumes "entry_ok c fid e" "map_of (e_pages e) i = Some it"
  obtains pg where "lru_get it c = Some pg" "pg_id pg = fid" "pg_index pg = i"
  using assms unfolding entry_ok_def by blast

lemma await_queued_empty [simp]: "m_read_queue c = [] \<Longrightarrow> await_queued fid i c = None"
  by (simp add: await_queued_def)

text \<open>Updating an entry in anything but its pages.\<close>

lemma inv_upd_entry [inv_intros]:
  assumes "cache_inv c" "\<And>e. e_pages (f e) = e_pages e"
  shows "cache_inv (upd_entry fid f c)"
proof -
  have "indexed (upd_entry fid f c) it pg" if "indexed c it pg" for it pg
    using that assms(2) by (auto simp: indexed_def)
  moreover have "entry_ok (upd_entry fid f c) k e" if "lookup k (upd_entry fid f c) = Some e" for k e
    using that assms(2) cache_invD(9) [OF assms(1), of k]
    by (auto simp: entry_ok_def split: if_splits)
  ultimately show ?thesis using assms(1) by (auto simp: cache_inv_def)
qed

lemma inv_stale [inv_intros]: "cache_inv c \<Longrightarrow> cache_inv (c\<lparr>m_stale_fds := v\<rparr>)"
  by (simp add: cache_inv_def indexed_def entry_ok_def)

lemma inv_inflight [inv_intros]:
  "cache_inv c \<Longrightarrow> cache_inv (inc_write fid c)" "cache_inv c \<Longrightarrow> cache_inv (dec_write fid c)"
  "cache_inv c \<Longrightarrow> cache_inv (inc_read fid c)" "cache_inv c \<Longrightarrow> cache_inv (dec_read fid c)"
  by (simp_all add: inc_write_def dec_write_def inc_read_def dec_read_def inv_upd_entry)

text \<open>Replacing the contents of a page, and moving a page to the front.\<close>

lemma inv_lru_set [inv_intros]:
  assumes "cache_inv c" "lru_get it c = Some pg0" "pg_id pg = pg_id pg0" "pg_index pg = pg_index pg0"
    "page_ok (m_page_size c) pg"
  shows "cache_inv (lru_set it pg c)"
proof -
  have "distinct (map fst (m_lru (lru_set it pg c)))"
    using cache_invD(4) [OF assms(1)] by (simp add: lru_set_def distinct_update)
  moreover have "entry_ok (lru_set it pg c) fid e" if "entry_ok c fid e" for fid e
    using that assms(2-4) by (fastforce simp: entry_ok_def)
  moreover have "indexed (lru_set it pg c) j q" if "lru_get j (lru_set it pg c) = Some q" for j q
    using that assms(2-4) cache_invD(8) [OF assms(1), of j] by (auto simp: indexed_def split: if_splits)
  ultimately show ?thesis using assms by (auto simp: cache_inv_def)
qed

lemma inv_lru_to_front [inv_intros]:
  assumes "cache_inv c" "lru_get it c = Some pg"
  shows "cache_inv (lru_to_front it pg c)"
proof -
  have "distinct (map fst (m_lru (lru_to_front it pg c)))"
    using cache_invD(4) [OF assms(1)] by (simp add: lru_to_front_def delete_keys distinct_removeAll)
  moreover have "entry_ok (lru_to_front it pg c) fid e" if "entry_ok c fid e" for fid e
    using that assms(2) by (fastforce simp: entry_ok_def)
  moreover have "indexed (lru_to_front it pg c) j q" if "lru_get j (lru_to_front it pg c) = Some q" for j q
    using that assms(2) cache_invD(8) [OF assms(1), of j] by (auto simp: indexed_def split: if_splits)
  ultimately show ?thesis using assms by (auto simp: cache_inv_def)
qed

section \<open>Inserting and removing pages\<close>

lemma lru_push_front_sel [simp]:
  "fst (lru_push_front pg c) = m_next c"
  "m_table (snd (lru_push_front pg c)) = m_table c"
  "m_read_queue (snd (lru_push_front pg c)) = m_read_queue c"
  "m_page_size (snd (lru_push_front pg c)) = m_page_size c"
  "m_max_pages (snd (lru_push_front pg c)) = m_max_pages c"
  "m_stale_fds (snd (lru_push_front pg c)) = m_stale_fds c"
  "m_next (snd (lru_push_front pg c)) = Suc (m_next c)"
  "m_lru (snd (lru_push_front pg c)) = (m_next c, pg) # m_lru c"
  "lookup k (snd (lru_push_front pg c)) = lookup k c"
  "lru_get j (snd (lru_push_front pg c)) = (if j = m_next c then Some pg else lru_get j c)"
  by (simp_all add: lru_push_front_def lookup_def lru_get_def)

definition insert_page :: "page \<Rightarrow> cache \<Rightarrow> cache" where
  "insert_page pg c =
     upd_entry (pg_id pg) (\<lambda>e. e\<lparr>e_pages := pages_emplace (pg_index pg) (m_next c) (e_pages e)\<rparr>)
       (snd (lru_push_front pg c))"

lemma inv_insert_page [inv_intros]:
  assumes inv: "cache_inv c" and e: "lookup (pg_id pg) c = Some e"
    and new: "map_of (e_pages e) (pg_index pg) = None" and ok: "page_ok (m_page_size c) pg"
  shows "cache_inv (insert_page pg c)"
proof -
  let ?c = "insert_page pg c"
  have next_new: "lru_get (m_next c) c = None"
    using cache_invD(6) [OF inv, of "m_next c"] by (cases "lru_get (m_next c) c") auto
  then have "m_next c \<notin> set (map fst (m_lru c))"
    by (auto simp: lru_get_def map_of_eq_None_iff)
  then have "distinct (map fst (m_lru ?c))" using cache_invD(4) [OF inv] by (simp add: insert_page_def)
  moreover have "it < m_next ?c \<and> page_ok (m_page_size ?c) q \<and> indexed ?c it q"
    if "lru_get it ?c = Some q" for it q
  proof (cases "it = m_next c")
    case True
    with that e new ok show ?thesis by (simp add: insert_page_def indexed_def map_of_emplace)
  next
    case False
    with that have q: "lru_get it c = Some q" by (simp add: insert_page_def)
    obtain e' where e': "lookup (pg_id q) c = Some e'" "map_of (e_pages e') (pg_index q) = Some it"
      using cache_invD(8) [OF inv q] by (auto simp: indexed_def)
    have "indexed ?c it q"
    proof (cases "pg_id q = pg_id pg")
      case True
      with e e' new have "pg_index q \<noteq> pg_index pg" by auto
      with True e e' new show ?thesis by (simp add: insert_page_def indexed_def map_of_emplace)
    next
      case False
      with e' show ?thesis by (simp add: insert_page_def indexed_def)
    qed
    then show ?thesis
      using cache_invD(6,7) [OF inv q] by (simp add: insert_page_def)
  qed
  moreover have "entry_ok ?c fid e'" if l: "lookup fid ?c = Some e'" for fid e'
  proof (cases "fid = pg_id pg")
    case True
    with l e have e': "e' = e\<lparr>e_pages := pages_emplace (pg_index pg) (m_next c) (e_pages e)\<rparr>"
      by (simp add: insert_page_def)
    have ok: "entry_ok c fid e" using cache_invD(9) [OF inv] e True by simp
    show ?thesis
      unfolding entry_ok_def
    proof (intro conjI allI impI)
      show "distinct (map fst (e_pages e'))" using ok new by (simp add: e' entry_ok_def distinct_emplace)
      fix i it assume m: "map_of (e_pages e') i = Some it"
      show "\<exists>q. lru_get it ?c = Some q \<and> pg_id q = fid \<and> pg_index q = i"
      proof (cases "i = pg_index pg")
        case True
        with m new \<open>fid = pg_id pg\<close> show ?thesis
          by (simp add: e' map_of_emplace insert_page_def)
      next
        case False
        with m new have "map_of (e_pages e) i = Some it" by (simp add: e' map_of_emplace)
        with ok obtain q where "lru_get it c = Some q" "pg_id q = fid" "pg_index q = i"
          by (rule entry_okE)
        then show ?thesis using next_new by (auto simp: insert_page_def)
      qed
    qed
  next
    case False
    with l have "lookup fid c = Some e'" by (simp add: insert_page_def)
    then have ok: "entry_ok c fid e'" by (rule cache_invD(9) [OF inv])
    have "lru_get it ?c = lru_get it c" if "lru_get it c = Some q" for it q
      using that next_new by (auto simp: insert_page_def)
    with ok show ?thesis by (fastforce simp: entry_ok_def)
  qed
  ultimately show ?thesis using cache_invD(1-3,5) [OF inv] by (simp add: cache_inv_def insert_page_def)
qed

lemma inv_remove_page:
  assumes inv: "cache_inv c" and pg: "lru_get it c = Some pg"
    and l: "map_of l = (map_of (m_lru c))(it := None)" "distinct (map fst l)"
    and f: "\<And>e. e_pages (f e) = pages_erase (pg_index pg) (e_pages e)"
  shows "cache_inv (upd_entry (pg_id pg) f (c\<lparr>m_lru := l\<rparr>))"
proof -
  let ?c = "upd_entry (pg_id pg) f (c\<lparr>m_lru := l\<rparr>)"
  have get: "lru_get j (c\<lparr>m_lru := l\<rparr>) = (if j = it then None else lru_get j c)" for j
    using l(1) by (simp add: lru_get_def)
  obtain e where e: "lookup (pg_id pg) c = Some e" "map_of (e_pages e) (pg_index pg) = Some it"
    using cache_invD(8) [OF inv pg] by (auto simp: indexed_def)
  have "indexed ?c j q" if q: "lru_get j c = Some q" "j \<noteq> it" for j q
  proof -
    obtain e' where e': "lookup (pg_id q) c = Some e'" "map_of (e_pages e') (pg_index q) = Some j"
      using cache_invD(8) [OF inv q(1)] by (auto simp: indexed_def)
    show ?thesis
    proof (cases "pg_id q = pg_id pg")
      case True
      with e e' q(2) have "pg_index q \<noteq> pg_index pg" by auto
      with True e e' show ?thesis by (simp add: indexed_def f map_of_pages_erase)
    next
      case False
      with e' show ?thesis by (simp add: indexed_def)
    qed
  qed
  moreover have "entry_ok ?c fid e'" if e': "lookup fid ?c = Some e'" for fid e'
  proof (cases "fid = pg_id pg")
    case True
    with e' e have fe: "e' = f e" by simp
    have ok: "entry_ok c fid e" using cache_invD(9) [OF inv] e(1) True by simp
    have "it' \<noteq> it" if "map_of (e_pages e) i = Some it'" "i \<noteq> pg_index pg" for i it'
      using entry_okE [OF ok that(1)] that(2) pg by fastforce
    then show ?thesis
      using ok by (auto simp: entry_ok_def fe f map_of_pages_erase distinct_pages_erase get)
  next
    case False
    with e' have "lookup fid c = Some e'" by simp
    then have ok: "entry_ok c fid e'" by (rule cache_invD(9) [OF inv])
    have "it' \<noteq> it" if "map_of (e_pages e') i = Some it'" for i it'
      using entry_okE [OF ok that] pg False by fastforce
    with ok show ?thesis by (auto simp: entry_ok_def get)
  qed
  ultimately show ?thesis
    using cache_invD(1-3,5) [OF inv] cache_invD(6,7) [OF inv] l(2) by (auto simp: cache_inv_def get)
qed

section \<open>Flushing\<close>

lemma flush_at_page:
  "flush_at env fd pg c d = (r, pg', d') \<Longrightarrow> pg' = pg \<or> pg' = pg\<lparr>pg_dirty := False\<rparr>"
  by (auto simp: flush_at_def split: option.splits prod.splits sum.splits)

lemma flush_at_clean:
  "flush_at env fd pg c d = (Inr (), pg', d') \<Longrightarrow> pg' = pg\<lparr>pg_dirty := False\<rparr>"
  by (auto simp: flush_at_def split: option.splits prod.splits sum.splits)

lemma page_ok_dirty [simp]: "page_ok ps (pg\<lparr>pg_dirty := b\<rparr>) = page_ok ps pg"
  by (simp add: page_ok_def)

lemma inv_flush_page:
  assumes "cache_inv c" "lru_get it c = Some pg" "flush_at env fd pg c d = (r, pg', d')"
  shows "cache_inv (lru_set it pg' c)"
  using assms(1,2)
  by (rule inv_lru_set) (use flush_at_page [OF assms(3)] cache_invD(7) [OF assms(1,2)] in auto)

text \<open>What flushing leaves alone: the table, the contents and keys of the pages.\<close>

definition same_pages :: "cache \<Rightarrow> cache \<Rightarrow> bool" where
  "same_pages c c' = (m_table c' = m_table c \<and> m_next c' = m_next c \<and> m_page_size c' = m_page_size c \<and>
     m_max_pages c' = m_max_pages c \<and> m_stale_fds c' = m_stale_fds c \<and>
     length (m_lru c') = length (m_lru c) \<and>
     (\<forall>it. map_option (\<lambda>pg. pg\<lparr>pg_dirty := False\<rparr>) (lru_get it c') =
           map_option (\<lambda>pg. pg\<lparr>pg_dirty := False\<rparr>) (lru_get it c)))"

lemma same_pages_refl [simp]: "same_pages c c"
  by (simp add: same_pages_def)

lemma same_pages_trans: "same_pages a b \<Longrightarrow> same_pages b c \<Longrightarrow> same_pages a c"
  by (simp add: same_pages_def)

lemma same_pages_lookup: "same_pages c c' \<Longrightarrow> lookup k c' = lookup k c"
  by (simp add: same_pages_def lookup_def)

lemma same_pages_set:
  "lru_get it c = Some pg \<Longrightarrow> pg' = pg \<or> pg' = pg\<lparr>pg_dirty := False\<rparr> \<Longrightarrow> same_pages c (lru_set it pg' c)"
  using lru_length_set [of it c pg pg'] by (auto simp: same_pages_def)

lemma flush_pages_ok:
  assumes "flush_pages env fid ps c d = (r, c', d')" "cache_inv c"
  shows "cache_inv c' \<and> same_pages c c'"
  using assms
proof (induction env fid ps c d rule: flush_pages.induct)
  case (2 env fid i it ps c d)
  show ?case
  proof (cases "lru_get it c")
    case (Some pg)
    note pg = Some
    show ?thesis
    proof (cases "pg_dirty pg")
      case True
      show ?thesis
      proof (cases "Option.bind (lookup fid c) e_write_fd")
        case (Some fd)
        obtain r1 pg' d1 where fa: "flush_at env fd pg c d = (r1, pg', d1)" by (metis prod_cases3)
        have inv: "cache_inv (lru_set it pg' c)" by (rule inv_flush_page [OF 2(4) pg fa])
        have same: "same_pages c (lru_set it pg' c)"
          by (rule same_pages_set [OF pg flush_at_page [OF fa]])
        show ?thesis
        proof (cases r1)
          case (Inl e)
          with 2(3) pg True Some fa inv same show ?thesis by auto
        next
          case (Inr u)
          with 2(3) pg True Some fa have "flush_pages env fid ps (lru_set it pg' c) d1 = (r, c', d')"
            by simp
          with 2(2) pg True Some fa Inr inv same_pages_trans [OF same] show ?thesis by auto
        qed
      qed (use 2(3,4) pg True in auto)
    qed (use 2 pg in auto)
  qed (use 2(3,4) in auto)
qed simp

lemma flush_pages_clean:
  assumes "flush_pages env fid ps c d = (Inr (), c', d')" "(i, it) \<in> set ps \<or> (\<exists>pg. lru_get it c = Some pg \<and> \<not> pg_dirty pg)"
  shows "\<exists>pg. lru_get it c' = Some pg \<and> \<not> pg_dirty pg"
  using assms
proof (induction env fid ps c d rule: flush_pages.induct)
  case (2 env fid j jt ps c d)
  obtain pg where pg: "lru_get jt c = Some pg" using 2(3) by (auto split: option.splits)
  show ?case
  proof (cases "pg_dirty pg")
    case True
    then obtain fd pg' d1 where fd: "Option.bind (lookup fid c) e_write_fd = Some fd"
      and fa: "flush_at env fd pg c d = (Inr (), pg', d1)"
      and rest: "flush_pages env fid ps (lru_set jt pg' c) d1 = (Inr (), c', d')"
      using 2(3) pg by (auto split: option.splits prod.splits sum.splits)
    have "(i, it) \<in> set ps \<or> (\<exists>pg. lru_get it (lru_set jt pg' c) = Some pg \<and> \<not> pg_dirty pg)"
      using 2(4) flush_at_clean [OF fa] by auto
    from 2(2) [OF pg _ fd fa [symmetric] refl refl rest this] True show ?thesis by auto
  next
    case False
    with 2 pg show ?thesis by auto
  qed
qed simp

lemma ensure_write_fd_cases:
  assumes "ensure_write_fd env fid e c d = (r, c', d')"
  shows "\<exists>f. c' = upd_entry fid f c \<and> (\<forall>e. f e = e \<or> (\<exists>fd. f e = e\<lparr>e_write_fd := Some fd\<rparr>))"
proof (cases "\<exists>fd. e_write_fd e = None \<and> r = Inr fd")
  case True
  with assms show ?thesis
    by (fastforce simp: ensure_write_fd_def split: prod.splits sum.splits)
next
  case False
  have "upd_entry fid (\<lambda>e. e) c = c"
    by (auto simp: upd_entry_def set_entry_def lookup_def update_triv split: option.splits)
  moreover have "c' = c"
    using assms False by (auto simp: ensure_write_fd_def split: prod.splits sum.splits option.splits)
  ultimately show ?thesis by (intro exI [of _ "\<lambda>e. e"]) simp
qed

lemma inv_ensure_write_fd:
  assumes "ensure_write_fd env fid e c d = (r, c', d')" "cache_inv c"
  shows "cache_inv c'"
proof -
  obtain f where c': "c' = upd_entry fid f c"
    and f: "\<forall>e. f e = e \<or> (\<exists>fd. f e = e\<lparr>e_write_fd := Some fd\<rparr>)"
    using ensure_write_fd_cases [OF assms(1)] by blast
  have "e_pages (f e) = e_pages e" for e using f by (metis entry.select_convs(1) entry.surjective entry.update_convs(6))
  with assms(2) show ?thesis by (simp add: c' inv_upd_entry)
qed

lemma inv_flush [inv_intros]:
  assumes "flush env fid c d = (r, c', d')" "cache_inv c"
  shows "cache_inv c'"
proof (cases "lookup fid c")
  case (Some e)
  show ?thesis
  proof (cases "e_dirty e")
    case True
    obtain r1 c1 d1 where en: "ensure_write_fd env fid e c d = (r1, c1, d1)" by (metis prod_cases3)
    note inv1 = inv_ensure_write_fd [OF en assms(2)]
    obtain r2 c2 d2 where fp: "flush_pages env fid (e_pages e) (inc_write fid c1) d1 = (r2, c2, d2)"
      by (metis prod_cases3)
    have inv2: "cache_inv c2" using flush_pages_ok [OF fp] inv1 by (simp add: inv_intros)
    show ?thesis
      using assms(1) Some True en fp inv1 inv2
      by (cases r1; cases r2) (auto simp: flush_def intro!: inv_intros)
  qed (use assms Some in \<open>simp add: flush_def\<close>)
qed (use assms in \<open>simp add: flush_def\<close>)

lemma flush_success:
  assumes "flush env fid c d = (Inr (), c', d')" "cache_inv c" "lookup fid c = Some e" "e_dirty e"
  shows "\<exists>e'. lookup fid c' = Some e' \<and> \<not> e_dirty e' \<and> e_pages e' = e_pages e \<and> e_path e' = e_path e"
    and "map_of (e_pages e) i = Some it \<Longrightarrow> \<exists>pg. lru_get it c' = Some pg \<and> \<not> pg_dirty pg"
proof -
  obtain fd c1 d1 where en: "ensure_write_fd env fid e c d = (Inr fd, c1, d1)"
    using assms(1,3,4) by (auto simp: flush_def split: prod.splits sum.splits)
  obtain c2 d2 where fp: "flush_pages env fid (e_pages e) (inc_write fid c1) d1 = (Inr (), c2, d2)"
    and c': "c' = dec_write fid (upd_entry fid (\<lambda>e. e\<lparr>e_dirty := False\<rparr>) c2)"
    using assms(1,3,4) en by (auto simp: flush_def split: prod.splits sum.splits)
  have inv1: "cache_inv (inc_write fid c1)"
    using inv_ensure_write_fd [OF en assms(2)] by (rule inv_inflight)
  note same = flush_pages_ok [OF fp inv1]
  obtain f where c1: "c1 = upd_entry fid f c"
    and f: "\<forall>e. f e = e \<or> (\<exists>fd. f e = e\<lparr>e_write_fd := Some fd\<rparr>)"
    using ensure_write_fd_cases [OF en] by blast
  have "e_pages (f e) = e_pages e \<and> e_path (f e) = e_path e"
    using spec [OF f, of e] by auto
  moreover have "lookup fid c2 = lookup fid (inc_write fid c1)"
    using same by (simp add: same_pages_lookup)
  ultimately show "\<exists>e'. lookup fid c' = Some e' \<and> \<not> e_dirty e' \<and> e_pages e' = e_pages e \<and> e_path e' = e_path e"
    using assms(3) by (simp add: c' c1 dec_write_def inc_write_def)
  show "\<exists>pg. lru_get it c' = Some pg \<and> \<not> pg_dirty pg" if "map_of (e_pages e) i = Some it"
    using flush_pages_clean [OF fp] map_of_SomeD [OF that] by (auto simp: c' dec_write_def)
qed

section \<open>Evicting\<close>

text \<open>
  What keeping the invariant needs of the device: opening a file does not fail. (When it does
  fail, \<^verbatim>\<open>evict\<close> leaves the index of a page that is gone.)
\<close>

definition open_ok :: "'d env \<Rightarrow> bool" where
  "open_ok env = (\<forall>p m d. is_ok (fst (conn_open env p m d)))"

lemma upd_entry_upd: "upd_entry fid f (upd_entry fid g c) = upd_entry fid (\<lambda>e. f (g e)) c"
proof (cases "lookup fid c")
  case (Some e)
  then have "lookup fid (upd_entry fid g c) = Some (g e)" by simp
  then have "upd_entry fid f (upd_entry fid g c) = set_entry fid (f (g e)) (upd_entry fid g c)"
    by (simp only: upd_entry_def [of fid f] option.case)
  with Some show ?thesis by (simp add: upd_entry_def set_entry_def)
qed (simp add: upd_entry_def)

lemma ensure_write_fd_open_ok:
  assumes "open_ok env"
  shows "\<exists>fd f d'. ensure_write_fd env fid e c d = (Inr fd, upd_entry fid f c, d') \<and>
    (\<forall>e. f e = e \<or> (\<exists>fd. f e = e\<lparr>e_write_fd := Some fd\<rparr>))"
proof -
  obtain r c' d' where en: "ensure_write_fd env fid e c d = (r, c', d')" by (metis prod_cases3)
  have "is_ok (fst (conn_open env (e_path e) OM_Write d))" using assms by (simp add: open_ok_def)
  then obtain fd where "r = Inr fd"
    using en by (auto simp: ensure_write_fd_def is_ok_def split: option.splits prod.splits sum.splits)
  with en ensure_write_fd_cases [OF en] show ?thesis by blast
qed

text \<open>What an eviction keeps of every entry.\<close>

definition entry_kept :: "entry \<Rightarrow> entry \<Rightarrow> bool" where
  "entry_kept e e' = (e_path e' = e_path e \<and> e_reader e' = e_reader e \<and> e_writer e' = e_writer e \<and>
     e_read_fd e' = e_read_fd e \<and> e_read_inflight e' = e_read_inflight e \<and>
     e_write_inflight e' = e_write_inflight e \<and> e_dirty e' = e_dirty e)"

lemma entry_kept_trans: "entry_kept a b \<Longrightarrow> entry_kept b c \<Longrightarrow> entry_kept a c"
  by (simp add: entry_kept_def)

lemma evict_one_eq:
  assumes "open_ok env" "lookup (pg_id pg) c = Some e"
  shows "\<exists>f d'. evict_one env pg c d = (upd_entry (pg_id pg) f c, d') \<and>
    (\<forall>e. e_pages (f e) = pages_erase (pg_index pg) (e_pages e) \<and> entry_kept e (f e))"
proof (cases "pg_dirty pg")
  case True
  let ?fid = "pg_id pg"
  obtain fd f d1 where en: "ensure_write_fd env ?fid e (inc_write ?fid c) d =
      (Inr fd, upd_entry ?fid f (inc_write ?fid c), d1)"
    and f: "\<forall>e. f e = e \<or> (\<exists>fd. f e = e\<lparr>e_write_fd := Some fd\<rparr>)"
    using ensure_write_fd_open_ok [OF assms(1)] by blast
  obtain r pg' d2 where fa: "flush_at env fd pg (upd_entry ?fid f (inc_write ?fid c)) d1 = (r, pg', d2)"
    by (metis prod_cases3)
  define g where "g = (\<lambda>e. let e1 = f (e\<lparr>e_write_inflight := e_write_inflight e + 1\<rparr>);
      e2 = e1\<lparr>e_write_inflight := e_write_inflight e1 - 1\<rparr>
      in e2\<lparr>e_pages := pages_erase (pg_index pg) (e_pages e2)\<rparr>)"
  have "evict_one env pg c d = (upd_entry ?fid g c, d2)"
    using assms(2) True en fa
    by (simp add: evict_one_def inc_write_def dec_write_def upd_entry_upd g_def Let_def)
  moreover have "e_pages (g e) = pages_erase (pg_index pg) (e_pages e) \<and> entry_kept e (g e)" for e
    using spec [OF f, of "e\<lparr>e_write_inflight := e_write_inflight e + 1\<rparr>"]
    by (auto simp: g_def Let_def entry_kept_def)
  ultimately show ?thesis by blast
next
  case False
  with assms(2) show ?thesis
    by (auto simp: evict_one_def entry_kept_def intro!: exI [of _ "\<lambda>e. e\<lparr>e_pages := pages_erase (pg_index pg) (e_pages e)\<rparr>"])
qed

lemma map_of_butlast:
  assumes "distinct (map fst xs)" "xs \<noteq> []"
  shows "map_of (butlast xs) = (map_of xs)(fst (last xs) := None)"
proof -
  obtain ys k v where xs: "xs = ys @ [(k, v)]" using assms(2) by (metis prod.collapse append_butlast_last_id)
  then have "k \<notin> fst ` set ys" using assms(1) by auto
  then show ?thesis by (simp add: xs map_add_def fun_eq_iff map_of_eq_None_iff split: option.splits)
qed

lemma evict_step:
  assumes "open_ok env" "cache_inv c" "m_lru c \<noteq> []"
  shows "\<exists>c' d'. evict_one env (snd (last (m_lru c))) (c\<lparr>m_lru := butlast (m_lru c)\<rparr>) d = (c', d') \<and>
    cache_inv c' \<and> m_lru c' = butlast (m_lru c) \<and> m_page_size c' = m_page_size c \<and>
    m_max_pages c' = m_max_pages c \<and> m_next c' = m_next c \<and>
    (\<forall>fid. rel_option entry_kept (lookup fid c) (lookup fid c'))"
proof -
  obtain it pg where l: "last (m_lru c) = (it, pg)" by fastforce
  have "(it, pg) \<in> set (m_lru c)" using assms(3) l by (metis last_in_set)
  then have g: "lru_get it c = Some pg" using cache_invD(4) [OF assms(2)] by (simp add: lru_get_def)
  obtain e where e: "lookup (pg_id pg) c = Some e"
    using cache_invD(8) [OF assms(2) g] by (auto simp: indexed_def)
  obtain f d' where f: "evict_one env pg (c\<lparr>m_lru := butlast (m_lru c)\<rparr>) d =
      (upd_entry (pg_id pg) f (c\<lparr>m_lru := butlast (m_lru c)\<rparr>), d')"
    "\<forall>e. e_pages (f e) = pages_erase (pg_index pg) (e_pages e) \<and> entry_kept e (f e)"
    using evict_one_eq [OF assms(1), of pg "c\<lparr>m_lru := butlast (m_lru c)\<rparr>" e d] e by auto
  have "cache_inv (upd_entry (pg_id pg) f (c\<lparr>m_lru := butlast (m_lru c)\<rparr>))"
    using f(2) map_of_butlast [OF cache_invD(4) [OF assms(2)] assms(3)] cache_invD(4) [OF assms(2)] l
    by (intro inv_remove_page [OF assms(2) g]) (simp_all add: map_butlast distinct_butlast)
  moreover have "rel_option entry_kept (lookup fid c) (lookup fid (upd_entry (pg_id pg) f (c\<lparr>m_lru := butlast (m_lru c)\<rparr>)))" for fid
    using f(2) by (cases "lookup fid c") (auto simp: entry_kept_def)
  ultimately show ?thesis using f(1) l by simp
qed

lemma evict_ok:
  assumes "open_ok env" "cache_inv c"
  shows "\<exists>c' d'. evict env n c d = (c', d') \<and> cache_inv c' \<and>
    m_lru c' = take (length (m_lru c) - n) (m_lru c) \<and> m_page_size c' = m_page_size c \<and>
    m_max_pages c' = m_max_pages c \<and> m_next c' = m_next c \<and>
    (\<forall>fid. rel_option entry_kept (lookup fid c) (lookup fid c'))"
  using assms(2)
proof (induction n arbitrary: c d)
  case 0
  have "rel_option entry_kept (lookup fid c) (lookup fid c)" for fid
    by (rule option.rel_refl) (simp add: entry_kept_def)
  with 0 show ?case by simp
next
  case (Suc n)
  show ?case
  proof (cases "m_lru c = []")
    case True
    have "rel_option entry_kept (lookup fid c) (lookup fid c)" for fid
      by (rule option.rel_refl) (simp add: entry_kept_def)
    with Suc True show ?thesis by simp
  next
    case False
    obtain c1 d1 where one: "evict_one env (snd (last (m_lru c))) (c\<lparr>m_lru := butlast (m_lru c)\<rparr>) d = (c1, d1)"
      "cache_inv c1" "m_lru c1 = butlast (m_lru c)" "m_page_size c1 = m_page_size c"
      "m_max_pages c1 = m_max_pages c" "m_next c1 = m_next c"
      "\<forall>fid. rel_option entry_kept (lookup fid c) (lookup fid c1)"
      using evict_step [OF assms(1) Suc.prems False] by blast
    obtain c' d' where ih: "evict env n c1 d1 = (c', d')" "cache_inv c'"
      "m_lru c' = take (length (m_lru c1) - n) (m_lru c1)" "m_page_size c' = m_page_size c1"
      "m_max_pages c' = m_max_pages c1" "m_next c' = m_next c1"
      "\<forall>fid. rel_option entry_kept (lookup fid c1) (lookup fid c')"
      using Suc.IH [OF one(2)] by blast
    have "take (length (m_lru c1) - n) (m_lru c1) = take (length (m_lru c) - Suc n) (m_lru c)"
      by (simp add: one(3) butlast_conv_take)
    moreover have "rel_option entry_kept (lookup fid c) (lookup fid c')" for fid
      using spec [OF one(7), of fid] spec [OF ih(7), of fid]
      by (cases "lookup fid c"; cases "lookup fid c1"; cases "lookup fid c'") (auto intro: entry_kept_trans)
    ultimately show ?thesis using False one ih by simp
  qed
qed

lemma evict_excess_ok:
  assumes "open_ok env" "cache_inv c"
  shows "\<exists>c' d'. evict_excess env c d = (c', d') \<and> cache_inv c' \<and>
    m_lru c' = take (m_max_pages c) (m_lru c) \<and> m_page_size c' = m_page_size c \<and>
    m_max_pages c' = m_max_pages c \<and> m_next c' = m_next c \<and>
    (\<forall>fid. rel_option entry_kept (lookup fid c) (lookup fid c'))"
proof (cases "length (m_lru c) > m_max_pages c")
  case True
  with evict_ok [OF assms, of "length (m_lru c) - m_max_pages c" d] show ?thesis
    by (simp add: evict_excess_def)
next
  case False
  have "rel_option entry_kept (lookup fid c) (lookup fid c)" for fid
    by (rule option.rel_refl) (simp add: entry_kept_def)
  with False assms(2) show ?thesis by (simp add: evict_excess_def)
qed

lemma entry_kept_Some:
  "\<forall>fid. rel_option entry_kept (lookup fid c) (lookup fid c') \<Longrightarrow> lookup fid c = Some e \<Longrightarrow>
     \<exists>e'. lookup fid c' = Some e' \<and> entry_kept e e'"
  by (drule spec [of _ fid]) (cases "lookup fid c'"; simp)

section \<open>Pages after an insertion with eviction\<close>

lemma page_at_iff:
  assumes "cache_inv c"
  shows "page_at fid i c = Some (it, pg) \<longleftrightarrow> lru_get it c = Some pg \<and> pg_id pg = fid \<and> pg_index pg = i"
proof
  assume "page_at fid i c = Some (it, pg)"
  then obtain e where e: "lookup fid c = Some e" "map_of (e_pages e) i = Some it" and g: "lru_get it c = Some pg"
    by (auto simp: page_at_def split: option.splits)
  obtain q where "lru_get it c = Some q" "pg_id q = fid" "pg_index q = i"
    by (rule entry_okE [OF cache_invD(9) [OF assms e(1)] e(2)])
  with g show "lru_get it c = Some pg \<and> pg_id pg = fid \<and> pg_index pg = i" by simp
next
  assume a: "lru_get it c = Some pg \<and> pg_id pg = fid \<and> pg_index pg = i"
  with cache_invD(8) [OF assms] show "page_at fid i c = Some (it, pg)"
    by (fastforce simp: indexed_def page_at_def)
qed

lemma has_page_iff:
  assumes "cache_inv c"
  shows "has_page fid i c \<longleftrightarrow> (\<exists>it pg. page_at fid i c = Some (it, pg))"
proof
  assume "has_page fid i c"
  then obtain e it where e: "lookup fid c = Some e" "map_of (e_pages e) i = Some it"
    by (auto simp: has_page_def split: option.splits)
  obtain q where "lru_get it c = Some q" by (rule entry_okE [OF cache_invD(9) [OF assms e(1)] e(2)])
  with e show "\<exists>it pg. page_at fid i c = Some (it, pg)" by (simp add: page_at_def)
qed (auto simp: has_page_def page_at_def split: option.splits)

lemma insert_evict_ok:
  assumes "open_ok env" "cache_inv c" "\<not> has_page (pg_id pg) (pg_index pg) c"
    "lookup (pg_id pg) c = Some e" "page_ok (m_page_size c) pg" "1 \<le> m_max_pages c"
  shows "\<exists>c' d'. evict_excess env (insert_page pg c) d = (c', d') \<and> cache_inv c' \<and>
    m_lru c' = take (m_max_pages c) ((m_next c, pg) # m_lru c) \<and> m_page_size c' = m_page_size c \<and>
    m_max_pages c' = m_max_pages c \<and> lru_get (m_next c) c' = Some pg \<and>
    (\<forall>fid. rel_option entry_kept (lookup fid c) (lookup fid c'))"
proof -
  have new: "map_of (e_pages e) (pg_index pg) = None"
    using assms(3,4) by (auto simp: has_page_def split: option.splits)
  have inv: "cache_inv (insert_page pg c)"
    by (rule inv_insert_page [OF assms(2,4) new assms(5)])
  obtain c' d' where ev: "evict_excess env (insert_page pg c) d = (c', d')" "cache_inv c'"
    "m_lru c' = take (m_max_pages (insert_page pg c)) (m_lru (insert_page pg c))"
    "m_page_size c' = m_page_size (insert_page pg c)" "m_max_pages c' = m_max_pages (insert_page pg c)"
    "\<forall>fid. rel_option entry_kept (lookup fid (insert_page pg c)) (lookup fid c')"
    using evict_excess_ok [OF assms(1) inv] by blast
  have "rel_option entry_kept (lookup fid c) (lookup fid c')" for fid
    using spec [OF ev(6), of fid]
    by (cases "lookup fid c"; cases "lookup fid c'") (auto simp: insert_page_def entry_kept_def split: if_splits)
  moreover have "lru_get (m_next c) c' = Some pg"
    using assms(6) ev(3) by (cases "m_max_pages c") (auto simp: lru_get_def insert_page_def)
  ultimately show ?thesis using ev by (simp add: insert_page_def)
qed

text \<open>The queue is emptied again by the operation that filled it.\<close>

lemma upd_entry_queue: "(upd_entry fid f (c\<lparr>m_read_queue := q\<rparr>))\<lparr>m_read_queue := q'\<rparr> =
    upd_entry fid f (c\<lparr>m_read_queue := q'\<rparr>)"
  by (simp add: upd_entry_def set_entry_def split: option.splits)

lemma push_queue: "snd (lru_push_front pg (c\<lparr>m_read_queue := q\<rparr>)) = (snd (lru_push_front pg c))\<lparr>m_read_queue := q\<rparr>"
  by (simp add: lru_push_front_def)

lemma queue_self: "m_read_queue c = q \<Longrightarrow> c\<lparr>m_read_queue := q\<rparr> = c"
  by simp

section \<open>Reading and writing pages\<close>

definition fetched :: "nat \<Rightarrow> nat \<Rightarrow> nat \<Rightarrow> u8 list \<Rightarrow> page" where
  "fetched ps fid i bs = mk_page fid i (take ps (bs @ replicate ps 0)) (length bs) ps"

lemma fetched_sel [simp]: "pg_id (fetched ps fid i bs) = fid" "pg_index (fetched ps fid i bs) = i"
  by (simp_all add: fetched_def mk_page_def)

lemma fetched_ok: "length bs \<le> ps \<Longrightarrow> ps < 2 ^ 32 \<Longrightarrow> page_ok ps (fetched ps fid i bs)"
  by (simp add: fetched_def mk_page_def page_ok_def)

lemma pull_page_eq:
  assumes "m_read_queue c = []"
  shows "pull_page env fid i fd c d =
      (case conn_read env fd (m_page_size c) (word_of_nat (mul64 i (m_page_size c))) d of
         (Inl err, d2) \<Rightarrow> (Inl err, c, d2)
       | (Inr bs, d2) \<Rightarrow>
           (case evict_excess env (insert_page (fetched (m_page_size c) fid i bs) c) d2 of
              (c', d') \<Rightarrow> (Inr (), c', d')))"
proof -
  obtain r d2 where rd: "conn_read env fd (m_page_size c) (word_of_nat (mul64 i (m_page_size c))) d = (r, d2)"
    by fastforce
  show ?thesis
  proof (cases r)
    case (Inl err)
    with rd assms show ?thesis by (simp add: pull_page_def Let_def)
  next
    case (Inr bs)
    let ?pg = "mk_page fid i (take (m_page_size c) (bs @ replicate (m_page_size c) 0)) (length bs) (m_page_size c)"
    let ?f = "\<lambda>e. e\<lparr>e_pages := pages_emplace i (m_next c) (e_pages e)\<rparr>"
    have "(upd_entry fid ?f (snd (lru_push_front ?pg (c\<lparr>m_read_queue := [((fid, i), errc_ok)]\<rparr>))))\<lparr>m_read_queue := []\<rparr> =
        upd_entry fid ?f ((snd (lru_push_front ?pg c))\<lparr>m_read_queue := []\<rparr>)"
      by (simp only: push_queue upd_entry_queue)
    also have "\<dots> = insert_page (fetched (m_page_size c) fid i bs) c"
      using assms by (simp add: insert_page_def fetched_def mk_page_def queue_self)
    finally show ?thesis
      using rd Inr assms by (simp add: pull_page_def Let_def split_beta)
  qed
qed

lemma ensure_read_fd_ok:
  assumes "open_ok env"
  shows "\<exists>fd c1 d1. ensure_read_fd env fid e c d = (Inr fd, c1, d1) \<and>
    ((e_read_fd e = Some fd \<and> c1 = c \<and> d1 = d) \<or>
     (e_read_fd e = None \<and> conn_open env (e_path e) OM_Read d = (Inr fd, d1) \<and>
      c1 = upd_entry fid (\<lambda>e. e\<lparr>e_read_fd := Some fd\<rparr>) c))"
proof -
  obtain r d0 where o: "conn_open env (e_path e) OM_Read d = (r, d0)" by fastforce
  have "is_ok (fst (conn_open env (e_path e) OM_Read d))" using assms by (simp add: open_ok_def)
  with o obtain fd0 where "r = Inr fd0" by (cases r) auto
  with o show ?thesis by (cases "e_read_fd e") (simp_all add: ensure_read_fd_def)
qed

end
