(* ===== verification/Cache_IO.thy ===== *)
theory Cache_IO
  imports Cache_Inv
begin

text \<open>
  Functional correctness of the cache's reads and writes: the pages of an access tile its
  buffer, a read of an unmodified file returns the bytes of the file whatever mixture of
  cached and missing pages it meets, and a write followed by a read returns what was written.
\<close>

section \<open>The pages of an access tile its buffer\<close>

definition access_ok :: "nat \<Rightarrow> nat \<Rightarrow> nat \<Rightarrow> bool" where
  "access_ok ps n off = (0 < ps \<and> ps < 2 ^ 32 \<and> 0 < n \<and> off + n < 2 ^ 63)"

lemma page_range_eq:
  "access_ok ps n off \<Longrightarrow> page_range ps n off = (off div ps, (off + n - 1) div ps)"
  by (simp add: page_range_def access_ok_def)

lemma last_end:
  assumes "0 < ps" "0 < (n :: nat)"
  shows "(n + off mod ps - 1) mod ps + 1 + (off + n - 1) div ps * ps = off + n"
proof -
  have "n + off mod ps - 1 = (n - 1) + off mod ps" using assms by simp
  then have "(n + off mod ps - 1) mod ps = (n - 1 + off) mod ps" by (simp only: mod_add_right_eq)
  also have "n - 1 + off = off + n - 1" using assms by simp
  finally have m: "(n + off mod ps - 1) mod ps = (off + n - 1) mod ps" .
  have "(off + n - 1) div ps * ps + (off + n - 1) mod ps = off + n - 1" by (rule div_mult_mod_eq)
  with m assms(2) show ?thesis by simp
qed

lemma tile:
  assumes a: "access_ok ps n off" and f: "first = off div ps" and l: "lst = (off + n - 1) div ps"
    and i: "first \<le> i" "i \<le> lst"
  shows "i * ps + local_offset ps i first off = off + buf_offset ps i first off"
    and "local_offset ps i first off + local_size ps i first lst n off \<le> ps"
    and "0 < local_size ps i first lst n off"
    and "buf_offset ps i first off + local_size ps i first lst n off =
       (if i = lst then n else (i + 1) * ps - off)"
    and "buf_offset ps i first off + local_size ps i first lst n off \<le> n"
    and "i < lst \<Longrightarrow> buf_offset ps (i + 1) first off =
       buf_offset ps i first off + local_size ps i first lst n off"
    and "off \<le> (i + 1) * ps"
proof -
  have ps: "0 < ps" "ps < 2 ^ 32" "0 < n" "off + n < 2 ^ 63" using a by (auto simp: access_ok_def)
  have dm: "first * ps + off mod ps = off" using f by simp
  have mlt: "off mod ps < ps" using ps by simp
  have lps: "lst * ps \<le> off + n - 1" using l by simp
  have le: "(n + off mod ps - 1) mod ps + 1 + lst * ps = off + n"
    using last_end [OF ps(1,3)] l by simp
  have ile: "i * ps \<le> off + n - 1" using i(2) lps by (meson le_trans mult_le_mono1)
  have fi: "first * ps \<le> i * ps" using i(1) by simp
  have bo: "buf_offset ps i first off = (if first < i then (i - first) * ps - off mod ps else 0)"
  proof (cases "first < i")
    case True
    have "first < 2 ^ 63" using i(2) l ps True
      by (metis (no_types) div_le_dividend le_less_trans less_imp_le_nat less_le_trans less_trans f trans_le_add1)
    then have ad: "add64 first 1 = first + 1" by simp
    have "(i - first) * ps \<le> i * ps" by simp
    then have "(i - first) * ps < 2 ^ 63" using ile ps(4) by linarith
    then have m: "mul64 (i - first) ps = (i - first) * ps" by simp
    have "1 * ps \<le> (i - first) * ps" using True by (intro mult_le_mono1) simp
    then have "off mod ps \<le> (i - first) * ps" using mlt by linarith
    then show ?thesis using True ad m i(1) by (simp add: buf_offset_def)
  next
    case False
    with i(1) have "i = first" by simp
    moreover have "first < 2 ^ 63"
      using f ps div_le_dividend [of off ps] by linarith
    ultimately show ?thesis using False by (simp add: buf_offset_def)
  qed
  have lsz: "local_size ps i first lst n off = (if i = lst then off + n - lst * ps else ps) - local_offset ps i first off"
  proof -
    have "off + n - lst * ps \<ge> local_offset ps i first off" if "i = lst"
    proof (cases "i = first")
      case True
      with that dm ps(3) show ?thesis by (simp add: local_offset_def)
    qed (simp add: local_offset_def)
    moreover have "add64 (sub64 (add64 n (off mod ps)) 1 mod ps) 1 = off + n - lst * ps"
    proof -
      have "add64 n (off mod ps) = n + off mod ps" using ps mlt by (intro add64_small) simp
      then have "sub64 (add64 n (off mod ps)) 1 mod ps = (n + off mod ps - 1) mod ps" using ps(3) by simp
      moreover have "(n + off mod ps - 1) mod ps < 2 ^ 32" using ps by (meson less_trans mod_less_divisor)
      ultimately show ?thesis using le by simp
    qed
    moreover have "local_offset ps i first off \<le> ps" using mlt by (simp add: local_offset_def)
    ultimately show ?thesis using mlt
      by (auto simp: local_size_def Let_def local_offset_def)
  qed
  show pos: "i * ps + local_offset ps i first off = off + buf_offset ps i first off"
  proof (cases "first < i")
    case True
    then have "(i - first) * ps = i * ps - first * ps" by (simp add: diff_mult_distrib)
    moreover have "first * ps + ps \<le> i * ps" using True by (metis Suc_leI add.commute mult_Suc mult_le_mono1)
    ultimately show ?thesis using True dm mlt by (simp add: bo local_offset_def)
  next
    case False
    with i(1) have "i = first" by simp
    with dm bo show ?thesis by (simp add: local_offset_def)
  qed
  have lend: "off + n \<le> lst * ps + ps" using le mod_less_divisor [OF ps(1), of "n + off mod ps - 1"] by linarith
  have lolt: "local_offset ps i first off < (if i = lst then off + n - lst * ps else ps)"
  proof (cases "i = first")
    case True
    with dm mlt ps(3) show ?thesis by (auto simp: local_offset_def)
  next
    case False
    with lps ps show ?thesis by (auto simp: local_offset_def)
  qed
  show "0 < local_size ps i first lst n off" using lolt by (simp add: lsz)
  show "local_offset ps i first off + local_size ps i first lst n off \<le> ps"
    using lolt lend by (auto simp: lsz)
  show sum: "buf_offset ps i first off + local_size ps i first lst n off = (if i = lst then n else (i + 1) * ps - off)"
    using lolt pos lps by (auto simp: lsz split: if_splits)
  show bound: "buf_offset ps i first off + local_size ps i first lst n off \<le> n"
  proof (cases "i = lst")
    case False
    then have "(i + 1) * ps \<le> lst * ps" using i(2) by (intro mult_le_mono1) simp
    then show ?thesis using sum False lps by simp
  qed (use sum in simp)
  have "(i + 1) * ps = i * ps + ps" by simp
  with dm fi mlt show le1: "off \<le> (i + 1) * ps" by linarith
  show "buf_offset ps (i + 1) first off = buf_offset ps i first off + local_size ps i first lst n off" if "i < lst"
  proof -
    have "(i + 1) * ps \<le> lst * ps" using that by (intro mult_le_mono1) simp
    then have i1: "(i + 1) * ps \<le> off + n - 1" using lps by simp
    have "(i + 1 - first) * ps \<le> (i + 1) * ps" by (intro mult_le_mono1) simp
    then have "(i + 1 - first) * ps < 2 ^ 63" using i1 ps(4) by linarith
    then have m: "mul64 (i + 1 - first) ps = (i + 1 - first) * ps" by (intro mul64_small) simp
    have "first < 2 ^ 63" using f ps div_le_dividend [of off ps] by linarith
    then have ad: "add64 first 1 = first + 1" by simp
    have d: "(i + 1 - first) * ps = (i + 1) * ps - first * ps" by (simp only: diff_mult_distrib)
    have "off mod ps \<le> (i + 1 - first) * ps" using d dm le1 by linarith
    then have "buf_offset ps (i + 1) first off = (i + 1) * ps - first * ps - off mod ps"
      using m ad d i(1) by (simp add: buf_offset_def del: mult_Suc)
    also have "\<dots> = (i + 1) * ps - off" using dm by linarith
    finally show ?thesis using sum that by simp
  qed
qed

section \<open>Assembling a read from its pages\<close>

lemma overwrite_step:
  assumes "length out = n" "b + s \<le> n"
  shows "overwrite (take b R @ drop (length (take b R)) out) b (take s (drop b R)) =
    take (b + s) R @ drop (length (take (b + s) R)) out"
proof (cases "b \<le> length R")
  case True
  have "take (b + s) R = take b R @ take s (drop b R)" by (simp add: take_add)
  with True assms show ?thesis by (simp add: overwrite_def min_def add.commute)
next
  case False
  with assms show ?thesis
    using drop_split [of "length R" b out] by (simp add: overwrite_def sublist_def)
qed

text \<open>
  If every page delivers its part of \<open>R\<close> and keeps \<open>P\<close>, the whole read delivers \<open>R\<close> at the
  front of the buffer and returns its length.
\<close>

lemma read_all_assemble:
  fixes env :: "'d env"
  assumes a: "access_ok ps n off" and fl: "first = off div ps" "lst = (off + n - 1) div ps"
    and R: "length R \<le> n" and out: "length out0 = n"
    and step: "\<And>i out c d. first \<le> i \<Longrightarrow> i \<le> lst \<Longrightarrow> P c \<Longrightarrow> length out = n \<Longrightarrow>
      \<exists>c' d'. read_at env fid out i first lst off c d =
        (Inr (length (take (local_size ps i first lst n off) (drop (buf_offset ps i first off) R)),
           overwrite out (buf_offset ps i first off)
             (take (local_size ps i first lst n off) (drop (buf_offset ps i first off) R))), c', d') \<and> P c'"
    and P: "P c"
  shows "\<exists>c' d'. read_all env fid [first..<Suc lst] first lst off out0 (Inr 0) c d =
    (Inr (length R), R @ drop (length R) out0, c', d') \<and> P c'"
proof -
  have main: "\<exists>c' d'. read_all env fid [i..<Suc lst] first lst off
      (take (buf_offset ps i first off) R @ drop (length (take (buf_offset ps i first off) R)) out0)
      (Inr (length (take (buf_offset ps i first off) R))) c d =
      (Inr (length R), R @ drop (length R) out0, c', d') \<and> P c'"
    if "first \<le> i" "i \<le> lst" "P c" for i c d
    using that
  proof (induction "lst - i" arbitrary: i c d)
    case 0
    let ?b = "buf_offset ps i first off" and ?s = "local_size ps i first lst n off"
    have il: "i = lst" using 0 by simp
    have bs: "?b + ?s = n" using tile(4) [OF a fl 0(2,3)] il by simp
    have len: "length (take ?b R @ drop (length (take ?b R)) out0) = n" using bs R out by simp
    obtain c' d' where st: "read_at env fid (take ?b R @ drop (length (take ?b R)) out0) i first lst off c d =
        (Inr (length (take ?s (drop ?b R)),
          overwrite (take ?b R @ drop (length (take ?b R)) out0) ?b (take ?s (drop ?b R))), c', d')" "P c'"
      using step [OF 0(2,3,4) len] by blast
    have "take (?b + ?s) R = R" using bs R by simp
    moreover have "length (take ?b R) + length (take ?s (drop ?b R)) = length (take (?b + ?s) R)"
      by (simp add: take_add)
    ultimately show ?case
      using st overwrite_step [OF out, of ?b ?s R] bs il by simp
  next
    case (Suc k)
    let ?b = "buf_offset ps i first off" and ?s = "local_size ps i first lst n off"
    have lt: "i < lst" using Suc(2) by simp
    note t = tile [OF a fl Suc(3,4)]
    have len: "length (take ?b R @ drop (length (take ?b R)) out0) = n" using t(5) R out by simp
    obtain c1 d1 where st: "read_at env fid (take ?b R @ drop (length (take ?b R)) out0) i first lst off c d =
        (Inr (length (take ?s (drop ?b R)),
          overwrite (take ?b R @ drop (length (take ?b R)) out0) ?b (take ?s (drop ?b R))), c1, d1)" "P c1"
      using step [OF Suc(3,4,5) len] by blast
    have ln: "length (take ?b R) + length (take ?s (drop ?b R)) = length (take (?b + ?s) R)"
      by (simp add: take_add)
    have ih: "\<exists>c' d'. read_all env fid [Suc i..<Suc lst] first lst off
      (take (?b + ?s) R @ drop (length (take (?b + ?s) R)) out0) (Inr (length (take (?b + ?s) R))) c1 d1 =
      (Inr (length R), R @ drop (length R) out0, c', d') \<and> P c'"
      using Suc(1) [of "Suc i" c1 d1] Suc(2,3) lt st(2) t(6) [OF lt] by simp
    have up: "[i..<Suc lst] = i # [Suc i..<Suc lst]" using lt by (simp add: upt_conv_Cons)
    show ?case
      unfolding up read_all.simps st(1)
      using ih overwrite_step [OF out t(5), of R] ln by simp
  qed
  have "first \<le> lst" using fl a by (auto simp: access_ok_def intro: div_le_mono)
  moreover have "buf_offset ps first first off = 0"
  proof -
    have "off < 2 ^ 63" using a by (simp add: access_ok_def)
    then have "first < 2 ^ 63" using fl(1) div_le_dividend [of off ps] by linarith
    then show ?thesis by (simp add: buf_offset_def)
  qed
  ultimately show ?thesis using main [of first c d] P by simp
qed

section \<open>Reading an unmodified file\<close>

definition chunk :: "nat \<Rightarrow> nat \<Rightarrow> u8 list \<Rightarrow> u8 list" where
  "chunk ps i xs = take ps (drop (i * ps) xs)"

definition holds :: "nat \<Rightarrow> u8 list \<Rightarrow> page \<Rightarrow> bool" where
  "holds ps content pg = (pg_size pg = length (chunk ps (pg_index pg) content) \<and>
     pg_buf pg = chunk ps (pg_index pg) content)"

definition coherent :: "nat \<Rightarrow> u8 list \<Rightarrow> cache \<Rightarrow> bool" where
  "coherent fid content c = (\<forall>it pg. lru_get it c = Some pg \<longrightarrow> pg_id pg = fid \<longrightarrow> holds (m_page_size c) content pg)"

text \<open>
  What the device promises for the file at \<open>p\<close>: descriptors opened for reading are among \<open>G\<close>,
  and reading from one of those returns the requested part of \<open>content\<close>.
\<close>

definition serves :: "'d env \<Rightarrow> path \<Rightarrow> u64 set \<Rightarrow> u8 list \<Rightarrow> bool" where
  "serves env p G content =
     ((\<forall>d. \<exists>fd\<in>G. \<exists>d'. conn_open env p OM_Read d = (Inr fd, d')) \<and>
      (\<forall>fd\<in>G. \<forall>n<2 ^ 32. \<forall>off d. \<exists>d'. conn_read env fd n off d = (Inr (take n (drop (unat off) content)), d')))"

definition reading :: "nat \<Rightarrow> path \<Rightarrow> u64 set \<Rightarrow> u8 list \<Rightarrow> nat \<Rightarrow> cache \<Rightarrow> bool" where
  "reading fid p G content ps c = (cache_inv c \<and> 1 \<le> m_max_pages c \<and> m_page_size c = ps \<and> coherent fid content c \<and>
     (\<exists>e. lookup fid c = Some e \<and> e_path e = p \<and> (\<forall>fd. e_read_fd e = Some fd \<longrightarrow> fd \<in> G)))"

lemma page_read_holds:
  assumes "page_ok ps pg" "holds ps content pg" "lo \<le> pg_size pg" "lo + s \<le> ps"
  shows "page_read pg s lo = Inr (take s (drop (pg_index pg * ps + lo) content))"
proof -
  let ?c = "chunk ps (pg_index pg) content"
  have sz: "pg_size pg = length ?c" and buf: "take (pg_size pg) (pg_data pg) = ?c"
    using assms(2) unfolding holds_def pg_buf_def by blast+
  have "page_read pg s lo = Inr (sublist lo (min (pg_size pg - lo) s) (pg_data pg))"
  proof -
    have "lo + min (pg_size pg - lo) s \<le> length (pg_data pg)"
      using assms(1,3) by (auto simp: page_ok_def min_def)
    then show ?thesis using assms(3) by (simp add: page_read_def Let_def)
  qed
  also have "sublist lo (min (pg_size pg - lo) s) (pg_data pg) = take s (drop lo ?c)"
    unfolding buf [symmetric] using assms(3) by (simp add: sublist_def drop_take min.commute)
  also have "take s (drop lo ?c) = take s (drop (pg_index pg * ps + lo) content)"
    using assms(4) by (simp add: chunk_def drop_take add.commute min_def)
  finally show ?thesis .
qed

lemma coherent_sub:
  assumes "coherent fid content c" "m_page_size c' = m_page_size c"
    "\<And>it pg. lru_get it c' = Some pg \<Longrightarrow> lru_get it c = Some pg \<or> holds (m_page_size c) content pg"
  shows "coherent fid content c'"
  using assms unfolding coherent_def by metis

lemma reading_inflight:
  "reading fid p G content ps c \<Longrightarrow> reading fid p G content ps (inc_read k c)"
  "reading fid p G content ps c \<Longrightarrow> reading fid p G content ps (dec_read k c)"
  by (auto simp: reading_def inc_read_def dec_read_def coherent_def intro: inv_upd_entry)

lemma reading_to_front:
  "reading fid p G content ps c \<Longrightarrow> lru_get it c = Some pg \<Longrightarrow> reading fid p G content ps (lru_to_front it pg c)"
  by (auto simp: reading_def coherent_def intro: inv_lru_to_front split: if_splits)

lemma map_of_take: "distinct (map fst xs) \<Longrightarrow> map_of (take n xs) k = Some v \<Longrightarrow> map_of xs k = Some v"
  by (metis in_set_takeD map_of_SomeD map_of_is_SomeI)

lemma reading_fetch:
  assumes r: "reading fid p G content ps c" and dev: "serves env p G content" and op: "open_ok env"
    and np: "\<not> has_page fid i c" and i: "i * ps < 2 ^ 63"
  shows "\<exists>c' d'. fetch_page env fid i c d = (Inr (), c', d') \<and> reading fid p G content ps c' \<and> has_page fid i c'"
proof -
  obtain e where e: "lookup fid c = Some e" "e_path e = p" "\<forall>fd. e_read_fd e = Some fd \<longrightarrow> fd \<in> G"
    and inv: "cache_inv c" and mx: "1 \<le> m_max_pages c" and ps: "m_page_size c = ps" and coh: "coherent fid content c"
    using r by (auto simp: reading_def)
  obtain fd c1 d1 where en: "ensure_read_fd env fid e c d = (Inr fd, c1, d1)"
    and cs: "(e_read_fd e = Some fd \<and> c1 = c \<and> d1 = d) \<or>
     (e_read_fd e = None \<and> conn_open env (e_path e) OM_Read d = (Inr fd, d1) \<and>
      c1 = upd_entry fid (\<lambda>e. e\<lparr>e_read_fd := Some fd\<rparr>) c)"
    using ensure_read_fd_ok [OF op] by blast
  obtain fd0 d0 where fd0: "fd0 \<in> G" "conn_open env p OM_Read d = (Inr fd0, d0)"
    using dev by (fastforce simp: serves_def)
  have fdG: "fd \<in> G" using cs e(2,3) fd0 by auto
  have inv1: "cache_inv c1" using cs inv by (auto intro: inv_upd_entry)
  have lk1: "\<exists>e1. lookup fid c1 = Some e1 \<and> e_path e1 = p \<and> e_read_fd e1 = Some fd \<and> e_pages e1 = e_pages e"
    using cs e by auto
  have c1: "m_page_size c1 = ps" "m_max_pages c1 = m_max_pages c" "\<And>it. lru_get it c1 = lru_get it c"
    "m_lru c1 = m_lru c" "m_next c1 = m_next c" using cs ps by auto
  let ?bs = "chunk ps i content"
  let ?pg = "fetched ps fid i ?bs"
  have "mul64 i ps = i * ps" using i by simp
  moreover have "i * ps < 2 ^ 64" using i by simp
  ultimately have un: "unat (word_of_nat (mul64 i ps) :: i64) = i * ps"
    by (simp only: unat_u64)
  obtain d2 where rd: "conn_read env fd ps (word_of_nat (mul64 i ps)) d1 = (Inr ?bs, d2)"
  proof -
    have "ps < 2 ^ 32" using cache_invD(2) [OF inv] ps by simp
    then obtain d2 where "conn_read env fd ps (word_of_nat (mul64 i ps)) d1 =
        (Inr (take ps (drop (unat (word_of_nat (mul64 i ps) :: i64)) content)), d2)"
      using dev fdG unfolding serves_def by blast
    with un that show ?thesis by (simp only: chunk_def)
  qed
  obtain e1 where e1: "lookup fid c1 = Some e1" "e_path e1 = p" "e_read_fd e1 = Some fd" "e_pages e1 = e_pages e"
    using lk1 by blast
  have np1: "\<not> has_page (pg_id ?pg) (pg_index ?pg) c1"
    using np e(1) e1 by (simp add: has_page_def)
  have pok: "page_ok (m_page_size c1) ?pg"
    using cache_invD(2) [OF inv] ps c1 by (simp add: fetched_ok chunk_def)
  obtain c' d' where ev: "evict_excess env (insert_page ?pg c1) d2 = (c', d')" "cache_inv c'"
    "m_lru c' = take (m_max_pages c1) ((m_next c1, ?pg) # m_lru c1)" "m_page_size c' = m_page_size c1"
    "m_max_pages c' = m_max_pages c1" "lru_get (m_next c1) c' = Some ?pg"
    "\<forall>fid. rel_option entry_kept (lookup fid c1) (lookup fid c')"
    using insert_evict_ok [OF op inv1 np1, of e1 d2] e1(1) pok mx c1 by auto
  obtain e' where e': "lookup fid c' = Some e'" "entry_kept e1 e'"
    using entry_kept_Some [OF ev(7) e1(1)] by blast
  have hp: "holds ps content ?pg"
    using cache_invD(2) [OF inv] ps
    by (auto simp: holds_def fetched_def mk_page_def pg_buf_def chunk_def min_def)
  have "coherent fid content c'"
  proof (rule coherent_sub [OF coh])
    fix it pg assume "lru_get it c' = Some pg"
    then have "map_of (take (m_max_pages c1) ((m_next c1, ?pg) # m_lru c1)) it = Some pg"
      using ev(3) by (simp add: lru_get_def)
    note m = this
    have "m_next c1 \<notin> fst ` set (m_lru c1)"
      using cache_invD(6) [OF inv1, of "m_next c1"]
      by (cases "map_of (m_lru c1) (m_next c1)") (auto simp: lru_get_def map_of_eq_None_iff)
    then have "distinct (map fst ((m_next c1, ?pg) # m_lru c1))" using cache_invD(4) [OF inv1] by simp
    from map_of_take [OF this m] have "map_of ((m_next c1, ?pg) # m_lru c1) it = Some pg" .
    then show "lru_get it c = Some pg \<or> holds (m_page_size c) content pg"
      using hp ps c1 by (auto simp: lru_get_def split: if_splits)
  qed (use ev(4) c1 ps in simp)
  then have "reading fid p G content ps c'"
    using ev(2,4,5) mx c1 e' e1 fdG by (auto simp: reading_def entry_kept_def)
  moreover have "has_page fid i c'"
    using page_at_iff [OF ev(2), of fid i "m_next c1" ?pg] ev(6) has_page_iff [OF ev(2)] by auto
  moreover have "fetch_page env fid i c d = (Inr (), c', d')"
    using e(1) en rd ev(1) pull_page_eq [OF cache_invD(3) [OF inv1], of env fid i fd d1] c1
    by (simp add: fetch_page_def)
  ultimately show ?thesis by blast
qed

lemma read_page_step:
  assumes r: "reading fid p G content ps c" and hp: "has_page fid i c"
    and a: "access_ok ps n off" and fl: "first = off div ps" "lst = (off + n - 1) div ps"
    and i: "first \<le> i" "i \<le> lst" and off: "off \<le> length content" and out: "length out = n"
  shows "\<exists>c'. read_page fid out i first lst off c =
    (Inr (length (take (local_size ps i first lst n off) (drop (buf_offset ps i first off) (take n (drop off content)))),
       overwrite out (buf_offset ps i first off)
         (take (local_size ps i first lst n off) (drop (buf_offset ps i first off) (take n (drop off content))))), c')
    \<and> reading fid p G content ps c'"
proof -
  let ?lo = "local_offset ps i first off" and ?s = "local_size ps i first lst n off"
    and ?b = "buf_offset ps i first off"
  have inv: "cache_inv c" and ps: "m_page_size c = ps" and coh: "coherent fid content c"
    using r by (auto simp: reading_def)
  obtain it pg where pa: "page_at fid i c = Some (it, pg)" using hp has_page_iff [OF inv] by blast
  then have g: "lru_get it c = Some pg" "pg_id pg = fid" "pg_index pg = i" using page_at_iff [OF inv] by auto
  have hold: "holds ps content pg" using coh g ps by (simp add: coherent_def)
  have pok: "page_ok ps pg" using cache_invD(7) [OF inv g(1)] ps by simp
  note t = tile [OF a fl i]
  have sz: "pg_size pg = min ps (length content - i * ps)" using hold g(3) by (simp add: holds_def chunk_def)
  have "?lo \<le> pg_size pg"
  proof (cases "i = first")
    case True
    have "i * ps + ?lo = off" using t(1) True by (simp add: buf_offset_def local_offset_def fl)
    then show ?thesis using sz off t(2) by simp
  qed (simp add: local_offset_def)
  then have "page_read pg ?s ?lo = Inr (take ?s (drop (i * ps + ?lo) content))"
    using page_read_holds [OF pok hold _ t(2)] g(3) by simp
  also have "take ?s (drop (i * ps + ?lo) content) = take ?s (drop ?b (take n (drop off content)))"
    using t(1,5) by (simp add: drop_take add.commute min_def)
  finally have rd: "page_read pg ?s ?lo = Inr (take ?s (drop ?b (take n (drop off content))))" .
  have "?b + length (take ?s (drop ?b (take n (drop off content)))) \<le> length out" using t(5) out by simp
  then show ?thesis
    using pa rd ps out reading_to_front [OF r g(1)] by (simp add: read_page_def Let_def)
qed

lemma read_at_step:
  assumes r: "reading fid p G content ps c" and dev: "serves env p G content" and op: "open_ok env"
    and a: "access_ok ps n off" and fl: "first = off div ps" "lst = (off + n - 1) div ps"
    and i: "first \<le> i" "i \<le> lst" and off: "off \<le> length content" and out: "length out = n"
  shows "\<exists>c' d'. read_at env fid out i first lst off c d =
    (Inr (length (take (local_size ps i first lst n off) (drop (buf_offset ps i first off) (take n (drop off content)))),
       overwrite out (buf_offset ps i first off)
         (take (local_size ps i first lst n off) (drop (buf_offset ps i first off) (take n (drop off content))))), c', d')
    \<and> reading fid p G content ps c'"
proof -
  let ?c = "inc_read fid c"
  have r1: "reading fid p G content ps ?c" using r by (rule reading_inflight)
  have q: "await_queued fid i ?c = None" using r1 by (auto simp: reading_def dest: cache_invD(3))
  have "lst * ps \<le> off + n - 1" using fl by simp
  then have "i * ps \<le> off + n - 1" using i(2) by (meson le_trans mult_le_mono1)
  moreover have "off + n < 2 ^ 63" using a by (simp add: access_ok_def)
  ultimately have il: "i * ps < 2 ^ 63" by linarith
  obtain c1 d1 where f: "(if has_page fid i ?c then (Inr (), ?c, d) else fetch_page env fid i ?c d) = (Inr (), c1, d1)"
    and c1: "reading fid p G content ps c1" "has_page fid i c1"
    using reading_fetch [OF r1 dev op _ il, of d] r1 by (cases "has_page fid i ?c") auto
  from read_page_step [OF c1 a fl i off out] obtain c2 where
    rp: "read_page fid out i first lst off c1 =
    (Inr (length (take (local_size ps i first lst n off) (drop (buf_offset ps i first off) (take n (drop off content)))),
       overwrite out (buf_offset ps i first off)
         (take (local_size ps i first lst n off) (drop (buf_offset ps i first off) (take n (drop off content))))), c2)"
    and r2: "reading fid p G content ps c2" by blast
  from reading_inflight(2) [OF r2, of fid] show ?thesis
    by (simp only: read_at_def Let_def q f rp option.case sum.case prod.case) blast
qed

lemma read_coherent:
  assumes r: "reading fid p G content ps c" and dev: "serves env p G content" and op: "open_ok env"
    and a: "access_ok ps (length out) off" and off: "off \<le> length content"
  shows "\<exists>c' d'. read env fid out off c d =
    (Inr (length (take (length out) (drop off content))),
     take (length out) (drop off content) @ drop (length (take (length out) (drop off content))) out, c', d')
    \<and> reading fid p G content ps c'"
proof -
  let ?n = "length out"
  have ps: "m_page_size c = ps" and l: "\<exists>e. lookup fid c = Some e" using r by (auto simp: reading_def)
  have "\<exists>c' d'. read_all env fid [off div ps..<Suc ((off + ?n - 1) div ps)] (off div ps) ((off + ?n - 1) div ps)
     off out (Inr 0) c d = (Inr (length (take ?n (drop off content))),
     take ?n (drop off content) @ drop (length (take ?n (drop off content))) out, c', d')
    \<and> reading fid p G content ps c'"
    using read_at_step [OF _ dev op a refl refl _ _ off]
    by (intro read_all_assemble [where P = "reading fid p G content ps" and R = "take ?n (drop off content)",
          OF a refl refl _ refl _ r]) auto
  then show ?thesis
    using l by (auto simp: read_def ps page_range_eq [OF a])
qed

section \<open>Writing\<close>

definition stored :: "nat \<Rightarrow> nat \<Rightarrow> nat \<Rightarrow> nat \<Rightarrow> u8 list \<Rightarrow> page \<Rightarrow> bool" where
  "stored lo s b i bs pg = (pg_index pg = i \<and> pg_dirty pg \<and> lo + s \<le> pg_size pg \<and>
     sublist lo s (pg_data pg) = sublist b s bs)"

lemma page_write_stored:
  assumes "page_ok ps pg" "lo + s \<le> ps" "0 < s" "ps < 2 ^ 32" "b + s \<le> length bs"
  shows "\<exists>pg'. page_write pg (sublist b s bs) lo = Inr (s, pg') \<and> page_ok ps pg' \<and>
    pg_id pg' = pg_id pg \<and> stored lo s b (pg_index pg) bs (pg'\<lparr>pg_dirty := True\<rparr>)"
proof -
  have len: "length (sublist b s bs) = s" using assms(5) by simp
  have c: "cast32 (lo + s) = lo + s" using assms(2,4) by simp
  let ?d = "overwrite (pg_data pg) lo (sublist b s bs)"
  have d: "length (pg_data pg) = ps" "pg_page_size pg = ps" "pg_size pg \<le> ps"
    using assms(1) by (simp_all add: page_ok_def)
  have "page_write pg (sublist b s bs) lo =
      Inr (s, pg\<lparr>pg_data := ?d, pg_size := max (lo + s) (pg_size pg)\<rparr>)"
    using assms(2,3) d by (simp add: page_write_def Let_def len c del: length_sublist)
  moreover have "length ?d = ps" using assms(2) d len by (simp add: overwrite_def)
  moreover have "sublist lo s ?d = sublist b s bs"
    using assms(2) d len by (simp add: overwrite_def sublist_def [of lo])
  ultimately show ?thesis using assms(2) d by (simp add: page_ok_def stored_def)
qed

text \<open>The page of an index, made if it is missing.\<close>

lemma write_prepare:
  assumes op: "open_ok env" and inv: "cache_inv c" and e: "lookup fid c = Some e" and mx: "1 \<le> m_max_pages c"
  shows "\<exists>c1 d1. prepare_page env fid i c d = (c1, d1) \<and> cache_inv c1 \<and> has_page fid i c1 \<and> m_page_size c1 = m_page_size c \<and>
    m_max_pages c1 = m_max_pages c \<and> length (m_lru c1) \<le> max (length (m_lru c)) (m_max_pages c) \<and>
    length (m_lru c1) \<le> Suc (length (m_lru c)) \<and>
    (\<exists>e'. lookup fid c1 = Some e' \<and> e_dirty e' = e_dirty e) \<and>
    (length (m_lru c) < m_max_pages c \<longrightarrow>
       (\<forall>k j it pg. page_at k j c = Some (it, pg) \<longrightarrow> page_at k j c1 = Some (it, pg)))"
proof (cases "has_page fid i c")
  case True
  with assms show ?thesis by (auto simp: prepare_page_def)
next
  case False
  let ?pg = "mk_page fid i (replicate (m_page_size c) 0) 0 (m_page_size c)"
  have id: "pg_id ?pg = fid" "pg_index ?pg = i" by (simp_all add: mk_page_def)
  have ok: "page_ok (m_page_size c) ?pg"
    using cache_invD(2) [OF inv] by (simp add: mk_page_def page_ok_def)
  have np: "\<not> has_page (pg_id ?pg) (pg_index ?pg) c" using False by (simp add: id)
  have le: "lookup (pg_id ?pg) c = Some e" using e by (simp add: id)
  obtain c1 d1 where ev: "evict_excess env (insert_page ?pg c) d = (c1, d1)" "cache_inv c1"
    "m_lru c1 = take (m_max_pages c) ((m_next c, ?pg) # m_lru c)" "m_page_size c1 = m_page_size c"
    "m_max_pages c1 = m_max_pages c" "lru_get (m_next c) c1 = Some ?pg"
    "\<forall>fid. rel_option entry_kept (lookup fid c) (lookup fid c1)"
    using insert_evict_ok [OF op inv np le ok mx] by blast
  have "prepare_page env fid i c d = (c1, d1)"
    using False ev(1) by (simp add: prepare_page_def insert_page_def id lru_push_front_def Let_def)
  moreover have "has_page fid i c1"
    using has_page_iff [OF ev(2)] page_at_iff [OF ev(2), of fid i "m_next c" ?pg] ev(6) id by auto
  moreover have "\<exists>e'. lookup fid c1 = Some e' \<and> e_dirty e' = e_dirty e"
    using entry_kept_Some [OF ev(7) e] by (auto simp: entry_kept_def)
  moreover have "page_at k j c1 = Some (it, pg)"
    if room: "length (m_lru c) < m_max_pages c" and p: "page_at k j c = Some (it, pg)" for k j it pg
  proof -
    have l: "m_lru c1 = (m_next c, ?pg) # m_lru c" using ev(3) room by simp
    have g: "lru_get it c = Some pg" "pg_id pg = k" "pg_index pg = j" using p page_at_iff [OF inv] by auto
    have "it < m_next c" by (rule cache_invD(6) [OF inv g(1)])
    then have "lru_get it c1 = Some pg" using g(1) l by (simp add: lru_get_def)
    with g show ?thesis using page_at_iff [OF ev(2)] by simp
  qed
  ultimately show ?thesis using ev by auto
qed

lemma write_page_step:
  assumes inv: "cache_inv c" and hp: "has_page fid i c" and ps: "m_page_size c = ps"
    and a: "access_ok ps (length bs) off" and fl: "first = off div ps" "lst = (off + length bs - 1) div ps"
    and i: "first \<le> i" "i \<le> lst"
  shows "\<exists>c'. write_page fid bs i first lst off c = (Inr (local_size ps i first lst (length bs) off), c') \<and>
    cache_inv c' \<and> m_table c' = m_table c \<and> m_page_size c' = ps \<and> m_max_pages c' = m_max_pages c \<and>
    length (m_lru c') = length (m_lru c) \<and>
    (\<exists>it pg. page_at fid i c' = Some (it, pg) \<and> stored (local_offset ps i first off)
       (local_size ps i first lst (length bs) off) (buf_offset ps i first off) i bs pg) \<and>
    (\<forall>k j it pg. (k, j) \<noteq> (fid, i) \<longrightarrow> page_at k j c = Some (it, pg) \<longrightarrow> page_at k j c' = Some (it, pg))"
proof -
  let ?lo = "local_offset ps i first off" and ?s = "local_size ps i first lst (length bs) off"
    and ?b = "buf_offset ps i first off"
  note t = tile [OF a fl i]
  obtain it pg where pa: "page_at fid i c = Some (it, pg)" using hp has_page_iff [OF inv] by blast
  then have g: "lru_get it c = Some pg" "pg_id pg = fid" "pg_index pg = i" using page_at_iff [OF inv] by auto
  have pok: "page_ok ps pg" using cache_invD(7) [OF inv g(1)] ps by simp
  have ps32: "ps < 2 ^ 32" using cache_invD(2) [OF inv] ps by simp
  obtain pg' where w: "page_write pg (sublist ?b ?s bs) ?lo = Inr (?s, pg')" "page_ok ps pg'"
    "pg_id pg' = fid" "stored ?lo ?s ?b i bs (pg'\<lparr>pg_dirty := True\<rparr>)"
    using page_write_stored [OF pok t(2,3) ps32 t(5)] g by auto
  let ?q = "pg'\<lparr>pg_dirty := True\<rparr>"
  let ?c1 = "lru_to_front it pg c"
  let ?c2 = "lru_set it ?q ?c1"
  have inv1: "cache_inv ?c1" by (rule inv_lru_to_front [OF inv g(1)])
  have g1: "lru_get it ?c1 = Some pg" by simp
  have q: "pg_id ?q = pg_id pg" "pg_index ?q = pg_index pg"
    using w(3,4) g by (simp_all add: stored_def)
  have inv2: "cache_inv ?c2"
    using inv_lru_set [OF inv1 g1 q] w(2) ps by simp
  have "write_page fid bs i first lst off c = (Inr ?s, ?c2)"
    using pa w(1) t(5) ps by (simp add: write_page_def Let_def)
  moreover have "length (m_lru ?c2) = length (m_lru c)"
    using lru_length_set [OF g1] lru_length_to_front [OF g(1) cache_invD(4) [OF inv]] by simp
  moreover have "page_at fid i ?c2 = Some (it, ?q)"
    using page_at_iff [OF inv2, of fid i it ?q] q g by simp
  moreover have "page_at k j ?c2 = Some (jt, pj)"
    if "(k, j) \<noteq> (fid, i)" "page_at k j c = Some (jt, pj)" for k j jt pj
  proof -
    have "lru_get jt c = Some pj" "pg_id pj = k" "pg_index pj = j" using that(2) page_at_iff [OF inv] by auto
    moreover then have "jt \<noteq> it" using that(1) g by auto
    ultimately show ?thesis using page_at_iff [OF inv2] by simp
  qed
  ultimately show ?thesis using inv2 w(4) ps by auto
qed

text \<open>One page of a write, with the eviction it may cause.\<close>

lemma write_at_step:
  assumes op: "open_ok env" and inv: "cache_inv c" and e: "lookup fid c = Some e" and mx: "1 \<le> m_max_pages c"
    and ps: "m_page_size c = ps"
    and a: "access_ok ps (length bs) off" and fl: "first = off div ps" "lst = (off + length bs - 1) div ps"
    and i: "first \<le> i" "i \<le> lst"
  shows "\<exists>c' d'. write_at env fid bs i first lst off c d = (Inr (local_size ps i first lst (length bs) off), c', d') \<and>
    cache_inv c' \<and> m_page_size c' = ps \<and> m_max_pages c' = m_max_pages c \<and>
    length (m_lru c') \<le> max (length (m_lru c)) (m_max_pages c) \<and> length (m_lru c') \<le> Suc (length (m_lru c)) \<and>
    (\<exists>e'. lookup fid c' = Some e' \<and> e_dirty e' = e_dirty e) \<and>
    (\<exists>it pg. page_at fid i c' = Some (it, pg) \<and> stored (local_offset ps i first off)
       (local_size ps i first lst (length bs) off) (buf_offset ps i first off) i bs pg) \<and>
    (length (m_lru c) < m_max_pages c \<longrightarrow>
       (\<forall>k j it pg. (k, j) \<noteq> (fid, i) \<longrightarrow> page_at k j c = Some (it, pg) \<longrightarrow> page_at k j c' = Some (it, pg)))"
proof -
  obtain c1 d1 where pr: "prepare_page env fid i c d = (c1, d1)" and c1: "cache_inv c1" "has_page fid i c1"
    "m_page_size c1 = m_page_size c" "m_max_pages c1 = m_max_pages c"
    "length (m_lru c1) \<le> max (length (m_lru c)) (m_max_pages c)" "length (m_lru c1) \<le> Suc (length (m_lru c))"
    "\<exists>e'. lookup fid c1 = Some e' \<and> e_dirty e' = e_dirty e"
    "length (m_lru c) < m_max_pages c \<longrightarrow>
       (\<forall>k j it pg. page_at k j c = Some (it, pg) \<longrightarrow> page_at k j c1 = Some (it, pg))"
    using write_prepare [OF op inv e mx, of i d] by blast
  have ps1: "m_page_size c1 = ps" using c1(3) ps by simp
  obtain c2 where w: "write_page fid bs i first lst off c1 = (Inr (local_size ps i first lst (length bs) off), c2)"
    "cache_inv c2" "m_table c2 = m_table c1" "m_page_size c2 = ps" "m_max_pages c2 = m_max_pages c1"
    "length (m_lru c2) = length (m_lru c1)"
    "\<exists>it pg. page_at fid i c2 = Some (it, pg) \<and> stored (local_offset ps i first off)
       (local_size ps i first lst (length bs) off) (buf_offset ps i first off) i bs pg"
    "\<forall>k j it pg. (k, j) \<noteq> (fid, i) \<longrightarrow> page_at k j c1 = Some (it, pg) \<longrightarrow> page_at k j c2 = Some (it, pg)"
    using write_page_step [OF c1(1,2) ps1 a fl i] by blast
  have q: "await_queued fid i c = None" using cache_invD(3) [OF inv] by simp
  have "write_at env fid bs i first lst off c d = (Inr (local_size ps i first lst (length bs) off), c2, d1)"
    by (simp add: write_at_def q pr w(1))
  then show ?thesis using w c1 by (auto simp: lookup_def)
qed

text \<open>All pages of a write. With room for them no page of the write is evicted by a later one.\<close>

definition pages_stored :: "nat \<Rightarrow> nat \<Rightarrow> nat \<Rightarrow> nat \<Rightarrow> u8 list \<Rightarrow> nat \<Rightarrow> nat \<Rightarrow> cache \<Rightarrow> bool" where
  "pages_stored fid ps first lst bs off k c = (\<forall>j. first \<le> j \<longrightarrow> j < k \<longrightarrow>
     (\<exists>it pg. page_at fid j c = Some (it, pg) \<and> stored (local_offset ps j first off)
       (local_size ps j first lst (length bs) off) (buf_offset ps j first off) j bs pg))"

lemma write_all_assemble:
  assumes op: "open_ok env" and a: "access_ok ps (length bs) off"
    and fl: "first = off div ps" "lst = (off + length bs - 1) div ps" and il: "first \<le> i" "i \<le> lst"
    and inv: "cache_inv c" and e: "lookup fid c = Some e" and mx: "1 \<le> m_max_pages c" and ps: "m_page_size c = ps"
    and st: "room \<Longrightarrow> length (m_lru c) + (Suc lst - i) \<le> m_max_pages c \<and> pages_stored fid ps first lst bs off i c"
  shows "\<exists>c' d'. write_all env fid [i..<Suc lst] first lst off bs (Inr (buf_offset ps i first off)) c d =
      (Inr (length bs), c', d') \<and> cache_inv c' \<and> m_page_size c' = ps \<and> m_max_pages c' = m_max_pages c \<and>
      length (m_lru c') \<le> max (length (m_lru c)) (m_max_pages c) \<and>
      (\<exists>e'. lookup fid c' = Some e' \<and> e_dirty e' = e_dirty e) \<and>
      (room \<longrightarrow> pages_stored fid ps first lst bs off (Suc lst) c')"
  using il inv e mx ps st
proof (induction "lst - i" arbitrary: i c d e)
  case (0 i c d e)
  let ?s = "local_size ps i first lst (length bs) off" and ?b = "buf_offset ps i first off"
  have i: "i = lst" using 0 by simp
  obtain c' d' where w: "write_at env fid bs i first lst off c d = (Inr ?s, c', d')" "cache_inv c'"
    "m_page_size c' = ps" "m_max_pages c' = m_max_pages c"
    "length (m_lru c') \<le> max (length (m_lru c)) (m_max_pages c)"
    "\<exists>e'. lookup fid c' = Some e' \<and> e_dirty e' = e_dirty e"
    "\<exists>it pg. page_at fid i c' = Some (it, pg) \<and> stored (local_offset ps i first off) ?s ?b i bs pg"
    "length (m_lru c) < m_max_pages c \<longrightarrow>
       (\<forall>k j it pg. (k, j) \<noteq> (fid, i) \<longrightarrow> page_at k j c = Some (it, pg) \<longrightarrow> page_at k j c' = Some (it, pg))"
    using write_at_step [OF op 0(4,5,6,7) a fl 0(2,3)] by blast
  have "?b + ?s = length bs" using tile(4) [OF a fl 0(2,3)] i by simp
  moreover have "pages_stored fid ps first lst bs off (Suc lst) c'" if rm: room
    unfolding pages_stored_def
  proof (intro allI impI)
    fix j assume j: "first \<le> j" "j < Suc lst"
    show "\<exists>it pg. page_at fid j c' = Some (it, pg) \<and> stored (local_offset ps j first off)
       (local_size ps j first lst (length bs) off) (buf_offset ps j first off) j bs pg"
    proof (cases "j = i")
      case True
      with w(7) show ?thesis by simp
    next
      case False
      with j i have "j < i" by simp
      then obtain it pg where "page_at fid j c = Some (it, pg)" "stored (local_offset ps j first off)
       (local_size ps j first lst (length bs) off) (buf_offset ps j first off) j bs pg"
        using 0(8) [OF rm] j(1) by (auto simp: pages_stored_def)
      moreover have "length (m_lru c) < m_max_pages c" using 0(8) [OF rm] i by simp
      ultimately show ?thesis using w(8) False by blast
    qed
  qed
  ultimately show ?case using w i by simp
next
  case (Suc m i c d e)
  let ?s = "local_size ps i first lst (length bs) off" and ?b = "buf_offset ps i first off"
  have lt: "i < lst" using Suc(2) by simp
  obtain c1 d1 where w: "write_at env fid bs i first lst off c d = (Inr ?s, c1, d1)" "cache_inv c1"
    "m_page_size c1 = ps" "m_max_pages c1 = m_max_pages c"
    "length (m_lru c1) \<le> max (length (m_lru c)) (m_max_pages c)" "length (m_lru c1) \<le> Suc (length (m_lru c))"
    "\<exists>e'. lookup fid c1 = Some e' \<and> e_dirty e' = e_dirty e"
    "\<exists>it pg. page_at fid i c1 = Some (it, pg) \<and> stored (local_offset ps i first off) ?s ?b i bs pg"
    "length (m_lru c) < m_max_pages c \<longrightarrow>
       (\<forall>k j it pg. (k, j) \<noteq> (fid, i) \<longrightarrow> page_at k j c = Some (it, pg) \<longrightarrow> page_at k j c1 = Some (it, pg))"
    using write_at_step [OF op Suc(5-8) a fl Suc(3,4)] by blast
  obtain e1 where e1: "lookup fid c1 = Some e1" "e_dirty e1 = e_dirty e" using w(7) by blast
  have st1: "length (m_lru c1) + (Suc lst - Suc i) \<le> m_max_pages c1 \<and> pages_stored fid ps first lst bs off (Suc i) c1" if room
  proof -
    note r = Suc(9) [OF that]
    have "length (m_lru c) < m_max_pages c" using conjunct1 [OF r] lt by arith
    then have keep: "\<forall>j it pg. j \<noteq> i \<longrightarrow> page_at fid j c = Some (it, pg) \<longrightarrow> page_at fid j c1 = Some (it, pg)"
      using w(9) by blast
    have "pages_stored fid ps first lst bs off (Suc i) c1"
      unfolding pages_stored_def
    proof (intro allI impI)
      fix j assume j: "first \<le> j" "j < Suc i"
      show "\<exists>it pg. page_at fid j c1 = Some (it, pg) \<and> stored (local_offset ps j first off)
         (local_size ps j first lst (length bs) off) (buf_offset ps j first off) j bs pg"
      proof (cases "j = i")
        case True
        with w(8) show ?thesis by simp
      next
        case False
        with j have "j < i" by simp
        then show ?thesis using r j(1) keep False unfolding pages_stored_def by blast
      qed
    qed
    moreover have "length (m_lru c1) + (Suc lst - Suc i) \<le> m_max_pages c1"
      using conjunct1 [OF r] w(4,6) lt by arith
    ultimately show ?thesis by blast
  qed
  have ih: "\<exists>c' d'. write_all env fid [Suc i..<Suc lst] first lst off bs (Inr (buf_offset ps (Suc i) first off)) c1 d1 =
      (Inr (length bs), c', d') \<and> cache_inv c' \<and> m_page_size c' = ps \<and> m_max_pages c' = m_max_pages c1 \<and>
      length (m_lru c') \<le> max (length (m_lru c1)) (m_max_pages c1) \<and>
      (\<exists>e'. lookup fid c' = Some e' \<and> e_dirty e' = e_dirty e1) \<and>
      (room \<longrightarrow> pages_stored fid ps first lst bs off (Suc lst) c')"
    using Suc(1) [of "Suc i" c1 e1 d1] Suc(2,3,7) lt w(2-4) e1(1) st1 by simp
  have up: "[i..<Suc lst] = i # [Suc i..<Suc lst]" using lt by (simp add: upt_conv_Cons)
  have b: "?b + ?s = buf_offset ps (Suc i) first off" using tile(6) [OF a fl Suc(3,4) lt] by simp
  show ?case
    unfolding up using ih w(1,4,5) b e1(2) by (auto simp: max_def split: if_splits)
qed

lemma buf_offset_first: "access_ok ps n off \<Longrightarrow> buf_offset ps (off div ps) (off div ps) off = 0"
proof -
  assume "access_ok ps n off"
  then have "off < 2 ^ 63" by (simp add: access_ok_def)
  then have "off div ps < 2 ^ 63" using div_le_dividend [of off ps] by linarith
  then show ?thesis by (simp add: buf_offset_def)
qed

lemma cache_write_ok:
  assumes op: "open_ok env" and inv: "cache_inv c" and e: "lookup fid c = Some e" and mx: "1 \<le> m_max_pages c"
    and a: "access_ok (m_page_size c) (length bs) off"
  defines "first \<equiv> off div m_page_size c" and "lst \<equiv> (off + length bs - 1) div m_page_size c"
  shows "\<exists>c' d'. cache_write env fid bs off c d = (Inr (length bs), c', d') \<and> cache_inv c' \<and>
    m_page_size c' = m_page_size c \<and> m_max_pages c' = m_max_pages c \<and>
    length (m_lru c') \<le> max (length (m_lru c)) (m_max_pages c) \<and>
    (\<exists>e'. lookup fid c' = Some e' \<and> e_dirty e') \<and>
    (length (m_lru c) + (Suc lst - first) \<le> m_max_pages c \<longrightarrow>
       pages_stored fid (m_page_size c) first lst bs off (Suc lst) c')"
proof -
  let ?e = "e\<lparr>e_dirty := True\<rparr>"
  let ?c = "set_entry fid ?e c"
  have inv': "cache_inv ?c" using inv_upd_entry [OF inv, of "\<lambda>_. ?e"] e
    by (metis (no_types, lifting) set_entry_upd inv_upd_entry [OF inv, of "\<lambda>e. e\<lparr>e_dirty := True\<rparr>"]
        entry.ext_inject entry.surjective entry.update_convs(9) option.case(2) upd_entry_def)
  have "0 < length bs" using a unfolding access_ok_def by blast
  then have "off \<le> off + length bs - 1" by linarith
  then have fl: "first \<le> lst" unfolding first_def lst_def by (rule div_le_mono)
  have "pages_stored fid (m_page_size c) first lst bs off first ?c" by (simp add: pages_stored_def)
  then have "\<exists>c' d'. write_all env fid [first..<Suc lst] first lst off bs
        (Inr (buf_offset (m_page_size c) first first off)) ?c d =
      (Inr (length bs), c', d') \<and> cache_inv c' \<and> m_page_size c' = m_page_size c \<and> m_max_pages c' = m_max_pages ?c \<and>
      length (m_lru c') \<le> max (length (m_lru ?c)) (m_max_pages ?c) \<and>
      (\<exists>e'. lookup fid c' = Some e' \<and> e_dirty e' = e_dirty ?e) \<and>
      (length (m_lru c) + (Suc lst - first) \<le> m_max_pages c \<longrightarrow>
         pages_stored fid (m_page_size c) first lst bs off (Suc lst) c')"
    using mx by (intro write_all_assemble [OF op a first_def [THEN meta_eq_to_obj_eq] lst_def [THEN meta_eq_to_obj_eq] _ fl inv'])
      simp_all
  then show ?thesis
    using e buf_offset_first [OF a]
    by (auto simp: cache_write_def page_range_eq [OF a] first_def lst_def)
qed

section \<open>Reading what was written\<close>

definition rereading :: "nat \<Rightarrow> nat \<Rightarrow> nat \<Rightarrow> nat \<Rightarrow> u8 list \<Rightarrow> nat \<Rightarrow> cache \<Rightarrow> bool" where
  "rereading fid ps first lst bs off c = (cache_inv c \<and> m_page_size c = ps \<and>
     pages_stored fid ps first lst bs off (Suc lst) c)"

lemma page_at_inflight [simp]:
  "page_at k j (inc_read fid c) = page_at k j c" "page_at k j (dec_read fid c) = page_at k j c"
  "has_page k j (inc_read fid c) = has_page k j c" "m_page_size (inc_read fid c) = m_page_size c"
  by (auto simp: page_at_def has_page_def inc_read_def dec_read_def split: option.splits)

lemma rereading_inflight:
  "rereading fid ps first lst bs off c \<Longrightarrow> rereading fid ps first lst bs off (inc_read fid c)"
  "rereading fid ps first lst bs off c \<Longrightarrow> rereading fid ps first lst bs off (dec_read fid c)"
  by (auto simp: rereading_def pages_stored_def inv_inflight) (simp_all add: dec_read_def)

lemma reread_at_step:
  assumes r: "rereading fid ps first lst bs off c" and a: "access_ok ps (length bs) off"
    and fl: "first = off div ps" "lst = (off + length bs - 1) div ps"
    and i: "first \<le> i" "i \<le> lst" and out: "length out = length bs"
  shows "\<exists>c' d'. read_at env fid out i first lst off c d =
    (Inr (length (take (local_size ps i first lst (length bs) off) (drop (buf_offset ps i first off) bs)),
       overwrite out (buf_offset ps i first off)
         (take (local_size ps i first lst (length bs) off) (drop (buf_offset ps i first off) bs))), c', d')
    \<and> rereading fid ps first lst bs off c'"
proof -
  let ?c = "inc_read fid c"
  let ?lo = "local_offset ps i first off" and ?s = "local_size ps i first lst (length bs) off"
    and ?b = "buf_offset ps i first off"
  have r1: "rereading fid ps first lst bs off ?c" using r by (rule rereading_inflight)
  then have inv: "cache_inv ?c" and ps: "m_page_size ?c = ps" by (simp_all add: rereading_def)
  obtain it pg where pa: "page_at fid i ?c = Some (it, pg)" and st: "stored ?lo ?s ?b i bs pg"
    using r1 i by (auto simp: rereading_def pages_stored_def)
  have g: "lru_get it ?c = Some pg" using pa page_at_iff [OF inv] by simp
  have hp: "has_page fid i ?c" using pa has_page_iff [OF inv] by blast
  have pok: "page_ok ps pg" using cache_invD(7) [OF inv g] ps by simp
  note t = tile [OF a fl i]
  have m: "min (pg_size pg - ?lo) ?s = ?s" "?lo \<le> pg_size pg" using st by (auto simp: stored_def)
  have bd: "?lo + ?s \<le> length (pg_data pg)" using t(2) pok by (simp add: page_ok_def)
  have "page_read pg ?s ?lo = Inr (sublist ?lo ?s (pg_data pg))"
    using m bd by (simp add: page_read_def Let_def)
  then have rd: "page_read pg ?s ?lo = Inr (take ?s (drop ?b bs))"
    using st by (simp add: stored_def sublist_def)
  have bl: "?b + length (take ?s (drop ?b bs)) \<le> length out" using t(5) out by simp
  let ?c2 = "lru_to_front it pg ?c"
  have rp: "read_page fid out i first lst off ?c = (Inr (length (take ?s (drop ?b bs)), overwrite out ?b (take ?s (drop ?b bs))), ?c2)"
    using pa rd ps out bl by (simp add: read_page_def Let_def)
  have inv2: "cache_inv ?c2" by (rule inv_lru_to_front [OF inv g])
  have "page_at k j ?c2 = page_at k j ?c" for k j
  proof -
    have "page_at k j ?c2 = Some (jt, q) \<longleftrightarrow> page_at k j ?c = Some (jt, q)" for jt q
      using g by (auto simp: page_at_iff [OF inv2] page_at_iff [OF inv] simp del: page_at_inflight)
    then show ?thesis by (metis option.exhaust surj_pair)
  qed
  then have "rereading fid ps first lst bs off ?c2"
    using r1 inv2 by (simp add: rereading_def pages_stored_def)
  then have r3: "rereading fid ps first lst bs off (dec_read fid ?c2)" by (rule rereading_inflight)
  have "await_queued fid i ?c = None" using cache_invD(3) [OF inv] by simp
  with hp rp have "read_at env fid out i first lst off c d =
      (Inr (length (take ?s (drop ?b bs)), overwrite out ?b (take ?s (drop ?b bs))), dec_read fid ?c2, d)"
    by (simp only: read_at_def Let_def option.case if_True prod.case sum.case)
  with r3 show ?thesis by blast
qed

lemma write_then_read:
  assumes op: "open_ok env" and inv: "cache_inv c" and e: "lookup fid c = Some e"
    and a: "access_ok (m_page_size c) (length bs) off"
    and room: "length (m_lru c) + (Suc ((off + length bs - 1) div m_page_size c) - off div m_page_size c) \<le> m_max_pages c"
    and out: "length out = length bs"
  shows "\<exists>c' d'. cache_write env fid bs off c d = (Inr (length bs), c', d') \<and>
    (\<exists>c'' d''. read env' fid out off c' d2 = (Inr (length bs), bs, c'', d'') \<and> cache_inv c'')"
proof -
  let ?ps = "m_page_size c"
  let ?first = "off div ?ps" and ?lst = "(off + length bs - 1) div ?ps"
  have "0 < length bs" using a unfolding access_ok_def by blast
  then have "off \<le> off + length bs - 1" by linarith
  then have "?first \<le> ?lst" by (rule div_le_mono)
  then have mx: "1 \<le> m_max_pages c" using room by linarith
  obtain c' d' where w: "cache_write env fid bs off c d = (Inr (length bs), c', d')" "cache_inv c'"
    "m_page_size c' = ?ps" "\<exists>e'. lookup fid c' = Some e'"
    "pages_stored fid ?ps ?first ?lst bs off (Suc ?lst) c'"
    using cache_write_ok [OF op inv e mx a, of d] room by blast
  have r: "rereading fid ?ps ?first ?lst bs off c'" using w by (simp add: rereading_def)
  have "\<exists>c'' d''. read_all env' fid [?first..<Suc ?lst] ?first ?lst off out (Inr 0) c' d2 =
     (Inr (length bs), bs @ drop (length bs) out, c'', d'') \<and> rereading fid ?ps ?first ?lst bs off c''"
    using reread_at_step [OF _ a refl refl] out
    by (intro read_all_assemble [where P = "rereading fid ?ps ?first ?lst bs off" and R = bs, OF a refl refl _ out _ r]) auto
  moreover have "page_range (m_page_size c') (length out) off = (?first, ?lst)"
    using page_range_eq [OF a] out w(3) by simp
  ultimately have "\<exists>c'' d''. read env' fid out off c' d2 = (Inr (length bs), bs, c'', d'') \<and> cache_inv c''"
    using w(4) out by (auto simp: read_def rereading_def)
  with w(1) show ?thesis by blast
qed

end
