(* ===== verification/Cache_Flush.thy ===== *)
theory Cache_Flush
  imports Cache_IO
begin

text \<open>
  Flushing: with a device that accepts writes, flushing a file terminates, leaves no dirty page
  and puts the contents of every dirty page at its place in the device's file. Further the
  reference counts, invalidation, the stale descriptors, and the defects of the cache.
\<close>

section \<open>Writing to the device\<close>

definition pwrite :: "u8 list \<Rightarrow> nat \<Rightarrow> u8 list \<Rightarrow> u8 list" where
  "pwrite f off bs = take off (f @ replicate (off - length f) 0) @ bs @ drop (off + length bs) f"

lemma pwrite_append: "pwrite (pwrite f off xs) (off + length xs) ys = pwrite f off (xs @ ys)"
proof -
  define P where "P = take off (f @ replicate (off - length f) (0 :: u8))"
  have P: "length P = off" by (simp add: P_def)
  have "pwrite f off xs = P @ xs @ drop (off + length xs) f" by (simp add: pwrite_def P_def)
  then have "pwrite (pwrite f off xs) (off + length xs) ys = P @ xs @ ys @ drop (off + length xs + length ys) f"
    using P by (simp add: pwrite_def [of "P @ xs @ drop (off + length xs) f"] add.commute)
  then show ?thesis by (simp add: pwrite_def P_def add.assoc)
qed

lemma length_pwrite: "length (pwrite f off bs) = max (length f) (off + length bs)"
  by (simp add: pwrite_def)

text \<open>
  What a flush relies on: a write of some bytes through \<open>fd\<close> is accepted, at least in part, and
  what was accepted is in the file.
\<close>

definition stores :: "'d env \<Rightarrow> u64 \<Rightarrow> ('d \<Rightarrow> u8 list) \<Rightarrow> bool" where
  "stores env fd file = (\<forall>bs off d. bs \<noteq> [] \<longrightarrow>
     (\<exists>n d'. conn_write env fd bs off d = (Inr n, d') \<and> 0 < unat n \<and> unat n \<le> length bs \<and>
        file d' = pwrite (file d) (unat off) (take (unat n) bs)))"

lemma flush_loop_ok:
  assumes dev: "stores env fd file" and pg: "page_ok ps pg" and small: "pg_index pg * ps + ps < 2 ^ 63"
    and w: "written \<le> pg_size pg" and fuel: "pg_size pg - written \<le> fuel"
  shows "\<exists>d'. flush_loop fuel env fd ps pg written d = (Inr (), d') \<and>
    (written < pg_size pg \<longrightarrow> file d' = pwrite (file d) (pg_index pg * ps + written) (drop written (pg_buf pg))) \<and>
    (written = pg_size pg \<longrightarrow> d' = d)"
  using w fuel
proof (induction fuel arbitrary: written d)
  case 0
  then have "written = pg_size pg" by simp
  then show ?case by (simp add: flush_loop.simps [of 0])
next
  case (Suc fuel)
  show ?case
  proof (cases "written < pg_size pg")
    case False
    with Suc.prems(1) show ?thesis by (simp add: flush_loop.simps [of "Suc fuel"])
  next
    case True
    let ?sp = "drop written (pg_buf pg)"
    have len: "length (pg_buf pg) = pg_size pg" "pg_size pg \<le> ps" using pg by (auto simp: page_ok_def pg_buf_def)
    then have ne: "?sp \<noteq> []" and spl: "length ?sp = pg_size pg - written" using True by auto
    have mul: "mul64 (pg_index pg) ps = pg_index pg * ps" using small by (intro mul64_small) simp
    have off: "add64 (mul64 (pg_index pg) ps) written = pg_index pg * ps + written"
      unfolding mul using small len True by (intro add64_small) simp
    have un: "unat (word_of_nat (pg_index pg * ps + written) :: i64) = pg_index pg * ps + written"
      using small len True by (intro unat_u64) simp
    obtain n d1 where wr: "conn_write env fd ?sp (word_of_nat (pg_index pg * ps + written)) d = (Inr n, d1)"
      and n: "0 < unat n" "unat n \<le> length ?sp"
      and f1: "file d1 = pwrite (file d) (pg_index pg * ps + written) (take (unat n) ?sp)"
      using dev ne un unfolding stores_def by metis
    let ?w = "written + unat n"
    have wle: "?w \<le> pg_size pg" using n(2) spl True by simp
    have addw: "add64 written (unat n) = ?w" using wle len small by (intro add64_small) simp
    have fu: "pg_size pg - ?w \<le> fuel" using Suc.prems(2) n(1) by arith
    obtain d' where ih: "flush_loop fuel env fd ps pg ?w d1 = (Inr (), d')"
      "?w < pg_size pg \<longrightarrow> file d' = pwrite (file d1) (pg_index pg * ps + ?w) (drop ?w (pg_buf pg))"
      "?w = pg_size pg \<longrightarrow> d' = d1"
      using Suc.IH [OF wle fu, of d1] by blast
    have dr: "drop ?w (pg_buf pg) = drop (unat n) ?sp" by (simp add: add.commute)
    have fin: "file d' = pwrite (file d) (pg_index pg * ps + written) ?sp"
    proof (cases "?w < pg_size pg")
      case True
      have lt: "length (take (unat n) ?sp) = unat n" using n(2) by simp
      have "file d' = pwrite (pwrite (file d) (pg_index pg * ps + written) (take (unat n) ?sp))
          (pg_index pg * ps + written + length (take (unat n) ?sp)) (drop (unat n) ?sp)"
        using ih(2) True f1 dr unfolding lt by (simp add: add.assoc)
      then show ?thesis by (simp only: pwrite_append append_take_drop_id)
    next
      case False
      with wle have "?w = pg_size pg" by simp
      moreover then have "take (unat n) ?sp = ?sp" using spl by simp
      ultimately show ?thesis using ih(3) f1 by simp
    qed
    have "flush_loop (Suc fuel) env fd ps pg written d = flush_loop fuel env fd ps pg ?w d1"
      using True wr addw off by (simp add: flush_loop.simps [of "Suc fuel"] Let_def)
    with ih(1) fin True show ?thesis by simp
  qed
qed

text \<open>The device's file after the dirty pages of a list were written, in order.\<close>

fun flushed :: "cache \<Rightarrow> (nat \<times> nat) list \<Rightarrow> u8 list \<Rightarrow> u8 list" where
  "flushed c [] f = f"
| "flushed c ((i, it) # ps) f =
     flushed c ps (case lru_get it c of
        Some pg \<Rightarrow> if pg_dirty pg \<and> 0 < pg_size pg then pwrite f (i * m_page_size c) (pg_buf pg) else f
      | None \<Rightarrow> f)"

lemma flushed_cong:
  "(\<And>i it. (i, it) \<in> set ps \<Longrightarrow> lru_get it c = lru_get it c') \<Longrightarrow> m_page_size c = m_page_size c' \<Longrightarrow>
     flushed c ps f = flushed c' ps f"
proof (induction ps arbitrary: f)
  case (Cons x ps)
  obtain i it where x: "x = (i, it)" by fastforce
  have "lru_get it c = lru_get it c'" using Cons.prems(1) x by auto
  moreover have "flushed c ps g = flushed c' ps g" for g
    by (rule Cons.IH) (use Cons.prems in auto)
  ultimately show ?case using Cons.prems(2) by (simp add: x split: option.split)
qed simp

lemma flush_pages_device:
  assumes dev: "stores env fd file" and inv: "cache_inv c" and e: "lookup fid c = Some e" and w: "e_write_fd e = Some fd"
    and ps: "\<And>i it. (i, it) \<in> set ps \<Longrightarrow> \<exists>pg. lru_get it c = Some pg \<and> pg_id pg = fid \<and> pg_index pg = i \<and>
      i * m_page_size c + m_page_size c < 2 ^ 63"
    and dist: "distinct (map snd ps)" and fuel: "m_page_size c \<le> ev_fuel env"
  shows "\<exists>c' d'. flush_pages env fid ps c d = (Inr (), c', d') \<and> file d' = flushed c ps (file d)"
  using inv e ps dist fuel
proof (induction ps arbitrary: c d)
  case (Cons x ps)
  obtain i it where x: "x = (i, it)" by fastforce
  obtain pg where pg: "lru_get it c = Some pg" "pg_id pg = fid" "pg_index pg = i"
    and sm: "i * m_page_size c + m_page_size c < 2 ^ 63"
    using Cons.prems(3) [of i it] x by auto
  have pok: "page_ok (m_page_size c) pg" by (rule cache_invD(7) [OF Cons.prems(1) pg(1)])
  show ?case
  proof (cases "pg_dirty pg")
    case False
    with Cons pg show ?thesis by (simp add: x)
  next
    case True
    obtain d1 where fl: "flush_loop (ev_fuel env) env fd (m_page_size c) pg 0 d = (Inr (), d1)"
      and f1: "0 < pg_size pg \<longrightarrow> file d1 = pwrite (file d) (i * m_page_size c) (pg_buf pg)"
        "0 = pg_size pg \<longrightarrow> d1 = d"
      using flush_loop_ok [OF dev pok, of 0 "ev_fuel env" d] sm pg(3) pok Cons.prems(5)
      by (auto simp: page_ok_def)
    let ?q = "pg\<lparr>pg_dirty := False\<rparr>"
    have fa: "flush_at env fd pg c d = (Inr (), ?q, d1)"
      using fl cache_invD(3) [OF Cons.prems(1)] by (simp add: flush_at_def)
    let ?c = "lru_set it ?q c"
    have inv: "cache_inv ?c" by (rule inv_flush_page [OF Cons.prems(1) pg(1) fa])
    have it: "it \<noteq> jt" if "(j, jt) \<in> set ps" for j jt
      using Cons.prems(4) that by (auto simp: x rev_image_eqI)
    obtain c' d' where ih: "flush_pages env fid ps ?c d1 = (Inr (), c', d')" "file d' = flushed ?c ps (file d1)"
    proof -
      have "\<exists>q. lru_get jt ?c = Some q \<and> pg_id q = fid \<and> pg_index q = j \<and> j * m_page_size ?c + m_page_size ?c < 2 ^ 63"
        if "(j, jt) \<in> set ps" for j jt
        using Cons.prems(3) [of j jt] it [OF that] that by simp
      with Cons.IH [OF inv, of d1] Cons.prems(2,4,5) x that show ?thesis by auto
    qed
    have "flushed ?c ps (file d1) = flushed c ps (file d1)"
      using it by (intro flushed_cong) auto
    moreover have "file d1 = (if 0 < pg_size pg then pwrite (file d) (i * m_page_size c) (pg_buf pg) else file d)"
      using f1 by auto
    ultimately show ?thesis
      using ih fa pg True Cons.prems(2) w by (simp add: x)
  qed
qed simp

lemma entry_iterators_distinct:
  assumes "cache_inv c" "lookup fid c = Some e"
  shows "distinct (map snd (e_pages e))"
proof -
  have ok: "entry_ok c fid e" by (rule cache_invD(9) [OF assms])
  then have d: "distinct (map fst (e_pages e))" by (simp add: entry_ok_def)
  have "inj_on snd (set (e_pages e))"
  proof (rule inj_onI)
    fix x y assume xy: "x \<in> set (e_pages e)" "y \<in> set (e_pages e)" "snd x = snd y"
    have "map_of (e_pages e) (fst x) = Some (snd x)" "map_of (e_pages e) (fst y) = Some (snd x)"
      using xy d by (metis map_of_is_SomeI prod.collapse)+
    with entry_okE [OF ok] have "fst x = fst y" by (metis option.inject)
    with xy(3) show "x = y" by (simp add: prod_eq_iff)
  qed
  then show ?thesis using d by (simp add: distinct_map)
qed

lemma flush_device:
  assumes inv: "cache_inv c" and e: "lookup fid c = Some e" and dirty: "e_dirty e"
    and fd: "\<exists>d1 c1. ensure_write_fd env fid e c d = (Inr fd, c1, d1) \<and> file d1 = file d"
    and dev: "stores env fd file"
    and sm: "\<And>i it. (i, it) \<in> set (e_pages e) \<Longrightarrow> i * m_page_size c + m_page_size c < 2 ^ 63"
    and fuel: "m_page_size c \<le> ev_fuel env"
  shows "\<exists>c' d'. flush env fid c d = (Inr (), c', d') \<and> file d' = flushed c (e_pages e) (file d)"
proof -
  obtain c1 d1 where en: "ensure_write_fd env fid e c d = (Inr fd, c1, d1)" "file d1 = file d" using fd by blast
  obtain e1 where e1: "lookup fid c1 = Some e1" "e_write_fd e1 = Some fd"
    using en(1) e by (auto simp: ensure_write_fd_def split: option.splits prod.splits sum.splits)
  have keep: "m_lru c1 = m_lru c" "m_page_size c1 = m_page_size c"
    using en(1) by (auto simp: ensure_write_fd_def split: option.splits prod.splits sum.splits)
  let ?c = "inc_write fid c1"
  have inv1: "cache_inv ?c" using inv_ensure_write_fd [OF en(1) inv] by (rule inv_inflight)
  have g: "lru_get it ?c = lru_get it c" for it using keep by (simp add: inc_write_def lru_get_def)
  have ps: "m_page_size ?c = m_page_size c" using keep by (simp add: inc_write_def)
  obtain e2 where e2: "lookup fid ?c = Some e2" "e_write_fd e2 = Some fd" using e1 by (simp add: inc_write_def)
  have ok: "entry_ok c fid e" by (rule cache_invD(9) [OF inv e])
  have pages: "\<exists>pg. lru_get it ?c = Some pg \<and> pg_id pg = fid \<and> pg_index pg = i \<and> i * m_page_size ?c + m_page_size ?c < 2 ^ 63"
    if "(i, it) \<in> set (e_pages e)" for i it
  proof -
    have "map_of (e_pages e) i = Some it" using ok that by (simp add: entry_ok_def)
    then show ?thesis using entry_okE [OF ok] sm [OF that] by (metis g ps)
  qed
  obtain c' d' where fp: "flush_pages env fid (e_pages e) ?c d1 = (Inr (), c', d')"
    "file d' = flushed ?c (e_pages e) (file d1)"
    using flush_pages_device [OF dev inv1 e2 pages entry_iterators_distinct [OF inv e], of d1] fuel ps by auto
  have "flushed ?c (e_pages e) (file d1) = flushed c (e_pages e) (file d)"
    using g ps en(2) flushed_cong [of "e_pages e" ?c c "file d"] by simp
  then show ?thesis using e dirty en(1) fp by (simp add: flush_def)
qed

section \<open>Invalidation\<close>

lemma erase_pages_ok:
  assumes "distinct (map snd ps)" "\<And>i it. (i, it) \<in> set ps \<Longrightarrow> lru_get it c \<noteq> None"
  shows "\<exists>c'. erase_pages ps c = (Inr (), c') \<and> m_table c' = m_table c \<and> m_next c' = m_next c \<and>
    m_read_queue c' = m_read_queue c \<and> m_page_size c' = m_page_size c \<and> m_max_pages c' = m_max_pages c \<and>
    (distinct (map fst (m_lru c)) \<longrightarrow> distinct (map fst (m_lru c'))) \<and>
    (\<forall>it. lru_get it c' = (if it \<in> snd ` set ps then None else lru_get it c))"
  using assms
proof (induction ps arbitrary: c)
  case (Cons x ps)
  obtain i it where x: "x = (i, it)" by fastforce
  have g: "lru_get it c \<noteq> None" using Cons.prems(2) x by auto
  have "lru_get jt (lru_erase it c) \<noteq> None" if "(j, jt) \<in> set ps" for j jt
    using Cons.prems that by (auto simp: x image_iff)
  then obtain c' where c': "erase_pages ps (lru_erase it c) = (Inr (), c')" "m_table c' = m_table c" "m_next c' = m_next c"
    "m_read_queue c' = m_read_queue c" "m_page_size c' = m_page_size c" "m_max_pages c' = m_max_pages c"
    "distinct (map fst (m_lru (lru_erase it c))) \<longrightarrow> distinct (map fst (m_lru c'))"
    "\<forall>jt. lru_get jt c' = (if jt \<in> snd ` set ps then None else lru_get jt (lru_erase it c))"
    using Cons.IH [of "lru_erase it c"] Cons.prems(1) by (auto simp: x)
  have "distinct (map fst (m_lru c)) \<longrightarrow> distinct (map fst (m_lru (lru_erase it c)))"
    by (simp add: lru_erase_def delete_keys distinct_removeAll)
  with c' g show ?case by (auto simp: x)
qed simp

lemma entry_page_get:
  assumes "cache_inv c" "lookup fid c = Some e" "(i, it) \<in> set (e_pages e)"
  shows "\<exists>pg. lru_get it c = Some pg \<and> pg_id pg = fid \<and> pg_index pg = i"
proof -
  have ok: "entry_ok c fid e" by (rule cache_invD(9) [OF assms(1,2)])
  then have "map_of (e_pages e) i = Some it" using assms(3) by (simp add: entry_ok_def)
  with ok show ?thesis by (meson entry_okE)
qed

lemma inv_drop_file:
  assumes inv: "cache_inv c" and e: "lookup fid c = Some e"
  shows "\<exists>c'. erase_pages (e_pages e) (c\<lparr>m_table := AList.delete fid (m_table c)\<rparr>) = (Inr (), c') \<and>
    cache_inv c' \<and> lookup fid c' = None \<and> (\<forall>k. k \<noteq> fid \<longrightarrow> lookup k c' = lookup k c) \<and>
    (\<forall>it pg. lru_get it c' = Some pg \<longleftrightarrow> lru_get it c = Some pg \<and> pg_id pg \<noteq> fid)"
proof -
  let ?c = "c\<lparr>m_table := AList.delete fid (m_table c)\<rparr>"
  have g: "lru_get it ?c \<noteq> None" if "(i, it) \<in> set (e_pages e)" for i it
    using entry_page_get [OF inv e that] by auto
  obtain c' where c': "erase_pages (e_pages e) ?c = (Inr (), c')" "m_table c' = m_table ?c" "m_next c' = m_next c"
    "m_read_queue c' = m_read_queue c" "m_page_size c' = m_page_size c"
    "distinct (map fst (m_lru c'))"
    "\<forall>it. lru_get it c' = (if it \<in> snd ` set (e_pages e) then None else lru_get it c)"
    using erase_pages_ok [OF entry_iterators_distinct [OF inv e], of ?c] g cache_invD(4) [OF inv] by auto
  have lk: "lookup k c' = (if k = fid then None else lookup k c)" for k
    by (simp add: lookup_def c'(2) delete_conv')
  have mem: "it \<in> snd ` set (e_pages e) \<longleftrightarrow> pg_id pg = fid" if pg: "lru_get it c = Some pg" for it pg
  proof
    assume "it \<in> snd ` set (e_pages e)"
    then obtain i where "(i, it) \<in> set (e_pages e)" by auto
    from entry_page_get [OF inv e this] pg show "pg_id pg = fid" by auto
  next
    assume "pg_id pg = fid"
    with cache_invD(8) [OF inv pg] e have "map_of (e_pages e) (pg_index pg) = Some it" by (simp add: indexed_def)
    then show "it \<in> snd ` set (e_pages e)" by (metis image_eqI map_of_SomeD snd_conv)
  qed
  have get: "lru_get it c' = Some pg \<longleftrightarrow> lru_get it c = Some pg \<and> pg_id pg \<noteq> fid" for it pg
    using c'(7) mem [of it pg] by auto
  have "indexed c' it pg" if "lru_get it c' = Some pg" for it pg
    using that get cache_invD(8) [OF inv, of it pg] lk by (auto simp: indexed_def)
  moreover have "entry_ok c' k e'" if "lookup k c' = Some e'" for k e'
  proof -
    have k: "k \<noteq> fid" "lookup k c = Some e'" using that lk by (auto split: if_splits)
    have ok: "entry_ok c k e'" by (rule cache_invD(9) [OF inv k(2)])
    show ?thesis unfolding entry_ok_def
    proof (intro conjI allI impI)
      show "distinct (map fst (e_pages e'))" using ok by (simp add: entry_ok_def)
      fix i it assume "map_of (e_pages e') i = Some it"
      from entry_okE [OF ok this] obtain pg where "lru_get it c = Some pg" "pg_id pg = k" "pg_index pg = i" .
      with get k(1) show "\<exists>pg. lru_get it c' = Some pg \<and> pg_id pg = k \<and> pg_index pg = i" by auto
    qed
  qed
  moreover have "distinct (map fst (m_table c'))"
    using cache_invD(5) [OF inv] by (simp add: c'(2) delete_keys distinct_removeAll)
  ultimately have "cache_inv c'"
    using cache_invD(1-3) [OF inv] cache_invD(6,7) [OF inv] c' get by (auto simp: cache_inv_def)
  with c'(1) lk get show ?thesis by auto
qed

section \<open>Descriptors\<close>

lemma inv_field_irrelevant:
  assumes "cache_inv c" "map fst t = map fst (m_table c)"
    "\<And>k. rel_option (\<lambda>e e'. e_pages e' = e_pages e) (lookup k c) (map_of t k)"
  shows "cache_inv (c\<lparr>m_table := t\<rparr>)"
proof -
  have lk: "lookup k (c\<lparr>m_table := t\<rparr>) = map_of t k" for k by (simp add: lookup_def)
  have "indexed (c\<lparr>m_table := t\<rparr>) it pg" if "indexed c it pg" for it pg
    using that assms(3) [of "pg_id pg"] by (auto simp: indexed_def lk option_rel_Some1)
  moreover have "entry_ok (c\<lparr>m_table := t\<rparr>) k e'" if "map_of t k = Some e'" for k e'
    using that assms(3) [of k] cache_invD(9) [OF assms(1), of k]
    by (auto simp: entry_ok_def option_rel_Some2)
  ultimately show ?thesis using assms(1,2) by (auto simp: cache_inv_def lk)
qed

lemma inv_invalidate_fds: "cache_inv c \<Longrightarrow> cache_inv (fst (invalidate_fds env b c d))"
proof -
  assume inv: "cache_inv c"
  let ?f = "\<lambda>e. e\<lparr>e_read_fd := None, e_write_fd := None\<rparr>"
  have m: "map_of (map (\<lambda>(i, e). (i, ?f e)) xs) k = map_option ?f (map_of xs k)" for xs :: "(nat \<times> entry) list" and k
    by (induction xs) auto
  have "rel_option (\<lambda>e e'. e_pages e' = e_pages e) (lookup k c) (map_of (map (\<lambda>(i, e). (i, ?f e)) (m_table c)) k)" for k
    by (cases "lookup k c") (simp_all add: m lookup_def)
  then show ?thesis
    unfolding invalidate_fds_def Let_def fst_conv
    by (intro inv_field_irrelevant [OF inv]) (auto simp: comp_def split_beta)
qed

lemma stale_pass_inv:
  "stale_pass vs c = (fds, keep, c') \<Longrightarrow> cache_inv c \<Longrightarrow> cache_inv c' \<and> m_lru c' = m_lru c"
proof (induction vs arbitrary: c fds keep c')
  case (Cons v vs)
  obtain fid kind where v: "v = (fid, kind)" by fastforce
  show ?case
  proof (cases "lookup fid c")
    case None
    with Cons v show ?thesis by simp
  next
    case (Some e)
    define e' where "e' = (case kind of
               FdRead \<Rightarrow> if e_read_inflight e = 0 then e\<lparr>e_read_fd := None\<rparr> else e
             | FdWrite \<Rightarrow> if e_write_inflight e = 0 then e\<lparr>e_write_fd := None\<rparr> else e)"
    have "e_pages e' = e_pages e" by (simp add: e'_def split: fd_kind.splits)
    then have inv: "cache_inv (set_entry fid e' c)"
      using Cons.prems(2) Some inv_upd_entry [OF Cons.prems(2), of "\<lambda>x. if x = e then e' else x" fid]
      by (simp add: upd_entry_def)
    obtain fds1 keep1 where "stale_pass vs (set_entry fid e' c) = (fds1, keep1, c')"
      using Cons.prems(1) Some
      by (auto simp: v e'_def split: fd_kind.splits if_splits prod.splits option.splits)
    from Cons.IH [OF this inv] show ?thesis by simp
  qed
qed simp

lemma map_of_filter_free:
  "distinct (map fst xs) \<Longrightarrow> map_of (filter (\<lambda>(i, e). \<not> is_free e) xs) k =
     (case map_of xs k of Some e \<Rightarrow> if is_free e then None else Some e | None \<Rightarrow> None)"
proof (induction xs)
  case (Cons x xs)
  have "k \<notin> fst ` set xs \<Longrightarrow> map_of xs k = None" by (simp add: map_of_eq_None_iff)
  with Cons show ?case by (cases x) auto
qed simp

lemma inv_filter_free:
  assumes "cache_inv c"
  shows "cache_inv (c\<lparr>m_table := filter (\<lambda>(i, e). \<not> is_free e) (m_table c)\<rparr>)"
proof -
  let ?t = "filter (\<lambda>(i, e). \<not> is_free e) (m_table c)"
  have lk: "map_of ?t k = (case lookup k c of Some e \<Rightarrow> if is_free e then None else Some e | None \<Rightarrow> None)" for k
    using map_of_filter_free [OF cache_invD(5) [OF assms]] by (simp add: lookup_def)
  have "indexed (c\<lparr>m_table := ?t\<rparr>) it pg" if ix: "indexed c it pg" for it pg
  proof -
    obtain e where e: "lookup (pg_id pg) c = Some e" "map_of (e_pages e) (pg_index pg) = Some it"
      using ix unfolding indexed_def by blast
    then have "\<not> is_free e" by (auto simp: is_free_def)
    with e have "lookup (pg_id pg) (c\<lparr>m_table := ?t\<rparr>) = Some e" by (simp add: lookup_def [of _ "c\<lparr>m_table := ?t\<rparr>"] lk)
    with e(2) show ?thesis by (simp add: indexed_def)
  qed
  moreover have "entry_ok (c\<lparr>m_table := ?t\<rparr>) k e" if "map_of ?t k = Some e" for k e
    using that cache_invD(9) [OF assms, of k e] by (auto simp: lk entry_ok_def split: option.splits if_splits)
  moreover have "distinct (map fst ?t)" using cache_invD(5) [OF assms] by (simp add: distinct_map_filter)
  ultimately show ?thesis
    using assms by (auto simp: cache_inv_def lookup_def [of _ "c\<lparr>m_table := ?t\<rparr>"])
qed

lemma inv_clean_stale_fds: "cache_inv c \<Longrightarrow> cache_inv (fst (clean_stale_fds env c d))"
proof -
  assume inv: "cache_inv c"
  obtain fds keep c1 where sp: "stale_pass (m_stale_fds c) c = (fds, keep, c1)" by (metis prod_cases3)
  have "cache_inv (c1\<lparr>m_stale_fds := keep\<rparr>)"
    using stale_pass_inv [OF sp inv] by (auto intro: inv_stale)
  from inv_filter_free [OF this] show ?thesis by (simp add: clean_stale_fds_def sp Let_def)
qed

end
