(* ===== verification/Cache_Run.thy ===== *)
theory Cache_Run
  imports Cache_Flush
begin

text \<open>
  Every sequence of operations of the cache: each operation, whatever it returns, keeps the
  invariant and the bound on the number of pages. The device may fail any request but an
  open, and may answer a read with fewer bytes than asked for.
\<close>

section \<open>What the operations keep\<close>

definition bounded :: "cache \<Rightarrow> bool" where
  "bounded c = (cache_inv c \<and> 1 \<le> m_max_pages c \<and> length (m_lru c) \<le> m_max_pages c)"

definition honest :: "'d env \<Rightarrow> bool" where
  "honest env = (\<forall>fd n off d. case fst (conn_read env fd n off d) of Inl _ \<Rightarrow> True | Inr bs \<Rightarrow> length bs \<le> n)"

definition keeps :: "cache \<Rightarrow> cache \<Rightarrow> bool" where
  "keeps c c' = (bounded c' \<and> m_page_size c' = m_page_size c \<and> m_max_pages c' = m_max_pages c)"

lemma keeps_refl: "bounded c \<Longrightarrow> keeps c c"
  by (simp add: keeps_def)

lemma keeps_trans: "keeps a b \<Longrightarrow> keeps b c \<Longrightarrow> keeps a c"
  by (simp add: keeps_def)

lemma keeps_bounded: "keeps c c' \<Longrightarrow> bounded c'"
  by (simp add: keeps_def)

lemma keeps_upd:
  assumes "bounded c" "\<And>e. e_pages (f e) = e_pages e"
  shows "keeps c (upd_entry fid f c)"
  using assms by (simp add: keeps_def bounded_def inv_upd_entry)

lemma keeps_inflight:
  "bounded c \<Longrightarrow> keeps c (inc_read fid c)" "bounded c \<Longrightarrow> keeps c (dec_read fid c)"
  by (simp_all add: inc_read_def dec_read_def keeps_upd)

lemma keeps_insert:
  assumes op: "open_ok env" and b: "bounded c" and np: "\<not> has_page (pg_id pg) (pg_index pg) c"
    and e: "lookup (pg_id pg) c = Some e" and pok: "page_ok (m_page_size c) pg"
  shows "keeps c (fst (evict_excess env (insert_page pg c) d))"
proof -
  have inv: "cache_inv c" and mx: "1 \<le> m_max_pages c" using b by (simp_all add: bounded_def)
  from insert_evict_ok [OF op inv np e pok mx, of d] show ?thesis
    using mx by (auto simp: keeps_def bounded_def)
qed

section \<open>Reading, with any outcome\<close>

lemma keeps_ensure_read:
  assumes "ensure_read_fd env fid e c d = (r, c', d')" "bounded c"
  shows "keeps c c' \<and> (\<forall>i. has_page fid i c' = has_page fid i c) \<and> (lookup fid c' = None \<longleftrightarrow> lookup fid c = None)"
  using assms keeps_refl [OF assms(2)]
  by (auto simp: ensure_read_fd_def has_page_def intro!: keeps_upd split: option.splits prod.splits sum.splits)

lemma keeps_fetch:
  assumes op: "open_ok env" and hon: "honest env" and f: "fetch_page env fid i c d = (r, c', d')"
    and b: "bounded c" and np: "\<not> has_page fid i c"
  shows "keeps c c'"
proof (cases "lookup fid c")
  case None
  with f keeps_refl [OF b] show ?thesis by (simp add: fetch_page_def)
next
  case (Some e)
  obtain r1 c1 d1 where en: "ensure_read_fd env fid e c d = (r1, c1, d1)" by (metis prod_cases3)
  note k1 = keeps_ensure_read [OF en b]
  show ?thesis
  proof (cases r1)
    case (Inl err)
    with f Some en k1 show ?thesis by (simp add: fetch_page_def)
  next
    case (Inr fd)
    have b1: "bounded c1" using k1 keeps_bounded by blast
    then have q: "m_read_queue c1 = []" "m_page_size c1 < 2 ^ 32" by (auto simp: bounded_def dest: cache_invD)
    have f': "pull_page env fid i fd c1 d1 = (r, c', d')" using f Some en Inr by (simp add: fetch_page_def)
    obtain r2 d2 where rd: "conn_read env fd (m_page_size c1) (word_of_nat (mul64 i (m_page_size c1))) d1 = (r2, d2)"
      by fastforce
    show ?thesis
    proof (cases r2)
      case (Inl err)
      with f' rd pull_page_eq [OF q(1), of env fid i fd d1] k1 show ?thesis by simp
    next
      case (Inr bs)
      let ?pg = "fetched (m_page_size c1) fid i bs"
      have "length bs \<le> m_page_size c1"
        using hon rd Inr unfolding honest_def by (metis fst_conv sum.simps(6))
      then have pok: "page_ok (m_page_size c1) ?pg" using q(2) by (rule fetched_ok)
      obtain e1 where e1: "lookup (pg_id ?pg) c1 = Some e1" using k1 Some by auto
      have np1: "\<not> has_page (pg_id ?pg) (pg_index ?pg) c1" using np k1 by simp
      have "c' = fst (evict_excess env (insert_page ?pg c1) d2)"
        using f' rd Inr pull_page_eq [OF q(1), of env fid i fd d1] by (auto split: prod.splits)
      with keeps_insert [OF op b1 np1 e1 pok, of d2] k1 show ?thesis by (metis keeps_trans)
    qed
  qed
qed

lemma keeps_read_page:
  assumes "read_page fid out i first lst off c = (r, c')" "bounded c"
  shows "keeps c c'"
proof (cases "page_at fid i c")
  case None
  with assms keeps_refl show ?thesis by (simp add: read_page_def)
next
  case (Some a)
  obtain it pg where a: "a = (it, pg)" by fastforce
  have inv: "cache_inv c" using assms(2) by (simp add: bounded_def)
  have g: "lru_get it c = Some pg" using Some a page_at_iff [OF inv] by simp
  have "c' = lru_to_front it pg c"
    using assms(1) Some a by (auto simp: read_page_def Let_def split: sum.splits if_splits)
  then show ?thesis
    using assms(2) inv_lru_to_front [OF inv g] lru_length_to_front [OF g] inv g
    by (auto simp: keeps_def bounded_def dest: cache_invD)
qed

lemma keeps_read_at:
  assumes op: "open_ok env" and hon: "honest env"
    and r: "read_at env fid out i first lst off c d = (r, c', d')" and b: "bounded c"
  shows "keeps c c'"
proof -
  let ?c = "inc_read fid c"
  have k: "keeps c ?c" and b0: "bounded ?c" using keeps_inflight(1) [OF b] keeps_bounded by auto
  then have q: "await_queued fid i ?c = None" by (auto simp: bounded_def dest: cache_invD)
  obtain r1 c1 d1 where f: "(if has_page fid i ?c then (Inr (), ?c, d) else fetch_page env fid i ?c d) = (r1, c1, d1)"
    by (metis prod_cases3)
  have k1: "keeps ?c c1"
    using f keeps_fetch [OF op hon _ b0] keeps_refl [OF b0] by (auto split: if_splits)
  obtain r2 c2 where rp: "read_page fid out i first lst off c1 = (r2, c2)" by fastforce
  have k2: "keeps c1 c2" by (rule keeps_read_page [OF rp keeps_bounded [OF k1]])
  have "c' = dec_read fid c1 \<or> c' = dec_read fid c2"
    using r f rp by (cases r1) (auto simp: read_at_def Let_def q)
  then show ?thesis
    using k k1 k2 keeps_inflight(2) by (metis keeps_bounded keeps_trans)
qed

lemma keeps_read_all:
  assumes op: "open_ok env" and hon: "honest env"
  shows "read_all env fid is first lst off out acc c d = (r, out', c', d') \<Longrightarrow> bounded c \<Longrightarrow> keeps c c'"
proof (induction "is" arbitrary: out acc c d)
  case (Cons i "is")
  obtain r1 c1 d1 where ra: "read_at env fid out i first lst off c d = (r1, c1, d1)" by (metis prod_cases3)
  have k: "keeps c c1" by (rule keeps_read_at [OF op hon ra Cons.prems(2)])
  have "keeps c1 c'"
    using Cons.prems(1) ra Cons.IH [OF _ keeps_bounded [OF k]]
    by (cases r1) (auto split: prod.splits)
  with k show ?case by (rule keeps_trans)
qed (simp add: keeps_refl)

section \<open>The other operations\<close>

lemma inv_new_lookup:
  assumes "cache_inv c"
  shows "cache_inv (new_lookup fid p c)"
proof (cases "lookup fid c")
  case None
  let ?c = "new_lookup fid p c"
  have lk: "lookup k ?c = (if k = fid then Some (new_entry p) else lookup k c)" for k
    using None by (auto simp: new_lookup_def lookup_def map_add_def split: option.splits)
  have g: "lru_get it ?c = lru_get it c" for it using None by (simp add: new_lookup_def lru_get_def)
  have "indexed ?c it pg" if "indexed c it pg" for it pg
    using that None lk by (auto simp: indexed_def)
  moreover have "entry_ok ?c k e" if "lookup k ?c = Some e" for k e
    using that lk g cache_invD(9) [OF assms, of k e]
    by (auto simp: entry_ok_def new_entry_def split: if_splits)
  moreover have "fid \<notin> fst ` set (m_table c)"
    using None by (simp add: lookup_def map_of_eq_None_iff)
  ultimately show ?thesis
    using assms None g unfolding cache_inv_def by (auto simp: new_lookup_def)
qed (use assms in \<open>simp add: new_lookup_def\<close>)

lemma new_lookup_sel [simp]:
  "m_lru (new_lookup fid p c) = m_lru c" "m_page_size (new_lookup fid p c) = m_page_size c"
  "m_max_pages (new_lookup fid p c) = m_max_pages c" "m_stale_fds (new_lookup fid p c) = m_stale_fds c"
  by (simp_all add: new_lookup_def split: option.splits)

lemma lookup_new_lookup:
  "lookup k (new_lookup fid p c) =
     (if k = fid then Some (case lookup fid c of Some e \<Rightarrow> e | None \<Rightarrow> new_entry p) else lookup k c)"
  by (auto simp: new_lookup_def lookup_def map_add_def split: option.splits)

lemma inv_set_entry:
  "cache_inv c \<Longrightarrow> lookup fid c = Some e0 \<Longrightarrow> e_pages e = e_pages e0 \<Longrightarrow> cache_inv (set_entry fid e c)"
  using inv_upd_entry [of c "\<lambda>x. if x = e0 then e else x" fid] by (auto simp: upd_entry_def split: if_splits)

lemma keeps_stale: "bounded c \<Longrightarrow> keeps c (c\<lparr>m_stale_fds := v\<rparr>)"
  by (simp add: keeps_def bounded_def inv_stale)

lemma stale_restore: "c\<lparr>m_stale_fds := v\<rparr> = x\<lparr>m_stale_fds := v\<rparr> \<Longrightarrow> \<exists>w. c = x\<lparr>m_stale_fds := w\<rparr>"
  by (cases c, cases x) auto

lemma keeps_up_to_stale:
  assumes "bounded c" "keeps c x" "c'\<lparr>m_stale_fds := []\<rparr> = x\<lparr>m_stale_fds := []\<rparr>"
  shows "keeps c c'"
  using stale_restore [OF assms(3)] keeps_stale [OF keeps_bounded [OF assms(2)]] keeps_trans [OF assms(2)] by auto

lemma keeps_set_entry:
  "bounded c \<Longrightarrow> lookup fid c = Some e0 \<Longrightarrow> e_pages e = e_pages e0 \<Longrightarrow> keeps c (set_entry fid e c)"
  by (simp add: keeps_def bounded_def inv_set_entry)

lemma keeps_hint_open: "bounded c \<Longrightarrow> keeps c (snd (hint_open fid p mode c))"
proof -
  assume b: "bounded c"
  let ?n = "new_lookup fid p c"
  have k: "keeps c ?n" using b by (simp add: keeps_def bounded_def inv_new_lookup)
  obtain e where e: "lookup fid ?n = Some e" by (simp add: lookup_new_lookup)
  define e' where "e' = e\<lparr>e_reader := e_reader e + of_bool (reads mode), e_writer := e_writer e + of_bool (writes mode)\<rparr>"
  have "keeps ?n (set_entry fid e' ?n)"
    by (rule keeps_set_entry [OF keeps_bounded [OF k] e]) (simp add: e'_def)
  with k have ks: "keeps c (set_entry fid e' ?n)" by (rule keeps_trans)
  have "snd (hint_open fid p mode c) = ?n \<or>
      (snd (hint_open fid p mode c))\<lparr>m_stale_fds := []\<rparr> = set_entry fid e' ?n\<lparr>m_stale_fds := []\<rparr>"
    by (simp add: hint_open_def e Let_def e'_def)
  then show ?thesis using k keeps_up_to_stale [OF b ks] by metis
qed

lemma keeps_hint_close: "bounded c \<Longrightarrow> keeps c (snd (hint_close fid mode c))"
proof (cases "lookup fid c")
  case (Some e)
  assume b: "bounded c"
  define e' where "e' = e\<lparr>e_reader := e_reader e - of_bool (reads mode), e_writer := e_writer e - of_bool (writes mode)\<rparr>"
  have ks: "keeps c (set_entry fid e' c)"
    by (rule keeps_set_entry [OF b Some]) (simp add: e'_def)
  have "snd (hint_close fid mode c) = c \<or>
      (snd (hint_close fid mode c))\<lparr>m_stale_fds := []\<rparr> = set_entry fid e' c\<lparr>m_stale_fds := []\<rparr>"
    by (simp add: hint_close_def Some Let_def e'_def)
  then show ?thesis using keeps_refl [OF b] keeps_up_to_stale [OF b ks] by metis
qed (simp add: hint_close_def keeps_refl)

lemma keeps_flush:
  assumes "flush env fid c d = (r, c', d')" "bounded c"
  shows "keeps c c'"
proof -
  have inv: "cache_inv c" using assms(2) by (simp add: bounded_def)
  have "m_page_size c' = m_page_size c \<and> m_max_pages c' = m_max_pages c \<and> length (m_lru c') = length (m_lru c)"
  proof (cases "lookup fid c")
    case (Some e)
    obtain r1 c1 d1 where en: "ensure_write_fd env fid e c d = (r1, c1, d1)" by (metis prod_cases3)
    obtain r2 c2 d2 where fp: "flush_pages env fid (e_pages e) (inc_write fid c1) d1 = (r2, c2, d2)"
      by (metis prod_cases3)
    have "same_pages (inc_write fid c1) c2"
      using flush_pages_ok [OF fp inv_inflight(1) [OF inv_ensure_write_fd [OF en inv]]] by simp
    moreover have "m_page_size c1 = m_page_size c \<and> m_max_pages c1 = m_max_pages c \<and> m_lru c1 = m_lru c"
      using ensure_write_fd_cases [OF en] by auto
    ultimately show ?thesis
      using assms(1) Some en fp
      by (cases r1; cases r2) (auto simp: flush_def same_pages_def inc_write_def dec_write_def split: if_splits)
  qed (use assms(1) in \<open>simp add: flush_def\<close>)
  with assms inv_flush [OF assms(1) inv] show ?thesis by (simp add: keeps_def bounded_def)
qed

lemma erase_pages_subset: "erase_pages ps c = (r, c') \<Longrightarrow> length (m_lru c') \<le> length (m_lru c)"
proof (induction ps c rule: erase_pages.induct)
  case (2 i it ps c)
  have "length (m_lru (lru_erase it c)) \<le> length (m_lru c)"
    by (simp add: lru_erase_def length_delete_le)
  with 2 show ?case by (fastforce split: if_splits)
qed simp

lemma erase_pages_sel: "erase_pages ps c = (r, c') \<Longrightarrow> m_page_size c' = m_page_size c \<and> m_max_pages c' = m_max_pages c"
  by (induction ps c rule: erase_pages.induct) (auto split: if_splits)

lemma keeps_invalidate_one:
  assumes "invalidate_one env fid b c d = (r, c', d')" "bounded c"
  shows "keeps c c'"
proof -
  obtain r1 c1 d1 where f: "(if b then flush env fid c d else (Inr (), c, d)) = (r1, c1, d1)" by (metis prod_cases3)
  have k: "keeps c c1" using f keeps_flush [OF _ assms(2)] keeps_refl [OF assms(2)] by (auto split: if_splits)
  have b1: "bounded c1" and inv1: "cache_inv c1" using keeps_bounded [OF k] by (auto simp: bounded_def)
  show ?thesis
  proof (cases "r1 = Inl UB \<or> r1 = Inl Hang \<or> lookup fid c1 = None")
    case True
    with assms(1) f k show ?thesis by (auto simp: invalidate_one_def split: if_splits)
  next
    case False
    then obtain e where e: "lookup fid c1 = Some e" by auto
    obtain c2 where c2: "erase_pages (e_pages e) (c1\<lparr>m_table := AList.delete fid (m_table c1)\<rparr>) = (Inr (), c2)" "cache_inv c2"
      using inv_drop_file [OF inv1 e] by blast
    have "keeps c1 c2"
      using b1 c2(2) erase_pages_sel [OF c2(1)] erase_pages_subset [OF c2(1)]
      by (auto simp: keeps_def bounded_def)
    moreover have "c' = c2" using assms(1) f False e c2(1) by (auto simp: invalidate_one_def)
    ultimately show ?thesis using k keeps_trans by blast
  qed
qed

lemma keeps_invalidate_fds: "bounded c \<Longrightarrow> keeps c (fst (invalidate_fds env b c d))"
  using inv_invalidate_fds [of c env b d] by (simp add: keeps_def bounded_def invalidate_fds_def Let_def)

lemma stale_pass_sel: "stale_pass vs c = (fds, keep, c') \<Longrightarrow>
    m_page_size c' = m_page_size c \<and> m_max_pages c' = m_max_pages c \<and> m_lru c' = m_lru c"
  by (induction vs c arbitrary: fds keep c' rule: stale_pass.induct)
    (fastforce split: option.splits fd_kind.splits if_splits prod.splits)+

lemma keeps_clean_stale: "bounded c \<Longrightarrow> keeps c (fst (clean_stale_fds env c d))"
proof -
  assume b: "bounded c"
  obtain fds keep c1 where sp: "stale_pass (m_stale_fds c) c = (fds, keep, c1)" by (metis prod_cases3)
  show ?thesis
    using b inv_clean_stale_fds [of c env d] stale_pass_sel [OF sp]
    by (simp add: keeps_def bounded_def clean_stale_fds_def sp Let_def)
qed

lemma keeps_flush_ids: "flush_ids env is c d = (r, c', d') \<Longrightarrow> bounded c \<Longrightarrow> keeps c c'"
proof (induction "is" arbitrary: c d)
  case (Cons i "is")
  obtain r1 c1 d1 where f: "flush env i c d = (r1, c1, d1)" by (metis prod_cases3)
  have k: "keeps c c1" by (rule keeps_flush [OF f Cons.prems(2)])
  then have "keeps c1 c'" using Cons f keeps_refl [OF keeps_bounded [OF k]] keeps_bounded [OF k]
    by (auto split: if_splits)
  with k show ?case by (rule keeps_trans)
qed (simp add: keeps_refl)

lemma inv_empty: "cache_inv c \<Longrightarrow> cache_inv (c\<lparr>m_table := [], m_lru := []\<rparr>)"
  by (simp add: cache_inv_def lookup_def lru_get_def)

lemma bounded_queue [simp]: "bounded c \<Longrightarrow> c\<lparr>m_read_queue := []\<rparr> = c"
  by (auto simp: bounded_def dest: cache_invD(3))

lemma shutdown_cases:
  assumes "shutdown env c d = (r, c', d')" "bounded c"
  shows "keeps c c'" and "r = Inr () \<Longrightarrow> m_table c' = [] \<and> m_lru c' = []"
proof -
  obtain r1 c1 d1 where f: "flush_ids env (map fst (m_table c)) c d = (r1, c1, d1)" by (metis prod_cases3)
  have k: "keeps c c1" by (rule keeps_flush_ids [OF f assms(2)])
  note k2 = keeps_invalidate_fds [OF keeps_bounded [OF k], of env True d1]
  let ?e = "(fst (invalidate_fds env True c1 d1))\<lparr>m_table := [], m_lru := []\<rparr>"
  have "keeps c1 ?e"
    using k2 inv_empty by (auto simp: keeps_def bounded_def)
  then have ke: "keeps c ?e" by (rule keeps_trans [OF k])
  show "keeps c c'"
    using assms f k ke by (cases r1) (auto simp: shutdown_def split: prod.splits)
  show "r = Inr () \<Longrightarrow> m_table c' = [] \<and> m_lru c' = []"
    using assms f by (cases r1) (auto simp: shutdown_def split: prod.splits)
qed

section \<open>Truncation\<close>

text \<open>A file size that covers the pages of the file in the cache; then \<^verbatim>\<open>truncate\<close> does not reach its grow branch.\<close>

definition covers :: "nat \<Rightarrow> nat \<Rightarrow> cache \<Rightarrow> bool" where
  "covers fid sz c = (sz < 2 ^ 63 \<and> (case lookup fid c of None \<Rightarrow> True
     | Some e \<Rightarrow> \<forall>i\<in>fst ` set (e_pages e). i < num_pages_of (m_page_size c) sz))"

lemma keeps_erase:
  assumes "bounded c" "lookup fid c = Some e" "(i, it) \<in> set (e_pages e)"
  shows "keeps c (upd_entry fid (\<lambda>e. e\<lparr>e_pages := pages_erase i (e_pages e)\<rparr>) (lru_erase it c))"
proof -
  have inv: "cache_inv c" and n: "length (m_lru c) \<le> m_max_pages c" "1 \<le> m_max_pages c" using assms(1) by (simp_all add: bounded_def)
  obtain pg where pg: "lru_get it c = Some pg" "pg_id pg = fid" "pg_index pg = i" using entry_page_get [OF inv assms(2,3)] by blast
  have "cache_inv (upd_entry (pg_id pg) (\<lambda>e. e\<lparr>e_pages := pages_erase (pg_index pg) (e_pages e)\<rparr>) (c\<lparr>m_lru := AList.delete it (m_lru c)\<rparr>))"
    using cache_invD(4) [OF inv] by (intro inv_remove_page [OF inv pg(1)]) (simp_all add: delete_conv' delete_keys distinct_removeAll)
  moreover have "length (m_lru (lru_erase it c)) \<le> length (m_lru c)" by (simp add: lru_erase_def length_delete_le)
  ultimately show ?thesis using n pg by (simp add: keeps_def bounded_def lru_erase_def)
qed

lemma keeps_shorten:
  assumes "bounded c" "lru_get it c = Some pg"
  shows "keeps c (lru_set it (page_truncate pg n) c)"
proof -
  have inv: "cache_inv c" using assms(1) by (simp add: bounded_def)
  have "page_ok (m_page_size c) (page_truncate pg n)"
    using cache_invD(7) [OF inv assms(2)] by (simp add: page_ok_def page_truncate_def)
  then have "cache_inv (lru_set it (page_truncate pg n) c)"
    by (intro inv_lru_set [OF inv assms(2)]) (simp_all add: page_truncate_def)
  with assms show ?thesis by (simp add: keeps_def bounded_def lru_length_set)
qed

lemma keeps_truncate_loop:
  assumes "truncate_loop fid ps off num old new sz c = (r, c')" "bounded c" "lookup fid c = Some e"
    "set ps \<subseteq> set (e_pages e)" "distinct (map fst ps)" "\<forall>i\<in>fst ` set ps. i \<le> sub64 old 1"
  shows "r = Inr () \<and> keeps c c'"
  using assms
proof (induction ps arbitrary: c e)
  case Nil
  then show ?case by (simp add: keeps_refl)
next
  case (Cons x ps)
  obtain i it where x: "x = (i, it)" by fastforce
  have inv: "cache_inv c" using Cons.prems(2) by (simp add: bounded_def)
  obtain pg where pg: "lru_get it c = Some pg" using entry_page_get [OF inv Cons.prems(3), of i it] Cons.prems(4) x by auto
  consider (skip) "i < off \<or> i \<ge> num" | (erase) "off \<le> i" "i < num" "i < sub64 old 1" | (last) "off \<le> i" "i < num" "i = sub64 old 1"
    using Cons.prems(6) x by force
  then show ?case
  proof cases
    case skip
    with Cons x show ?thesis by (auto simp: disj_commute)
  next
    case erase
    let ?c = "upd_entry fid (\<lambda>e. e\<lparr>e_pages := pages_erase i (e_pages e)\<rparr>) (lru_erase it c)"
    have k: "keeps c ?c" using keeps_erase [OF Cons.prems(2,3), of i it] Cons.prems(4) x by simp
    have "lookup fid ?c = Some (e\<lparr>e_pages := pages_erase i (e_pages e)\<rparr>)" using Cons.prems(3) by simp
    moreover have "set ps \<subseteq> set (pages_erase i (e_pages e))" using Cons.prems(4,5) x by (force simp: pages_erase_def)
    ultimately have "r = Inr () \<and> keeps ?c c'"
      using Cons.IH [OF _ keeps_bounded [OF k]] Cons.prems erase pg x by simp
    then show ?thesis using keeps_trans [OF k] by blast
  next
    case last
    let ?sz = "if i = sub64 new 1 then sub64 sz 1 mod m_page_size c + 1 else m_page_size c"
    have k: "keeps c (lru_set it (page_truncate pg ?sz) c)" by (rule keeps_shorten [OF Cons.prems(2) pg])
    have "r = Inr () \<and> keeps (lru_set it (page_truncate pg ?sz) c) c'"
      using Cons.IH [OF _ keeps_bounded [OF k], of e] Cons.prems last pg x by (simp add: Let_def if_distrib [of "page_truncate pg"])
    then show ?thesis using keeps_trans [OF k] by blast
  qed
qed

section \<open>Sequences of operations\<close>

text \<open>
  One call of a public operation, with the results it may have. Accesses are those the kernel
  makes: at least one byte, and ending before \<^verbatim>\<open>off_t\<close> overflows. A file is truncated from a size
  that covers its cached pages.
\<close>

inductive cache_step :: "'d env \<Rightarrow> cache \<times> 'd \<Rightarrow> cache \<times> 'd \<Rightarrow> bool" for env where
  hint_open: "cache_step env (c, d) (snd (hint_open fid p mode c), d)"
| hint_close: "cache_step env (c, d) (snd (hint_close fid mode c), d)"
| read: "access_ok (m_page_size c) (length out) off \<Longrightarrow> read env fid out off c d = (r, out', c', d') \<Longrightarrow>
    cache_step env (c, d) (c', d')"
| store: "access_ok (m_page_size c) (length bs) off \<Longrightarrow> cache_write env fid bs off c d = (r', c', d') \<Longrightarrow>
    cache_step env (c, d) (c', d')"
| flush: "flush env fid c d = (u, c', d') \<Longrightarrow> cache_step env (c, d) (c', d')"
| truncate: "covers fid old c \<Longrightarrow> cache_truncate env fid old new c d = (u, c', d') \<Longrightarrow> cache_step env (c, d) (c', d')"
| rename: "cache_step env (c, d) (cache_rename fid p c, d)"
| invalidate_one: "invalidate_one env fid b c d = (u, c', d') \<Longrightarrow> cache_step env (c, d) (c', d')"
| invalidate_fds: "cache_step env (c, d) (invalidate_fds env b c d)"
| clean_stale_fds: "cache_step env (c, d) (clean_stale_fds env c d)"
| invalidate_all: "invalidate_all env c d = (u, c', d') \<Longrightarrow> cache_step env (c, d) (c', d')"
| set_page_size: "0 < n \<Longrightarrow> n < 2 ^ 32 \<Longrightarrow> set_page_size env n c d = (u, c', d') \<Longrightarrow> cache_step env (c, d) (c', d')"
| set_max_pages: "0 < n \<Longrightarrow> set_max_pages env n c d = (u, c', d') \<Longrightarrow> cache_step env (c, d) (c', d')"

lemma keeps_read:
  "open_ok env \<Longrightarrow> honest env \<Longrightarrow> read env fid out off c d = (r, out', c', d') \<Longrightarrow> bounded c \<Longrightarrow> keeps c c'"
  using keeps_read_all [of env fid]
  by (auto simp: read_def keeps_refl split: option.splits prod.splits)

lemma keeps_write:
  assumes "open_ok env" "access_ok (m_page_size c) (length bs) off"
    "cache_write env fid bs off c d = (r, c', d')" "bounded c"
  shows "keeps c c'"
proof (cases "lookup fid c")
  case None
  with assms(3,4) show ?thesis by (auto simp: cache_write_def keeps_refl split: prod.splits)
next
  case (Some e)
  have "cache_inv c" "1 \<le> m_max_pages c" using assms(4) by (simp_all add: bounded_def)
  from cache_write_ok [OF assms(1) this(1) Some this(2) assms(2), of d] assms(3,4)
  show ?thesis by (auto simp: keeps_def bounded_def)
qed

lemma bounded_set:
  assumes "shutdown env c d = (Inr (), c', d')" "bounded c"
  shows "0 < n \<Longrightarrow> n < 2 ^ 32 \<Longrightarrow> bounded (c'\<lparr>m_page_size := n\<rparr>)" "0 < n \<Longrightarrow> bounded (c'\<lparr>m_max_pages := n\<rparr>)"
  using shutdown_cases [OF assms] by (auto simp: keeps_def bounded_def cache_inv_def lookup_def lru_get_def)

lemma keeps_evict:
  assumes "open_ok env" "bounded c" "evict env n c d = (c', d')" "lookup fid c = Some e"
  shows "keeps c c' \<and> (\<exists>e'. lookup fid c' = Some e' \<and> set (e_pages e') \<subseteq> set (e_pages e))"
proof -
  have inv: "cache_inv c" using assms(2) by (simp add: bounded_def)
  have k: "keeps c c'" "cache_inv c'" "m_lru c' = take (length (m_lru c) - n) (m_lru c)"
    "rel_option entry_kept (lookup fid c) (lookup fid c')"
    using evict_ok [OF assms(1) inv, of n d] assms(2,3) by (auto simp: bounded_def keeps_def)
  then obtain e' where e': "lookup fid c' = Some e'" using assms(4) by (auto simp: option_rel_Some1)
  have "(i, it) \<in> set (e_pages e)" if "(i, it) \<in> set (e_pages e')" for i it
  proof -
    from entry_page_get [OF k(2) e' that] obtain pg where pg: "lru_get it c' = Some pg" "pg_id pg = fid" "pg_index pg = i" by blast
    then have "lru_get it c = Some pg"
      using map_of_take [OF cache_invD(4) [OF inv]] by (simp add: lru_get_def k(3))
    from cache_invD(8) [OF inv this] pg assms(4) show ?thesis by (auto simp: indexed_def intro: map_of_SomeD)
  qed
  with k(1) e' show ?thesis by auto
qed

lemma num_pages_small:
  assumes "0 < ps"
  shows "num_pages_of ps n \<le> n"
proof -
  have "n div ps \<le> n div ps * ps" using assms by simp
  with div_mult_mod_eq [of n ps] have "n div ps + n mod ps \<le> n" by linarith
  then show ?thesis by (cases "n mod ps = 0") (simp_all add: num_pages_of_def)
qed

lemma keeps_truncate:
  assumes "open_ok env" "bounded c" "covers fid old c" "cache_truncate env fid old new c d = (r, c', d')"
  shows "keeps c c'"
proof (cases "lookup fid c")
  case None
  with assms keeps_refl show ?thesis by (simp add: cache_truncate_def)
next
  case (Some e)
  let ?old = "num_pages_of (m_page_size c) old" and ?new = "num_pages_of (m_page_size c) new"
  let ?evicts = "?new > ?old \<and> length (m_lru c) + (?new - ?old) > m_max_pages c"
  obtain c1 d1 where start: "(if ?evicts then evict env (length (m_lru c) + (?new - ?old) - m_max_pages c) c d else (c, d)) = (c1, d1)"
    by fastforce
  have "keeps c c1 \<and> (\<exists>e1. lookup fid c1 = Some e1 \<and> set (e_pages e1) \<subseteq> set (e_pages e))"
  proof (cases ?evicts)
    case True
    with start show ?thesis by (intro keeps_evict [OF assms(1,2) _ Some]) (simp only: if_True simp_thms)
  next
    case False
    with start Some keeps_refl [OF assms(2)] show ?thesis by (simp only: if_False prod.inject) blast
  qed
  then obtain e1 where k: "keeps c c1" and e1: "lookup fid c1 = Some e1" and sub: "set (e_pages e1) \<subseteq> set (e_pages e)" by blast
  have le: "i \<le> sub64 ?old 1" if "i \<in> fst ` set (e_pages e1)" for i
  proof -
    have i: "i < ?old" using that sub assms(3) Some by (auto simp: covers_def)
    moreover have "?old \<le> old" using assms(2) by (intro num_pages_small) (simp add: bounded_def cache_inv_def)
    ultimately show ?thesis using assms(3) by (simp add: covers_def sub64_def)
  qed
  have b1: "bounded c1" using k by (rule keeps_bounded)
  then have "distinct (map fst (e_pages e1))" using cache_invD(9) [of c1 fid e1] e1 by (simp add: bounded_def entry_ok_def)
  with keeps_truncate_loop [OF _ b1 e1 subset_refl] le keeps_trans [OF k] keeps_refl [OF b1] k assms(4) Some e1
  show ?thesis by (auto simp: cache_truncate_def Let_def start split: prod.splits if_splits)
qed

lemma cache_step_bounded:
  assumes "open_ok env" "honest env"
  shows "cache_step env s s' \<Longrightarrow> bounded (fst s) \<Longrightarrow> bounded (fst s')"
proof (induction rule: cache_step.induct)
  case (hint_open c d fid p mode)
  then show ?case by (simp add: keeps_bounded [OF keeps_hint_open])
next
  case (hint_close c d fid mode)
  then show ?case by (simp add: keeps_bounded [OF keeps_hint_close])
next
  case (read c out off fid d r out' c' d')
  then show ?case using keeps_bounded [OF keeps_read [OF assms]] by auto
next
  case (store c bs off fid d r' c' d')
  then show ?case using keeps_bounded [OF keeps_write [OF assms(1)]] by auto
next
  case (flush fid c d u c' d')
  then show ?case using keeps_bounded [OF keeps_flush] by auto
next
  case (truncate fid old c new d u c' d')
  then show ?case using keeps_bounded [OF keeps_truncate [OF assms(1)]] by auto
next
  case (rename c d fid p)
  then have "keeps c (cache_rename fid p c)" by (auto simp: cache_rename_def intro: keeps_upd)
  then show ?case by (simp add: keeps_bounded)
next
  case (invalidate_one fid b c d u c' d')
  then show ?case using keeps_bounded [OF keeps_invalidate_one] by auto
next
  case (invalidate_fds c d b)
  then show ?case by (simp add: keeps_bounded [OF keeps_invalidate_fds])
next
  case (clean_stale_fds c d)
  then show ?case by (simp add: keeps_bounded [OF keeps_clean_stale])
next
  case (invalidate_all c d u c' d')
  with shutdown_cases(1) [of env c d u c' d'] show ?case by (simp add: invalidate_all_def keeps_bounded)
next
  case (set_page_size n c d u c' d')
  then show ?case
    using shutdown_cases(1) [of env c d] bounded_set(1) [of env c d]
    by (auto simp: set_page_size_def keeps_bounded split: prod.splits sum.splits)
next
  case (set_max_pages n c d u c' d')
  then show ?case
    using shutdown_cases(1) [of env c d] bounded_set(2) [of env c d]
    by (auto simp: set_max_pages_def keeps_bounded split: prod.splits sum.splits)
qed

text \<open>The new cache.\<close>

lemma bit_ceil_from_start: "n \<le> p \<Longrightarrow> bit_ceil_from k p n = p"
  by (cases k) simp_all

lemma bit_ceil_from_bounds:
  "0 < p \<Longrightarrow> n \<le> p * 2 ^ k \<Longrightarrow> n \<le> bit_ceil_from k p n \<and> (p < n \<longrightarrow> bit_ceil_from k p n < 2 * n)"
proof (induction k arbitrary: p)
  case (Suc k)
  show ?case
  proof (cases "n \<le> 2 * p")
    case True
    then show ?thesis by (auto simp: bit_ceil_from_start)
  next
    case False
    with Suc.IH [of "2 * p"] Suc.prems show ?thesis by (auto simp: algebra_simps)
  qed
qed simp

lemma bit_ceil_from_power: "\<exists>j\<le>k. bit_ceil_from k p n = p * 2 ^ j"
proof (induction k arbitrary: p)
  case (Suc k)
  from Suc [of "2 * p"] obtain j where "j \<le> k" "bit_ceil_from k (2 * p) n = (2 * p) * 2 ^ j" by blast
  then show ?case by (cases "n \<le> p") (auto intro: exI [of _ 0] exI [of _ "Suc j"])
qed simp

lemma bit_ceil_small:
  assumes "n \<le> 2 ^ 31"
  shows "0 < bit_ceil n" "bit_ceil n < 2 ^ 32"
proof -
  show "0 < bit_ceil n" using bit_ceil_from_power [of 63 1 n] by (auto simp: bit_ceil_def)
  have "1 < n \<longrightarrow> bit_ceil n < 2 * n"
    using bit_ceil_from_bounds [of 1 n 63] assms by (simp add: bit_ceil_def)
  moreover have "n \<le> 1 \<longrightarrow> bit_ceil n = 1" by (simp add: bit_ceil_def bit_ceil_from_start)
  ultimately show "bit_ceil n < 2 ^ 32" using assms by (cases "1 < n") auto
qed

lemma bounded_mk_cache: "n \<le> 2 ^ 31 \<Longrightarrow> 0 < m \<Longrightarrow> bounded (mk_cache n m)"
  using bit_ceil_small [of n]
  by (auto simp: bounded_def mk_cache_def cache_inv_def lookup_def lru_get_def)

end
