(* ===== verification/Cache_Props.thy ===== *)
theory Cache_Props
  imports Cache_Run
begin

text \<open>
  The properties of the page cache, on the lemmas of the preceding theories, with two small
  devices as their instances: one that serves a constant file, and one that stores a file and
  accepts at most 4096 bytes per write.
\<close>

section \<open>Devices\<close>

definition flat_env :: "u8 list \<Rightarrow> unit env" where
  "flat_env content =
     \<lparr>ev_send = (\<lambda>req d. (case req of
          ReqOpen p m \<Rightarrow> Inr (RespOpen 1)
        | ReqRead fd off sz \<Rightarrow> Inr (RespRead (take (unat sz) (drop (unat off) content)))
        | ReqWrite fd off bs \<Rightarrow> Inr (RespWrite (word_of_nat (length bs)))
        | _ \<Rightarrow> Inl function_not_supported, d)),
      ev_reconnection = (\<lambda>d. (None, d)), ev_steady = (\<lambda>_. 0), ev_system = (\<lambda>_. zero_time), ev_fuel = 8\<rparr>"

definition file_env :: "u8 list env" where
  "file_env =
     \<lparr>ev_send = (\<lambda>req f. (case req of
          ReqOpen p m \<Rightarrow> (Inr (RespOpen 1), f)
        | ReqRead fd off sz \<Rightarrow> (Inr (RespRead (take (unat sz) (drop (unat off) f))), f)
        | ReqWrite fd off bs \<Rightarrow>
            (Inr (RespWrite (word_of_nat (min 4096 (length bs)))), pwrite f (unat off) (take 4096 bs))
        | _ \<Rightarrow> (Inl function_not_supported, f))),
      ev_reconnection = (\<lambda>d. (None, d)), ev_steady = (\<lambda>_. 0), ev_system = (\<lambda>_. zero_time), ev_fuel = 65536\<rparr>"

lemma send_req_immediate:
  "ev_send env req d = (Inr resp, d') \<Longrightarrow> resp_proc resp = req_proc req \<Longrightarrow> send_req env req d = (Inr resp, d')"
  by (simp add: send_req_def max_attempts_def eval_nat_numeral transport_send_req_def)

lemma flat_env_ops:
  "conn_open (flat_env content) p m d = (Inr 1, d)"
  "n < 2 ^ 64 \<Longrightarrow> conn_read (flat_env content) fd n off d = (Inr (take n (drop (unat off) content)), d)"
  by (simp_all add: conn_open_def conn_read_def get_resp_def send_req_immediate flat_env_def unat_u64)

lemma file_env_ops:
  "conn_open file_env p m d = (Inr 1, d)"
  "conn_write file_env fd bs off d = (Inr (word_of_nat (min 4096 (length bs))), pwrite d (unat off) (take 4096 bs))"
  by (simp_all add: conn_open_def conn_write_def get_resp_def send_req_immediate file_env_def)

lemma flat_env_open: "open_ok (flat_env content)"
  by (simp add: open_ok_def flat_env_ops)

lemma flat_env_serves: "serves (flat_env content) p {1} content"
proof -
  have "n < 2 ^ 32 \<Longrightarrow> n < 2 ^ 64" for n :: nat by simp
  then show ?thesis unfolding serves_def by (auto simp: flat_env_ops)
qed

lemma file_env_open: "open_ok file_env"
  by (simp add: open_ok_def file_env_ops)

lemma file_env_stores: "stores file_env fd (\<lambda>f. f)"
proof -
  have "unat (word_of_nat (min 4096 n) :: 64 word) = min 4096 n" for n :: nat
  proof -
    have "min 4096 n < 2 ^ 64" by (simp add: min_def)
    then show ?thesis by (rule unat_u64)
  qed
  then show ?thesis by (auto simp: stores_def file_env_ops min_def)
qed

text \<open>A new cache with one file open.\<close>

definition open_cache :: "nat \<Rightarrow> nat \<Rightarrow> nat \<Rightarrow> path \<Rightarrow> cache" where
  "open_cache ps mx fid p = snd (hint_open fid p OM_ReadWrite (mk_cache ps mx))"

lemma open_cache_bounded: "ps \<le> 2 ^ 31 \<Longrightarrow> 0 < mx \<Longrightarrow> bounded (open_cache ps mx fid p)"
  unfolding open_cache_def by (rule keeps_bounded [OF keeps_hint_open [OF bounded_mk_cache]])

lemma open_cache_sel [simp]:
  "m_page_size (open_cache ps mx fid p) = bit_ceil ps" "m_max_pages (open_cache ps mx fid p) = mx"
  "m_lru (open_cache ps mx fid p) = []"
  "lookup fid (open_cache ps mx fid p) = Some ((new_entry p)\<lparr>e_reader := 1, e_writer := 1\<rparr>)"
  by (simp_all add: open_cache_def hint_open_def Let_def lookup_new_lookup reads_def writes_def mk_cache_def
      lookup_def [of _ "mk_cache _ _"] lookup_def [of _ "\<lparr>m_lru = _, m_next = _, m_table = _, m_read_queue = _,
        m_stale_fds = _, m_page_size = _, m_max_pages = _\<rparr>"] new_entry_def)

lemma open_cache_reading:
  assumes "ps \<le> 2 ^ 31" "0 < mx"
  shows "reading fid p G content (bit_ceil ps) (open_cache ps mx fid p)"
  using open_cache_bounded [OF assms, of fid p]
  by (auto simp: reading_def bounded_def coherent_def lru_get_def new_entry_def)

section \<open>Properties\<close>

text \<open>C21: reading through the cache. When the device serves the file \<open>content\<close>, a read of \<open>n\<close> bytes
  at an offset inside the file returns the bytes of the file, as many as there are, for every
  mixture of cached and missing pages and every eviction it causes, leaves the rest of the
  caller's buffer alone, and the cache still agrees with the file afterwards.\<close>

theorem cache_read_correct:
  assumes "reading fid p G content ps c" "serves env p G content" "open_ok env"
    "access_ok ps (length out) off" "off \<le> length content"
  shows "\<exists>c' d'. read env fid out off c d =
    (Inr (min (length out) (length content - off)),
     take (length out) (drop off content) @ drop (length content - off) out, c', d')
    \<and> reading fid p G content ps c'"
proof -
  have "take (length out) (drop off content) @ drop (length (take (length out) (drop off content))) out =
    take (length out) (drop off content) @ drop (length content - off) out"
    by (auto simp: min_def)
  moreover have "length (take (length out) (drop off content)) = min (length out) (length content - off)"
    by (simp add: min.commute)
  ultimately show ?thesis using read_coherent [OF assms, of d] by simp
qed

theorem cache_read_correct_witness:
  "\<exists>c' d'. read (flat_env [1, 2, 3, 4, 5, 6]) 7 [0, 0, 0, 0, 0] 3 (open_cache 2 2 7 root_path) () =
     (Inr 3, [4, 5, 6, 0, 0], c', d')"
  using cache_read_correct [OF open_cache_reading [of 2 2 7 root_path "{1}"] flat_env_serves flat_env_open,
      where out = "[0, 0, 0, 0, 0]" and off = 3 and d = "()" and content = "[1, 2, 3, 4, 5, 6]"] bit_ceil_small [of 2]
  by (auto simp: access_ok_def)

text \<open>C22: what is written is read back. A write of any bytes at any offset into an open file
  succeeds, and with room for its pages a following read of the same range returns exactly the
  bytes written, without asking the device (the read is made with an arbitrary environment).\<close>

theorem cache_write_then_read:
  assumes "open_ok env" "cache_inv c" "lookup fid c = Some e" "access_ok (m_page_size c) (length bs) off"
    "length (m_lru c) + (Suc ((off + length bs - 1) div m_page_size c) - off div m_page_size c) \<le> m_max_pages c"
    "length out = length bs"
  shows "\<exists>c' d'. cache_write env fid bs off c d = (Inr (length bs), c', d') \<and>
    (\<exists>c'' d''. read env' fid out off c' d2 = (Inr (length bs), bs, c'', d'') \<and> cache_inv c'')"
  by (rule write_then_read [OF assms])

theorem cache_write_then_read_witness:
  "\<exists>c' d'. cache_write (flat_env []) 7 [1, 2, 3] 5 (open_cache 2 9 7 root_path) () = (Inr 3, c', d') \<and>
     (\<exists>c'' d''. read (flat_env [9]) 7 [0, 0, 0] 5 c' () = (Inr 3, [1, 2, 3], c'', d''))"
proof -
  have "cache_inv (open_cache 2 9 7 root_path)"
    using open_cache_bounded [of 2 9] by (simp add: bounded_def)
  moreover have "bit_ceil 2 = 2" by (simp add: bit_ceil_def eval_nat_numeral)
  ultimately show ?thesis
    using cache_write_then_read [OF flat_env_open, of "open_cache 2 9 7 root_path" 7 _ "[1, 2, 3]" 5 "[0, 0, 0]"
        "[]" "()" "flat_env [9]" "()"]
    by (auto simp: access_ok_def)
qed

interpretation cache_runs: step_invariant "\<lambda>s s'. open_ok env \<and> honest env \<and> cache_step env s s'" "\<lambda>s. bounded (fst s)"
  by unfold_locales (use cache_step_bounded in blast)

text \<open>C23: sequences of operations. From a new cache, whatever is opened, closed, read, written, flushed,
  truncated (from a size that covers the cached pages), renamed, invalidated or reconfigured, and
  whatever the device answers as long as it opens files and returns no more bytes than asked for, the
  list, the index of every file and the pages agree (\<open>cache_inv\<close>) and the cache never holds more pages
  than configured.\<close>

theorem cache_run_safe:
  assumes "open_ok env" "honest env" "page_size \<le> 2 ^ 31" "0 < max_pages"
    "(cache_step env)\<^sup>*\<^sup>* (mk_cache page_size max_pages, d) (c, d')"
  shows "cache_inv c \<and> length (m_lru c) \<le> m_max_pages c"
proof -
  have "(\<lambda>s s'. open_ok env \<and> honest env \<and> cache_step env s s')\<^sup>*\<^sup>* (mk_cache page_size max_pages, d) (c, d')"
    using assms(1,2,5) by simp
  from cache_runs.reach_inv [OF this] bounded_mk_cache [OF assms(3,4)] show ?thesis
    by (simp add: bounded_def)
qed

lemma flat_env_honest: "honest (flat_env content)"
  by (auto simp: honest_def conn_read_def get_resp_def send_req_immediate flat_env_def unat_of_nat
      intro: order.trans [OF min.cobounded2])

theorem cache_run_safe_witness:
  "cache_inv (snd (hint_open 7 root_path OM_Read (mk_cache 4096 2))) \<and>
   length (m_lru (snd (hint_open 7 root_path OM_Read (mk_cache 4096 2)))) \<le> 2"
proof -
  have "(cache_step (flat_env []))\<^sup>*\<^sup>* (mk_cache 4096 2, ()) (snd (hint_open 7 root_path OM_Read (mk_cache 4096 2)), ())"
    by (rule r_into_rtranclp) (rule cache_step.hint_open)
  from cache_run_safe [OF flat_env_open flat_env_honest _ _ this] show ?thesis
    by (simp add: hint_open_def Let_def lookup_new_lookup mk_cache_def)
qed

text \<open>C24: flushing a dirty file through a device that stores what it is given, in pieces of any
  size: the device's file becomes the old one with every dirty page written at its place, the
  entry and all its pages are clean, and no content of the cache changes.\<close>

theorem flush_correct:
  assumes "cache_inv c" "lookup fid c = Some e" "e_dirty e" "stores env fd file"
    "\<exists>d1 c1. ensure_write_fd env fid e c d = (Inr fd, c1, d1) \<and> file d1 = file d"
    "\<forall>(i, it) \<in> set (e_pages e). i * m_page_size c + m_page_size c < 2 ^ 63"
    "m_page_size c \<le> ev_fuel env"
  shows "\<exists>c' d' e'. flush env fid c d = (Inr (), c', d') \<and> file d' = flushed c (e_pages e) (file d) \<and>
    cache_inv c' \<and> lookup fid c' = Some e' \<and> \<not> e_dirty e' \<and> e_pages e' = e_pages e \<and>
    (\<forall>i it. map_of (e_pages e) i = Some it \<longrightarrow> (\<exists>pg. lru_get it c' = Some pg \<and> \<not> pg_dirty pg))"
proof -
  have sm: "\<And>i it. (i, it) \<in> set (e_pages e) \<Longrightarrow> i * m_page_size c + m_page_size c < 2 ^ 63"
    using assms(6) by auto
  obtain c' d' where f: "flush env fid c d = (Inr (), c', d')" "file d' = flushed c (e_pages e) (file d)"
    using flush_device [OF assms(1-3,5,4) _ assms(7)] sm by blast
  from flush_success [OF f(1) assms(1-3)] inv_flush [OF f(1) assms(1)] f show ?thesis by blast
qed

definition dirty_cache :: cache where
  "dirty_cache = \<lparr>m_lru = [(0, \<lparr>pg_id = 7, pg_index = 1, pg_data = [9, 8, 7, 0], pg_size = 3, pg_page_size = 4, pg_dirty = True\<rparr>)],
     m_next = 1, m_table = [(7, (new_entry root_path)\<lparr>e_pages := [(1, 0)], e_writer := 1, e_dirty := True\<rparr>)],
     m_read_queue = [], m_stale_fds = [], m_page_size = 4, m_max_pages = 8\<rparr>"

theorem flush_correct_witness:
  "\<exists>c' d'. flush file_env 7 dirty_cache [1, 2, 3, 4, 5, 6, 7, 8] = (Inr (), c', d') \<and> d' = [1, 2, 3, 4, 9, 8, 7, 8]"
proof -
  let ?e = "(new_entry root_path)\<lparr>e_pages := [(1, 0)], e_writer := 1, e_dirty := True\<rparr>"
  have inv: "cache_inv dirty_cache"
    by (auto simp: cache_inv_def dirty_cache_def lru_get_def lookup_def page_ok_def indexed_def entry_ok_def new_entry_def
        split: if_splits)
  have l: "lookup 7 dirty_cache = Some ?e" by (simp add: dirty_cache_def lookup_def)
  have fl: "flushed dirty_cache [(1, 0)] [1, 2, 3, 4, 5, 6, 7, 8] = [1, 2, 3, 4, 9, 8, 7, 8]"
    by (simp add: dirty_cache_def lru_get_def pg_buf_def pwrite_def)
  have "\<exists>d1 c1. ensure_write_fd file_env 7 ?e dirty_cache [1, 2, 3, 4, 5, 6, 7, 8] = (Inr 1, c1, d1) \<and> d1 = [1, 2, 3, 4, 5, 6, 7, 8]"
    by (simp add: ensure_write_fd_def new_entry_def file_env_ops)
  from flush_correct [OF inv l _ file_env_stores this] fl show ?thesis
    by (auto simp: dirty_cache_def file_env_def)
qed

text \<open>The reference counts of an entry. Opening a known file counts the mode in and cancels
  the closing of its descriptors; closing it in the same mode succeeds and restores the entry
  exactly; a close that no open matches is refused and changes nothing; no other entry changes.\<close>

theorem hint_counts:
  "(lookup fid c = Some e \<longrightarrow> m_path (e_path e) = m_path p \<longrightarrow>
     (\<exists>c1 c2. hint_open fid p mode c = (Inr (), c1) \<and> hint_close fid mode c1 = (Inr (), c2) \<and>
        lookup fid c1 = Some (e\<lparr>e_reader := e_reader e + of_bool (reads mode), e_writer := e_writer e + of_bool (writes mode)\<rparr>) \<and>
        (reads mode \<and> e_reader e = 0 \<longrightarrow> (fid, FdRead) \<notin> set (m_stale_fds c1)) \<and>
        (writes mode \<and> e_writer e = 0 \<longrightarrow> (fid, FdWrite) \<notin> set (m_stale_fds c1)) \<and>
        lookup fid c2 = Some e \<and>
        (e_reader e = 0 \<and> e_read_fd e \<noteq> None \<longrightarrow> (fid, FdRead) \<in> set (m_stale_fds c2)) \<and>
        (e_writer e = 0 \<and> e_write_fd e \<noteq> None \<longrightarrow> (fid, FdWrite) \<in> set (m_stale_fds c2)) \<and>
        (\<forall>k. k \<noteq> fid \<longrightarrow> lookup k c2 = lookup k c)) \<and>
     ((reads mode \<and> e_reader e = 0) \<or> (writes mode \<and> e_writer e = 0) \<longrightarrow>
        hint_close fid mode c = (Unexpect bad_file_descriptor, c))) \<and>
   (lookup fid c = None \<longrightarrow> hint_close fid mode c = (Unexpect bad_file_descriptor, c))"
  by (auto simp: hint_open_def hint_close_def new_lookup_def Let_def)

theorem hint_counts_witness:
  "hint_close 7 OM_Read (mk_cache 4096 2) = (Unexpect bad_file_descriptor, mk_cache 4096 2)"
proof -
  have "lookup 7 (mk_cache 4096 2) = None" by (simp add: lookup_def mk_cache_def)
  with hint_counts [of 7 "mk_cache 4096 2"] show ?thesis by blast
qed

text \<open>Invalidating a file without flushing removes the entry and every page of the file, and
  nothing else: the other files keep their entries and pages, and the invariant holds.\<close>

theorem invalidate_one_correct:
  assumes "cache_inv c"
  shows "\<exists>c'. invalidate_one env fid False c d = (Inr (), c', d) \<and> cache_inv c' \<and> lookup fid c' = None \<and>
    (\<forall>k. k \<noteq> fid \<longrightarrow> lookup k c' = lookup k c) \<and>
    (\<forall>it pg. lru_get it c' = Some pg \<longleftrightarrow> lru_get it c = Some pg \<and> pg_id pg \<noteq> fid)"
proof (cases "lookup fid c")
  case None
  have "pg_id pg \<noteq> fid" if "lru_get it c = Some pg" for it pg
    using cache_invD(8) [OF assms that] None by (auto simp: indexed_def)
  with None assms show ?thesis by (auto simp: invalidate_one_def)
next
  case (Some e)
  with inv_drop_file [OF assms Some] show ?thesis by (auto simp: invalidate_one_def)
qed

theorem invalidate_one_correct_witness:
  "\<exists>c'. invalidate_one (flat_env []) 7 False (mk_cache 4096 2) () = (Inr (), c', ()) \<and> lookup 7 c' = None"
proof -
  have "cache_inv (mk_cache 4096 2)" using bounded_mk_cache [of 4096 2] by (simp add: bounded_def)
  from invalidate_one_correct [OF this, of "flat_env []" 7 "()"] show ?thesis by blast
qed

section \<open>Where the cache departs from the file\<close>

text \<open>
  \<^verbatim>\<open>Page::read\<close> at an offset past the page's size: \<^verbatim>\<open>m_size - offset\<close> wraps, so the read returns the
  bytes of the page's buffer behind the end of the file instead of none.
\<close>

lemma page_read_past_end:
  assumes "page_ok ps pg" "ps < 2 ^ 32" "pg_size pg < off" "off + n \<le> ps"
  shows "page_read pg n off = Inr (sublist off n (pg_data pg))"
proof -
  have "off < 2 ^ 64" "n \<le> 2 ^ 64 + pg_size pg - off" "2 ^ 64 + pg_size pg - off < 2 ^ 64"
    using assms by auto
  then have "min (sub64 (pg_size pg) off) n = n"
    using assms(3) by (simp add: sub64_def)
  then show ?thesis using assms(1,4) by (simp add: page_read_def page_ok_def)
qed

text \<open>
  \<^verbatim>\<open>write_at\<close> makes a missing page empty instead of pulling it: one byte written into the middle
  of a page, then flushed, replaces the bytes of the file before it with zeros.
\<close>

lemmas cache_eval = cache_write_def page_range_def lookup_def set_entry_def write_at_def await_queued_def
  prepare_page_def has_page_def lru_push_front_def upd_entry_def mk_page_def evict_excess_def write_page_def
  page_at_def lru_get_def lru_to_front_def lru_set_def lru_erase_def local_offset_def local_size_def buf_offset_def
  page_write_def overwrite_def flush_def ensure_write_fd_def flush_at_def inc_write_def dec_write_def
  inc_read_def dec_read_def pg_buf_def
  sublist_def cast32_def add64_def sub64_def mul64_def pwrite_def flush_loop.simps new_entry_def
  pages_erase_def evict_one_def read_def read_at_def read_page_def fetch_page_def page_truncate_def
  cache_truncate_def num_pages_of_def

lemma replicate_small: "replicate 2 x = [x, x]" "replicate 3 x = [x, x, x]" "replicate 4 x = [x, x, x, x]"
  by (simp_all add: eval_nat_numeral)

definition small_cache :: "nat \<Rightarrow> cache" where
  "small_cache mx = \<lparr>m_lru = [], m_next = 0, m_table = [(7, new_entry root_path)], m_read_queue = [], m_stale_fds = [],
     m_page_size = 4, m_max_pages = mx\<rparr>"

lemma write_clobbers:
  "\<exists>c d c' d'. cache_write file_env 7 [9] 2 (small_cache 8) [1, 2, 3, 4] = (Inr 1, c, d) \<and>
     flush file_env 7 c d = (Inr (), c', d') \<and> d' = [0, 0, 9, 4]"
proof -
  have f: "ev_fuel file_env = Suc 65535" by (simp add: file_env_def)
  show ?thesis
    by (simp add: cache_eval small_cache_def file_env_ops f unat_of_nat replicate_small)
qed

text \<open>
  \<^verbatim>\<open>evict\<close> of a dirty page whose file cannot be opened drops the page and its data but keeps its
  index; the next read of that page follows the dangling iterator.
\<close>

definition dead_env :: "unit env" where
  "dead_env = \<lparr>ev_send = (\<lambda>req d. (Inl io_error, d)), ev_reconnection = (\<lambda>d. (None, d)),
     ev_steady = (\<lambda>_. 0), ev_system = (\<lambda>_. zero_time), ev_fuel = 8\<rparr>"

lemma dead_env_open: "conn_open dead_env p m d = (Unexpect io_error, d)"
  by (simp add: conn_open_def get_resp_def send_req_def max_attempts_def eval_nat_numeral transport_send_req_def dead_env_def)

lemma evict_dangles:
  "\<exists>c1 d1 c2 d2. cache_write dead_env 7 [9] 0 (small_cache 1) () = (Inr 1, c1, d1) \<and>
     cache_write dead_env 7 [8] 4 c1 d1 = (Inr 1, c2, d2) \<and> fst (read dead_env 7 [0] 0 c2 d2) = Inl UB"
  by (simp add: cache_eval small_cache_def dead_env_open replicate_small)

text \<open>
  \<^verbatim>\<open>truncate\<close> from nine bytes to five with pages of four: the loop erases the page that holds the
  fifth byte (the last page kept) and keeps the page behind the new end, at full size.
\<close>

definition three_pages :: cache where
  "three_pages = \<lparr>m_lru =
      [(0, mk_page 7 0 [1, 2, 3, 4] 4 4), (1, mk_page 7 1 [5, 6, 7, 8] 4 4), (2, mk_page 7 2 [9, 0, 0, 0] 1 4)],
     m_next = 3, m_table = [(7, (new_entry root_path)\<lparr>e_pages := [(0, 0), (1, 1), (2, 2)]\<rparr>)],
     m_read_queue = [], m_stale_fds = [], m_page_size = 4, m_max_pages = 8\<rparr>"

lemma truncate_drops_last_page:
  "\<exists>c. cache_truncate dead_env 7 9 5 three_pages () = (Inr (), c, ()) \<and> page_at 7 1 c = None \<and>
     map_option (pg_size \<circ> snd) (page_at 7 2 c) = Some 4"
  by (simp add: cache_eval three_pages_def)

end
