(* ===== verification/Cache_Race.thy ===== *)
theory Cache_Race
  imports Cache_Props
begin

text \<open>
  Flushing and evicting dirty pages of the page cache as coroutines. \<^verbatim>\<open>Cache::flush\<close> gives up control while the file is
  opened and while the bytes of a page are on their way, \<^verbatim>\<open>Cache::evict\<close> while a dirty page is pushed; meanwhile other
  operations run on the same cache. A request carries a view of the page, so that the bytes sent are those the page has
  when the request is transmitted, not when it is made.
\<close>

section \<open>A flush between its suspension points\<close>

text \<open>Not started; waiting for \<^verbatim>\<open>m_connection.open\<close>; a request made for a page (descriptor, index, iterator, bytes written, length of the
  view); the answer to it; returned.\<close>

datatype flush_pc = FlushStart | FlushOpening | FlushIssued u64 nat nat nat nat | FlushAnswered u64 nat nat nat "u64 expect" |
  FlushEnded "unit expect"

text \<open>An error leaves \<^verbatim>\<open>flush\<close>; its \<^verbatim>\<open>write_incr_lock\<close> ends.\<close>

definition flush_fails :: "nat \<Rightarrow> fault \<Rightarrow> cache \<Rightarrow> flush_pc \<times> cache" where
  "flush_fails fid f c = (FlushEnded (Inl f), dec_write fid c)"

text \<open>The loop over the pages from a position on, up to the next request, with the beginning of \<^verbatim>\<open>flush_at\<close>.\<close>

fun flush_advance :: "nat \<Rightarrow> (nat \<times> nat) list \<Rightarrow> cache \<Rightarrow> flush_pc \<times> cache" where
  "flush_advance fid [] c = (FlushEnded (Inr ()), dec_write fid (upd_entry fid (\<lambda>e. e\<lparr>e_dirty := False\<rparr>) c))"
| "flush_advance fid ((i, it) # ps) c =
     (case lru_get it c of
        None \<Rightarrow> flush_fails fid UB c
      | Some pg \<Rightarrow>
          if \<not> pg_dirty pg then flush_advance fid ps c
          else
            (case Option.bind (lookup fid c) e_write_fd of
               None \<Rightarrow> flush_fails fid UB c
             | Some fd \<Rightarrow>
                 (case await_queued (pg_id pg) (pg_index pg) c of
                    Some err \<Rightarrow> flush_fails fid (Errc err) c
                  | None \<Rightarrow>
                      if 0 < pg_size pg then (FlushIssued fd i it 0 (pg_size pg), c)
                      else flush_advance fid ps (lru_set it (pg\<lparr>pg_dirty := False\<rparr>) c))))"

definition flush_enter :: "nat \<Rightarrow> cache \<Rightarrow> flush_pc \<times> cache" where
  "flush_enter fid c =
     (case lookup fid c of
        None \<Rightarrow> (FlushEnded (Inl UB), c)
      | Some e \<Rightarrow> flush_advance fid (e_pages e) (inc_write fid c))"

definition flush_start :: "nat \<Rightarrow> cache \<Rightarrow> flush_pc \<times> cache" where
  "flush_start fid c =
     (case lookup fid c of
        None \<Rightarrow> (FlushEnded (Inr ()), c)
      | Some e \<Rightarrow>
          if \<not> e_dirty e then (FlushEnded (Inr ()), c)
          else if e_write_fd e = None then (FlushOpening, c)
          else flush_enter fid c)"

definition flush_opened :: "'d env \<Rightarrow> nat \<Rightarrow> cache \<Rightarrow> 'd \<Rightarrow> (flush_pc \<times> cache) \<times> 'd" where
  "flush_opened env fid c d =
     (case lookup fid c of
        None \<Rightarrow> ((FlushEnded (Inl UB), c), d)
      | Some e \<Rightarrow>
          (case conn_open env (e_path e) OM_Write d of
             (Inl err, d) \<Rightarrow> ((FlushEnded (Inl err), c), d)
           | (Inr fd, d) \<Rightarrow> (flush_enter fid (upd_entry fid (\<lambda>e. e\<lparr>e_write_fd := Some fd\<rparr>) c), d)))"

text \<open>The request is transmitted, with the bytes the page has now; a page that has left the list is read after its end.\<close>

definition flush_transmit :: "'d env \<Rightarrow> u64 \<Rightarrow> nat \<Rightarrow> nat \<Rightarrow> nat \<Rightarrow> nat \<Rightarrow> cache \<Rightarrow> 'd \<Rightarrow> flush_pc \<times> 'd" where
  "flush_transmit env fd i it written n c d =
     (case lru_get it c of
        None \<Rightarrow> (FlushEnded (Inl UB), d)
      | Some pg \<Rightarrow>
          (case conn_write env fd (take n (drop written (pg_data pg)))
                  (word_of_nat (add64 (mul64 (pg_index pg) (m_page_size c)) written)) d of
             (r, d) \<Rightarrow> (FlushAnswered fd i it written r, d)))"

text \<open>The next turn of the loop in \<^verbatim>\<open>flush_at\<close>, or its end and the next page in the order of the map.\<close>

definition flush_resume :: "nat \<Rightarrow> u64 \<Rightarrow> nat \<Rightarrow> nat \<Rightarrow> nat \<Rightarrow> u64 expect \<Rightarrow> cache \<Rightarrow> flush_pc \<times> cache" where
  "flush_resume fid fd i it written r c =
     (case r of
        Inl f \<Rightarrow> flush_fails fid f c
      | Inr n \<Rightarrow>
          (case lru_get it c of
             None \<Rightarrow> flush_fails fid UB c
           | Some pg \<Rightarrow>
               let written = add64 written (unat n) in
               if written < pg_size pg then (FlushIssued fd i it written (pg_size pg - written), c)
               else
                 (case lookup fid c of
                    None \<Rightarrow> flush_fails fid UB c
                  | Some e \<Rightarrow>
                      if i \<notin> fst ` set (e_pages e) then flush_fails fid UB c
                      else flush_advance fid (filter (\<lambda>p. i < fst p) (e_pages e)) (lru_set it (pg\<lparr>pg_dirty := False\<rparr>) c))))"

section \<open>Interleavings\<close>

record 'd flushes =
  fw_cache :: cache
  fw_tasks :: "(nat \<times> flush_pc) list"
  fw_dev :: 'd

definition fw_set :: "nat \<Rightarrow> flush_pc \<times> cache \<Rightarrow> 'd flushes \<Rightarrow> 'd flushes" where
  "fw_set t pc s = s\<lparr>fw_tasks := (fw_tasks s)[t := (fst (fw_tasks s ! t), fst pc)], fw_cache := snd pc\<rparr>"

text \<open>The steps of one flush, from one suspension point to the next.\<close>

inductive flush_step :: "'d env \<Rightarrow> nat \<Rightarrow> 'd flushes \<Rightarrow> 'd flushes \<Rightarrow> bool" for env t where
  start: "t < length (fw_tasks s) \<Longrightarrow> fw_tasks s ! t = (fid, FlushStart) \<Longrightarrow>
    flush_step env t s (fw_set t (flush_start fid (fw_cache s)) s)"
| open_done: "t < length (fw_tasks s) \<Longrightarrow> fw_tasks s ! t = (fid, FlushOpening) \<Longrightarrow>
    flush_opened env fid (fw_cache s) (fw_dev s) = (pc, d) \<Longrightarrow> flush_step env t s (fw_set t pc (s\<lparr>fw_dev := d\<rparr>))"
| transmit: "t < length (fw_tasks s) \<Longrightarrow> fw_tasks s ! t = (fid, FlushIssued fd i it written n) \<Longrightarrow>
    flush_transmit env fd i it written n (fw_cache s) (fw_dev s) = (pc, d) \<Longrightarrow>
    flush_step env t s (fw_set t (pc, fw_cache s) (s\<lparr>fw_dev := d\<rparr>))"
| resume: "t < length (fw_tasks s) \<Longrightarrow> fw_tasks s ! t = (fid, FlushAnswered fd i it written r) \<Longrightarrow>
    flush_step env t s (fw_set t (flush_resume fid fd i it written r (fw_cache s)) s)"

text \<open>Other operations run at the suspension points: new flushes, and writes and reads of pages that are cached, which do not wait.\<close>

definition cached :: "nat \<Rightarrow> nat \<Rightarrow> nat \<Rightarrow> cache \<Rightarrow> bool" where
  "cached fid n offset c =
     (let (first, lst) = page_range (m_page_size c) n offset in \<forall>i\<in>set [first..<Suc lst]. has_page fid i c)"

inductive fw_step :: "'d env \<Rightarrow> 'd flushes \<Rightarrow> 'd flushes \<Rightarrow> bool" for env where
  flushing: "flush_step env t s s' \<Longrightarrow> fw_step env s s'"
| flush_call: "fw_step env s (s\<lparr>fw_tasks := fw_tasks s @ [(fid, FlushStart)]\<rparr>)"
| write_call: "cached fid (length bs) offset (fw_cache s) \<Longrightarrow>
    cache_write env fid bs offset (fw_cache s) (fw_dev s) = (Inr n, c, d) \<Longrightarrow> fw_step env s (s\<lparr>fw_cache := c, fw_dev := d\<rparr>)"
| read_call: "cached fid (length out) offset (fw_cache s) \<Longrightarrow>
    read env fid out offset (fw_cache s) (fw_dev s) = (Inr r, out', c, d) \<Longrightarrow> fw_step env s (s\<lparr>fw_cache := c, fw_dev := d\<rparr>)"

section \<open>Without interleaving\<close>

text \<open>A state with one flush.\<close>

definition solo :: "nat \<Rightarrow> flush_pc \<times> cache \<Rightarrow> 'd \<Rightarrow> 'd flushes" where
  "solo fid pc d = \<lparr>fw_cache = snd pc, fw_tasks = [(fid, fst pc)], fw_dev = d\<rparr>"

lemma solo_steps:
  "flush_step env 0 (solo fid (FlushStart, c) d) (solo fid (flush_start fid c) d)"
  "flush_opened env fid c d = (pc, d') \<Longrightarrow> flush_step env 0 (solo fid (FlushOpening, c) d) (solo fid pc d')"
  "flush_transmit env fd i it w n c d = (pc', d') \<Longrightarrow> flush_step env 0 (solo fid (FlushIssued fd i it w n, c) d) (solo fid (pc', c) d')"
  "flush_step env 0 (solo fid (FlushAnswered fd i it w r, c) d) (solo fid (flush_resume fid fd i it w r c) d)"
  using start [of 0 "solo fid (FlushStart, c) d" fid env] open_done [of 0 "solo fid (FlushOpening, c) d" fid env pc d']
    transmit [of 0 "solo fid (FlushIssued fd i it w n, c) d" fid fd i it w n env pc' d']
    resume [of 0 "solo fid (FlushAnswered fd i it w r, c) d" fid fd i it w r env]
  by (simp_all add: solo_def fw_set_def)

abbreviation solo_runs :: "'d env \<Rightarrow> nat \<Rightarrow> (flush_pc \<times> cache) \<times> 'd \<Rightarrow> (flush_pc \<times> cache) \<times> 'd \<Rightarrow> bool" where
  "solo_runs env fid x y \<equiv> (flush_step env 0)\<^sup>*\<^sup>* (solo fid (fst x) (snd x)) (solo fid (fst y) (snd y))"

text \<open>One page: the loop of \<^verbatim>\<open>flush_at\<close> in pieces.\<close>

definition page_done :: "nat \<Rightarrow> nat \<Rightarrow> nat \<Rightarrow> page \<Rightarrow> unit expect \<Rightarrow> cache \<Rightarrow> flush_pc \<times> cache" where
  "page_done fid i it pg r c =
     (case r of
        Inl f \<Rightarrow> flush_fails fid f c
      | Inr _ \<Rightarrow> flush_advance fid (filter (\<lambda>p. i < fst p) (e_pages (the (lookup fid c)))) (lru_set it (pg\<lparr>pg_dirty := False\<rparr>) c))"

lemma flush_loop_steps:
  assumes "flush_loop fuel env fd (m_page_size c) pg w d = (r, d')" "r \<noteq> Inl Hang" "w < pg_size pg" "lru_get it c = Some pg"
    "lookup fid c = Some e" "i \<in> fst ` set (e_pages e)"
  shows "solo_runs env fid ((FlushIssued fd i it w (pg_size pg - w), c), d) (page_done fid i it pg r c, d')"
  using assms(1,3)
proof (induction fuel arbitrary: w d)
  case 0
  then show ?case using assms(2) by (simp add: flush_loop.simps)
next
  case (Suc fuel)
  let ?span = "take (pg_size pg - w) (drop w (pg_data pg))" and ?off = "word_of_nat (add64 (mul64 (pg_index pg) (m_page_size c)) w)"
  obtain r1 d1 where w: "conn_write env fd ?span ?off d = (r1, d1)" by fastforce
  have "flush_transmit env fd i it w (pg_size pg - w) c d = (FlushAnswered fd i it w r1, d1)"
    using assms(4) w by (simp add: flush_transmit_def)
  from rtranclp.rtrancl_into_rtrancl [of "flush_step env 0", OF r_into_rtranclp [of "flush_step env 0", OF solo_steps(3) [OF this]] solo_steps(4)]
  have run: "solo_runs env fid ((FlushIssued fd i it w (pg_size pg - w), c), d) (flush_resume fid fd i it w r1 c, d1)" by simp
  have span: "drop w (pg_buf pg) = ?span" by (simp add: pg_buf_def drop_take)
  show ?case
  proof (cases r1)
    case (Inl f)
    with Suc.prems w span have "r = Inl f" "d' = d1" by (auto simp: flush_loop.simps Let_def)
    with run Inl show ?thesis by (simp add: flush_resume_def page_done_def)
  next
    case (Inr n)
    let ?w = "add64 w (unat n)"
    have loop: "flush_loop fuel env fd (m_page_size c) pg ?w d1 = (r, d')"
      using Suc.prems w span Inr by (simp add: flush_loop.simps [of "Suc fuel"] Let_def)
    show ?thesis
    proof (cases "?w < pg_size pg")
      case True
      with run Inr assms(4) have "solo_runs env fid ((FlushIssued fd i it w (pg_size pg - w), c), d) ((FlushIssued fd i it ?w (pg_size pg - ?w), c), d1)"
        by (simp add: flush_resume_def Let_def)
      from rtranclp_trans [OF this Suc.IH [OF loop True]] show ?thesis .
    next
      case False
      with loop have "r = Inr ()" "d' = d1" by (auto simp: flush_loop.simps)
      with run Inr False assms(4-6) show ?thesis by (simp add: flush_resume_def page_done_def Let_def)
    qed
  qed
qed

lemma lru_set_same: "lru_get it c = Some pg \<Longrightarrow> lru_set it pg c = c"
  by (simp add: lru_get_def lru_set_def update_triv)

text \<open>What \<^verbatim>\<open>flush\<close> does behind its loop.\<close>

definition flush_exit :: "nat \<Rightarrow> unit expect \<Rightarrow> cache \<Rightarrow> cache" where
  "flush_exit fid r c = dec_write fid (case r of Inl _ \<Rightarrow> c | Inr _ \<Rightarrow> upd_entry fid (\<lambda>e. e\<lparr>e_dirty := False\<rparr>) c)"

lemma dirty_page_steps:
  assumes "lru_get it c = Some pg" "pg_dirty pg" "lookup fid c = Some e" "e_write_fd e = Some fd" "await_queued (pg_id pg) (pg_index pg) c = None"
    "flush_loop (ev_fuel env) env fd (m_page_size c) pg 0 d = (r, d')" "r \<noteq> Inl Hang" "i \<in> fst ` set (e_pages e)"
    "filter (\<lambda>p. i < fst p) (e_pages e) = ps"
  shows "solo_runs env fid (flush_advance fid ((i, it) # ps) c, d) (page_done fid i it pg r c, d')"
proof (cases "0 < pg_size pg")
  case True
  with flush_loop_steps [OF assms(6,7) True assms(1,3,8)] assms(1-5) show ?thesis by simp
next
  case False
  then have "r = Inr ()" "d' = d" using assms(6) by (auto simp: flush_loop.simps)
  with False assms show ?thesis by (simp add: page_done_def)
qed

lemma flush_pages_steps:
  assumes "flush_pages env fid ps c d = (r, c', d')" "r \<noteq> Inl Hang" "lookup fid c = Some e" "e_pages e = pre @ ps"
    "sorted_wrt (<) (map fst (e_pages e))"
  shows "solo_runs env fid (flush_advance fid ps c, d) ((FlushEnded r, flush_exit fid r c'), d')"
  using assms(1,3,4)
proof (induction ps arbitrary: c d pre)
  case Nil
  then show ?case by (auto simp: flush_exit_def)
next
  case (Cons p ps)
  obtain i it where p: "p = (i, it)" by fastforce
  have rest: "filter (\<lambda>p. i < fst p) (e_pages e) = ps" and i: "i \<in> fst ` set (e_pages e)"
    using assms(5) Cons.prems(3) by (auto simp: p sorted_wrt_append filter_empty_conv intro!: filter_True)
  have e: "e_pages e = (pre @ [p]) @ ps" using Cons.prems(3) by simp
  consider "lru_get it c = None" | pg where "lru_get it c = Some pg" "\<not> pg_dirty pg"
    | pg where "lru_get it c = Some pg" "pg_dirty pg" "e_write_fd e = None"
    | pg fd err where "lru_get it c = Some pg" "pg_dirty pg" "e_write_fd e = Some fd" "await_queued (pg_id pg) (pg_index pg) c = Some err"
    | pg fd where "lru_get it c = Some pg" "pg_dirty pg" "e_write_fd e = Some fd" "await_queued (pg_id pg) (pg_index pg) c = None"
    by (cases "lru_get it c"; cases "e_write_fd e") (auto, metis not_None_eq)
  then show ?case
  proof cases
    case (2 pg)
    with Cons.IH [OF _ Cons.prems(2) e, of d] Cons.prems(1) p show ?thesis by simp
  next
    case (5 pg fd)
    obtain r1 d1 where l: "flush_loop (ev_fuel env) env fd (m_page_size c) pg 0 d = (r1, d1)" by fastforce
    have seq: "(case r1 of Inl f \<Rightarrow> (Inl f, c, d1) | Inr _ \<Rightarrow> flush_pages env fid ps (lru_set it (pg\<lparr>pg_dirty := False\<rparr>) c) d1) = (r, c', d')"
      using Cons.prems(1,2) 5 l p by (auto simp: flush_at_def lru_set_same split: sum.splits)
    then have "r1 \<noteq> Inl Hang" using assms(2) by auto
    from dirty_page_steps [OF 5(1,2) Cons.prems(2) 5(3,4) l this i rest]
    have adv: "solo_runs env fid (flush_advance fid (p # ps) c, d) (page_done fid i it pg r1 c, d1)" unfolding p .
    show ?thesis
    proof (cases r1)
      case (Inl f)
      with seq adv show ?thesis by (auto simp: page_done_def flush_fails_def flush_exit_def)
    next
      case (Inr u)
      with seq have "flush_pages env fid ps (lru_set it (pg\<lparr>pg_dirty := False\<rparr>) c) d1 = (r, c', d')" by simp
      from Cons.IH [OF this _ e] Cons.prems(2) adv Inr rest show ?thesis by (simp add: page_done_def)
    qed
  qed (use Cons.prems p in \<open>auto simp: flush_at_def flush_fails_def flush_exit_def lru_set_same\<close>)
qed

lemma lookup_upd_entry_same: "lookup fid c = Some e \<Longrightarrow> lookup fid (upd_entry fid f c) = Some (f e)"
  by simp

lemma flush_enter_steps:
  assumes "lookup fid c = Some e" "flush_pages env fid (e_pages e) (inc_write fid c) d = (r, c', d')" "r \<noteq> Inl Hang"
    "sorted_wrt (<) (map fst (e_pages e))"
  shows "solo_runs env fid (flush_enter fid c, d) ((FlushEnded r, flush_exit fid r c'), d')"
proof -
  have "lookup fid (inc_write fid c) = Some (e\<lparr>e_write_inflight := e_write_inflight e + 1\<rparr>)"
    unfolding inc_write_def by (rule lookup_upd_entry_same [OF assms(1)])
  from flush_pages_steps [OF assms(2,3) this, of "[]"] assms(1,4) show ?thesis by (simp add: flush_enter_def)
qed

lemma flush_solo:
  assumes "flush env fid c d = (r, c', d')" "r \<noteq> Inl Hang" "\<And>e. lookup fid c = Some e \<Longrightarrow> sorted_wrt (<) (map fst (e_pages e))"
  shows "solo_runs env fid ((FlushStart, c), d) ((FlushEnded r, c'), d')"
proof -
  note start = solo_steps(1) [of env fid c d]
  show ?thesis
  proof (cases "\<exists>e. lookup fid c = Some e \<and> e_dirty e")
    case False
    with assms(1) have "flush_start fid c = (FlushEnded r, c')" "d' = d" by (auto simp: flush_def flush_start_def split: option.splits if_splits)
    with start show ?thesis by auto
  next
    case True
    then obtain e where e: "lookup fid c = Some e" "e_dirty e" by blast
    note sorted = assms(3) [OF e(1)]
    show ?thesis
    proof (cases "e_write_fd e")
      case (Some fd)
      with assms(1) e obtain c1 where f: "flush_pages env fid (e_pages e) (inc_write fid c) d = (r, c1, d')" "c' = flush_exit fid r c1"
        by (auto simp: flush_def ensure_write_fd_def flush_exit_def split: prod.splits sum.splits)
      from start e Some have "flush_step env 0 (solo fid (FlushStart, c) d) (solo fid (flush_enter fid c) d)" by (simp add: flush_start_def)
      with flush_enter_steps [OF e(1) f(1) assms(2) sorted] f(2) show ?thesis by (auto intro: converse_rtranclp_into_rtranclp)
    next
      case None
      with start e have s: "flush_step env 0 (solo fid (FlushStart, c) d) (solo fid (FlushOpening, c) d)" by (simp add: flush_start_def)
      obtain ro d1 where o: "conn_open env (e_path e) OM_Write d = (ro, d1)" by fastforce
      show ?thesis
      proof (cases ro)
        case (Inl err)
        with assms(1) e None o have "r = Inl err" "c' = c" "d' = d1" by (auto simp: flush_def ensure_write_fd_def)
        with solo_steps(2) [of env fid c d "(FlushEnded r, c)" d1] s Inl o e show ?thesis
          by (auto simp: flush_opened_def intro: converse_rtranclp_into_rtranclp)
      next
        case (Inr fd)
        let ?c = "upd_entry fid (\<lambda>e. e\<lparr>e_write_fd := Some fd\<rparr>) c"
        have l: "lookup fid ?c = Some (e\<lparr>e_write_fd := Some fd\<rparr>)" by (rule lookup_upd_entry_same [OF e(1)])
        from assms(1) e None o Inr obtain c1 where f: "flush_pages env fid (e_pages e) (inc_write fid ?c) d1 = (r, c1, d')" "c' = flush_exit fid r c1"
          by (auto simp: flush_def ensure_write_fd_def flush_exit_def split: prod.splits sum.splits)
        from flush_enter_steps [OF l, of env d1 r c1 d'] f sorted assms(2)
        have "solo_runs env fid (flush_enter fid ?c, d1) ((FlushEnded r, c'), d')" by simp
        moreover have "flush_step env 0 (solo fid (FlushOpening, c) d) (solo fid (flush_enter fid ?c) d1)"
          using o Inr e by (intro solo_steps(2)) (simp add: flush_opened_def)
        ultimately show ?thesis using s by (auto intro: converse_rtranclp_into_rtranclp)
      qed
    qed
  qed
qed

section \<open>Properties\<close>

text \<open>The steps of a flush that nothing interrupts end in the result, the cache and the device of \<^verbatim>\<open>flush\<close> run as a whole. (The
  pages of an entry are an ordered map.)\<close>

theorem flush_steps:
  assumes "flush env fid c d = (r, c', d')" "r \<noteq> Inl Hang" "\<And>e. lookup fid c = Some e \<Longrightarrow> sorted_wrt (<) (map fst (e_pages e))"
  shows "(fw_step env)\<^sup>*\<^sup>* \<lparr>fw_cache = c, fw_tasks = [(fid, FlushStart)], fw_dev = d\<rparr>
    \<lparr>fw_cache = c', fw_tasks = [(fid, FlushEnded r)], fw_dev = d'\<rparr>"
  using rtranclp_mono [of "flush_step env 0" "fw_step env"] flush_solo [OF assms] by (auto simp: solo_def intro: flushing)

text \<open>Two pages of a file, the first of which may be changed.\<close>

definition page_of :: "nat \<Rightarrow> u8 list \<Rightarrow> bool \<Rightarrow> page" where
  "page_of i bs dirty = \<lparr>pg_id = 7, pg_index = i, pg_data = bs, pg_size = 4, pg_page_size = 4, pg_dirty = dirty\<rparr>"

definition wcache :: "u64 option \<Rightarrow> int \<Rightarrow> bool \<Rightarrow> u8 list \<Rightarrow> bool \<Rightarrow> bool \<Rightarrow> cache" where
  "wcache fd inflight dirty bs dirty0 dirty1 =
     \<lparr>m_lru = [(0, page_of 0 bs dirty0), (1, page_of 1 [5, 6, 7, 8] dirty1)], m_next = 2,
      m_table = [(7, (new_entry root_path)\<lparr>e_pages := [(0, 0), (1, 1)], e_writer := 1, e_write_fd := fd,
        e_write_inflight := inflight, e_dirty := dirty\<rparr>)],
      m_read_queue = [], m_stale_fds = [], m_page_size = 4, m_max_pages = 8\<rparr>"

abbreviation flushing_two :: "flush_pc \<Rightarrow> cache \<Rightarrow> u8 list \<Rightarrow> u8 list flushes" where
  "flushing_two pc c d \<equiv> \<lparr>fw_cache = c, fw_tasks = [(7, pc)], fw_dev = d\<rparr>"

text \<open>A write inside the valid part of one cached page.\<close>

definition patched :: "nat \<Rightarrow> u8 list \<Rightarrow> page \<Rightarrow> page" where
  "patched k bs pg = pg\<lparr>pg_data := overwrite (pg_data pg) k bs, pg_dirty := True\<rparr>"

lemma write_in_page:
  assumes inv: "cache_inv c" and pg: "page_at fid i c = Some (it, pg)"
    and k: "bs \<noteq> []" "k + length bs \<le> pg_size pg" "i * m_page_size c + pg_size pg < 2 ^ 63"
  shows "\<exists>c'. cache_write env fid bs (i * m_page_size c + k) c d = (Inr (length bs), c', d) \<and>
    cached fid (length bs) (i * m_page_size c + k) c \<and>
    (\<forall>jt. lru_get jt c' = (if jt = it then Some (patched k bs pg) else lru_get jt c)) \<and>
    (\<forall>f. lookup f c' = (if f = fid then map_option (\<lambda>e. e\<lparr>e_dirty := True\<rparr>) (lookup f c) else lookup f c))"
proof -
  let ?ps = "m_page_size c" and ?n = "length bs"
  let ?off = "i * ?ps + k"
  have g: "lru_get it c = Some pg" "pg_id pg = fid" "pg_index pg = i" using page_at_iff [OF inv] pg by auto
  have ps: "0 < ?ps" "?ps < 2 ^ 32" using cache_invD(1,2) [OF inv] by simp_all
  have pok: "length (pg_data pg) = ?ps" "pg_size pg \<le> ?ps" "pg_page_size pg = ?ps"
    using cache_invD(7) [OF inv g(1)] by (simp_all add: page_ok_def)
  have n: "0 < ?n" "k < ?ps" "k + ?n \<le> ?ps" using k pok by (cases bs; simp)+
  have a: "access_ok ?ps ?n ?off" using ps n k by (simp add: access_ok_def)
  have r: "?off div ?ps = i" "?off mod ?ps = k" using n by simp_all
  have l: "(?off + ?n - 1) div ?ps = i"
  proof -
    have "?off + ?n - 1 = (k + ?n - 1) + i * ?ps" "k + ?n - 1 < ?ps" using n(1,3) by linarith+
    then show ?thesis by simp
  qed
  have range: "page_range ?ps ?n ?off = (i, i)" using page_range_eq [OF a] r l by simp
  note t = tile [OF a r(1) [symmetric] l [symmetric] order.refl order.refl]
  have b: "buf_offset ?ps i i ?off = 0" using buf_offset_first [OF a] r by simp
  have lo: "local_offset ?ps i i ?off = k" by (simp only: local_offset_def r simp_thms if_True)
  have sz: "local_size ?ps i i i ?n ?off = ?n" using t(4) b by simp
  obtain e where e: "lookup fid c = Some e" "map_of (e_pages e) i = Some it" using pg by (auto simp: page_at_def split: option.splits)
  let ?c = "set_entry fid (e\<lparr>e_dirty := True\<rparr>) c"
  have c: "lookup f ?c = (if f = fid then Some (e\<lparr>e_dirty := True\<rparr>) else lookup f c)" "lru_get jt ?c = lru_get jt c"
    "m_page_size ?c = ?ps" "m_read_queue ?c = []" for f jt
    using cache_invD(3) [OF inv] by (simp_all add: set_entry_def lookup_def lru_get_def update_conv')
  have p: "page_at fid i ?c = Some (it, pg)" "has_page fid i ?c" "has_page fid i c"
    using e g(1) by (simp_all add: page_at_def has_page_def c)
  have w: "page_write pg bs k = Inr (?n, pg\<lparr>pg_data := overwrite (pg_data pg) k bs\<rparr>)"
    using n k(2) pok ps by (simp add: page_write_def Let_def cast32_def)
  let ?c' = "lru_set it (patched k bs pg) (lru_to_front it pg ?c)"
  have "write_page fid bs i i i ?off ?c = (Inr ?n, ?c')"
    using p(1) w b by (simp add: write_page_def Let_def c lo sz sublist_def patched_def)
  then have "cache_write env fid bs ?off c d = (Inr ?n, ?c', d)"
    using e(1) p(2) cache_invD(3) [OF inv] by (simp add: cache_write_def range write_at_def prepare_page_def)
  moreover have "cached fid ?n ?off c" using p(3) by (auto simp: cached_def range)
  moreover have "lru_get jt ?c' = (if jt = it then Some (patched k bs pg) else lru_get jt c)" for jt by (simp add: c)
  moreover have "lookup f ?c' = (if f = fid then map_option (\<lambda>e. e\<lparr>e_dirty := True\<rparr>) (lookup f c) else lookup f c)" for f
    using e(1) by (simp add: c)
  ultimately show ?thesis by blast
qed

text \<open>The rest of a flush leaves the pages before its position alone, and marks the file as clean when it ends well.\<close>

lemma flush_fails_sel [simp]:
  "fst (flush_fails fid f c) = FlushEnded (Inl f)" "lru_get it (snd (flush_fails fid f c)) = lru_get it c"
  "map_option e_pages (lookup k (snd (flush_fails fid f c))) = map_option e_pages (lookup k c)"
  by (auto simp: flush_fails_def dec_write_def option.map_comp comp_def cong: option.map_cong)

lemma flush_advance_others:
  "it \<notin> snd ` set ps \<Longrightarrow> lru_get it (snd (flush_advance fid ps c)) = lru_get it c"
  "map_option e_pages (lookup k (snd (flush_advance fid ps c))) = map_option e_pages (lookup k c)"
  "fst (flush_advance fid ps c) = FlushEnded (Inr ()) \<Longrightarrow> lookup fid c \<noteq> None \<Longrightarrow>
     \<exists>e. lookup fid (snd (flush_advance fid ps c)) = Some e \<and> \<not> e_dirty e"
  by (induction fid ps c rule: flush_advance.induct)
    (auto simp: dec_write_def option.map_comp comp_def split: option.splits if_splits cong: option.map_cong)

text \<open>C19: a write that falls into a flush, on any cache and device. The device has acknowledged all bytes of the page a flush is at, and before the
  flush goes on, a cached page of the file is written, that one or one the flush has passed: the write succeeds in
  memory and nothing is sent. When the flush goes on it marks its own page as clean, with the new bytes in it, or leaves the page it has passed
  dirty; and when it ends well the file counts as clean, so that another flush does nothing at all.\<close>

theorem flush_race:
  assumes "t < length (fw_tasks s)" "fw_tasks s ! t = (fid, FlushAnswered fd j jt w (Inr n))"
    "cache_inv (fw_cache s)" "page_at fid j (fw_cache s) = Some (jt, pgj)" "pg_size pgj \<le> add64 w (unat n)"
    "page_at fid i (fw_cache s) = Some (it, pg)" "i \<le> j" "bs \<noteq> []" "k + length bs \<le> pg_size pg"
    "i * m_page_size (fw_cache s) + pg_size pg < 2 ^ 63"
  shows "\<exists>c s'. cache_write env fid bs (i * m_page_size (fw_cache s) + k) (fw_cache s) (fw_dev s) = (Inr (length bs), c, fw_dev s) \<and>
    fw_step env s (s\<lparr>fw_cache := c\<rparr>) \<and> fw_step env (s\<lparr>fw_cache := c\<rparr>) s' \<and> fw_dev s' = fw_dev s \<and>
    page_at fid i (fw_cache s') = Some (it, pg\<lparr>pg_data := overwrite (pg_data pg) k bs, pg_dirty := (i \<noteq> j)\<rparr>) \<and>
    (fw_tasks s' ! t = (fid, FlushEnded (Inr ())) \<longrightarrow> (\<forall>d. flush env fid (fw_cache s') d = (Inr (), fw_cache s', d)))"
proof -
  let ?c = "fw_cache s"
  obtain c where c: "cache_write env fid bs (i * m_page_size ?c + k) ?c (fw_dev s) = (Inr (length bs), c, fw_dev s)"
    "cached fid (length bs) (i * m_page_size ?c + k) ?c"
    "\<forall>jt. lru_get jt c = (if jt = it then Some (patched k bs pg) else lru_get jt ?c)"
    "\<forall>f. lookup f c = (if f = fid then map_option (\<lambda>e. e\<lparr>e_dirty := True\<rparr>) (lookup f ?c) else lookup f ?c)"
    using write_in_page [OF assms(3,6,8-10), of env "fw_dev s"] by blast
  obtain e where e: "lookup fid ?c = Some e" "map_of (e_pages e) j = Some jt" "map_of (e_pages e) i = Some it"
    using assms(4,6) by (auto simp: page_at_def split: option.splits)
  have g: "lru_get it ?c = Some pg" "pg_index pg = i" "lru_get jt ?c = Some pgj" "pg_index pgj = j"
    using page_at_iff [OF assms(3)] assms(4,6) by auto
  have same: "it = jt \<longleftrightarrow> i = j" using g e by auto
  let ?pgj = "if it = jt then patched k bs pg else pgj"
  let ?rest = "filter (\<lambda>p. j < fst p) (e_pages e)"
  let ?r = "flush_advance fid ?rest (lru_set jt (?pgj\<lparr>pg_dirty := False\<rparr>) c)"
  have new: "lru_get jt c = Some ?pgj" "lookup fid c = Some (e\<lparr>e_dirty := True\<rparr>)" using c(3,4) e(1) g by simp_all
  have "pg_size ?pgj = pg_size pgj" using same g by (cases "it = jt") (simp_all add: patched_def)
  moreover have "j \<in> fst ` set (e_pages e)" using map_of_SomeD [OF e(2)] by force
  ultimately have r: "flush_resume fid fd j jt w (Inr n) c = ?r"
    using new assms(5) by (simp add: flush_resume_def Let_def del: if_split)
  have "it \<notin> snd ` set ?rest"
  proof
    assume "it \<in> snd ` set ?rest"
    then obtain j' where j': "(j', it) \<in> set (e_pages e)" "j < j'" by auto
    from entry_page_get [OF assms(3) e(1) j'(1)] g j'(2) assms(7) show False by auto
  qed
  from flush_advance_others(1) [OF this]
  have get: "lru_get it (snd ?r) = Some (pg\<lparr>pg_data := overwrite (pg_data pg) k bs, pg_dirty := (i \<noteq> j)\<rparr>)"
    using c(3) same by (simp add: patched_def)
  have "map_option e_pages (lookup fid (snd ?r)) = Some (e_pages e)" using c(4) e(1) by (simp add: flush_advance_others(2))
  then have at: "page_at fid i (snd ?r) = Some (it, pg\<lparr>pg_data := overwrite (pg_data pg) k bs, pg_dirty := (i \<noteq> j)\<rparr>)"
    using e(3) get by (auto simp: page_at_def)
  have clean: "flush env fid (snd ?r) d = (Inr (), snd ?r, d)" if "fst ?r = FlushEnded (Inr ())" for d
    using flush_advance_others(3) [OF that] c(4) e(1) by (auto simp: flush_def)
  let ?s = "s\<lparr>fw_cache := c\<rparr>"
  have "fw_step env s ?s" using write_call [OF c(2,1)] by simp
  moreover have "fw_step env ?s (fw_set t ?r ?s)"
    using resume [of t ?s fid fd j jt w "Inr n" env] assms(1,2) r by (auto intro: flushing)
  ultimately show ?thesis using c(1) at clean assms(1,2)
    by (intro exI [of _ c] exI [of _ "fw_set t ?r ?s"]) (simp add: fw_set_def)
qed

theorem flush_race_witness:
  "\<exists>s'. (fw_step file_env)\<^sup>*\<^sup>* (flushing_two (FlushAnswered 1 1 1 0 (Inr 4)) (wcache (Some 1) 1 True [1, 2, 3, 4] False True) []) s' \<and>
     fw_dev s' = [] \<and> page_at 7 0 (fw_cache s') = Some (0, page_of 0 [9, 2, 3, 4] True)"
proof -
  let ?c = "wcache (Some 1) 1 True [1, 2, 3, 4] False True"
  let ?s = "flushing_two (FlushAnswered 1 1 1 0 (Inr 4)) ?c ([] :: u8 list)"
  have inv: "cache_inv (fw_cache ?s)"
    by (auto simp: cache_inv_def wcache_def page_of_def lru_get_def lookup_def page_ok_def indexed_def entry_ok_def new_entry_def split: if_splits)
  have p: "page_at 7 1 (fw_cache ?s) = Some (1, page_of 1 [5, 6, 7, 8] True)" "page_at 7 0 (fw_cache ?s) = Some (0, page_of 0 [1, 2, 3, 4] False)"
    by (simp_all add: page_at_def wcache_def lookup_def lru_get_def)
  have sz: "m_page_size ?c = 4" "pg_size (page_of i bs b) = 4" for i bs b by (simp_all add: wcache_def page_of_def)
  have t: "0 < length (fw_tasks ?s)" "fw_tasks ?s ! 0 = (7, FlushAnswered 1 1 1 0 (Inr 4))"
    "pg_size (page_of 1 [5, 6, 7, 8] True) \<le> add64 0 (unat (4 :: u64))" "0 + length [9 :: u8] \<le> pg_size (page_of 0 [1, 2, 3, 4] False)"
    "0 * m_page_size (fw_cache ?s) + pg_size (page_of 0 [1, 2, 3, 4] False) < 2 ^ 63"
    using sz by simp_all
  from flush_race [OF t(1,2) inv p(1) t(3) p(2) zero_le_one list.distinct(2) t(4,5), of file_env]
  obtain c s' where s': "fw_step file_env ?s (?s\<lparr>fw_cache := c\<rparr>)" "fw_step file_env (?s\<lparr>fw_cache := c\<rparr>) s'" "fw_dev s' = fw_dev ?s"
    "page_at 7 0 (fw_cache s') = Some (0, (page_of 0 [1, 2, 3, 4] False)\<lparr>pg_data := overwrite (pg_data (page_of 0 [1, 2, 3, 4] False)) 0 [9], pg_dirty := (0 \<noteq> (1 :: nat))\<rparr>)"
    by (elim exE conjE) (rule that)
  moreover have "(page_of 0 [1, 2, 3, 4] False)\<lparr>pg_data := overwrite (pg_data (page_of 0 [1, 2, 3, 4] False)) 0 [9], pg_dirty := (0 \<noteq> (1 :: nat))\<rparr> =
    page_of 0 [9, 2, 3, 4] True" by (simp add: page_of_def overwrite_def)
  moreover have "(fw_step file_env)\<^sup>*\<^sup>* ?s s'" using rtranclp.rtrancl_into_rtrancl [OF r_into_rtranclp [of "fw_step file_env", OF s'(1)] s'(2)] .
  ultimately show ?thesis by (intro exI [of _ s']) simp
qed

section \<open>Eviction\<close>

text \<open>A turn of \<^verbatim>\<open>evict\<close> on a dirty page up to its suspension, with a descriptor: the page has left the list, and its index is
  removed only after it has been pushed.\<close>

definition evict_begin :: "cache \<Rightarrow> cache" where
  "evict_begin c = inc_write (pg_id (snd (last (m_lru c)))) (c\<lparr>m_lru := butlast (m_lru c)\<rparr>)"

lemma evict_begin_dangles:
  assumes "cache_inv c" "m_lru c \<noteq> []" "last (m_lru c) = (it, pg)"
  shows "has_page (pg_id pg) (pg_index pg) (evict_begin c)" "page_at (pg_id pg) (pg_index pg) (evict_begin c) = None"
    "m_read_queue (evict_begin c) = []"
proof -
  let ?c = "c\<lparr>m_lru := butlast (m_lru c)\<rparr>"
  have m: "m_lru c = butlast (m_lru c) @ [(it, pg)]" using assms(2,3) append_butlast_last_id by metis
  note d = cache_invD(4) [OF assms(1)]
  have "(it, pg) \<in> set (m_lru c)" using assms(2,3) last_in_set by metis
  then have "lru_get it c = Some pg" using d by (simp add: lru_get_def)
  from cache_invD(8) [OF assms(1) this] obtain e where e: "lookup (pg_id pg) c = Some e" "map_of (e_pages e) (pg_index pg) = Some it"
    by (auto simp: indexed_def)
  have "lookup (pg_id pg) ?c = Some e" using e(1) by (simp add: lookup_def)
  from lookup_upd_entry_same [OF this]
  have l: "lookup (pg_id pg) (evict_begin c) = Some (e\<lparr>e_write_inflight := e_write_inflight e + 1\<rparr>)"
    by (simp add: evict_begin_def inc_write_def assms(3))
  have "it \<notin> fst ` set (butlast (m_lru c))" using d by (subst (asm) m) simp
  then have "lru_get it (evict_begin c) = None"
    by (auto simp: evict_begin_def inc_write_def upd_entry_def lru_get_def set_entry_def map_of_eq_None_iff split: option.splits)
  with l e(2) show "has_page (pg_id pg) (pg_index pg) (evict_begin c)" "page_at (pg_id pg) (pg_index pg) (evict_begin c) = None"
    by (simp_all add: has_page_def page_at_def)
  show "m_read_queue (evict_begin c) = []"
    using cache_invD(3) [OF assms(1)] by (simp add: evict_begin_def inc_write_def upd_entry_def set_entry_def split: option.splits)
qed

lemma inc_read_queue [simp]: "m_read_queue (inc_read fid c) = m_read_queue c"
  by (simp add: inc_read_def upd_entry_def set_entry_def split: option.splits)

text \<open>C20: while the least recently used page, dirty, is pushed to the device by an eviction, its index is still in the table though the
  page has left the list: any read or write of that page in the meantime follows the dangling iterator. When the push is
  over, the eviction is that of the cache run as a whole.\<close>

theorem evict_race:
  assumes "cache_inv c" "m_lru c \<noteq> []" "last (m_lru c) = (it, pg)" "pg_dirty pg" "lookup (pg_id pg) c = Some e" "e_write_fd e = Some fd"
  shows "fst (read_at env (pg_id pg) out (pg_index pg) first lst offset (evict_begin c) d) = Inl UB \<and>
    fst (write_at env (pg_id pg) bs (pg_index pg) first lst offset (evict_begin c) d) = Inl UB \<and>
    evict env 1 c d = (case flush_at env fd pg (evict_begin c) d of (_, _, d') \<Rightarrow>
      (upd_entry (pg_id pg) (\<lambda>e. e\<lparr>e_pages := pages_erase (pg_index pg) (e_pages e)\<rparr>) (dec_write (pg_id pg) (evict_begin c)), d'))"
proof (intro conjI)
  note b = evict_begin_dangles [OF assms(1-3)]
  show "fst (read_at env (pg_id pg) out (pg_index pg) first lst offset (evict_begin c) d) = Inl UB"
    using b by (simp add: read_at_def Let_def await_queued_def read_page_def)
  show "fst (write_at env (pg_id pg) bs (pg_index pg) first lst offset (evict_begin c) d) = Inl UB"
    using b by (simp add: write_at_def await_queued_def prepare_page_def write_page_def)
  have "lookup (pg_id pg) (c\<lparr>m_lru := butlast (m_lru c)\<rparr>) = Some e" using assms(5) by (simp add: lookup_def)
  then show "evict env 1 c d = (case flush_at env fd pg (evict_begin c) d of (_, _, d') \<Rightarrow>
      (upd_entry (pg_id pg) (\<lambda>e. e\<lparr>e_pages := pages_erase (pg_index pg) (e_pages e)\<rparr>) (dec_write (pg_id pg) (evict_begin c)), d'))"
    using assms(2-4,6) by (simp add: evict_one_def evict_begin_def ensure_write_fd_def split: prod.splits)
qed

theorem evict_race_witness:
  "fst (read_at file_env 7 [0] 1 1 1 4 (evict_begin (wcache (Some 1) 0 True [1, 2, 3, 4] True True)) []) = Inl UB"
proof -
  let ?c = "wcache (Some 1) 0 True [1, 2, 3, 4] True True"
  let ?e = "(new_entry root_path)\<lparr>e_pages := [(0, 0), (1, 1)], e_writer := 1, e_write_fd := Some 1, e_write_inflight := 0, e_dirty := True\<rparr>"
  have "cache_inv ?c"
    by (auto simp: cache_inv_def wcache_def page_of_def lru_get_def lookup_def page_ok_def indexed_def entry_ok_def new_entry_def split: if_splits)
  from evict_race [OF this, of 1 "page_of 1 [5, 6, 7, 8] True" ?e 1 file_env "[0]" 1 1 4 "[]"] show ?thesis
    by (simp add: wcache_def page_of_def lookup_def)
qed

theorem flush_steps_witness:
  "\<exists>c' d'. (fw_step file_env)\<^sup>*\<^sup>* \<lparr>fw_cache = dirty_cache, fw_tasks = [(7, FlushStart)], fw_dev = [1, 2, 3, 4, 5, 6, 7, 8]\<rparr>
    \<lparr>fw_cache = c', fw_tasks = [(7, FlushEnded (Inr ()))], fw_dev = d'\<rparr> \<and> d' = [1, 2, 3, 4, 9, 8, 7, 8]"
proof -
  have fuel: "ev_fuel file_env = Suc (Suc 65534)" by (simp add: file_env_def)
  have "\<exists>c'. flush file_env 7 dirty_cache [1, 2, 3, 4, 5, 6, 7, 8] = (Inr (), c', [1, 2, 3, 4, 9, 8, 7, 8])"
    by (simp add: dirty_cache_def file_env_ops fuel cache_eval)
  then obtain c' where f: "flush file_env 7 dirty_cache [1, 2, 3, 4, 5, 6, 7, 8] = (Inr (), c', [1, 2, 3, 4, 9, 8, 7, 8])" by blast
  from flush_steps [OF f] show ?thesis by (auto simp: dirty_cache_def lookup_def)
qed

end
