(* ===== verification/Cache_Conc.thy ===== *)
theory Cache_Conc
  imports Cache_Props
begin

text \<open>
  Concurrent reads of the page cache. \<^verbatim>\<open>Cache::read\<close> spawns one coroutine of \<^verbatim>\<open>read_at\<close> per page and waits for
  all of them; several reads run at the same time. A coroutine gives up control where it waits for a
  future in \<^verbatim>\<open>m_read_queue\<close>, for the descriptor and for the page; here each stretch between two such points
  is one step, and a run is any interleaving of the steps of all coroutines with new calls. Pages that
  are not dirty are evicted without waiting, so the model is that of a cache no file of which is being
  written.
\<close>

section \<open>Coroutines\<close>

text \<open>Where a coroutine of \<^verbatim>\<open>read_at\<close> stands: not yet started, waiting for the future of a promise, for
  \<^verbatim>\<open>m_connection.open\<close>, for \<^verbatim>\<open>on_miss\<close> with its own promise and a descriptor, or returned.\<close>

datatype pc = Fresh | Waiting nat | Opening | Pulling nat u64 | Finished "nat expect"

record read_coro =
  rd_call :: nat
  rd_fid :: nat
  rd_index :: nat
  rd_first :: nat
  rd_last :: nat
  rd_offset :: nat
  rd_pc :: pc

text \<open>
  The cache with its readers. \<open>rs_queue\<close> is \<^verbatim>\<open>m_read_queue\<close>, from a page to the promise behind its shared
  future, in place of the field of the sequential model, and \<open>rs_promises\<close> has the values that have been
  set; \<open>rs_calls\<close> has the arguments of every call of \<^verbatim>\<open>Cache::read\<close> (file, buffer as it was, offset) and
  \<open>rs_bufs\<close> the buffers as they are.
\<close>

record 'd reads =
  rs_cache :: cache
  rs_queue :: "((nat \<times> nat) \<times> nat) list"
  rs_promises :: "(nat \<times> errc) list"
  rs_next :: nat
  rs_calls :: "(nat \<times> u8 list \<times> nat) list"
  rs_bufs :: "u8 list list"
  rs_readers :: "read_coro list"
  rs_dev :: 'd

definition mk_reads :: "cache \<Rightarrow> 'd \<Rightarrow> 'd reads" where
  "mk_reads c d = \<lparr>rs_cache = c, rs_queue = [], rs_promises = [], rs_next = 0, rs_calls = [], rs_bufs = [],
     rs_readers = [], rs_dev = d\<rparr>"

definition rd_key :: "read_coro \<Rightarrow> nat \<times> nat" where
  "rd_key r = (rd_fid r, rd_index r)"

text \<open>\<^verbatim>\<open>Cache::read\<close> up to \<^verbatim>\<open>wait_all\<close>.\<close>

definition call_readers :: "nat \<Rightarrow> nat \<Rightarrow> nat \<times> u8 list \<times> nat \<Rightarrow> read_coro list" where
  "call_readers ps k call =
     (case call of (fid, out, offset) \<Rightarrow>
        let (first, lst) = page_range ps (length out) offset
        in map (\<lambda>i. \<lparr>rd_call = k, rd_fid = fid, rd_index = i, rd_first = first, rd_last = lst,
                     rd_offset = offset, rd_pc = Fresh\<rparr>) [first..<Suc lst])"

definition call_read :: "nat \<Rightarrow> u8 list \<Rightarrow> nat \<Rightarrow> 'd reads \<Rightarrow> errc + 'd reads" where
  "call_read fid out offset s =
     (case lookup fid (rs_cache s) of
        None \<Rightarrow> Inl bad_file_descriptor
      | Some _ \<Rightarrow>
          Inr (s\<lparr>rs_calls := rs_calls s @ [(fid, out, offset)], rs_bufs := rs_bufs s @ [out],
                 rs_readers := rs_readers s @
                   call_readers (m_page_size (rs_cache s)) (length (rs_calls s)) (fid, out, offset)\<rparr>))"

text \<open>\<^verbatim>\<open>Cache::read\<close> behind \<^verbatim>\<open>wait_all\<close>: the first error in the order of the pages, or the sum.\<close>

fun sum_results :: "nat \<Rightarrow> nat expect list \<Rightarrow> nat expect" where
  "sum_results n [] = Inr n"
| "sum_results n (Inl e # rs) = Inl e"
| "sum_results n (Inr m # rs) = sum_results (n + m) rs"

definition result_of :: "read_coro \<Rightarrow> nat expect option" where
  "result_of r = (case rd_pc r of Finished v \<Rightarrow> Some v | _ \<Rightarrow> None)"

definition call_result :: "nat \<Rightarrow> 'd reads \<Rightarrow> nat expect option" where
  "call_result k s =
     (let rs = map result_of (filter (\<lambda>r. rd_call r = k) (rs_readers s))
      in if None \<in> set rs then None else Some (sum_results 0 (map the rs)))"

section \<open>Steps\<close>

definition settle :: "nat \<Rightarrow> pc \<Rightarrow> 'd reads \<Rightarrow> 'd reads" where
  "settle t p s = s\<lparr>rs_readers := (rs_readers s)[t := (rs_readers s ! t)\<lparr>rd_pc := p\<rparr>]\<rparr>"

text \<open>The coroutine returns; its \<^verbatim>\<open>read_incr_lock\<close> ends.\<close>

definition finish :: "nat \<Rightarrow> nat expect \<Rightarrow> 'd reads \<Rightarrow> 'd reads" where
  "finish t v s = settle t (Finished v) (s\<lparr>rs_cache := dec_read (rd_fid (rs_readers s ! t)) (rs_cache s)\<rparr>)"

text \<open>The end of \<^verbatim>\<open>read_at\<close>, from the page to the buffer.\<close>

definition deliver :: "nat \<Rightarrow> 'd reads \<Rightarrow> 'd reads" where
  "deliver t s =
     (let r = rs_readers s ! t in
      case read_page (rd_fid r) (rs_bufs s ! rd_call r) (rd_index r) (rd_first r) (rd_last r) (rd_offset r) (rs_cache s) of
        (Inl e, c) \<Rightarrow> finish t (Inl e) (s\<lparr>rs_cache := c\<rparr>)
      | (Inr (n, out), c) \<Rightarrow> finish t (Inr n) (s\<lparr>rs_cache := c, rs_bufs := (rs_bufs s)[rd_call r := out]\<rparr>))"

text \<open>The promise, and \<^verbatim>\<open>emplace\<close> of its future, which keeps an entry that is there.\<close>

definition begin_pull :: "nat \<Rightarrow> u64 \<Rightarrow> 'd reads \<Rightarrow> 'd reads" where
  "begin_pull t fd s =
     (let key = rd_key (rs_readers s ! t)
      in settle t (Pulling (rs_next s) fd)
           (s\<lparr>rs_next := Suc (rs_next s),
              rs_queue := (if key \<in> fst ` set (rs_queue s) then rs_queue s else rs_queue s @ [(key, rs_next s)])\<rparr>))"

definition look :: "nat \<Rightarrow> 'd reads \<Rightarrow> 'd reads" where
  "look t s =
     (let r = rs_readers s ! t in
      if has_page (rd_fid r) (rd_index r) (rs_cache s) then deliver t s
      else case lookup (rd_fid r) (rs_cache s) of
             None \<Rightarrow> finish t (Inl UB) s
           | Some e \<Rightarrow> (case e_read_fd e of None \<Rightarrow> settle t Opening s | Some fd \<Rightarrow> begin_pull t fd s))"

definition start_read :: "nat \<Rightarrow> 'd reads \<Rightarrow> 'd reads" where
  "start_read t s =
     (let r = rs_readers s ! t; s = s\<lparr>rs_cache := inc_read (rd_fid r) (rs_cache s)\<rparr>
      in case map_of (rs_queue s) (rd_key r) of
           Some p \<Rightarrow> settle t (Waiting p) s
         | None \<Rightarrow> look t s)"

definition woken :: "nat \<Rightarrow> errc \<Rightarrow> 'd reads \<Rightarrow> 'd reads" where
  "woken t err s = (if err \<noteq> errc_ok then finish t (Unexpect err) s else look t s)"

definition opened :: "'d env \<Rightarrow> nat \<Rightarrow> 'd reads \<Rightarrow> 'd reads" where
  "opened env t s =
     (let r = rs_readers s ! t in
      case lookup (rd_fid r) (rs_cache s) of
        None \<Rightarrow> finish t (Inl UB) s
      | Some e \<Rightarrow>
          (case conn_open env (e_path e) OM_Read (rs_dev s) of
             (Inl err, d) \<Rightarrow> finish t (Inl err) (s\<lparr>rs_dev := d\<rparr>)
           | (Inr fd, d) \<Rightarrow>
               begin_pull t fd (s\<lparr>rs_dev := d,
                 rs_cache := upd_entry (rd_fid r) (\<lambda>e. e\<lparr>e_read_fd := Some fd\<rparr>) (rs_cache s)\<rparr>)))"

definition set_promise :: "nat \<Rightarrow> errc \<Rightarrow> 'd reads \<Rightarrow> 'd reads" where
  "set_promise p err s = s\<lparr>rs_promises := (p, err) # rs_promises s\<rparr>"

definition unqueue :: "nat \<times> nat \<Rightarrow> 'd reads \<Rightarrow> 'd reads" where
  "unqueue key s = s\<lparr>rs_queue := filter (\<lambda>q. fst q \<noteq> key) (rs_queue s)\<rparr>"

definition pulled :: "'d env \<Rightarrow> nat \<Rightarrow> nat \<Rightarrow> u64 \<Rightarrow> 'd reads \<Rightarrow> 'd reads" where
  "pulled env t p fd s =
     (let r = rs_readers s ! t; ps = m_page_size (rs_cache s) in
      case conn_read env fd ps (word_of_nat (mul64 (rd_index r) ps)) (rs_dev s) of
        (Inl (Errc err), d) \<Rightarrow> finish t (Unexpect err) (unqueue (rd_key r) (set_promise p err (s\<lparr>rs_dev := d\<rparr>)))
      | (Inl f, d) \<Rightarrow> finish t (Inl f) (s\<lparr>rs_dev := d\<rparr>)
      | (Inr bs, d) \<Rightarrow>
          if rd_key r \<notin> fst ` set (rs_queue s)
          then finish t (Unexpect operation_canceled) (set_promise p operation_canceled (s\<lparr>rs_dev := d\<rparr>))
          else
            (case evict_excess env (insert_page (fetched ps (rd_fid r) (rd_index r) bs) (rs_cache s)) d of
               (c, d) \<Rightarrow>
                 deliver t (unqueue (rd_key r) (set_promise p errc_ok (s\<lparr>rs_cache := c, rs_dev := d\<rparr>)))))"

inductive rs_step :: "'d env \<Rightarrow> 'd reads \<Rightarrow> 'd reads \<Rightarrow> bool" for env where
  start: "t < length (rs_readers s) \<Longrightarrow> rd_pc (rs_readers s ! t) = Fresh \<Longrightarrow> rs_step env s (start_read t s)"
| wake: "t < length (rs_readers s) \<Longrightarrow> rd_pc (rs_readers s ! t) = Waiting p \<Longrightarrow> map_of (rs_promises s) p = Some err \<Longrightarrow>
    rs_step env s (woken t err s)"
| open_done: "t < length (rs_readers s) \<Longrightarrow> rd_pc (rs_readers s ! t) = Opening \<Longrightarrow> rs_step env s (opened env t s)"
| pull_done: "t < length (rs_readers s) \<Longrightarrow> rd_pc (rs_readers s ! t) = Pulling p fd \<Longrightarrow> rs_step env s (pulled env t p fd s)"

inductive rs_move :: "'d env \<Rightarrow> 'd reads \<Rightarrow> 'd reads \<Rightarrow> bool" for env where
  serve: "rs_step env s s' \<Longrightarrow> rs_move env s s'"
| call: "call_read fid out offset s = Inr s' \<Longrightarrow> rs_move env s s'"

section \<open>What holds in every interleaving\<close>

text \<open>The files that are read: their paths, descriptors, contents, and the page size.\<close>

record remote =
  rm_files :: "nat set"
  rm_path :: "nat \<Rightarrow> path"
  rm_fds :: "nat \<Rightarrow> u64 set"
  rm_content :: "nat \<Rightarrow> u8 list"
  rm_page :: nat
  rm_max :: nat

definition remote_serves :: "'d env \<Rightarrow> remote \<Rightarrow> bool" where
  "remote_serves env M = (open_ok env \<and>
     (\<forall>fid\<in>rm_files M. serves env (rm_path M fid) (rm_fds M fid) (rm_content M fid)))"

definition clean :: "cache \<Rightarrow> bool" where
  "clean c = (\<forall>x\<in>set (m_lru c). \<not> pg_dirty (snd x))"

text \<open>The cache agrees with the files, holds no dirty page, and has a descriptor for each file.\<close>

definition ready :: "remote \<Rightarrow> cache \<Rightarrow> bool" where
  "ready M c = (clean c \<and> m_max_pages c = rm_max M \<and> (\<forall>fid\<in>rm_files M.
     reading fid (rm_path M fid) (rm_fds M fid) (rm_content M fid) (rm_page M) c \<and>
     (\<exists>e fd. lookup fid c = Some e \<and> e_read_fd e = Some fd)))"

definition calls_ok :: "remote \<Rightarrow> (nat \<times> u8 list \<times> nat) list \<Rightarrow> bool" where
  "calls_ok M cs = (\<forall>(fid, out, off)\<in>set cs.
     fid \<in> rm_files M \<and> access_ok (rm_page M) (length out) off \<and> off \<le> length (rm_content M fid))"

text \<open>The place of a page in the buffer of its call, and the bytes that belong there.\<close>

definition rd_pos :: "remote \<Rightarrow> read_coro \<Rightarrow> nat" where
  "rd_pos M r = buf_offset (rm_page M) (rd_index r) (rd_first r) (rd_offset r)"

definition rd_len :: "remote \<Rightarrow> read_coro \<Rightarrow> nat \<Rightarrow> nat" where
  "rd_len M r n = local_size (rm_page M) (rd_index r) (rd_first r) (rd_last r) n (rd_offset r)"

definition wanted :: "remote \<Rightarrow> nat \<times> u8 list \<times> nat \<Rightarrow> u8 list" where
  "wanted M call = (case call of (fid, out, off) \<Rightarrow> take (length out) (drop off (rm_content M fid)))"

definition call_size :: "nat \<times> u8 list \<times> nat \<Rightarrow> nat" where
  "call_size call = length (fst (snd call))"

definition part :: "remote \<Rightarrow> (nat \<times> u8 list \<times> nat) list \<Rightarrow> read_coro \<Rightarrow> u8 list" where
  "part M cs r = (let call = cs ! rd_call r in
     take (rd_len M r (call_size call)) (drop (rd_pos M r) (wanted M call)))"

definition is_pulling :: "read_coro \<Rightarrow> bool" where
  "is_pulling r = (case rd_pc r of Pulling _ _ \<Rightarrow> True | _ \<Rightarrow> False)"

definition delivered :: "read_coro \<Rightarrow> bool" where
  "delivered r = (case rd_pc r of Finished (Inr _) \<Rightarrow> True | _ \<Rightarrow> False)"

text \<open>The invariant is stated for the coroutines outside \<open>X\<close>: none is left out between steps, and the one
  that runs is left out within its step.\<close>

definition pulls :: "'d reads \<Rightarrow> nat set \<Rightarrow> nat \<Rightarrow> nat \<times> nat \<Rightarrow> bool" where
  "pulls s X p k = (\<exists>j<length (rs_readers s). j \<notin> X \<and> rd_key (rs_readers s ! j) = k \<and>
     (\<exists>fd. rd_pc (rs_readers s ! j) = Pulling p fd))"

definition pc_ok :: "remote \<Rightarrow> 'd reads \<Rightarrow> nat set \<Rightarrow> read_coro \<Rightarrow> bool" where
  "pc_ok M s X r = (case rd_pc r of
     Fresh \<Rightarrow> True
   | Waiting p \<Rightarrow> p \<in> fst ` set (rs_promises s) \<or> (\<exists>k. pulls s X p k)
   | Opening \<Rightarrow> False
   | Pulling p fd \<Rightarrow> fd \<in> rm_fds M (rd_fid r)
   | Finished v \<Rightarrow> v = Inr (length (part M (rs_calls s) r)) \<or> v = Unexpect operation_canceled)"

definition queue_ok :: "'d reads \<Rightarrow> nat set \<Rightarrow> bool" where
  "queue_ok s X = (\<forall>k p. (k, p) \<in> set (rs_queue s) \<longrightarrow> \<not> has_page (fst k) (snd k) (rs_cache s) \<and> pulls s X p k)"

definition covered :: "remote \<Rightarrow> 'd reads \<Rightarrow> nat \<Rightarrow> nat \<Rightarrow> bool" where
  "covered M s k x = (\<exists>j<length (rs_readers s). let r = rs_readers s ! j in
     rd_call r = k \<and> delivered r \<and> rd_pos M r \<le> x \<and> x < rd_pos M r + rd_len M r (call_size (rs_calls s ! k)))"

definition buf_ok :: "remote \<Rightarrow> 'd reads \<Rightarrow> nat \<Rightarrow> bool" where
  "buf_ok M s k = (length (rs_bufs s ! k) = call_size (rs_calls s ! k) \<and>
     (\<forall>x. x < call_size (rs_calls s ! k) \<longrightarrow> rs_bufs s ! k ! x =
        (if x < length (wanted M (rs_calls s ! k)) \<and> covered M s k x then wanted M (rs_calls s ! k) ! x
         else fst (snd (rs_calls s ! k)) ! x)))"

definition frames :: "nat \<Rightarrow> (nat \<times> u8 list \<times> nat) list \<Rightarrow> read_coro list" where
  "frames ps cs = concat (map (\<lambda>k. call_readers ps k (cs ! k)) [0..<length cs])"

definition rs_inv :: "remote \<Rightarrow> nat set \<Rightarrow> 'd reads \<Rightarrow> bool" where
  "rs_inv M X s = (ready M (rs_cache s) \<and> m_page_size (rs_cache s) = rm_page M \<and>
     map (rd_pc_update (\<lambda>_. Fresh)) (rs_readers s) = frames (rm_page M) (rs_calls s) \<and>
     length (rs_bufs s) = length (rs_calls s) \<and>
     (\<forall>j<length (rs_readers s). j \<notin> X \<longrightarrow> pc_ok M s X (rs_readers s ! j)) \<and>
     snd ` set (rs_promises s) \<subseteq> {errc_ok, operation_canceled} \<and> queue_ok s X \<and>
     (\<forall>k<length (rs_calls s). buf_ok M s k))"

lemma rs_invD:
  assumes "rs_inv M X s"
  shows "ready M (rs_cache s)" "m_page_size (rs_cache s) = rm_page M"
    "map (rd_pc_update (\<lambda>_. Fresh)) (rs_readers s) = frames (rm_page M) (rs_calls s)"
    "length (rs_bufs s) = length (rs_calls s)"
    "j < length (rs_readers s) \<Longrightarrow> j \<notin> X \<Longrightarrow> pc_ok M s X (rs_readers s ! j)"
    "snd ` set (rs_promises s) \<subseteq> {errc_ok, operation_canceled}" "queue_ok s X"
    "k < length (rs_calls s) \<Longrightarrow> buf_ok M s k"
  using assms by (simp_all add: rs_inv_def)

subsection \<open>Frames\<close>

lemma frames_snoc: "frames ps (cs @ [c]) = frames ps cs @ call_readers ps (length cs) c"
proof -
  have "map (\<lambda>k. call_readers ps k ((cs @ [c]) ! k)) [0..<length cs] = map (\<lambda>k. call_readers ps k (cs ! k)) [0..<length cs]"
    by (simp add: nth_append)
  then show ?thesis by (simp add: frames_def del: map_eq_conv)
qed

lemma call_readers_eq:
  assumes "access_ok ps (length out) off"
  shows "call_readers ps k (fid, out, off) = map (\<lambda>i. \<lparr>rd_call = k, rd_fid = fid, rd_index = i, rd_first = off div ps,
    rd_last = (off + length out - 1) div ps, rd_offset = off, rd_pc = Fresh\<rparr>) [off div ps..<Suc ((off + length out - 1) div ps)]"
  using page_range_eq [OF assms] by (simp add: call_readers_def)

definition frame_of :: "remote \<Rightarrow> (nat \<times> u8 list \<times> nat) list \<Rightarrow> read_coro \<Rightarrow> bool" where
  "frame_of M cs r = (rd_call r < length cs \<and> (\<exists>out. cs ! rd_call r = (rd_fid r, out, rd_offset r) \<and>
     rd_fid r \<in> rm_files M \<and> access_ok (rm_page M) (length out) (rd_offset r) \<and> rd_offset r \<le> length (rm_content M (rd_fid r)) \<and>
     rd_first r = rd_offset r div rm_page M \<and> rd_last r = (rd_offset r + length out - 1) div rm_page M \<and>
     rd_first r \<le> rd_index r \<and> rd_index r \<le> rd_last r))"

lemma frame_of_pc [simp]: "frame_of M cs (r\<lparr>rd_pc := p\<rparr>) = frame_of M cs r"
  by (simp add: frame_of_def)

lemma frames_frame:
  assumes "calls_ok M cs" "r \<in> set (frames (rm_page M) cs)"
  shows "frame_of M cs r"
proof -
  obtain k where k: "k < length cs" "r \<in> set (call_readers (rm_page M) k (cs ! k))"
    using assms(2) by (auto simp: frames_def)
  obtain fid out off where c: "cs ! k = (fid, out, off)" by (metis prod_cases3)
  have "(fid, out, off) \<in> set cs" using k(1) c by (metis nth_mem)
  then have "fid \<in> rm_files M" "access_ok (rm_page M) (length out) off" "off \<le> length (rm_content M fid)"
    using assms(1) by (auto simp: calls_ok_def)
  with k c show ?thesis by (auto simp: call_readers_eq frame_of_def)
qed

lemma inv_frame:
  assumes "rs_inv M X s" "calls_ok M (rs_calls s)" "t < length (rs_readers s)"
  shows "frame_of M (rs_calls s) (rs_readers s ! t)"
proof -
  have f: "map (rd_pc_update (\<lambda>_. Fresh)) (rs_readers s) = frames (rm_page M) (rs_calls s)"
    by (rule rs_invD(3) [OF assms(1)])
  have "(rs_readers s ! t)\<lparr>rd_pc := Fresh\<rparr> \<in> rd_pc_update (\<lambda>_. Fresh) ` set (rs_readers s)"
    using assms(3) by simp
  then have "(rs_readers s ! t)\<lparr>rd_pc := Fresh\<rparr> \<in> set (frames (rm_page M) (rs_calls s))"
    by (simp only: set_map [symmetric] f)
  from frames_frame [OF assms(2) this] show ?thesis by simp
qed

subsection \<open>The cache under a step\<close>

lemma has_page_lookup: "(\<And>fid. map_option e_pages (lookup fid c') = map_option e_pages (lookup fid c)) \<Longrightarrow> has_page k i c' = has_page k i c"
  by (drule meta_spec [of _ k]) (auto simp: has_page_def split: option.splits)

lemma has_page_inflight [simp]: "has_page k i (inc_read fid c) = has_page k i c" "has_page k i (dec_read fid c) = has_page k i c"
  by (rule has_page_lookup, simp add: inc_read_def dec_read_def option.map_comp comp_def)+

lemma ready_inflight:
  assumes "ready M c"
  shows "ready M (inc_read k c)" "ready M (dec_read k c)"
  using assms reading_inflight unfolding ready_def clean_def
  by (auto simp: inc_read_def dec_read_def)

lemma inflight_page_size [simp]: "m_page_size (inc_read k c) = m_page_size c" "m_page_size (dec_read k c) = m_page_size c"
  by (simp_all add: inc_read_def dec_read_def)

lemma ready_to_front:
  assumes "ready M c" "lru_get it c = Some pg"
  shows "ready M (lru_to_front it pg c)"
proof -
  have "(it, pg) \<in> set (m_lru c)" using assms(2) by (auto simp: lru_get_def dest: map_of_SomeD)
  then have "clean (lru_to_front it pg c)"
    using assms(1) by (auto simp: ready_def clean_def lru_to_front_def AList.delete_eq)
  with assms reading_to_front show ?thesis unfolding ready_def by auto
qed

lemma read_page_cache: "page_at fid i c = Some (it, pg) \<Longrightarrow> snd (read_page fid out i first lst off c) = lru_to_front it pg c"
  by (simp add: read_page_def Let_def split: sum.splits)

text \<open>Reading a page that is there delivers the bytes that belong at its place in the buffer.\<close>

lemma ready_read_page:
  assumes r: "ready M c" and f: "frame_of M cs r" and hp: "has_page (rd_fid r) (rd_index r) c"
    and out: "length out = call_size (cs ! rd_call r)"
  shows "\<exists>c'. read_page (rd_fid r) out (rd_index r) (rd_first r) (rd_last r) (rd_offset r) c =
      (Inr (length (part M cs r), overwrite out (rd_pos M r) (part M cs r)), c') \<and>
    ready M c' \<and> m_page_size c' = m_page_size c \<and> (\<forall>k i. has_page k i c' = has_page k i c)"
proof -
  obtain out0 where o: "cs ! rd_call r = (rd_fid r, out0, rd_offset r)" and F: "rd_fid r \<in> rm_files M"
    and a: "access_ok (rm_page M) (length out0) (rd_offset r)" and le: "rd_offset r \<le> length (rm_content M (rd_fid r))"
    and fl: "rd_first r = rd_offset r div rm_page M" "rd_last r = (rd_offset r + length out0 - 1) div rm_page M"
      "rd_first r \<le> rd_index r" "rd_index r \<le> rd_last r"
    using f by (auto simp: frame_of_def)
  have rd: "reading (rd_fid r) (rm_path M (rd_fid r)) (rm_fds M (rd_fid r)) (rm_content M (rd_fid r)) (rm_page M) c"
    using r F by (simp add: ready_def)
  then have inv: "cache_inv c" by (simp add: reading_def)
  obtain it pg where pa: "page_at (rd_fid r) (rd_index r) c = Some (it, pg)" using hp has_page_iff [OF inv] by blast
  then have g: "lru_get it c = Some pg" using page_at_iff [OF inv] by simp
  have "length out = length out0" using out o by (simp add: call_size_def)
  from read_page_step [OF rd hp a fl le this] obtain c' where
    p: "read_page (rd_fid r) out (rd_index r) (rd_first r) (rd_last r) (rd_offset r) c =
      (Inr (length (part M cs r), overwrite out (rd_pos M r) (part M cs r)), c')"
    by (auto simp: part_def o call_size_def wanted_def rd_pos_def rd_len_def)
  with read_page_cache [OF pa, of out "rd_first r" "rd_last r" "rd_offset r"] have c': "c' = lru_to_front it pg c" by simp
  have "has_page k i c' = has_page k i c" for k i by (simp add: c' has_page_def)
  with p c' ready_to_front [OF r g] show ?thesis by auto
qed

text \<open>Inserting a page that has been pulled, with the eviction it causes.\<close>

lemma ready_insert:
  assumes r: "ready M c" and F: "fid \<in> rm_files M" and op: "open_ok env"
    and np: "\<not> has_page fid i c"
  shows "\<exists>c' d'. evict_excess env (insert_page (fetched (rm_page M) fid i (chunk (rm_page M) i (rm_content M fid))) c) d = (c', d') \<and>
    ready M c' \<and> m_page_size c' = m_page_size c \<and> has_page fid i c' \<and> (\<forall>k j. has_page k j c' \<longrightarrow> has_page k j c \<or> (k, j) = (fid, i)) \<and>
    (length (m_lru c) < rm_max M \<longrightarrow> (\<forall>k j. has_page k j c \<longrightarrow> has_page k j c'))"
proof -
  let ?ps = "rm_page M"
  let ?pg = "fetched ?ps fid i (chunk ?ps i (rm_content M fid))"
  have rf: "reading fid (rm_path M fid) (rm_fds M fid) (rm_content M fid) ?ps c" using r F by (simp add: ready_def)
  then obtain e where e: "lookup fid c = Some e" by (auto simp: reading_def)
  have inv: "cache_inv c" and mx: "1 \<le> m_max_pages c" and ps: "m_page_size c = ?ps" using rf by (auto simp: reading_def)
  have pok: "page_ok (m_page_size c) ?pg"
    using cache_invD(2) [OF inv] ps by (simp add: fetched_ok chunk_def)
  obtain c' d' where ev: "evict_excess env (insert_page ?pg c) d = (c', d')" "cache_inv c'"
    "m_lru c' = take (m_max_pages c) ((m_next c, ?pg) # m_lru c)" "m_page_size c' = m_page_size c"
    "m_max_pages c' = m_max_pages c" "lru_get (m_next c) c' = Some ?pg"
    "\<forall>k. rel_option entry_kept (lookup k c) (lookup k c')"
    using insert_evict_ok [OF op inv, of ?pg e d] np e pok mx by auto
  have "m_next c \<notin> fst ` set (m_lru c)"
    using cache_invD(6) [OF inv, of "m_next c"]
    by (cases "map_of (m_lru c) (m_next c)") (auto simp: lru_get_def map_of_eq_None_iff)
  then have di: "distinct (map fst ((m_next c, ?pg) # m_lru c))" using cache_invD(4) [OF inv] by simp
  have old: "lru_get it c = Some pg \<or> pg = ?pg" if "lru_get it c' = Some pg" for it pg
  proof -
    have "map_of (take (m_max_pages c) ((m_next c, ?pg) # m_lru c)) it = Some pg" using that ev(3) by (simp add: lru_get_def)
    from map_of_take [OF di this] show ?thesis by (auto simp: lru_get_def split: if_splits)
  qed
  have hold: "holds ?ps (rm_content M fid) ?pg"
    using cache_invD(2) [OF inv] ps
    by (auto simp: holds_def fetched_def mk_page_def pg_buf_def chunk_def min_def)
  have "reading k (rm_path M k) (rm_fds M k) (rm_content M k) ?ps c' \<and> (\<exists>e fd. lookup k c' = Some e \<and> e_read_fd e = Some fd)"
    if k: "k \<in> rm_files M" for k
  proof -
    obtain ek fd where ek: "lookup k c = Some ek" "e_read_fd ek = Some fd" and rk: "reading k (rm_path M k) (rm_fds M k) (rm_content M k) ?ps c"
      using r k by (auto simp: ready_def)
    obtain e' where e': "lookup k c' = Some e'" "entry_kept ek e'" using entry_kept_Some [OF ev(7) ek(1)] by blast
    have "coherent k (rm_content M k) c'"
      using rk hold old ev(4) ps unfolding coherent_def reading_def by (metis fetched_sel(1))
    with ev(2,4,5) e' ek rk show ?thesis by (auto simp: reading_def entry_kept_def)
  qed
  moreover have "clean c'"
  proof -
    have "\<not> pg_dirty ?pg" by (simp add: fetched_def mk_page_def)
    moreover have "set (m_lru c') \<subseteq> insert (m_next c, ?pg) (set (m_lru c))"
      unfolding ev(3) using set_take_subset [of "m_max_pages c" "(m_next c, ?pg) # m_lru c"] by simp
    ultimately show ?thesis using r by (auto simp: ready_def clean_def)
  qed
  ultimately have rd': "ready M c'" using ev(5) r by (simp add: ready_def)
  have hp: "has_page k j c' \<longleftrightarrow> (\<exists>it pg. lru_get it c' = Some pg \<and> pg_id pg = k \<and> pg_index pg = j)" for k j
    using has_page_iff [OF ev(2)] page_at_iff [OF ev(2)] by auto
  have "has_page k j c \<or> (k, j) = (fid, i)" if h: "has_page k j c'" for k j
  proof -
    obtain it pg where g: "lru_get it c' = Some pg" "pg_id pg = k" "pg_index pg = j" using h hp by auto
    with old [OF g(1)] show ?thesis using has_page_iff [OF inv] page_at_iff [OF inv] by auto
  qed
  moreover have "has_page fid i c'" using hp ev(6) by force
  moreover have "has_page k j c'" if small: "length (m_lru c) < rm_max M" and h: "has_page k j c" for k j
  proof -
    have "m_lru c' = (m_next c, ?pg) # m_lru c" using ev(3) small r by (simp add: ready_def)
    then have keep: "lru_get it c = Some pg \<Longrightarrow> lru_get it c' = Some pg" for it pg
      using di by (force simp: lru_get_def dest: map_of_SomeD)
    obtain it pg where "lru_get it c = Some pg" "pg_id pg = k" "pg_index pg = j"
      using h has_page_iff [OF inv] page_at_iff [OF inv] by auto
    with keep hp show ?thesis by blast
  qed
  ultimately show ?thesis using ev(1,4) rd' by blast
qed

subsection \<open>The invariant under a step\<close>

lemma rs_settle_sel [simp]:
  "rs_cache (settle t p s) = rs_cache s" "rs_queue (settle t p s) = rs_queue s"
  "rs_promises (settle t p s) = rs_promises s" "rs_next (settle t p s) = rs_next s"
  "rs_calls (settle t p s) = rs_calls s" "rs_bufs (settle t p s) = rs_bufs s"
  "length (rs_readers (settle t p s)) = length (rs_readers s)" "rs_dev (settle t p s) = rs_dev s"
  "rs_readers (settle t p s) = (rs_readers s)[t := (rs_readers s ! t)\<lparr>rd_pc := p\<rparr>]"
  by (simp_all add: settle_def)

lemma rd_key_pc [simp]: "rd_key (r\<lparr>rd_pc := p\<rparr>) = rd_key r"
  by (simp add: rd_key_def)

lemma part_pc [simp]: "part M cs (r\<lparr>rd_pc := p\<rparr>) = part M cs r" "rd_pos M (r\<lparr>rd_pc := p\<rparr>) = rd_pos M r"
  "rd_len M (r\<lparr>rd_pc := p\<rparr>) n = rd_len M r n"
  by (simp_all add: part_def rd_pos_def rd_len_def)

lemma pulls_settle: "pulls s {t} p k \<Longrightarrow> pulls (settle t q s) {} p k"
  unfolding pulls_def by (auto simp: nth_list_update)

lemma pulls_other: "\<not> is_pulling (rs_readers s ! t) \<Longrightarrow> pulls s {} p k \<Longrightarrow> pulls s {t} p k"
  unfolding pulls_def is_pulling_def by (auto split: pc.splits)

lemma pc_ok_mono:
  assumes "pc_ok M s X r" "\<And>p k. pulls s X p k \<Longrightarrow> pulls s' X' p k \<or> p \<in> fst ` set (rs_promises s')"
    "fst ` set (rs_promises s) \<subseteq> fst ` set (rs_promises s')" "rs_calls s' = rs_calls s"
  shows "pc_ok M s' X' r"
  using assms unfolding pc_ok_def by (cases "rd_pc r") (simp_all, blast)

lemma queue_ok_mono:
  assumes "queue_ok s X" "\<And>p k. pulls s X p k \<Longrightarrow> pulls s' X' p k"
    "set (rs_queue s') \<subseteq> set (rs_queue s)" "\<And>k i. has_page k i (rs_cache s') = has_page k i (rs_cache s)"
  shows "queue_ok s' X'"
  using assms unfolding queue_ok_def by blast

lemma inv_running:
  assumes "rs_inv M {} s" "\<not> is_pulling (rs_readers s ! t)"
  shows "rs_inv M {t} s"
  using assms(1) pc_ok_mono [of M s "{}" _ s "{t}"] queue_ok_mono [of s "{}" s "{t}"] pulls_other [OF assms(2)]
  unfolding rs_inv_def by auto

lemma map_update_pc:
  "map (rd_pc_update (\<lambda>_. Fresh)) (xs[t := (xs ! t)\<lparr>rd_pc := p\<rparr>]) = map (rd_pc_update (\<lambda>_. Fresh)) xs"
proof (cases "t < length xs")
  case True
  then have "map (rd_pc_update (\<lambda>_. Fresh)) (xs[t := (xs ! t)\<lparr>rd_pc := p\<rparr>]) =
    (map (rd_pc_update (\<lambda>_. Fresh)) xs)[t := (map (rd_pc_update (\<lambda>_. Fresh)) xs) ! t]"
    by (simp add: map_update)
  then show ?thesis by (simp only: list_update_id)
qed (simp add: list_update_beyond not_less)

lemma covered_settle:
  assumes "\<not> delivered (rs_readers s ! t)" "\<not> delivered ((rs_readers s ! t)\<lparr>rd_pc := p\<rparr>)"
  shows "covered M (settle t p s) k x = covered M s k x"
proof -
  have "delivered (rs_readers (settle t p s) ! j) = delivered (rs_readers s ! j) \<and>
    (delivered (rs_readers s ! j) \<longrightarrow> rs_readers (settle t p s) ! j = rs_readers s ! j)" if "j < length (rs_readers s)" for j
    using assms that by (cases "t = j") simp_all
  then show ?thesis unfolding covered_def Let_def by (metis rs_settle_sel(5,7))
qed

text \<open>The coroutine that runs stops at its next point without having delivered anything.\<close>

lemma inv_settle:
  assumes inv: "rs_inv M {t} s" and t: "t < length (rs_readers s)"
    and nd: "\<not> delivered (rs_readers s ! t)" "\<not> delivered ((rs_readers s ! t)\<lparr>rd_pc := p\<rparr>)"
    and ok: "pc_ok M (settle t p s) {} ((rs_readers s ! t)\<lparr>rd_pc := p\<rparr>)"
  shows "rs_inv M {} (settle t p s)"
proof -
  have "pc_ok M (settle t p s) {} (rs_readers (settle t p s) ! j)" if "j < length (rs_readers s)" for j
  proof (cases "j = t")
    case False
    then have "pc_ok M s {t} (rs_readers s ! j)" using rs_invD(5) [OF inv that] by simp
    then have "pc_ok M (settle t p s) {} (rs_readers s ! j)"
      by (rule pc_ok_mono) (auto intro: pulls_settle)
    with False show ?thesis by simp
  qed (use ok t in simp)
  moreover have "queue_ok (settle t p s) {}"
    by (rule queue_ok_mono [OF rs_invD(7) [OF inv] pulls_settle]) simp_all
  moreover have "buf_ok M (settle t p s) k" if "k < length (rs_calls s)" for k
    using rs_invD(8) [OF inv that] by (simp add: buf_ok_def covered_settle [OF nd])
  ultimately show ?thesis using rs_invD [OF inv] by (simp add: rs_inv_def map_update_pc)
qed

lemma inv_cache:
  assumes "rs_inv M X s" "ready M c" "m_page_size c = m_page_size (rs_cache s)"
    "\<And>k i. has_page k i c = has_page k i (rs_cache s)"
  shows "rs_inv M X (s\<lparr>rs_cache := c\<rparr>)"
proof -
  have p: "pulls (s\<lparr>rs_cache := c\<rparr>) = pulls s" by (simp add: pulls_def fun_eq_iff)
  have "pc_ok M (s\<lparr>rs_cache := c\<rparr>) X r = pc_ok M s X r" for r
    by (simp add: pc_ok_def p split: pc.split)
  moreover have "queue_ok (s\<lparr>rs_cache := c\<rparr>) X = queue_ok s X" by (simp add: queue_ok_def p assms(4))
  moreover have "buf_ok M (s\<lparr>rs_cache := c\<rparr>) k = buf_ok M s k" for k by (simp add: buf_ok_def covered_def)
  ultimately show ?thesis using assms(1-3) by (simp add: rs_inv_def)
qed

lemma inv_cancel:
  assumes "rs_inv M {t} s" "t < length (rs_readers s)" "\<not> delivered (rs_readers s ! t)"
  shows "rs_inv M {} (finish t (Unexpect operation_canceled) s)"
proof -
  have "rs_inv M {t} (s\<lparr>rs_cache := dec_read (rd_fid (rs_readers s ! t)) (rs_cache s)\<rparr>)"
    by (rule inv_cache [OF assms(1) ready_inflight(2) [OF rs_invD(1) [OF assms(1)]]]) simp_all
  from inv_settle [OF this, of "Finished (Unexpect operation_canceled)"] assms(2,3) show ?thesis
    by (simp add: finish_def delivered_def pc_ok_def)
qed

lemma overwrite_nth:
  assumes "off + length ys \<le> length xs" "x < length xs"
  shows "overwrite xs off ys ! x = (if off \<le> x \<and> x < off + length ys then ys ! (x - off) else xs ! x)"
  using assms by (auto simp: overwrite_def nth_append min_def)

lemma length_overwrite: "off + length ys \<le> length xs \<Longrightarrow> length (overwrite xs off ys) = length xs"
  by (simp add: overwrite_def)

lemma frame_tile:
  assumes "frame_of M cs r"
  shows "rd_pos M r + rd_len M r (call_size (cs ! rd_call r)) \<le> call_size (cs ! rd_call r)"
  using assms tile(5) unfolding frame_of_def rd_pos_def rd_len_def call_size_def by fastforce

text \<open>Putting the bytes of a page into its buffer.\<close>

lemma overwrite_part:
  assumes f: "frame_of M cs r" and k: "cs ! rd_call r = call" and len: "length buf = call_size call"
    and x: "x < call_size call"
  shows "overwrite buf (rd_pos M r) (part M cs r) ! x =
    (if x < length (wanted M call) \<and> rd_pos M r \<le> x \<and> x < rd_pos M r + rd_len M r (call_size call) then wanted M call ! x
     else buf ! x)"
proof -
  have le: "rd_pos M r + length (part M cs r) \<le> length buf"
    using frame_tile [OF f] len k by (simp add: part_def)
  have "part M cs r ! (x - rd_pos M r) = wanted M call ! x" if "rd_pos M r \<le> x" "x < rd_pos M r + length (part M cs r)"
    using that by (simp add: part_def k)
  moreover have "x < rd_pos M r + length (part M cs r) \<longleftrightarrow> x < length (wanted M call) \<and> x < rd_pos M r + rd_len M r (call_size call)"
    if "rd_pos M r \<le> x" using that by (auto simp: part_def k)
  ultimately show ?thesis using overwrite_nth [OF le] x len by auto
qed

lemma inv_deliver:
  assumes inv: "rs_inv M {t} s" and t: "t < length (rs_readers s)" and nd: "\<not> delivered (rs_readers s ! t)"
    and cs: "calls_ok M (rs_calls s)"
    and hp: "has_page (rd_fid (rs_readers s ! t)) (rd_index (rs_readers s ! t)) (rs_cache s)"
  shows "rs_inv M {} (deliver t s)"
    and "\<exists>c. deliver t s = settle t (Finished (Inr (length (part M (rs_calls s) (rs_readers s ! t)))))
      (s\<lparr>rs_cache := c, rs_bufs := (rs_bufs s)[rd_call (rs_readers s ! t) :=
         overwrite (rs_bufs s ! rd_call (rs_readers s ! t)) (rd_pos M (rs_readers s ! t)) (part M (rs_calls s) (rs_readers s ! t))]\<rparr>) \<and>
      (\<forall>k i. has_page k i c = has_page k i (rs_cache s))"
proof -
  let ?r = "rs_readers s ! t"
  let ?k = "rd_call ?r" and ?part = "part M (rs_calls s) ?r"
  let ?buf = "overwrite (rs_bufs s ! ?k) (rd_pos M ?r) ?part"
  have f: "frame_of M (rs_calls s) ?r" by (rule inv_frame [OF inv cs t])
  then have k: "?k < length (rs_calls s)" by (simp add: frame_of_def)
  have bl: "length (rs_bufs s ! ?k) = call_size (rs_calls s ! ?k)" using rs_invD(8) [OF inv k] by (simp add: buf_ok_def)
  obtain c where rp: "read_page (rd_fid ?r) (rs_bufs s ! ?k) (rd_index ?r) (rd_first ?r) (rd_last ?r) (rd_offset ?r) (rs_cache s) =
      (Inr (length ?part, ?buf), c)" and c: "ready M c" "m_page_size c = m_page_size (rs_cache s)"
      "\<And>k i. has_page k i c = has_page k i (rs_cache s)"
    using ready_read_page [OF rs_invD(1) [OF inv] f hp bl] by blast
  let ?c = "dec_read (rd_fid ?r) c"
  let ?s = "settle t (Finished (Inr (length ?part))) (s\<lparr>rs_cache := ?c, rs_bufs := (rs_bufs s)[?k := ?buf]\<rparr>)"
  have eq: "deliver t s = ?s" by (simp add: deliver_def Let_def rp finish_def settle_def)
  with c(3) show "\<exists>c. deliver t s = settle t (Finished (Inr (length ?part))) (s\<lparr>rs_cache := c, rs_bufs := (rs_bufs s)[?k := ?buf]\<rparr>) \<and>
      (\<forall>k i. has_page k i c = has_page k i (rs_cache s))" by auto
  have pl: "pulls ?s {} p q" if "pulls s {t} p q" for p q
    using pulls_settle [of "s\<lparr>rs_cache := ?c, rs_bufs := (rs_bufs s)[?k := ?buf]\<rparr>" t p q] that by (simp add: pulls_def)
  have "pc_ok M ?s {} (rs_readers ?s ! j)" if "j < length (rs_readers s)" for j
  proof (cases "j = t")
    case False
    then have "pc_ok M s {t} (rs_readers s ! j)" using rs_invD(5) [OF inv that] by simp
    then have "pc_ok M ?s {} (rs_readers s ! j)" by - (rule pc_ok_mono, assumption, rule disjI1, erule pl, simp_all)
    with False show ?thesis by simp
  qed (use t in \<open>simp add: pc_ok_def\<close>)
  moreover have "queue_ok ?s {}"
    by (rule queue_ok_mono [OF rs_invD(7) [OF inv] pl]) (simp_all add: c(3))
  moreover have "buf_ok M ?s j" if j: "j < length (rs_calls s)" for j
  proof -
    have cov: "covered M ?s i x \<longleftrightarrow> covered M s i x \<or>
        (?k = i \<and> rd_pos M ?r \<le> x \<and> x < rd_pos M ?r + rd_len M ?r (call_size (rs_calls s ! i)))" for i x
      using nd t unfolding covered_def Let_def
      by (auto simp: nth_list_update delivered_def split: if_splits)
    show ?thesis
    proof (cases "j = ?k")
      case True
      have "length ?buf = call_size (rs_calls s ! ?k)"
        using bl frame_tile [OF f] by (subst length_overwrite) (auto simp: part_def Let_def)
      moreover have b: "rs_bufs ?s ! ?k = ?buf" using k rs_invD(4) [OF inv] by simp
      moreover have "?buf ! x = (if x < length (wanted M (rs_calls s ! ?k)) \<and> covered M ?s ?k x then wanted M (rs_calls s ! ?k) ! x
         else fst (snd (rs_calls s ! ?k)) ! x)" if x: "x < call_size (rs_calls s ! ?k)" for x
        using overwrite_part [OF f refl bl x] rs_invD(8) [OF inv k] x by (auto simp: buf_ok_def cov)
      ultimately show ?thesis using True by (simp add: buf_ok_def)
    next
      case False
      with rs_invD(8) [OF inv j] cov show ?thesis by (simp add: buf_ok_def)
    qed
  qed
  ultimately show "rs_inv M {} (deliver t s)"
    using rs_invD [OF inv] ready_inflight(2) [OF c(1)] c(2) unfolding eq by (simp add: rs_inv_def map_update_pc)
qed

lemma inv_begin_pull:
  assumes inv: "rs_inv M {t} s" and t: "t < length (rs_readers s)" and nd: "\<not> delivered (rs_readers s ! t)"
    and hp: "\<not> has_page (rd_fid (rs_readers s ! t)) (rd_index (rs_readers s ! t)) (rs_cache s)"
    and fd: "fd \<in> rm_fds M (rd_fid (rs_readers s ! t))"
  shows "rs_inv M {} (begin_pull t fd s)"
proof -
  let ?r = "rs_readers s ! t" and ?p = "rs_next s"
  let ?q = "if rd_key ?r \<in> fst ` set (rs_queue s) then rs_queue s else rs_queue s @ [(rd_key ?r, ?p)]"
  let ?s = "settle t (Pulling ?p fd) (s\<lparr>rs_next := Suc ?p, rs_queue := ?q\<rparr>)"
  have eq: "begin_pull t fd s = ?s" by (simp add: begin_pull_def Let_def)
  have pl: "pulls ?s {} p q" if "pulls s {t} p q" for p q
    using pulls_settle [of "s\<lparr>rs_next := Suc ?p, rs_queue := ?q\<rparr>" t p q] that by (simp add: pulls_def)
  have own: "pulls ?s {} ?p (rd_key ?r)" unfolding pulls_def using t by (auto intro!: exI [of _ t])
  have "pc_ok M ?s {} (rs_readers ?s ! j)" if "j < length (rs_readers s)" for j
  proof (cases "j = t")
    case False
    then have "pc_ok M s {t} (rs_readers s ! j)" using rs_invD(5) [OF inv that] by simp
    then have "pc_ok M ?s {} (rs_readers s ! j)" by - (rule pc_ok_mono, assumption, rule disjI1, erule pl, simp_all)
    with False show ?thesis by simp
  qed (use t fd in \<open>simp add: pc_ok_def\<close>)
  moreover have "queue_ok ?s {}"
    using rs_invD(7) [OF inv] pl own hp unfolding queue_ok_def by (auto simp: rd_key_def split: if_splits)
  moreover have "buf_ok M ?s k" if "k < length (rs_calls s)" for k
  proof -
    have "\<not> delivered (?r\<lparr>rd_pc := Pulling ?p fd\<rparr>)" by (simp add: delivered_def)
    with covered_settle [of "s\<lparr>rs_next := Suc ?p, rs_queue := ?q\<rparr>" t "Pulling ?p fd" M k] nd
    have "covered M ?s k x = covered M s k x" for x by (simp add: covered_def)
    with rs_invD(8) [OF inv that] show ?thesis by (simp add: buf_ok_def)
  qed
  ultimately show ?thesis using rs_invD [OF inv] unfolding eq by (simp add: rs_inv_def map_update_pc)
qed

lemma ready_fd:
  assumes "ready M c" "fid \<in> rm_files M"
  obtains e fd where "lookup fid c = Some e" "e_read_fd e = Some fd" "fd \<in> rm_fds M fid"
  using assms by (fastforce simp: ready_def reading_def)

lemma inv_look:
  assumes inv: "rs_inv M {t} s" and t: "t < length (rs_readers s)" and nd: "\<not> delivered (rs_readers s ! t)"
    and cs: "calls_ok M (rs_calls s)"
  shows "rs_inv M {} (look t s)"
proof (cases "has_page (rd_fid (rs_readers s ! t)) (rd_index (rs_readers s ! t)) (rs_cache s)")
  case True
  then show ?thesis using inv_deliver(1) [OF inv t nd cs] by (simp add: look_def Let_def)
next
  case False
  have "rd_fid (rs_readers s ! t) \<in> rm_files M" using inv_frame [OF inv cs t] by (auto simp: frame_of_def)
  then obtain e fd where "lookup (rd_fid (rs_readers s ! t)) (rs_cache s) = Some e" "e_read_fd e = Some fd"
    "fd \<in> rm_fds M (rd_fid (rs_readers s ! t))"
    using ready_fd [OF rs_invD(1) [OF inv]] by metis
  with False inv_begin_pull [OF inv t nd False, of fd] show ?thesis by (simp add: look_def Let_def)
qed

lemma inv_start:
  assumes inv: "rs_inv M {} s" and t: "t < length (rs_readers s)" and pc: "rd_pc (rs_readers s ! t) = Fresh"
    and cs: "calls_ok M (rs_calls s)"
  shows "rs_inv M {} (start_read t s)"
proof -
  let ?r = "rs_readers s ! t"
  let ?s = "s\<lparr>rs_cache := inc_read (rd_fid ?r) (rs_cache s)\<rparr>"
  have nd: "\<not> delivered ?r" "\<not> is_pulling ?r" using pc by (simp_all add: delivered_def is_pulling_def)
  have i0: "rs_inv M {} ?s"
    by (rule inv_cache [OF inv ready_inflight(1) [OF rs_invD(1) [OF inv]]]) simp_all
  then have i1: "rs_inv M {t} ?s" by (rule inv_running) (simp add: nd)
  show ?thesis
  proof (cases "map_of (rs_queue s) (rd_key ?r)")
    case None
    then show ?thesis using inv_look [OF i1] t nd cs by (simp add: start_read_def Let_def)
  next
    case (Some p)
    then have "(rd_key ?r, p) \<in> set (rs_queue ?s)" by (simp add: map_of_SomeD)
    then have "pulls ?s {} p (rd_key ?r)" using rs_invD(7) [OF i0] unfolding queue_ok_def by blast
    then have "pulls (settle t (Waiting p) ?s) {} p (rd_key ?r)"
      by (intro pulls_settle pulls_other) (simp_all add: nd)
    then have "pc_ok M (settle t (Waiting p) ?s) {} (?r\<lparr>rd_pc := Waiting p\<rparr>)" by (auto simp: pc_ok_def simp del: split_paired_Ex)
    then have "rs_inv M {} (settle t (Waiting p) ?s)"
      using inv_settle [OF i1, of "Waiting p"] t nd(1) by (simp add: delivered_def)
    with Some show ?thesis by (simp add: start_read_def Let_def)
  qed
qed

lemma inv_woken:
  assumes inv: "rs_inv M {} s" and t: "t < length (rs_readers s)" and pc: "rd_pc (rs_readers s ! t) = Waiting p"
    and cs: "calls_ok M (rs_calls s)" and v: "map_of (rs_promises s) p = Some err"
  shows "rs_inv M {} (woken t err s)"
proof -
  have nd: "\<not> delivered (rs_readers s ! t)" "\<not> is_pulling (rs_readers s ! t)"
    using pc by (simp_all add: delivered_def is_pulling_def)
  have i1: "rs_inv M {t} s" by (rule inv_running [OF inv nd(2)])
  have "err \<in> {errc_ok, operation_canceled}" using rs_invD(6) [OF inv] v by (force dest: map_of_SomeD)
  then show ?thesis using inv_look [OF i1 t nd(1) cs] inv_cancel [OF i1 t nd(1)] by (auto simp: woken_def)
qed

lemma pulled_chunk:
  assumes f: "frame_of M cs r" and rd: "ready M c" and dev: "remote_serves env M" and fd: "fd \<in> rm_fds M (rd_fid r)"
  shows "\<exists>d'. conn_read env fd (rm_page M) (word_of_nat (mul64 (rd_index r) (rm_page M))) d =
    (Inr (chunk (rm_page M) (rd_index r) (rm_content M (rd_fid r))), d')"
proof -
  let ?ps = "rm_page M" and ?i = "rd_index r"
  obtain out :: "u8 list" where a: "access_ok ?ps (length out) (rd_offset r)" "rd_last r = (rd_offset r + length out - 1) div ?ps"
    "?i \<le> rd_last r" and F: "rd_fid r \<in> rm_files M" using f unfolding frame_of_def by metis
  have "rd_last r * ?ps \<le> rd_offset r + length out - 1" using a(2) by simp
  then have "?i * ?ps \<le> rd_offset r + length out - 1" using a(3) by (meson le_trans mult_le_mono1)
  then have il: "?i * ?ps < 2 ^ 63" using a(1) unfolding access_ok_def by linarith
  then have "mul64 ?i ?ps = ?i * ?ps" by simp
  moreover have "?i * ?ps < 2 ^ 64" using il by simp
  ultimately have un: "unat (word_of_nat (mul64 ?i ?ps) :: i64) = ?i * ?ps" by (simp only: unat_u64)
  have "?ps < 2 ^ 32" using a(1) by (simp add: access_ok_def)
  then have "\<exists>d'. conn_read env fd ?ps (word_of_nat (mul64 ?i ?ps)) d =
      (Inr (take ?ps (drop (unat (word_of_nat (mul64 ?i ?ps) :: i64)) (rm_content M (rd_fid r)))), d')"
    using dev fd F unfolding remote_serves_def serves_def by blast
  with un show ?thesis by (simp only: chunk_def)
qed

text \<open>The state between the arrival of a page and the end of the coroutine that pulled it: the promise is
  set and what is left of the queue names other pages.\<close>

definition after_pull :: "nat \<Rightarrow> errc \<Rightarrow> cache \<Rightarrow> 'd \<Rightarrow> ((nat \<times> nat) \<times> nat) list \<Rightarrow> 'd reads \<Rightarrow> 'd reads" where
  "after_pull p e c d Q s = s\<lparr>rs_cache := c, rs_dev := d, rs_promises := (p, e) # rs_promises s, rs_queue := Q\<rparr>"

lemma after_pull_sel [simp]:
  "rs_cache (after_pull p e c d Q s) = c" "rs_promises (after_pull p e c d Q s) = (p, e) # rs_promises s"
  "rs_queue (after_pull p e c d Q s) = Q" "rs_calls (after_pull p e c d Q s) = rs_calls s" "rs_next (after_pull p e c d Q s) = rs_next s"
  "rs_bufs (after_pull p e c d Q s) = rs_bufs s" "rs_readers (after_pull p e c d Q s) = rs_readers s"
  by (simp_all add: after_pull_def)

lemma after_pull_eq:
  "unqueue k (set_promise p e (s\<lparr>rs_cache := c, rs_dev := d\<rparr>)) = after_pull p e c d (filter (\<lambda>q. fst q \<noteq> k) (rs_queue s)) s"
  "set_promise p e (s\<lparr>rs_dev := d\<rparr>) = after_pull p e (rs_cache s) d (rs_queue s) s"
  by (cases s, simp add: after_pull_def set_promise_def unqueue_def)+

lemma inv_after_pull:
  assumes inv: "rs_inv M {} s" and t: "t < length (rs_readers s)" and pc: "rd_pc (rs_readers s ! t) = Pulling p fd"
    and c: "ready M c" "m_page_size c = rm_page M" and e: "e \<in> {errc_ok, operation_canceled}"
    and Q: "set Q \<subseteq> set (rs_queue s)" "rd_key (rs_readers s ! t) \<notin> fst ` set Q"
      "\<And>k. k \<in> fst ` set Q \<Longrightarrow> \<not> has_page (fst k) (snd k) c"
  shows "rs_inv M {t} (after_pull p e c d Q s)"
proof -
  let ?s = "after_pull p e c d Q s"
  have pl: "pulls ?s {t} = pulls s {t}" by (simp add: pulls_def fun_eq_iff)
  have gone: "pulls s {t} q k \<or> (q = p \<and> k = rd_key (rs_readers s ! t))" if "pulls s {} q k" for q k
    using that pc unfolding pulls_def by auto
  have "pc_ok M ?s {t} (rs_readers s ! j)" if "j < length (rs_readers s)" for j
    by (rule pc_ok_mono [OF rs_invD(5) [OF inv that]]) (use gone in \<open>auto simp: pl\<close>)
  moreover have "queue_ok ?s {t}"
    unfolding queue_ok_def
  proof (intro allI impI conjI)
    fix k q assume "(k, q) \<in> set (rs_queue ?s)"
    then have a: "(k, q) \<in> set Q" by simp
    then have "k \<noteq> rd_key (rs_readers s ! t)" using Q(2) by force
    moreover have "pulls s {} q k" using rs_invD(7) [OF inv] a Q(1) unfolding queue_ok_def by blast
    ultimately show "pulls ?s {t} q k" unfolding pl using gone by blast
    show "\<not> has_page (fst k) (snd k) (rs_cache ?s)" using Q(3) a by force
  qed
  moreover have "buf_ok M ?s k = buf_ok M s k" for k by (simp add: buf_ok_def covered_def)
  ultimately show ?thesis using rs_invD [OF inv] c e by (simp add: rs_inv_def)
qed

text \<open>The page has arrived and its key is still in the queue.\<close>

lemma pulled_arrives:
  assumes inv: "rs_inv M {} s" and t: "t < length (rs_readers s)" and pc: "rd_pc (rs_readers s ! t) = Pulling p fd"
    and cs: "calls_ok M (rs_calls s)" and dev: "remote_serves env M" and k: "rd_key (rs_readers s ! t) \<in> fst ` set (rs_queue s)"
    and Q: "Q = filter (\<lambda>q. fst q \<noteq> rd_key (rs_readers s ! t)) (rs_queue s)"
  shows "\<exists>c d. pulled env t p fd s = deliver t (after_pull p errc_ok c d Q s) \<and> rs_inv M {t} (after_pull p errc_ok c d Q s) \<and>
    has_page (rd_fid (rs_readers s ! t)) (rd_index (rs_readers s ! t)) c \<and>
    (\<forall>k j. has_page k j c \<longrightarrow> has_page k j (rs_cache s) \<or> (k, j) = rd_key (rs_readers s ! t)) \<and>
    (length (m_lru (rs_cache s)) < rm_max M \<longrightarrow> (\<forall>k j. has_page k j (rs_cache s) \<longrightarrow> has_page k j c))"
proof -
  let ?r = "rs_readers s ! t" and ?ps = "rm_page M"
  let ?fid = "rd_fid ?r" and ?i = "rd_index ?r"
  have f: "frame_of M (rs_calls s) ?r" by (rule inv_frame [OF inv cs t])
  have F: "?fid \<in> rm_files M" using f by (auto simp: frame_of_def)
  obtain d where rd: "conn_read env fd ?ps (word_of_nat (mul64 ?i ?ps)) (rs_dev s) = (Inr (chunk ?ps ?i (rm_content M ?fid)), d)"
    using pulled_chunk [OF f rs_invD(1) [OF inv] dev] rs_invD(5) [OF inv t] pc by (auto simp: pc_ok_def)
  have np: "\<not> has_page ?fid ?i (rs_cache s)" using rs_invD(7) [OF inv] k by (force simp: queue_ok_def rd_key_def)
  have op: "open_ok env" using dev by (simp add: remote_serves_def)
  obtain c d' where ev: "evict_excess env (insert_page (fetched ?ps ?fid ?i (chunk ?ps ?i (rm_content M ?fid))) (rs_cache s)) d = (c, d')"
    and c: "ready M c" "m_page_size c = m_page_size (rs_cache s)" "has_page ?fid ?i c"
      "\<forall>k j. has_page k j c \<longrightarrow> has_page k j (rs_cache s) \<or> (k, j) = (?fid, ?i)"
      "length (m_lru (rs_cache s)) < rm_max M \<longrightarrow> (\<forall>k j. has_page k j (rs_cache s) \<longrightarrow> has_page k j c)"
    using ready_insert [OF rs_invD(1) [OF inv] F op np] by blast
  have "rs_inv M {t} (after_pull p errc_ok c d' Q s)"
    using c rs_invD(2,7) [OF inv] by (intro inv_after_pull [OF inv t pc]) (force simp: queue_ok_def rd_key_def Q)+
  moreover have "pulled env t p fd s = deliver t (after_pull p errc_ok c d' Q s)"
    using rd k ev rs_invD(2) [OF inv] by (simp add: pulled_def Let_def after_pull_eq(1) Q)
  ultimately show ?thesis using c by (auto simp: rd_key_def)
qed

lemma inv_pulled:
  assumes inv: "rs_inv M {} s" and t: "t < length (rs_readers s)" and pc: "rd_pc (rs_readers s ! t) = Pulling p fd"
    and cs: "calls_ok M (rs_calls s)" and dev: "remote_serves env M"
  shows "rs_inv M {} (pulled env t p fd s)"
proof (cases "rd_key (rs_readers s ! t) \<in> fst ` set (rs_queue s)")
  case True
  have nd: "\<not> delivered (rs_readers s ! t)" using pc by (simp add: delivered_def)
  obtain c d Q where "pulled env t p fd s = deliver t (after_pull p errc_ok c d Q s)"
    "rs_inv M {t} (after_pull p errc_ok c d Q s)" "has_page (rd_fid (rs_readers s ! t)) (rd_index (rs_readers s ! t)) c"
    using pulled_arrives [OF inv t pc cs dev True refl] by blast
  then show ?thesis using t nd cs by (simp add: inv_deliver(1))
next
  case False
  let ?r = "rs_readers s ! t"
  have f: "frame_of M (rs_calls s) ?r" by (rule inv_frame [OF inv cs t])
  obtain d where rd: "conn_read env fd (rm_page M) (word_of_nat (mul64 (rd_index ?r) (rm_page M))) (rs_dev s) =
      (Inr (chunk (rm_page M) (rd_index ?r) (rm_content M (rd_fid ?r))), d)"
    using pulled_chunk [OF f rs_invD(1) [OF inv] dev] rs_invD(5) [OF inv t] pc by (auto simp: pc_ok_def)
  have "rs_inv M {t} (after_pull p operation_canceled (rs_cache s) d (rs_queue s) s)"
    using rs_invD [OF inv] False by (intro inv_after_pull [OF inv t pc]) (auto simp: queue_ok_def)
  then have "rs_inv M {} (finish t (Unexpect operation_canceled) (after_pull p operation_canceled (rs_cache s) d (rs_queue s) s))"
    by (rule inv_cancel) (use t pc in \<open>simp_all add: delivered_def\<close>)
  with rd False rs_invD(2) [OF inv] show ?thesis by (simp add: pulled_def Let_def after_pull_eq)
qed

lemma step_calls [simp]:
  "rs_calls (finish t v s) = rs_calls s" "rs_calls (begin_pull t fd s) = rs_calls s" "rs_calls (deliver t s) = rs_calls s"
  "rs_calls (look t s) = rs_calls s" "rs_calls (start_read t s) = rs_calls s" "rs_calls (woken t err s) = rs_calls s"
  "rs_calls (opened env t s) = rs_calls s" "rs_calls (pulled env t p fd s) = rs_calls s"
proof -
  show f: "rs_calls (finish t v s) = rs_calls s" for v s by (simp add: finish_def)
  show b: "rs_calls (begin_pull t fd s) = rs_calls s" for fd s by (simp add: begin_pull_def Let_def)
  show d: "rs_calls (deliver t s) = rs_calls s" for s by (simp add: deliver_def Let_def f split: prod.split sum.split)
  show l: "rs_calls (look t s) = rs_calls s" for s by (simp add: look_def Let_def f b d split: option.split)
  show "rs_calls (start_read t s) = rs_calls s" by (simp add: start_read_def Let_def l split: option.split)
  show "rs_calls (woken t err s) = rs_calls s" by (simp add: woken_def f l)
  show "rs_calls (opened env t s) = rs_calls s" by (simp add: opened_def Let_def f b split: option.split prod.split sum.split)
  show "rs_calls (pulled env t p fd s) = rs_calls s"
    by (simp add: pulled_def Let_def f d set_promise_def unqueue_def split: prod.split sum.split fault.split)
qed

lemma rs_step_calls: "rs_step env s s' \<Longrightarrow> rs_calls s' = rs_calls s"
  by (auto elim!: rs_step.cases)

lemma inv_step:
  assumes "rs_step env s s'" "rs_inv M {} s" "calls_ok M (rs_calls s)" "remote_serves env M"
  shows "rs_inv M {} s'"
  using assms(1)
proof cases
  case (open_done t)
  then show ?thesis using rs_invD(5) [OF assms(2), of t] by (simp add: pc_ok_def)
qed (simp_all add: inv_start inv_woken inv_pulled assms(2-4))

lemma call_fresh: "r \<in> set (call_readers ps k call) \<Longrightarrow> rd_pc r = Fresh \<and> r\<lparr>rd_pc := Fresh\<rparr> = r"
  by (auto simp: call_readers_def split: prod.splits)

lemma inv_call:
  assumes c: "call_read fid out off s = Inr s'" and inv: "rs_inv M {} s" and cs: "calls_ok M (rs_calls s)"
  shows "rs_inv M {} s'"
proof -
  let ?new = "call_readers (rm_page M) (length (rs_calls s)) (fid, out, off)"
  have s': "s' = s\<lparr>rs_calls := rs_calls s @ [(fid, out, off)], rs_bufs := rs_bufs s @ [out], rs_readers := rs_readers s @ ?new\<rparr>"
    using c rs_invD(2) [OF inv] by (simp add: call_read_def split: option.splits)
  have fresh: "rd_pc (?new ! j) = Fresh" if "j < length ?new" for j using call_fresh [OF nth_mem [OF that]] by simp
  have pl: "pulls s' {} p k = pulls s {} p k" for p k
    unfolding pulls_def s' using fresh by (fastforce simp: nth_append)
  have "pc_ok M s' {} (rs_readers s' ! j)" if "j < length (rs_readers s')" for j
  proof (cases "j < length (rs_readers s)")
    case True
    then have "pc_ok M s {} (rs_readers s ! j)" "rd_call (rs_readers s ! j) < length (rs_calls s)"
      using rs_invD(5) [OF inv] inv_frame [OF inv cs] by (auto simp: frame_of_def)
    moreover from this(2) have "part M (rs_calls s') (rs_readers s ! j) = part M (rs_calls s) (rs_readers s ! j)"
      by (simp add: part_def s' nth_append)
    moreover have "rs_promises s' = rs_promises s" by (simp add: s')
    moreover have "rs_readers s' ! j = rs_readers s ! j" using True by (simp add: s' nth_append)
    ultimately show ?thesis by (cases "rd_pc (rs_readers s ! j)") (simp_all add: pc_ok_def pl)
  next
    case False
    with that fresh [of "j - length (rs_readers s)"] show ?thesis by (simp add: s' nth_append pc_ok_def)
  qed
  moreover have "queue_ok s' {} = queue_ok s {}" by (simp add: queue_ok_def pl) (simp add: s')
  moreover have "buf_ok M s' k" if k: "k < length (rs_calls s')" for k
  proof -
    have cov: "covered M s' k x \<longleftrightarrow> k < length (rs_calls s) \<and> covered M s k x" for x
    proof
      assume "covered M s' k x"
      then obtain j where j: "j < length (rs_readers s')" "rd_call (rs_readers s' ! j) = k" "delivered (rs_readers s' ! j)"
        "rd_pos M (rs_readers s' ! j) \<le> x" "x < rd_pos M (rs_readers s' ! j) + rd_len M (rs_readers s' ! j) (call_size (rs_calls s' ! k))"
        by (auto simp: covered_def Let_def)
      have l: "j < length (rs_readers s)"
        using j(1,3) fresh [of "j - length (rs_readers s)"] by (auto simp: s' nth_append delivered_def split: if_splits)
      then have "k < length (rs_calls s)" using inv_frame [OF inv cs l] j(2) by (auto simp: frame_of_def s' nth_append)
      with l j show "k < length (rs_calls s) \<and> covered M s k x"
        by (auto simp: covered_def Let_def s' nth_append)
    next
      assume a: "k < length (rs_calls s) \<and> covered M s k x"
      then obtain j where "j < length (rs_readers s)" "let r = rs_readers s ! j in rd_call r = k \<and> delivered r \<and> rd_pos M r \<le> x \<and>
          x < rd_pos M r + rd_len M r (call_size (rs_calls s ! k))" unfolding covered_def by blast
      with a show "covered M s' k x" unfolding covered_def Let_def
        by (intro exI [of _ j]) (simp add: s' nth_append)
    qed
    show ?thesis
    proof (cases "k < length (rs_calls s)")
      case True
      with rs_invD(8) [OF inv True] rs_invD(4) [OF inv] cov show ?thesis
        by (simp add: buf_ok_def) (simp add: s' nth_append)
    next
      case False
      with k have "k = length (rs_calls s)" by (simp add: s')
      with cov rs_invD(4) [OF inv] show ?thesis by (simp add: buf_ok_def) (simp add: s' nth_append call_size_def)
    qed
  qed
  moreover have "map (rd_pc_update (\<lambda>_. Fresh)) ?new = ?new"
    by (rule map_idI) (simp add: call_fresh)
  ultimately show ?thesis
    using rs_invD [OF inv] frames_snoc [of "rm_page M" "rs_calls s" "(fid, out, off)"] by (simp add: rs_inv_def) (simp add: s')
qed

lemma move_calls:
  assumes "rs_move env s s'"
  shows "\<exists>cs. rs_calls s' = rs_calls s @ cs"
  using assms by cases (auto simp: rs_step_calls call_read_def split: option.splits)

lemma inv_start_state:
  assumes "ready M c" "m_page_size c = rm_page M"
  shows "rs_inv M {} (mk_reads c d)"
  using assms by (simp add: rs_inv_def mk_reads_def frames_def queue_ok_def)

lemma inv_run:
  assumes "(rs_move env)\<^sup>*\<^sup>* s0 s" "rs_inv M {} s0" "calls_ok M (rs_calls s)" "remote_serves env M"
  shows "rs_inv M {} s"
  using assms(1,3)
proof (induction rule: rtranclp_induct)
  case base
  then show ?case using assms(2) by simp
next
  case (step s s')
  obtain cs where "rs_calls s' = rs_calls s @ cs" using move_calls [OF step(2)] by blast
  with step(4) have ok: "calls_ok M (rs_calls s)" by (auto simp: calls_ok_def)
  with step have "rs_inv M {} s" by simp
  with step(2) ok assms(4) show ?case
    by (auto elim!: rs_move.cases intro: inv_step inv_call)
qed

subsection \<open>The results\<close>

lemma tiles_cover:
  assumes a: "access_ok ps n off" and f: "first = off div ps" and l: "lst = (off + n - 1) div ps" and j: "first \<le> j" "j \<le> lst"
    and b: "b = (\<lambda>i. buf_offset ps i first off)" and s: "s = (\<lambda>i. local_size ps i first lst n off)"
  shows "sum_list (map (\<lambda>i. length (take (s i) (drop (b i) R))) [first..<Suc j]) = length (take (b j + s j) R) \<and>
    (\<forall>x. x < b j + s j \<longrightarrow> (\<exists>i. first \<le> i \<and> i \<le> j \<and> b i \<le> x \<and> x < b i + s i))"
  using j
proof (induction j rule: nat_induct_at_least)
  case base
  have "b first = 0" using buf_offset_first [OF a] f by (simp add: b)
  then show ?case by auto
next
  case (Suc j)
  then have ih: "sum_list (map (\<lambda>i. length (take (s i) (drop (b i) R))) [first..<Suc j]) = length (take (b j + s j) R)"
    "\<And>x. x < b j + s j \<Longrightarrow> \<exists>i. first \<le> i \<and> i \<le> j \<and> b i \<le> x \<and> x < b i + s i" by simp_all
  have n: "b (Suc j) = b j + s j" using tile(6) [OF a f l Suc(1)] Suc.prems by (simp add: b s)
  have "length (take (b (Suc j) + s (Suc j)) R) = length (take (b (Suc j)) R) + length (take (s (Suc j)) (drop (b (Suc j)) R))"
    by (simp add: take_add)
  then have "sum_list (map (\<lambda>i. length (take (s i) (drop (b i) R))) [first..<Suc (Suc j)]) = length (take (b (Suc j) + s (Suc j)) R)"
    using ih(1) Suc(1) by (simp add: n)
  moreover have "\<exists>i. first \<le> i \<and> i \<le> Suc j \<and> b i \<le> x \<and> x < b i + s i" if "x < b (Suc j) + s (Suc j)" for x
  proof (cases "x < b j + s j")
    case True
    with ih(2) show ?thesis by (meson le_SucI)
  next
    case False
    with that n Suc(1) show ?thesis by (intro exI [of _ "Suc j"]) simp
  qed
  ultimately show ?case by blast
qed

lemma sum_results_cases:
  assumes "\<forall>v\<in>set vs. (\<exists>n. v = Inr n) \<or> v = Unexpect e"
  shows "sum_results n vs = Unexpect e \<or> (\<exists>ns. vs = map Inr ns \<and> sum_results n vs = Inr (n + sum_list ns))"
  using assms
proof (induction vs arbitrary: n)
  case (Cons v vs)
  show ?case
  proof (cases v)
    case (Inr m)
    from Cons.IH [of "n + m"] Cons.prems have "sum_results (n + m) vs = Unexpect e \<or>
      (\<exists>ns. vs = map Inr ns \<and> sum_results (n + m) vs = Inr (n + m + sum_list ns))" by simp
    then show ?thesis
    proof
      assume "\<exists>ns. vs = map Inr ns \<and> sum_results (n + m) vs = Inr (n + m + sum_list ns)"
      then obtain ns where "vs = map Inr ns" "sum_results (n + m) vs = Inr (n + m + sum_list ns)" by blast
      then have "v # vs = map Inr (m # ns) \<and> sum_results n (v # vs) = Inr (n + sum_list (m # ns))" using Inr by simp
      then show ?thesis by (intro disjI2 exI [of _ "m # ns"])
    qed (simp add: Inr)
  qed (use Cons.prems in auto)
qed simp

lemma frames_call:
  assumes "k < length cs"
  shows "filter (\<lambda>r. rd_call r = k) (frames ps cs) = call_readers ps k (cs ! k)"
  using assms
proof (induction cs rule: rev_induct)
  case (snoc c cs)
  have call: "r \<in> set (call_readers ps j x) \<Longrightarrow> rd_call r = j" for r j x
    by (auto simp: call_readers_def split: prod.splits)
  show ?case
  proof (cases "k = length cs")
    case True
    have "filter (\<lambda>r. rd_call r = k) (frames ps cs) = []"
      using True call by (auto simp: filter_empty_conv frames_def)
    moreover have "filter (\<lambda>r. rd_call r = k) (call_readers ps k c) = call_readers ps k c"
      using call by (intro filter_True) blast
    ultimately show ?thesis using True by (simp add: frames_snoc nth_append)
  next
    case False
    then have "filter (\<lambda>r. rd_call r = k) (call_readers ps (length cs) c) = []" using call by (auto simp: filter_empty_conv)
    with False snoc show ?thesis by (simp add: frames_snoc nth_append)
  qed
qed simp

text \<open>A call that has returned has all its bytes, or one of its pages was cancelled.\<close>

lemma inv_result:
  assumes inv: "rs_inv M {} s" and cs: "calls_ok M (rs_calls s)" and k: "k < length (rs_calls s)"
    and call: "rs_calls s ! k = (fid, out, off)" and r: "call_result k s = Some v"
  shows "v = Unexpect operation_canceled \<or>
    (v = Inr (length (wanted M (fid, out, off))) \<and>
     rs_bufs s ! k = wanted M (fid, out, off) @ drop (length (wanted M (fid, out, off))) out)"
proof -
  let ?ps = "rm_page M" and ?n = "length out" and ?R = "wanted M (fid, out, off)"
  let ?rs = "filter (\<lambda>r. rd_call r = k) (rs_readers s)"
  let ?first = "off div ?ps" and ?lst = "(off + ?n - 1) div ?ps"
  let ?frame = "\<lambda>i. \<lparr>rd_call = k, rd_fid = fid, rd_index = i, rd_first = ?first, rd_last = ?lst, rd_offset = off, rd_pc = Fresh\<rparr>"
  let ?b = "\<lambda>i. buf_offset ?ps i ?first off" and ?s = "\<lambda>i. local_size ?ps i ?first ?lst ?n off"
  have "(fid, out, off) \<in> set (rs_calls s)" using k call by (metis nth_mem)
  then have a: "access_ok ?ps ?n off" using cs by (auto simp: calls_ok_def)
  have fl: "?first \<le> ?lst" using a by (cases out) (auto simp: access_ok_def intro!: div_le_mono)
  have "map (rd_pc_update (\<lambda>_. Fresh)) ?rs = filter (\<lambda>r. rd_call r = k) (map (rd_pc_update (\<lambda>_. Fresh)) (rs_readers s))"
    by (simp add: filter_map comp_def)
  also have "\<dots> = map ?frame [?first..<Suc ?lst]"
    unfolding rs_invD(3) [OF inv] frames_call [OF k] call by (rule call_readers_eq [OF a])
  finally have fr: "map (rd_pc_update (\<lambda>_. Fresh)) ?rs = map ?frame [?first..<Suc ?lst]" .
  have mem: "\<exists>j<length (rs_readers s). rs_readers s ! j = q" if "q \<in> set ?rs" for q
    using that by (auto simp: in_set_conv_nth)
  have part: "length (part M (rs_calls s) q) = length (take (?s (rd_index q)) (drop (?b (rd_index q)) ?R))" if q: "q \<in> set ?rs" for q
  proof -
    have "q\<lparr>rd_pc := Fresh\<rparr> \<in> set (map ?frame [?first..<Suc ?lst])" unfolding fr [symmetric] using q by simp
    then obtain i where "q\<lparr>rd_pc := Fresh\<rparr> = ?frame i" by auto
    then have "rd_call q = k" "rd_first q = ?first" "rd_last q = ?lst" "rd_offset q = off" by (cases q, simp)+
    then show ?thesis by (simp add: part_def rd_pos_def rd_len_def call call_size_def Let_def)
  qed
  have fin: "result_of q \<noteq> None" if "q \<in> set ?rs" for q
    using r that by (force simp: call_result_def Let_def split: if_splits)
  have res: "\<exists>v. rd_pc q = Finished v \<and> result_of q = Some v \<and> (v = Inr (length (part M (rs_calls s) q)) \<or> v = Unexpect operation_canceled)"
    if "q \<in> set ?rs" for q
  proof -
    obtain j where "j < length (rs_readers s)" "rs_readers s ! j = q" using mem [OF \<open>q \<in> set ?rs\<close>] by blast
    then have "pc_ok M s {} q" using rs_invD(5) [OF inv, of j] by simp
    with fin [OF that] show ?thesis by (cases "rd_pc q") (auto simp: pc_ok_def result_of_def)
  qed
  have v: "v = sum_results 0 (map (the \<circ> result_of) ?rs)"
    using r by (simp add: call_result_def Let_def comp_def split: if_splits)
  have "\<forall>v\<in>set (map (the \<circ> result_of) ?rs). (\<exists>n. v = Inr n) \<or> v = Unexpect operation_canceled"
    using res by fastforce
  from sum_results_cases [OF this, of 0] show ?thesis
  proof
    assume "\<exists>ns. map (the \<circ> result_of) ?rs = map Inr ns \<and> sum_results 0 (map (the \<circ> result_of) ?rs) = Inr (0 + sum_list ns)"
    then obtain ns where ns: "map (the \<circ> result_of) ?rs = map Inr ns" "v = Inr (sum_list ns)" using v by auto
    have ok: "rd_pc q = Finished (Inr (length (part M (rs_calls s) q)))" if "q \<in> set ?rs" for q
    proof -
      have "(the \<circ> result_of) q \<in> set (map Inr ns)" unfolding ns(1) [symmetric] using that by simp
      with res [OF that] show ?thesis by auto
    qed
    have "map Inr ns = map (\<lambda>q. Inr (length (part M (rs_calls s) q)) :: nat expect) ?rs"
      unfolding ns(1) [symmetric] using ok by (simp add: result_of_def)
    also have "\<dots> = map Inr (map (\<lambda>q. length (part M (rs_calls s) q)) ?rs)" by simp
    finally have "ns = map (\<lambda>q. length (part M (rs_calls s) q)) ?rs" by (rule map_injective) (simp add: inj_def)
    also have "\<dots> = map (\<lambda>q. length (take (?s (rd_index q)) (drop (?b (rd_index q)) ?R))) ?rs" using part by simp
    also have "\<dots> = map (\<lambda>q. length (take (?s (rd_index q)) (drop (?b (rd_index q)) ?R))) (map (rd_pc_update (\<lambda>_. Fresh)) ?rs)" by simp
    also have "\<dots> = map (\<lambda>i. length (take (?s i) (drop (?b i) ?R))) [?first..<Suc ?lst]" unfolding fr by simp
    finally have "sum_list ns = length (take (?b ?lst + ?s ?lst) ?R)"
      using tiles_cover [OF a refl refl fl order_refl refl refl, of ?R] by simp
    moreover have bn: "?b ?lst + ?s ?lst = ?n" using tile(4) [OF a refl refl fl order_refl] by simp
    moreover have Rn: "length ?R \<le> ?n" by (simp add: wanted_def)
    ultimately have "v = Inr (length ?R)" using ns(2) by simp
    moreover have "rs_bufs s ! k = ?R @ drop (length ?R) out"
    proof (rule nth_equalityI)
      have bk: "length (rs_bufs s ! k) = ?n" using rs_invD(8) [OF inv k] call by (simp add: buf_ok_def call_size_def)
      then show "length (rs_bufs s ! k) = length (?R @ drop (length ?R) out)" using Rn by simp
      fix x assume "x < length (rs_bufs s ! k)"
      then have x: "x < ?n" using bk by simp
      obtain i where i: "?first \<le> i" "i \<le> ?lst" "?b i \<le> x" "x < ?b i + ?s i"
        using tiles_cover [OF a refl refl fl order_refl refl refl, of ?R] x bn by auto
      have "?frame i \<in> set (map (rd_pc_update (\<lambda>_. Fresh)) ?rs)" 
        unfolding fr set_map using i by (intro imageI) (auto simp: le_less)
      then obtain q where q: "q \<in> set ?rs" "q\<lparr>rd_pc := Fresh\<rparr> = ?frame i" by auto
      obtain j where j: "j < length (rs_readers s)" "rs_readers s ! j = q" using mem [OF q(1)] by blast
      have "rd_pos M q = ?b i" "rd_len M q ?n = ?s i" "rd_call q = k"
        using q(2) by (cases q, simp add: rd_pos_def rd_len_def)+
      with i j ok [OF q(1)] have "covered M s k x"
        unfolding covered_def by (intro exI [of _ j]) (simp add: delivered_def call call_size_def)
      with rs_invD(8) [OF inv k] x call Rn show "rs_bufs s ! k ! x = (?R @ drop (length ?R) out) ! x"
        by (simp add: buf_ok_def call_size_def nth_append)
    qed
    ultimately show ?thesis by blast
  qed (simp add: v)
qed

subsection \<open>Every call returns\<close>

fun weight :: "pc \<Rightarrow> nat" where
  "weight Fresh = 4"
| "weight (Waiting p) = 3"
| "weight Opening = 2"
| "weight (Pulling p fd) = 1"
| "weight (Finished v) = 0"

definition work :: "'d reads \<Rightarrow> nat" where
  "work s = sum_list (map (weight \<circ> rd_pc) (rs_readers s))"

text \<open>A step moves its own coroutine only, and forward.\<close>

definition lands :: "nat \<Rightarrow> nat \<Rightarrow> 'd reads \<Rightarrow> 'd reads \<Rightarrow> bool" where
  "lands t n s s' = (\<exists>p. weight p \<le> n \<and> rs_readers s' = (rs_readers s)[t := (rs_readers s ! t)\<lparr>rd_pc := p\<rparr>])"

lemma lands_settle: "rs_readers s0 = rs_readers s \<Longrightarrow> weight p \<le> n \<Longrightarrow> lands t n s (settle t p s0)"
  by (auto simp: lands_def)

lemma lands_finish: "rs_readers s0 = rs_readers s \<Longrightarrow> lands t n s (finish t v s0)"
  unfolding finish_def by (rule lands_settle) simp_all

lemma lands_deliver: "rs_readers s0 = rs_readers s \<Longrightarrow> lands t n s (deliver t s0)"
  by (simp add: deliver_def Let_def lands_finish split: prod.split sum.split)

lemma lands_begin_pull: "rs_readers s0 = rs_readers s \<Longrightarrow> 1 \<le> n \<Longrightarrow> lands t n s (begin_pull t fd s0)"
  unfolding begin_pull_def Let_def by (rule lands_settle) simp_all

lemma lands_look: "rs_readers s0 = rs_readers s \<Longrightarrow> 2 \<le> n \<Longrightarrow> lands t n s (look t s0)"
  by (simp add: look_def Let_def lands_finish lands_deliver lands_begin_pull lands_settle split: option.split)

lemma step_lands:
  assumes "rs_step env s s'"
  shows "\<exists>t<length (rs_readers s). \<exists>n. n < weight (rd_pc (rs_readers s ! t)) \<and> lands t n s s'"
  using assms
proof cases
  case (start t)
  have "lands t 3 s s'" unfolding start(1) start_read_def Let_def
    by (simp add: lands_settle lands_look split: option.split)
  with start show ?thesis by (intro exI [of _ t] conjI exI [of _ 3]) simp_all
next
  case (wake t p err)
  have "lands t 2 s s'" unfolding wake(1) woken_def by (simp add: lands_finish lands_look)
  with wake show ?thesis by (intro exI [of _ t] conjI exI [of _ 2]) simp_all
next
  case (open_done t)
  have "lands t 1 s s'" unfolding open_done(1) opened_def Let_def
    by (simp add: lands_finish lands_begin_pull split: option.split prod.split sum.split)
  with open_done show ?thesis by (intro exI [of _ t] conjI exI [of _ 1]) simp_all
next
  case (pull_done t p fd)
  have "lands t 0 s s'" unfolding pull_done(1) pulled_def Let_def
    by (simp add: lands_finish lands_deliver set_promise_def unqueue_def split: prod.split sum.split fault.split)
  with pull_done show ?thesis by (intro exI [of _ t] conjI exI [of _ 0]) simp_all
qed

lemma sum_list_update_less:
  assumes "t < length xs" "v < xs ! t"
  shows "sum_list (xs[t := v]) < sum_list (xs :: nat list)"
  using assms sum_list_update [of t xs v] member_le_sum_list [of "xs ! t" xs] by simp

lemma work_decreases: "rs_step env s s' \<Longrightarrow> work s' < work s"
proof -
  assume "rs_step env s s'"
  then obtain t n p where t: "t < length (rs_readers s)" "n < weight (rd_pc (rs_readers s ! t))" "weight p \<le> n"
    "rs_readers s' = (rs_readers s)[t := (rs_readers s ! t)\<lparr>rd_pc := p\<rparr>]"
    using step_lands unfolding lands_def by blast
  have "map (weight \<circ> rd_pc) (rs_readers s') = (map (weight \<circ> rd_pc) (rs_readers s))[t := weight p]"
    unfolding t(4) by (simp add: map_update)
  with t(1-3) show ?thesis unfolding work_def by (simp add: sum_list_update_less)
qed

lemma steps_end: "wfP (\<lambda>s' s. rs_step env s s')"
  by (rule wfp_subset [OF wfp_on_image [of work UNIV "(<)" , simplified]]) (auto simp: le_fun_def work_decreases)

lemma not_stuck:
  assumes inv: "rs_inv M {} s" and j: "j < length (rs_readers s)" and nf: "result_of (rs_readers s ! j) = None"
  shows "\<exists>s'. rs_step env s s'"
proof -
  have puller: "\<exists>s'. rs_step env s s'" if "pulls s {} p k" for p k
    using that unfolding pulls_def by (blast intro: rs_step.pull_done)
  have ok: "pc_ok M s {} (rs_readers s ! j)" using rs_invD(5) [OF inv j] by simp
  show ?thesis
  proof (cases "rd_pc (rs_readers s ! j)")
    case (Waiting p)
    with ok have "p \<in> fst ` set (rs_promises s) \<or> (\<exists>k. pulls s {} p k)" by (simp add: pc_ok_def)
    then show ?thesis
    proof
      assume "p \<in> fst ` set (rs_promises s)"
      then obtain err where "map_of (rs_promises s) p = Some err" by (metis map_of_eq_None_iff not_None_eq)
      with Waiting j show ?thesis by (blast intro: rs_step.wake)
    qed (use puller in blast)
  qed (use ok nf j in \<open>auto simp: pc_ok_def result_of_def intro: rs_step.start rs_step.pull_done\<close>)
qed

lemma quiescent:
  assumes "rs_inv M {} s" "\<And>s'. \<not> rs_step env s s'"
  shows "call_result k s \<noteq> None"
proof -
  have "result_of r \<noteq> None" if "r \<in> set (rs_readers s)" for r
    using not_stuck [OF assms(1)] assms(2) that by (metis in_set_conv_nth)
  then show ?thesis by (force simp: call_result_def Let_def)
qed

end
