(* ===== verification/Conc_Props.thy ===== *)
theory Conc_Props
  imports Cache_Conc
begin

text \<open>
  Properties of concurrent reads: what every interleaving delivers, that every call returns, and two
  schedules that go wrong when the descriptor is not open yet. With room for every page no read is
  cancelled; the first section shows that.
\<close>

section \<open>With room for every page\<close>

text \<open>
  When the cache has room for all pages in play no page leaves it, and then no read is cancelled: a
  page is pulled by one coroutine at a time, whose promise is the one in the queue.
\<close>

definition page_keys :: "cache \<Rightarrow> (nat \<times> nat) set" where
  "page_keys c = {k. has_page (fst k) (snd k) c}"

definition keys_in_play :: "(nat \<times> nat) set \<Rightarrow> 'd reads \<Rightarrow> (nat \<times> nat) set" where
  "keys_in_play K s = K \<union> rd_key ` set (rs_readers s)"

definition calm_pc :: "'d reads \<Rightarrow> read_coro \<Rightarrow> bool" where
  "calm_pc s r = (case rd_pc r of
     Waiting p \<Rightarrow> (rd_key r, p) \<in> set (rs_queue s) \<or> (rd_key r \<in> page_keys (rs_cache s) \<and> p \<in> fst ` set (rs_promises s))
   | Pulling p _ \<Rightarrow> (rd_key r, p) \<in> set (rs_queue s)
   | Finished v \<Rightarrow> (\<exists>n. v = Inr n)
   | _ \<Rightarrow> True)"

definition flights :: "nat set \<Rightarrow> read_coro list \<Rightarrow> bool" where
  "flights X rs = (\<forall>i<length rs. \<forall>j<length rs. i \<notin> X \<longrightarrow> j \<notin> X \<longrightarrow> is_pulling (rs ! i) \<longrightarrow> is_pulling (rs ! j) \<longrightarrow>
     rd_key (rs ! i) = rd_key (rs ! j) \<longrightarrow> i = j)"

definition ids_ok :: "((nat \<times> nat) \<times> nat) list \<Rightarrow> (nat \<times> errc) list \<Rightarrow> nat \<Rightarrow> bool" where
  "ids_ok q pr n = (distinct (map fst q) \<and> distinct (map snd q) \<and> snd ` set q \<subseteq> {..<n} \<and> fst ` set pr \<subseteq> {..<n} \<and>
     snd ` set q \<inter> fst ` set pr = {} \<and> snd ` set pr \<subseteq> {errc_ok})"

definition calm :: "(nat \<times> nat) set \<Rightarrow> nat set \<Rightarrow> 'd reads \<Rightarrow> bool" where
  "calm K X s = (page_keys (rs_cache s) \<subseteq> keys_in_play K s \<and>
     (\<forall>j<length (rs_readers s). j \<notin> X \<longrightarrow> calm_pc s (rs_readers s ! j)) \<and>
     flights X (rs_readers s) \<and> ids_ok (rs_queue s) (rs_promises s) (rs_next s))"

lemma calmD:
  assumes "calm K X s"
  shows "page_keys (rs_cache s) \<subseteq> keys_in_play K s"
    "j < length (rs_readers s) \<Longrightarrow> j \<notin> X \<Longrightarrow> calm_pc s (rs_readers s ! j)"
    "flights X (rs_readers s)" "ids_ok (rs_queue s) (rs_promises s) (rs_next s)"
  using assms by (simp_all add: calm_def)

lemma calm_single:
  assumes "calm K X s" "i < length (rs_readers s)" "j < length (rs_readers s)" "i \<notin> X" "j \<notin> X"
    "is_pulling (rs_readers s ! i)" "is_pulling (rs_readers s ! j)" "rd_key (rs_readers s ! i) = rd_key (rs_readers s ! j)"
  shows "i = j"
  using assms unfolding calm_def flights_def by blast

lemma calm_weaken: "calm K {} s \<Longrightarrow> calm K {t} s"
  unfolding calm_def flights_def by blast

lemma keys_settle [simp]: "keys_in_play K (settle t p s) = keys_in_play K s"
proof -
  have "map rd_key ((rs_readers s)[t := (rs_readers s ! t)\<lparr>rd_pc := p\<rparr>]) = map rd_key (rs_readers s)"
  proof (cases "t < length (rs_readers s)")
    case True
    then have "map rd_key ((rs_readers s)[t := (rs_readers s ! t)\<lparr>rd_pc := p\<rparr>]) =
      (map rd_key (rs_readers s))[t := map rd_key (rs_readers s) ! t]" by (simp add: map_update)
    then show ?thesis by (simp only: list_update_id)
  qed (simp add: list_update_beyond not_less)
  then have "rd_key ` set ((rs_readers s)[t := (rs_readers s ! t)\<lparr>rd_pc := p\<rparr>]) = rd_key ` set (rs_readers s)"
    by (metis set_map)
  then show ?thesis by (simp add: keys_in_play_def)
qed

lemma calm_settle:
  assumes c: "calm K {t} s" and t: "t < length (rs_readers s)"
    and p: "\<not> is_pulling ((rs_readers s ! t)\<lparr>rd_pc := p\<rparr>)" "calm_pc s ((rs_readers s ! t)\<lparr>rd_pc := p\<rparr>)"
  shows "calm K {} (settle t p s)"
proof -
  let ?s = "settle t p s"
  have q: "calm_pc ?s r = calm_pc s r" for r by (simp add: calm_pc_def split: pc.split)
  have "calm_pc ?s (rs_readers ?s ! j)" if "j < length (rs_readers s)" for j
    using calmD(2) [OF c that] p(2) t by (cases "j = t") (simp_all add: q)
  moreover have "i = j" if "i < length (rs_readers s)" "j < length (rs_readers s)" "is_pulling (rs_readers ?s ! i)"
    "is_pulling (rs_readers ?s ! j)" "rd_key (rs_readers ?s ! i) = rd_key (rs_readers ?s ! j)" for i j
  proof -
    have "i \<noteq> t" "j \<noteq> t" using that p(1) t by auto
    with that show ?thesis using calm_single [OF c that(1,2)] by simp
  qed
  ultimately show ?thesis using calmD [OF c] by (simp add: calm_def flights_def del: rs_settle_sel(9))
qed

lemma calm_begin_pull:
  assumes c: "calm K {t} s" and t: "t < length (rs_readers s)" and k: "rd_key (rs_readers s ! t) \<notin> fst ` set (rs_queue s)"
  shows "calm K {} (begin_pull t fd s)"
proof -
  let ?r = "rs_readers s ! t" and ?p = "rs_next s"
  let ?s0 = "s\<lparr>rs_next := Suc ?p, rs_queue := rs_queue s @ [(rd_key ?r, ?p)]\<rparr>"
  let ?s = "settle t (Pulling ?p fd) ?s0"
  have eq: "begin_pull t fd s = ?s" using k by (simp add: begin_pull_def Let_def)
  have q: "calm_pc s r \<Longrightarrow> calm_pc ?s r" for r by (auto simp: calm_pc_def split: pc.splits)
  have "calm_pc ?s (rs_readers ?s ! j)" if "j < length (rs_readers s)" for j
    using calmD(2) [OF c that] t q by (cases "j = t") (simp_all add: calm_pc_def)
  moreover have "i = j" if "i < length (rs_readers s)" "j < length (rs_readers s)" "is_pulling (rs_readers ?s ! i)"
    "is_pulling (rs_readers ?s ! j)" "rd_key (rs_readers ?s ! i) = rd_key (rs_readers ?s ! j)" for i j
  proof -
    have other: "rd_key (rs_readers s ! m) \<noteq> rd_key ?r" if "m < length (rs_readers s)" "m \<noteq> t" "is_pulling (rs_readers s ! m)" for m
      using calmD(2) [OF c that(1)] that(2,3) k by (force simp: calm_pc_def is_pulling_def split: pc.splits)
    show ?thesis
    proof (cases "i = t \<or> j = t")
      case True
      with that other [of i] other [of j] t show ?thesis by (cases "i = t"; cases "j = t") auto
    next
      case False
      with that show ?thesis using calm_single [OF c that(1,2)] by simp
    qed
  qed
  moreover have "keys_in_play K ?s = keys_in_play K s" by (simp only: keys_settle) (simp add: keys_in_play_def)
  moreover have "ids_ok (rs_queue ?s) (rs_promises ?s) (rs_next ?s)"
    using calmD(4) [OF c] k by (auto simp: ids_ok_def less_Suc_eq)
  ultimately show ?thesis using calmD(1) [OF c] unfolding eq by (simp add: calm_def flights_def del: rs_settle_sel(9))
qed

lemma calm_cache:
  assumes "calm K X s" "\<And>k i. has_page k i c = has_page k i (rs_cache s)"
  shows "calm K X (s\<lparr>rs_cache := c\<rparr>)"
proof -
  have pk: "page_keys c = page_keys (rs_cache s)" by (simp add: page_keys_def assms(2))
  have q: "calm_pc (s\<lparr>rs_cache := c\<rparr>) r = calm_pc s r" for r by (simp add: calm_pc_def pk split: pc.split)
  from assms(1) show ?thesis by (simp add: calm_def q pk keys_in_play_def)
qed

lemma calm_deliver:
  assumes inv: "rs_inv M {t} s" and t: "t < length (rs_readers s)" and nd: "\<not> delivered (rs_readers s ! t)"
    and cs: "calls_ok M (rs_calls s)"
    and hp: "has_page (rd_fid (rs_readers s ! t)) (rd_index (rs_readers s ! t)) (rs_cache s)" and c: "calm K {t} s"
  shows "calm K {} (deliver t s)"
proof -
  obtain c' n bufs where d: "deliver t s = settle t (Finished (Inr n)) (s\<lparr>rs_cache := c', rs_bufs := bufs\<rparr>)"
    and h: "\<And>k i. has_page k i c' = has_page k i (rs_cache s)"
    using inv_deliver(2) [OF inv t nd cs hp] by blast
  have "calm K {t} (s\<lparr>rs_cache := c'\<rparr>)" by (rule calm_cache [OF c h])
  then have "calm K {t} (s\<lparr>rs_cache := c', rs_bufs := bufs\<rparr>)"
    by (simp add: calm_def calm_pc_def keys_in_play_def cong: pc.case_cong)
  then show ?thesis unfolding d using t
    by (intro calm_settle) (simp_all add: is_pulling_def calm_pc_def)
qed

lemma calm_look:
  assumes inv: "rs_inv M {t} s" and t: "t < length (rs_readers s)" and nd: "\<not> delivered (rs_readers s ! t)"
    and cs: "calls_ok M (rs_calls s)" and c: "calm K {t} s"
    and k: "rd_key (rs_readers s ! t) \<notin> fst ` set (rs_queue s) \<or> rd_key (rs_readers s ! t) \<in> page_keys (rs_cache s)"
  shows "calm K {} (look t s)"
proof (cases "has_page (rd_fid (rs_readers s ! t)) (rd_index (rs_readers s ! t)) (rs_cache s)")
  case True
  then show ?thesis using calm_deliver [OF inv t nd cs True c] by (simp add: look_def Let_def)
next
  case False
  have "rd_fid (rs_readers s ! t) \<in> rm_files M" using inv_frame [OF inv cs t] by (auto simp: frame_of_def)
  then obtain e fd where "lookup (rd_fid (rs_readers s ! t)) (rs_cache s) = Some e" "e_read_fd e = Some fd"
    using ready_fd [OF rs_invD(1) [OF inv]] by metis
  moreover have "rd_key (rs_readers s ! t) \<notin> fst ` set (rs_queue s)" using k False by (simp add: page_keys_def rd_key_def)
  ultimately show ?thesis using False calm_begin_pull [OF c t, of fd] by (simp add: look_def Let_def)
qed

lemma calm_start:
  assumes inv: "rs_inv M {} s" and t: "t < length (rs_readers s)" and pc: "rd_pc (rs_readers s ! t) = Fresh"
    and cs: "calls_ok M (rs_calls s)" and c: "calm K {} s"
  shows "calm K {} (start_read t s)"
proof -
  let ?r = "rs_readers s ! t"
  let ?s = "s\<lparr>rs_cache := inc_read (rd_fid ?r) (rs_cache s)\<rparr>"
  have nd: "\<not> delivered ?r" "\<not> is_pulling ?r" using pc by (simp_all add: delivered_def is_pulling_def)
  have "rs_inv M {} ?s"
    by (rule inv_cache [OF inv ready_inflight(1) [OF rs_invD(1) [OF inv]]]) simp_all
  then have i1: "rs_inv M {t} ?s" by (rule inv_running) (simp add: nd)
  have c1: "calm K {t} ?s" using calm_cache [OF calm_weaken [OF c]] by simp
  show ?thesis
  proof (cases "map_of (rs_queue s) (rd_key ?r)")
    case None
    then have "rd_key ?r \<notin> fst ` set (rs_queue s)" by (simp add: map_of_eq_None_iff)
    then have "calm K {} (look t ?s)" using calm_look [OF i1 _ _ _ c1] t nd cs by simp
    with None show ?thesis by (simp add: start_read_def Let_def)
  next
    case (Some p)
    then have "calm_pc ?s (?r\<lparr>rd_pc := Waiting p\<rparr>)" by (simp add: calm_pc_def map_of_SomeD)
    with Some show ?thesis using calm_settle [OF c1] t by (simp add: start_read_def Let_def is_pulling_def)
  qed
qed

lemma calm_woken:
  assumes inv: "rs_inv M {} s" and t: "t < length (rs_readers s)" and pc: "rd_pc (rs_readers s ! t) = Waiting p"
    and cs: "calls_ok M (rs_calls s)" and c: "calm K {} s" and v: "map_of (rs_promises s) p = Some err"
  shows "calm K {} (woken t err s)"
proof -
  have nd: "\<not> delivered (rs_readers s ! t)" "\<not> is_pulling (rs_readers s ! t)"
    using pc by (simp_all add: delivered_def is_pulling_def)
  have m: "(p, err) \<in> set (rs_promises s)" by (rule map_of_SomeD [OF v])
  then have "p \<in> fst ` set (rs_promises s)" "err \<in> snd ` set (rs_promises s)" by force+
  then have "p \<notin> snd ` set (rs_queue s)" and e: "err = errc_ok" using calmD(4) [OF c] by (auto simp: ids_ok_def)
  moreover have "calm_pc s (rs_readers s ! t)" using calmD(2) [OF c t] by simp
  ultimately have "rd_key (rs_readers s ! t) \<in> page_keys (rs_cache s)" using pc by (force simp: calm_pc_def)
  with calm_look [OF inv_running [OF inv nd(2)] t nd(1) cs calm_weaken [OF c]] e show ?thesis by (simp add: woken_def)
qed

lemma cache_pages_card:
  assumes "cache_inv c"
  shows "length (m_lru c) = card (page_keys c)" "finite (page_keys c)"
proof -
  let ?f = "\<lambda>x. (pg_id (snd x), pg_index (snd x))"
  have get: "x \<in> set (m_lru c) \<longleftrightarrow> lru_get (fst x) c = Some (snd x)" for x
    using cache_invD(4) [OF assms] by (cases x) (simp add: lru_get_def)
  have "inj_on ?f (set (m_lru c))"
  proof (rule inj_onI)
    fix x y assume a: "x \<in> set (m_lru c)" "y \<in> set (m_lru c)" "?f x = ?f y"
    then have "page_at (pg_id (snd x)) (pg_index (snd x)) c = Some (fst x, snd x)"
      "page_at (pg_id (snd x)) (pg_index (snd x)) c = Some (fst y, snd y)"
      using get page_at_iff [OF assms] by (simp_all del: prod.collapse)
    then show "x = y" by (simp add: prod_eq_iff)
  qed
  moreover have "distinct (m_lru c)" using cache_invD(4) [OF assms] by (simp add: distinct_map)
  ultimately have "length (m_lru c) = card (set (map ?f (m_lru c)))"
    by (metis distinct_card distinct_map length_map)
  moreover have "set (map ?f (m_lru c)) = page_keys c"
  proof
    show "set (map ?f (m_lru c)) \<subseteq> page_keys c"
      using get has_page_iff [OF assms] page_at_iff [OF assms] by (fastforce simp: page_keys_def)
    show "page_keys c \<subseteq> set (map ?f (m_lru c))"
    proof
      fix k assume "k \<in> page_keys c"
      then obtain it pg where "lru_get it c = Some pg" "pg_id pg = fst k" "pg_index pg = snd k"
        using has_page_iff [OF assms] page_at_iff [OF assms] by (auto simp: page_keys_def)
      then have "(it, pg) \<in> set (m_lru c)" "k = ?f (it, pg)" using get [of "(it, pg)"] by (simp_all add: prod_eq_iff)
      then show "k \<in> set (map ?f (m_lru c))" unfolding set_map by blast
    qed
  qed
  ultimately show "length (m_lru c) = card (page_keys c)" "finite (page_keys c)" by (simp, metis List.finite_set)
qed

lemma calm_pulled:
  assumes inv: "rs_inv M {} s" and t: "t < length (rs_readers s)" and pc: "rd_pc (rs_readers s ! t) = Pulling p fd"
    and cs: "calls_ok M (rs_calls s)" and dev: "remote_serves env M" and c: "calm K {} s"
    and room: "finite K" "card (keys_in_play K s) \<le> rm_max M"
  shows "calm K {} (pulled env t p fd s)"
proof -
  let ?r = "rs_readers s ! t"
  let ?k = "rd_key ?r" and ?Q = "filter (\<lambda>q. fst q \<noteq> rd_key ?r) (rs_queue s)"
  have nd: "\<not> delivered ?r" "is_pulling ?r" using pc by (simp_all add: delivered_def is_pulling_def)
  have kp: "(?k, p) \<in> set (rs_queue s)" using calmD(2) [OF c t] pc by (simp add: calm_pc_def)
  then have kq: "?k \<in> fst ` set (rs_queue s)" by force
  have np: "?k \<notin> page_keys (rs_cache s)" using rs_invD(7) [OF inv] kp by (fastforce simp: queue_ok_def page_keys_def)
  have ci: "cache_inv (rs_cache s)"
    using rs_invD(1) [OF inv] inv_frame [OF inv cs t] by (auto simp: ready_def reading_def frame_of_def)
  have fin: "finite (keys_in_play K s)" using room(1) by (simp add: keys_in_play_def)
  have kk: "?k \<in> keys_in_play K s" using t by (simp add: keys_in_play_def)
  then have "card (insert ?k (page_keys (rs_cache s))) \<le> card (keys_in_play K s)"
    using calmD(1) [OF c] fin by (intro card_mono) auto
  then have small: "length (m_lru (rs_cache s)) < rm_max M"
    using cache_pages_card [OF ci] np room(2) by simp
  obtain c' d where eq: "pulled env t p fd s = deliver t (after_pull p errc_ok c' d ?Q s)"
    and i1: "rs_inv M {t} (after_pull p errc_ok c' d ?Q s)" and hp: "has_page (rd_fid ?r) (rd_index ?r) c'"
    and new: "\<And>k j. has_page k j c' \<Longrightarrow> has_page k j (rs_cache s) \<or> (k, j) = ?k"
    and old: "\<And>k j. has_page k j (rs_cache s) \<Longrightarrow> has_page k j c'"
    using pulled_arrives [OF inv t pc cs dev kq refl] small by blast
  let ?s = "after_pull p errc_ok c' d ?Q s"
  have "k \<in> insert ?k (page_keys (rs_cache s))" if "k \<in> page_keys c'" for k
    using new [of "fst k" "snd k"] that by (auto simp: page_keys_def)
  then have pk: "page_keys c' = insert ?k (page_keys (rs_cache s))"
    using old hp by (auto simp: page_keys_def rd_key_def)
  have ids: "ids_ok (rs_queue s) (rs_promises s) (rs_next s)" by (rule calmD(4) [OF c])
  then have uniq: "q = p" if "(?k, q) \<in> set (rs_queue s)" for q
    using kp that by (auto simp: ids_ok_def dest: eq_key_imp_eq_value)
  have "calm_pc ?s (rs_readers s ! j)" if j: "j < length (rs_readers s)" "j \<noteq> t" for j
  proof -
    have cj: "calm_pc s (rs_readers s ! j)" using calmD(2) [OF c j(1)] by simp
    have "rd_key (rs_readers s ! j) \<noteq> ?k" if "is_pulling (rs_readers s ! j)"
      using calm_single [OF c t j(1)] that nd(2) j(2) by auto
    with cj uniq show ?thesis
      by (cases "rd_key (rs_readers s ! j) = ?k") (auto simp: calm_pc_def pk is_pulling_def split: pc.splits)
  qed
  moreover have "flights {t} (rs_readers s)" using calmD(3) [OF calm_weaken [OF c]] .
  moreover have "ids_ok ?Q ((p, errc_ok) # rs_promises s) (rs_next s)"
  proof -
    have "p < rs_next s" using ids kp by (force simp: ids_ok_def)
    moreover have "p \<notin> snd ` set ?Q"
    proof
      assume "p \<in> snd ` set ?Q"
      then obtain k where "(k, p) \<in> set (rs_queue s)" "k \<noteq> ?k" by auto
      with kp ids show False by (metis (no_types, lifting) distinct_map ids_ok_def inj_onD prod.inject snd_conv)
    qed
    ultimately show ?thesis using ids by (auto simp: ids_ok_def distinct_map_filter)
  qed
  ultimately have "calm K {t} ?s"
    using calmD(1) [OF c] kk by (simp add: calm_def pk keys_in_play_def)
  from calm_deliver [OF i1 _ _ _ _ this] show ?thesis unfolding eq using t nd(1) cs hp by simp
qed

lemma keys_step: "rs_step env s s' \<Longrightarrow> keys_in_play K s' = keys_in_play K s"
proof -
  assume "rs_step env s s'"
  then obtain t p where "rs_readers s' = (rs_readers s)[t := (rs_readers s ! t)\<lparr>rd_pc := p\<rparr>]"
    using step_lands unfolding lands_def by blast
  then have "keys_in_play K s' = keys_in_play K (settle t p s)" by (simp add: keys_in_play_def)
  then show ?thesis by simp
qed

lemma keys_move: "rs_move env s s' \<Longrightarrow> keys_in_play K s \<subseteq> keys_in_play K s'"
  by (auto elim!: rs_move.cases simp: keys_step) (auto simp: keys_in_play_def call_read_def split: option.splits)

lemma calm_step:
  assumes "rs_step env s s'" "rs_inv M {} s" "calls_ok M (rs_calls s)" "remote_serves env M" "calm K {} s"
    "finite K" "card (keys_in_play K s) \<le> rm_max M"
  shows "calm K {} s'"
  using assms(1)
proof cases
  case (open_done t)
  then show ?thesis using rs_invD(5) [OF assms(2), of t] by (simp add: pc_ok_def)
qed (simp_all add: calm_start [OF assms(2)] calm_woken [OF assms(2)] calm_pulled [OF assms(2)] assms)

lemma calm_call:
  assumes c: "call_read fid out off s = Inr s'" and calm: "calm K {} s"
  shows "calm K {} s'"
proof -
  let ?new = "call_readers (m_page_size (rs_cache s)) (length (rs_calls s)) (fid, out, off)"
  have s': "s' = s\<lparr>rs_calls := rs_calls s @ [(fid, out, off)], rs_bufs := rs_bufs s @ [out], rs_readers := rs_readers s @ ?new\<rparr>"
    using c by (simp add: call_read_def split: option.splits)
  have q: "calm_pc s' r = calm_pc s r" for r by (simp add: calm_pc_def s' split: pc.split)
  have fresh: "rd_pc (?new ! j) = Fresh" if "j < length ?new" for j using call_fresh [OF nth_mem [OF that]] by simp
  have "calm_pc s' (rs_readers s' ! j)" if "j < length (rs_readers s')" for j
    using that calmD(2) [OF calm, of j] fresh [of "j - length (rs_readers s)"]
    by (cases "j < length (rs_readers s)") (simp_all add: q, simp_all add: s' nth_append calm_pc_def)
  moreover have "flights {} (rs_readers s')"
  proof -
    have "i < length (rs_readers s)" if "i < length (rs_readers s')" "is_pulling (rs_readers s' ! i)" for i
      using that fresh [of "i - length (rs_readers s)"] by (auto simp: s' nth_append is_pulling_def split: if_splits)
    with calmD(3) [OF calm] show ?thesis unfolding flights_def
      by (metis (no_types, lifting) nth_append reads.select_convs(7) reads.surjective reads.update_convs(5,6,7) s')
  qed
  moreover have "page_keys (rs_cache s') \<subseteq> keys_in_play K s'"
    using calmD(1) [OF calm] keys_move [OF rs_move.call [OF c]] by (auto simp: s')
  ultimately show ?thesis using calmD(4) [OF calm] by (simp add: calm_def s')
qed

lemma calm_run:
  assumes "(rs_move env)\<^sup>*\<^sup>* (mk_reads c d) s" "ready M c" "m_page_size c = rm_page M" "calls_ok M (rs_calls s)" "remote_serves env M"
    "finite (page_keys c)" "card (keys_in_play (page_keys c) s) \<le> rm_max M"
  shows "calm (page_keys c) {} s"
  using assms(1,4,7)
proof (induction rule: rtranclp_induct)
  case base
  then show ?case by (simp add: calm_def mk_reads_def keys_in_play_def flights_def ids_ok_def)
next
  case (step s s')
  let ?K = "page_keys c"
  obtain cs where "rs_calls s' = rs_calls s @ cs" using move_calls [OF step(2)] by blast
  with step(4) have ok: "calls_ok M (rs_calls s)" by (auto simp: calls_ok_def)
  have "finite (keys_in_play ?K s')" using assms(6) by (simp add: keys_in_play_def)
  then have room: "card (keys_in_play ?K s) \<le> rm_max M"
    using card_mono [OF _ keys_move [OF step(2)], of ?K] step(5) by simp
  have inv: "rs_inv M {} s" by (rule inv_run [OF step(1) inv_start_state [OF assms(2,3)] ok assms(5)])
  from step(3) [OF ok room] have "calm ?K {} s" .
  with step(2) show ?case
    by (auto elim!: rs_move.cases intro: calm_step [OF _ inv ok assms(5) _ assms(6) room] calm_call)
qed

lemma sum_results_ok: "\<forall>v\<in>set vs. \<exists>n. v = Inr n \<Longrightarrow> \<exists>m. sum_results n vs = Inr m"
  by (induction n vs rule: sum_results.induct) auto

lemma all_delivered:
  assumes "call_result k s = Some v" "\<And>r. r \<in> set (rs_readers s) \<Longrightarrow> result_of r \<noteq> None \<Longrightarrow> \<exists>n. result_of r = Some (Inr n)"
  shows "\<exists>n. v = Inr n"
proof -
  let ?rs = "filter (\<lambda>r. rd_call r = k) (rs_readers s)"
  have v: "v = sum_results 0 (map (the \<circ> result_of) ?rs)" and n: "None \<notin> result_of ` set ?rs"
    using assms(1) by (auto simp: call_result_def Let_def comp_def split: if_splits)
  have "\<exists>n. (the \<circ> result_of) r = Inr n" if "r \<in> set ?rs" for r
    using assms(2) [of r] n that by force
  then show ?thesis unfolding v by (intro sum_results_ok) auto
qed

section \<open>Properties\<close>

text \<open>C4: concurrent reads. Any number of reads of files the device serves run at the same time, their
  coroutines interleaved in any way and new calls made at any time, with a descriptor open for each
  file. A read that has returned has delivered the bytes of the file at its place, as many as there
  are, and left the rest of its buffer alone; only when the pages in play are more than the cache may
  hold it can fail instead, with \<^verbatim>\<open>operation_canceled\<close>.\<close>

theorem concurrent_reads:
  assumes "remote_serves env M" "ready M c" "m_page_size c = rm_page M" "(rs_move env)\<^sup>*\<^sup>* (mk_reads c d) s"
    "calls_ok M (rs_calls s)" "k < length (rs_calls s)" "rs_calls s ! k = (fid, out, off)" "call_result k s = Some v"
  shows "(v = Inr (min (length out) (length (rm_content M fid) - off)) \<and>
      rs_bufs s ! k = take (length out) (drop off (rm_content M fid)) @ drop (length (rm_content M fid) - off) out) \<or>
    (v = Unexpect operation_canceled \<and> rm_max M < card (page_keys c \<union> rd_key ` set (rs_readers s)))"
proof -
  have inv: "rs_inv M {} s" by (rule inv_run [OF assms(4) inv_start_state [OF assms(2,3)] assms(5,1)])
  let ?R = "wanted M (fid, out, off)"
  have "(fid, out, off) \<in> set (rs_calls s)" using assms(6,7) by (metis nth_mem)
  then have F: "fid \<in> rm_files M" using assms(5) by (auto simp: calls_ok_def)
  then have "cache_inv c" using assms(2) by (auto simp: ready_def reading_def)
  then have fin: "finite (page_keys c)" by (rule cache_pages_card)
  have R: "length ?R = min (length out) (length (rm_content M fid) - off)" "drop (length ?R) out = drop (length (rm_content M fid) - off) out"
    by (auto simp: wanted_def min_def)
  from inv_result [OF inv assms(5-8)] show ?thesis
  proof
    assume v: "v = Unexpect operation_canceled"
    have "rm_max M < card (keys_in_play (page_keys c) s)"
    proof (rule ccontr)
      assume "\<not> rm_max M < card (keys_in_play (page_keys c) s)"
      then have calm: "calm (page_keys c) {} s"
        using calm_run [OF assms(4,2,3,5,1) fin] by simp
      have "\<exists>n. result_of r = Some (Inr n)" if r: "r \<in> set (rs_readers s)" "result_of r \<noteq> None" for r
      proof -
        obtain j where "j < length (rs_readers s)" "rs_readers s ! j = r" using r(1) by (auto simp: in_set_conv_nth)
        then have "calm_pc s r" using calmD(2) [OF calm] by blast
        with r(2) show ?thesis by (auto simp: calm_pc_def result_of_def split: pc.splits)
      qed
      with assms(8) have "\<exists>n. v = Inr n" by (rule all_delivered)
      with v show False by simp
    qed
    with v show ?thesis by (simp add: keys_in_play_def)
  next
    assume "v = Inr (length ?R) \<and> rs_bufs s ! k = ?R @ drop (length ?R) out"
    then show ?thesis using R by (simp add: wanted_def)
  qed
qed

text \<open>C5: reads do not wait for each other forever. Whatever the device answers, the steps that serve the calls
  made so far come to an end in every schedule; and in a run as above, a state in which none of them is
  possible has every call returned, so no coroutine waits for a promise that nobody will set.\<close>

theorem concurrent_reads_return:
  assumes "remote_serves env M" "ready M c" "m_page_size c = rm_page M" "(rs_move env)\<^sup>*\<^sup>* (mk_reads c d) s"
    "calls_ok M (rs_calls s)"
  shows "wfP (\<lambda>s' s. rs_step env s s') \<and> ((\<forall>s'. \<not> rs_step env s s') \<longrightarrow> (\<forall>k. call_result k s \<noteq> None))"
  using steps_end quiescent [OF inv_run [OF assms(4) inv_start_state [OF assms(2,3)] assms(5,1)]] by blast

section \<open>Concrete runs\<close>

lemmas conc_eval = cache_eval call_readers_def settle_def finish_def deliver_def begin_pull_def
  look_def start_read_def woken_def opened_def pulled_def set_promise_def unqueue_def insert_page_def fetched_def rd_key_def
  call_result_def result_of_def page_read_def

text \<open>A device with one file that hands out a new descriptor for every open request.\<close>

definition fd_env :: "u8 list \<Rightarrow> nat env" where
  "fd_env content =
     \<lparr>ev_send = (\<lambda>req d. (case req of
          ReqOpen p m \<Rightarrow> (Inr (RespOpen (word_of_nat (Suc d))), Suc d)
        | ReqRead fd off sz \<Rightarrow> (Inr (RespRead (take (unat sz) (drop (unat off) content))), d)
        | _ \<Rightarrow> (Inl function_not_supported, d))),
      ev_reconnection = (\<lambda>d. (None, d)), ev_steady = (\<lambda>_. 0), ev_system = (\<lambda>_. zero_time), ev_fuel = 8\<rparr>"

lemma fd_env_ops:
  "conn_open (fd_env content) p m d = (Inr (word_of_nat (Suc d)), Suc d)"
  "n < 2 ^ 64 \<Longrightarrow> conn_read (fd_env content) fd n off d = (Inr (take n (drop (unat off) content)), d)"
  by (simp_all add: conn_open_def conn_read_def get_resp_def send_req_immediate fd_env_def unat_u64)

abbreviation six :: "u8 list" where
  "six \<equiv> [1, 2, 3, 4, 5, 6]"

text \<open>Two reads of the first page of a file, before any of their coroutines has started; the file has the
  descriptor \<open>fd\<close>, if any.\<close>

definition one_file :: "u64 option \<Rightarrow> cache" where
  "one_file fd = (small_cache 8)\<lparr>m_table := [(7, (new_entry root_path)\<lparr>e_read_fd := fd\<rparr>)]\<rparr>"

definition page_reader :: "nat \<Rightarrow> nat \<Rightarrow> pc \<Rightarrow> read_coro" where
  "page_reader k off p = \<lparr>rd_call = k, rd_fid = 7, rd_index = 0, rd_first = 0, rd_last = 0, rd_offset = off, rd_pc = p\<rparr>"

definition two_reads :: "u64 option \<Rightarrow> nat reads" where
  "two_reads fd = \<lparr>rs_cache = one_file fd, rs_queue = [], rs_promises = [], rs_next = 0,
     rs_calls = [(7, [0, 0], 0), (7, [0, 0], 1)], rs_bufs = [[0, 0], [0, 0]],
     rs_readers = [page_reader 0 0 Fresh, page_reader 1 1 Fresh], rs_dev = 0\<rparr>"

text \<open>The states of the runs below: the pages with their index, the descriptor, the count of reads in flight, the
  queue, the promises, the buffers and the points of the two coroutines.\<close>

definition one_file_pages :: "(nat \<times> page) list \<Rightarrow> u64 option \<Rightarrow> int \<Rightarrow> cache" where
  "one_file_pages lru fd n = (small_cache 8)\<lparr>m_lru := lru, m_next := length lru,
     m_table := [(7, (new_entry root_path)\<lparr>e_pages := (if lru = [] then [] else [(0, 0)]), e_read_fd := fd, e_read_inflight := n\<rparr>)]\<rparr>"

definition racing :: "cache \<Rightarrow> ((nat \<times> nat) \<times> nat) list \<Rightarrow> (nat \<times> errc) list \<Rightarrow> nat \<Rightarrow> u8 list list \<Rightarrow> pc \<Rightarrow> pc \<Rightarrow> nat \<Rightarrow> nat reads" where
  "racing c q pr n bufs p0 p1 d = \<lparr>rs_cache = c, rs_queue = q, rs_promises = pr, rs_next = n,
     rs_calls = [(7, [0, 0], 0), (7, [0, 0], 1)], rs_bufs = bufs, rs_readers = [page_reader 0 0 p0, page_reader 1 1 p1], rs_dev = d\<rparr>"

definition first_page :: page where
  "first_page = mk_page 7 0 [1, 2, 3, 4] 4 4"

lemmas run_eval = conc_eval two_reads_def one_file_def one_file_pages_def racing_def first_page_def page_reader_def small_cache_def fd_env_ops

lemma racing_sel [simp]:
  "length (rs_readers (racing c q pr n bufs p0 p1 d)) = 2" "rd_pc (rs_readers (racing c q pr n bufs p0 p1 d) ! 0) = p0"
  "rd_pc (rs_readers (racing c q pr n bufs p0 p1 d) ! Suc 0) = p1" "rs_promises (racing c q pr n bufs p0 p1 d) = pr"
  "rs_dev (racing c q pr n bufs p0 p1 d) = d" "rs_cache (racing c q pr n bufs p0 p1 d) = c"
  by (simp_all add: racing_def page_reader_def)

lemma two_reads_called: "(rs_move env)\<^sup>*\<^sup>* (mk_reads (one_file fd) 0) (two_reads fd)"
proof -
  let ?s = "(two_reads fd)\<lparr>rs_calls := [(7, [0, 0], 0)], rs_bufs := [[0, 0]], rs_readers := [page_reader 0 0 Fresh]\<rparr>"
  have "call_read 7 [0, 0] 0 (mk_reads (one_file fd) 0) = Inr ?s" "call_read 7 [0, 0] 1 ?s = Inr (two_reads fd)"
    by (simp_all add: call_read_def mk_reads_def run_eval)
  then show ?thesis by (blast intro: rs_move.call r_into_rtranclp rtranclp_trans)
qed

lemma step_run: "(rs_move env)\<^sup>*\<^sup>* s0 s \<Longrightarrow> rs_step env s s' \<Longrightarrow> (rs_move env)\<^sup>*\<^sup>* s0 s'"
  by (blast intro: rs_move.serve rtranclp.rtrancl_into_rtrancl)

text \<open>With the descriptor open the second read waits for the page the first one pulls.\<close>

definition shared_run :: "nat reads" where
  "shared_run = racing (one_file_pages [(0, first_page)] (Some 9) 0) [] [(0, errc_ok)] 1 [[1, 2], [2, 3]] (Finished (Inr 2)) (Finished (Inr 2)) 0"

lemma shared_steps:
  "start_read 0 (two_reads (Some 9)) = racing (one_file_pages [] (Some 9) 1) [((7, 0), 0)] [] 1 [[0, 0], [0, 0]] (Pulling 0 9) Fresh 0"
  "start_read 1 (racing (one_file_pages [] (Some 9) 1) [((7, 0), 0)] [] 1 [[0, 0], [0, 0]] (Pulling 0 9) Fresh 0) =
     racing (one_file_pages [] (Some 9) 2) [((7, 0), 0)] [] 1 [[0, 0], [0, 0]] (Pulling 0 9) (Waiting 0) 0"
  "pulled (fd_env six) 0 0 9 (racing (one_file_pages [] (Some 9) 2) [((7, 0), 0)] [] 1 [[0, 0], [0, 0]] (Pulling 0 9) (Waiting 0) 0) =
     racing (one_file_pages [(0, first_page)] (Some 9) 1) [] [(0, errc_ok)] 1 [[1, 2], [0, 0]] (Finished (Inr 2)) (Waiting 0) 0"
  "woken 1 errc_ok (racing (one_file_pages [(0, first_page)] (Some 9) 1) [] [(0, errc_ok)] 1 [[1, 2], [0, 0]] (Finished (Inr 2)) (Waiting 0) 0) =
     shared_run"
  by (simp_all add: run_eval shared_run_def)

lemma step_by: "(rs_move env)\<^sup>*\<^sup>* s0 s \<Longrightarrow> s1 = s' \<Longrightarrow> rs_step env s s1 \<Longrightarrow> (rs_move env)\<^sup>*\<^sup>* s0 s'"
  using step_run by blast

lemma shared_run_reached: "(rs_move (fd_env six))\<^sup>*\<^sup>* (mk_reads (one_file (Some 9)) 0) shared_run"
proof -
  have "(rs_move (fd_env six))\<^sup>*\<^sup>* (mk_reads (one_file (Some 9)) 0)
      (racing (one_file_pages [] (Some 9) 1) [((7, 0), 0)] [] 1 [[0, 0], [0, 0]] (Pulling 0 9) Fresh 0)"
    by (rule step_by [OF two_reads_called shared_steps(1)]) (rule rs_step.start, simp_all add: two_reads_def page_reader_def)
  then have "(rs_move (fd_env six))\<^sup>*\<^sup>* (mk_reads (one_file (Some 9)) 0)
      (racing (one_file_pages [] (Some 9) 2) [((7, 0), 0)] [] 1 [[0, 0], [0, 0]] (Pulling 0 9) (Waiting 0) 0)"
    by (rule step_by [OF _ shared_steps(2)]) (rule rs_step.start, simp_all)
  then have "(rs_move (fd_env six))\<^sup>*\<^sup>* (mk_reads (one_file (Some 9)) 0)
      (racing (one_file_pages [(0, first_page)] (Some 9) 1) [] [(0, errc_ok)] 1 [[1, 2], [0, 0]] (Finished (Inr 2)) (Waiting 0) 0)"
    by (rule step_by [OF _ shared_steps(3)]) (rule rs_step.pull_done, simp_all)
  then show ?thesis by (rule step_by [OF _ shared_steps(4)]) (rule rs_step.wake, simp_all)
qed

definition six_remote :: remote where
  "six_remote = \<lparr>rm_files = {7}, rm_path = (\<lambda>_. root_path), rm_fds = (\<lambda>_. UNIV), rm_content = (\<lambda>_. six), rm_page = 4, rm_max = 8\<rparr>"

lemma six_serves: "remote_serves (fd_env six) six_remote"
proof -
  have "n < 2 ^ 32 \<Longrightarrow> n < 2 ^ 64" for n :: nat by simp
  then show ?thesis by (auto simp: remote_serves_def serves_def open_ok_def six_remote_def fd_env_ops)
qed

lemma six_ready: "ready six_remote (one_file (Some 9))"
  by (auto simp: ready_def clean_def reading_def coherent_def cache_inv_def entry_ok_def six_remote_def one_file_def small_cache_def
      lookup_def lru_get_def new_entry_def)

lemma shared_calls: "rs_calls shared_run = [(7, [0, 0], 0), (7, [0, 0], 1)]"
  by (simp add: shared_run_def racing_def)

lemma shared_calls_ok: "calls_ok six_remote (rs_calls shared_run)"
  by (simp add: shared_calls calls_ok_def six_remote_def access_ok_def)

theorem concurrent_reads_witness:
  "\<exists>s. (rs_move (fd_env six))\<^sup>*\<^sup>* (mk_reads (one_file (Some 9)) 0) s \<and> rs_bufs s ! 1 = [2, 3]"
proof -
  have v: "call_result 1 shared_run = Some (Inr 2)"
    by (simp add: shared_run_def racing_def page_reader_def call_result_def result_of_def)
  have "rs_calls shared_run ! 1 = (7, [0, 0], 1)" by (simp add: shared_calls)
  from concurrent_reads [OF six_serves six_ready _ shared_run_reached shared_calls_ok _ this v]
  have "rs_bufs shared_run ! 1 = [2, 3]" by (simp add: six_remote_def one_file_def small_cache_def shared_calls)
  with shared_run_reached show ?thesis by blast
qed

theorem concurrent_reads_return_witness:
  "call_result 0 (two_reads (Some 9)) = None \<and> (\<exists>s'. rs_step (fd_env six) (two_reads (Some 9)) s')"
proof -
  have "calls_ok six_remote (rs_calls (two_reads (Some 9)))" by (simp add: two_reads_def calls_ok_def six_remote_def access_ok_def)
  from concurrent_reads_return [OF six_serves six_ready _ two_reads_called this]
  have "(\<exists>s'. rs_step (fd_env six) (two_reads (Some 9)) s') \<or> call_result 0 (two_reads (Some 9)) \<noteq> None"
    by (auto simp: six_remote_def one_file_def small_cache_def)
  moreover have "call_result 0 (two_reads (Some 9)) = None" by (simp add: two_reads_def page_reader_def conc_eval)
  ultimately show ?thesis by blast
qed

text \<open>Without a descriptor both open the file; the answers come in two orders.\<close>

lemma race_start:
  "start_read 0 (two_reads None) = racing (one_file_pages [] None 1) [] [] 0 [[0, 0], [0, 0]] Opening Fresh 0"
  by (simp add: run_eval)

lemma race_steps:
  "start_read 1 (racing (one_file_pages [] None 1) [] [] 0 [[0, 0], [0, 0]] Opening Fresh 0) =
     racing (one_file_pages [] None 2) [] [] 0 [[0, 0], [0, 0]] Opening Opening 0"
  "opened (fd_env six) 0 (racing (one_file_pages [] None 2) [] [] 0 [[0, 0], [0, 0]] Opening Opening 0) =
     racing (one_file_pages [] (Some 1) 2) [((7, 0), 0)] [] 1 [[0, 0], [0, 0]] (Pulling 0 1) Opening 1"
  "pulled (fd_env six) 0 0 1 (racing (one_file_pages [] (Some 1) 2) [((7, 0), 0)] [] 1 [[0, 0], [0, 0]] (Pulling 0 1) Opening 1) =
     racing (one_file_pages [(0, first_page)] (Some 1) 1) [] [(0, errc_ok)] 1 [[1, 2], [0, 0]] (Finished (Inr 2)) Opening 1"
  "opened (fd_env six) 1 (racing (one_file_pages [(0, first_page)] (Some 1) 1) [] [(0, errc_ok)] 1 [[1, 2], [0, 0]] (Finished (Inr 2)) Opening 1) =
     racing (one_file_pages [(0, first_page)] (Some 2) 1) [((7, 0), 1)] [(0, errc_ok)] 2 [[1, 2], [0, 0]] (Finished (Inr 2)) (Pulling 1 2) 2"
  "pulled (fd_env six) 1 1 2 (racing (one_file_pages [(0, first_page)] (Some 2) 1) [((7, 0), 1)] [(0, errc_ok)] 2 [[1, 2], [0, 0]]
       (Finished (Inr 2)) (Pulling 1 2) 2) =
     racing (one_file_pages [(0, first_page), (1, first_page)] (Some 2) 0) [] [(1, errc_ok), (0, errc_ok)] 2 [[1, 2], [2, 3]]
       (Finished (Inr 2)) (Finished (Inr 2)) 2"
  by (simp_all add: run_eval)

lemma race_opened: "(rs_move (fd_env six))\<^sup>*\<^sup>* (mk_reads (one_file None) 0)
    (racing (one_file_pages [] (Some 1) 2) [((7, 0), 0)] [] 1 [[0, 0], [0, 0]] (Pulling 0 1) Opening 1)"
proof -
  have "(rs_move (fd_env six))\<^sup>*\<^sup>* (mk_reads (one_file None) 0) (racing (one_file_pages [] None 1) [] [] 0 [[0, 0], [0, 0]] Opening Fresh 0)"
    by (rule step_by [OF two_reads_called race_start]) (rule rs_step.start, simp_all add: two_reads_def page_reader_def)
  then have "(rs_move (fd_env six))\<^sup>*\<^sup>* (mk_reads (one_file None) 0) (racing (one_file_pages [] None 2) [] [] 0 [[0, 0], [0, 0]] Opening Opening 0)"
    by (rule step_by [OF _ race_steps(1)]) (rule rs_step.start, simp_all)
  then show ?thesis by (rule step_by [OF _ race_steps(2)]) (rule rs_step.open_done, simp_all)
qed

text \<open>One order of the answers inserts a second copy of the page into the list behind the index's back.\<close>

lemma open_race_duplicates:
  "\<exists>s. (rs_move (fd_env six))\<^sup>*\<^sup>* (mk_reads (one_file None) 0) s \<and>
      map (\<lambda>(it, pg). (pg_id pg, pg_index pg)) (m_lru (rs_cache s)) = [(7, 0), (7, 0)]"
proof -
  let ?run = "(rs_move (fd_env six))\<^sup>*\<^sup>* (mk_reads (one_file None) 0)"
  have "?run (racing (one_file_pages [(0, first_page)] (Some 1) 1) [] [(0, errc_ok)] 1 [[1, 2], [0, 0]] (Finished (Inr 2)) Opening 1)"
    by (rule step_by [OF race_opened race_steps(3)]) (rule rs_step.pull_done, simp_all)
  then have "?run (racing (one_file_pages [(0, first_page)] (Some 2) 1) [((7, 0), 1)] [(0, errc_ok)] 2 [[1, 2], [0, 0]] (Finished (Inr 2)) (Pulling 1 2) 2)"
    by (rule step_by [OF _ race_steps(4)]) (rule rs_step.open_done, simp_all)
  then have "?run (racing (one_file_pages [(0, first_page), (1, first_page)] (Some 2) 0) [] [(1, errc_ok), (0, errc_ok)] 2 [[1, 2], [2, 3]]
       (Finished (Inr 2)) (Finished (Inr 2)) 2)"
    by (rule step_by [OF _ race_steps(5)]) (rule rs_step.pull_done, simp_all)
  then show ?thesis by (intro exI conjI) (assumption, simp add: one_file_pages_def first_page_def mk_page_def)
qed

lemma has_page_inc [simp]: "has_page fid i (inc_read k c) = has_page fid i c"
  by (auto simp: has_page_def inc_read_def split: option.splits)

text \<open>The two ways into the race, for one coroutine: it starts without page and descriptor, and its open is answered.\<close>

lemma start_opening:
  assumes "lookup (rd_fid (rs_readers s ! t)) (rs_cache s) = Some e" "e_read_fd e = None"
    "\<not> has_page (rd_fid (rs_readers s ! t)) (rd_index (rs_readers s ! t)) (rs_cache s)"
    "rd_key (rs_readers s ! t) \<notin> fst ` set (rs_queue s)"
  shows "start_read t s = settle t Opening (s\<lparr>rs_cache := inc_read (rd_fid (rs_readers s ! t)) (rs_cache s)\<rparr>)"
proof -
  have "map_of (rs_queue s) (rd_key (rs_readers s ! t)) = None" using assms(4) by (simp add: map_of_eq_None_iff)
  moreover have "lookup (rd_fid (rs_readers s ! t)) (inc_read (rd_fid (rs_readers s ! t)) (rs_cache s)) =
      Some (e\<lparr>e_read_inflight := e_read_inflight e + 1\<rparr>)" using assms(1) by (simp add: inc_read_def)
  ultimately show ?thesis using assms(2,3) by (simp add: start_read_def look_def Let_def)
qed

lemma opened_pulling:
  assumes "lookup (rd_fid (rs_readers s ! t)) (rs_cache s) = Some e" "conn_open env (e_path e) OM_Read (rs_dev s) = (Inr fd, d)"
  shows "opened env t s = begin_pull t fd (s\<lparr>rs_dev := d,
    rs_cache := upd_entry (rd_fid (rs_readers s ! t)) (\<lambda>e. e\<lparr>e_read_fd := Some fd\<rparr>) (rs_cache s)\<rparr>)"
  using assms by (simp add: opened_def)

text \<open>A pull that is answered takes its page out of the queue and leaves the other coroutines alone; a pull whose page
  is no longer queued is cancelled.\<close>

lemma deliver_others:
  "rs_queue (deliver t s) = rs_queue s" "u \<noteq> t \<Longrightarrow> rs_readers (deliver t s) ! u = rs_readers s ! u"
  "length (rs_readers (deliver t s)) = length (rs_readers s)"
  by (simp_all add: deliver_def finish_def Let_def split: prod.split sum.split)

lemma pulled_others:
  assumes "is_ok (fst (conn_read env fd (m_page_size (rs_cache s)) (word_of_nat (mul64 (rd_index (rs_readers s ! t)) (m_page_size (rs_cache s)))) (rs_dev s)))"
  shows "rd_key (rs_readers s ! t) \<notin> fst ` set (rs_queue (pulled env t p fd s))"
    "u \<noteq> t \<Longrightarrow> rs_readers (pulled env t p fd s) ! u = rs_readers s ! u"
    "length (rs_readers (pulled env t p fd s)) = length (rs_readers s)"
  using assms by (auto simp: pulled_def Let_def deliver_others finish_def set_promise_def unqueue_def split: prod.split sum.split)

lemma pulled_cancelled:
  assumes "is_ok (fst (conn_read env fd (m_page_size (rs_cache s)) (word_of_nat (mul64 (rd_index (rs_readers s ! t)) (m_page_size (rs_cache s)))) (rs_dev s)))"
    "rd_key (rs_readers s ! t) \<notin> fst ` set (rs_queue s)" "t < length (rs_readers s)"
  shows "rd_pc (rs_readers (pulled env t p fd s) ! t) = Finished (Unexpect operation_canceled)"
  using assms by (auto simp: pulled_def Let_def finish_def set_promise_def split: prod.split sum.split)

lemma both_open:
  assumes "t < length (rs_readers s)" "u < length (rs_readers s)" "t \<noteq> u"
    "rd_pc (rs_readers s ! t) = Fresh" "rd_pc (rs_readers s ! u) = Fresh"
    "rd_fid (rs_readers s ! t) = fid" "rd_fid (rs_readers s ! u) = fid"
    "lookup fid (rs_cache s) = Some e" "e_read_fd e = None"
    "\<forall>r\<in>{rs_readers s ! t, rs_readers s ! u}. \<not> has_page fid (rd_index r) (rs_cache s) \<and> rd_key r \<notin> fst ` set (rs_queue s)"
    "conn_open env (e_path e) OM_Read (rs_dev s) = (Inr fd1, d1)" "conn_open env (e_path e) OM_Read d1 = (Inr fd2, d2)"
  shows "\<exists>s1. (rs_step env)\<^sup>*\<^sup>* s s1 \<and> length (rs_readers s1) = length (rs_readers s) \<and> rs_dev s1 = d2 \<and>
    rs_readers s1 ! t = (rs_readers s ! t)\<lparr>rd_pc := Pulling (rs_next s) fd1\<rparr> \<and>
    rs_readers s1 ! u = (rs_readers s ! u)\<lparr>rd_pc := Pulling (Suc (rs_next s)) fd2\<rparr> \<and>
    map_option e_read_fd (lookup fid (rs_cache s1)) = Some (Some fd2)"
proof -
  define sa where "sa = start_read t s"
  define sb where "sb = start_read u sa"
  define sc where "sc = opened env t sb"
  define sd where "sd = opened env u sc"
  have a: "sa = settle t Opening (s\<lparr>rs_cache := inc_read fid (rs_cache s)\<rparr>)"
    using assms start_opening [of s t e] by (simp add: sa_def)
  have la: "lookup fid (rs_cache sa) = Some (e\<lparr>e_read_inflight := e_read_inflight e + 1\<rparr>)" using assms(8) by (simp add: a inc_read_def)
  have b: "sb = settle u Opening (sa\<lparr>rs_cache := inc_read fid (rs_cache sa)\<rparr>)"
    using start_opening [of sa u] la assms by (simp add: sb_def a)
  have lb: "lookup fid (rs_cache sb) = Some (e\<lparr>e_read_inflight := e_read_inflight e + 1 + 1\<rparr>)" using la by (simp add: b inc_read_def)
  have rb: "rs_readers sb ! t = (rs_readers s ! t)\<lparr>rd_pc := Opening\<rparr>" "rs_readers sb ! u = (rs_readers s ! u)\<lparr>rd_pc := Opening\<rparr>"
    "rs_dev sb = rs_dev s" "rs_next sb = rs_next s" "length (rs_readers sb) = length (rs_readers s)"
    using assms(1-3) by (simp_all add: b a)
  have c: "sc = begin_pull t fd1 (sb\<lparr>rs_dev := d1, rs_cache := upd_entry fid (\<lambda>e. e\<lparr>e_read_fd := Some fd1\<rparr>) (rs_cache sb)\<rparr>)"
    using opened_pulling [of sb t _ env fd1 d1] lb rb assms(6,11) by (simp add: sc_def)
  have lc: "lookup fid (rs_cache sc) = Some (e\<lparr>e_read_inflight := e_read_inflight e + 1 + 1, e_read_fd := Some fd1\<rparr>)"
    using lb by (simp add: c begin_pull_def Let_def)
  have rc: "rs_readers sc ! t = (rs_readers s ! t)\<lparr>rd_pc := Pulling (rs_next s) fd1\<rparr>" "rs_readers sc ! u = (rs_readers s ! u)\<lparr>rd_pc := Opening\<rparr>"
    "rs_dev sc = d1" "rs_next sc = Suc (rs_next s)" "length (rs_readers sc) = length (rs_readers s)"
    using rb assms(1-3) by (simp_all add: c begin_pull_def Let_def)
  have d: "sd = begin_pull u fd2 (sc\<lparr>rs_dev := d2, rs_cache := upd_entry fid (\<lambda>e. e\<lparr>e_read_fd := Some fd2\<rparr>) (rs_cache sc)\<rparr>)"
    using opened_pulling [of sc u _ env fd2 d2] lc rc assms(7,12) by (simp add: sd_def)
  have "rs_step env s sa" unfolding sa_def using assms(1,4) by (rule rs_step.start)
  moreover have "rs_step env sa sb" unfolding sb_def using assms by (intro rs_step.start) (simp_all add: a)
  moreover have "rs_step env sb sc" unfolding sc_def using assms rb by (intro rs_step.open_done) simp_all
  moreover have "rs_step env sc sd" unfolding sd_def using assms rc by (intro rs_step.open_done) simp_all
  ultimately have "(rs_step env)\<^sup>*\<^sup>* s sd" by (meson rtranclp.rtrancl_into_rtrancl rtranclp.rtrancl_refl)
  moreover have "length (rs_readers sd) = length (rs_readers s)" "rs_dev sd = d2"
    "rs_readers sd ! t = (rs_readers s ! t)\<lparr>rd_pc := Pulling (rs_next s) fd1\<rparr>"
    "rs_readers sd ! u = (rs_readers s ! u)\<lparr>rd_pc := Pulling (Suc (rs_next s)) fd2\<rparr>"
    "map_option e_read_fd (lookup fid (rs_cache sd)) = Some (Some fd2)"
    using rc lc assms(1-3) by (simp_all add: d begin_pull_def Let_def)
  ultimately show ?thesis by blast
qed

text \<open>C18: reads that start before the first open is answered. Two reads of a file without descriptor, whose pages are neither
  cached nor on their way, can both open it, on any device: the entry keeps the second descriptor only, the
  first is known to nobody but the coroutine that pulls with it. If the two read the same page of a device that answers
  them, and the first is answered first, the second fails with \<^verbatim>\<open>operation_canceled\<close>.\<close>

theorem open_race:
  assumes "t < length (rs_readers s)" "u < length (rs_readers s)" "t \<noteq> u"
    "rd_pc (rs_readers s ! t) = Fresh" "rd_pc (rs_readers s ! u) = Fresh"
    "rd_fid (rs_readers s ! t) = fid" "rd_fid (rs_readers s ! u) = fid"
    "lookup fid (rs_cache s) = Some e" "e_read_fd e = None"
    "\<forall>r\<in>{rs_readers s ! t, rs_readers s ! u}. \<not> has_page fid (rd_index r) (rs_cache s) \<and> rd_key r \<notin> fst ` set (rs_queue s)"
    "conn_open env (e_path e) OM_Read (rs_dev s) = (Inr fd1, d1)" "conn_open env (e_path e) OM_Read d1 = (Inr fd2, d2)"
  shows "\<exists>s1 p q. (rs_step env)\<^sup>*\<^sup>* s s1 \<and> rs_dev s1 = d2 \<and>
    rd_pc (rs_readers s1 ! t) = Pulling p fd1 \<and> rd_pc (rs_readers s1 ! u) = Pulling q fd2 \<and>
    map_option e_read_fd (lookup fid (rs_cache s1)) = Some (Some fd2) \<and>
    (rd_index (rs_readers s ! t) = rd_index (rs_readers s ! u) \<and> (\<forall>fd n off d. is_ok (fst (conn_read env fd n off d))) \<longrightarrow>
      (\<exists>s2. (rs_step env)\<^sup>*\<^sup>* s1 s2 \<and> rd_pc (rs_readers s2 ! u) = Finished (Unexpect operation_canceled)))"
proof -
  obtain s1 where s1: "(rs_step env)\<^sup>*\<^sup>* s s1" "length (rs_readers s1) = length (rs_readers s)" "rs_dev s1 = d2"
    "rs_readers s1 ! t = (rs_readers s ! t)\<lparr>rd_pc := Pulling (rs_next s) fd1\<rparr>"
    "rs_readers s1 ! u = (rs_readers s ! u)\<lparr>rd_pc := Pulling (Suc (rs_next s)) fd2\<rparr>"
    "map_option e_read_fd (lookup fid (rs_cache s1)) = Some (Some fd2)" using both_open [OF assms] by blast
  have "\<exists>s2. (rs_step env)\<^sup>*\<^sup>* s1 s2 \<and> rd_pc (rs_readers s2 ! u) = Finished (Unexpect operation_canceled)"
    if i: "rd_index (rs_readers s ! t) = rd_index (rs_readers s ! u)" and ok: "\<forall>fd n off d. is_ok (fst (conn_read env fd n off d))"
  proof -
    let ?a = "pulled env t (rs_next s) fd1 s1"
    let ?b = "pulled env u (Suc (rs_next s)) fd2 ?a"
    have key: "rd_key (rs_readers s1 ! t) = rd_key (rs_readers s1 ! u)" using i assms(6,7) s1(4,5) by (simp add: rd_key_def)
    have a: "rs_readers ?a ! u = rs_readers s1 ! u" "length (rs_readers ?a) = length (rs_readers s1)"
      "rd_key (rs_readers s1 ! t) \<notin> fst ` set (rs_queue ?a)" using pulled_others [of env fd1 s1 t] ok assms(3) by simp_all
    have "rs_step env s1 ?a" using assms(1) s1(2,4) by (intro rs_step.pull_done) simp_all
    moreover have "rs_step env ?a ?b" using assms(2) s1(2,5) a by (intro rs_step.pull_done) simp_all
    moreover have "rd_pc (rs_readers ?b ! u) = Finished (Unexpect operation_canceled)"
      using pulled_cancelled [of env fd2 ?a u] ok a key assms(2) s1(2) by simp
    ultimately show ?thesis by (meson rtranclp.rtrancl_into_rtrancl rtranclp.rtrancl_refl)
  qed
  with s1 show ?thesis by fastforce
qed

theorem open_race_witness:
  "\<exists>s1 s2. (rs_step (fd_env six))\<^sup>*\<^sup>* (two_reads None) s1 \<and> map_option e_read_fd (lookup 7 (rs_cache s1)) = Some (Some 2) \<and>
     (\<exists>p. rd_pc (rs_readers s1 ! 0) = Pulling p 1) \<and>
     (rs_step (fd_env six))\<^sup>*\<^sup>* s1 s2 \<and> rd_pc (rs_readers s2 ! 1) = Finished (Unexpect operation_canceled)"
proof -
  have o: "conn_open (fd_env six) root_path OM_Read 0 = (Inr 1, 1)" "conn_open (fd_env six) root_path OM_Read 1 = (Inr 2, 2)"
    by (simp_all add: fd_env_ops)
  have r: "is_ok (fst (conn_read (fd_env six) fd n off d))" for fd n off d
    by (simp add: conn_read_def get_resp_def send_req_immediate fd_env_def)
  let ?s = "two_reads None" and ?e = "(new_entry root_path)\<lparr>e_read_fd := None\<rparr>"
  have rd: "rs_readers ?s ! 0 = page_reader 0 0 Fresh" "rs_readers ?s ! 1 = page_reader 1 1 Fresh" "length (rs_readers ?s) = 2"
    "rs_dev ?s = 0" by (simp_all add: two_reads_def)
  have e: "lookup 7 (rs_cache ?s) = Some ?e" "e_path ?e = root_path" "e_read_fd ?e = None"
    by (simp_all add: two_reads_def one_file_def small_cache_def lookup_def new_entry_def)
  have n: "\<forall>r\<in>{rs_readers ?s ! 0, rs_readers ?s ! 1}. \<not> has_page 7 (rd_index r) (rs_cache ?s) \<and> rd_key r \<notin> fst ` set (rs_queue ?s)"
    unfolding has_page_def e(1) by (simp add: two_reads_def new_entry_def)
  from open_race [OF _ _ _ _ _ _ _ e(1,3) n, of "fd_env six" 1 1 2 2] o r rd e(2) show ?thesis
    by (simp add: page_reader_def) blast
qed

end
