(* ===== verification/Node.thy ===== *)
theory Node
  imports Stat Path
begin

text \<open>
  The file tree of \<^verbatim>\<open>madbfs/node.hpp\<close> and \<^verbatim>\<open>node.cpp\<close>. Nodes live in a store; the reference of a
  node is its \<^verbatim>\<open>Id\<close>, which the constructor draws from a counter, so a pointer to a node that was
  destroyed finds nothing in the store. The children of a directory (an unordered set of owning
  pointers, hashed by name) are a list without duplicates in the order an iteration visits them.
\<close>

section \<open>State\<close>

datatype fs_file =
    Regular bool
  | Directory "nat list" bool
  | Link "str option"
  | Other
  | Error errc

text \<open>\<open>n_expiration\<close> is \<open>None\<close> for \<^verbatim>\<open>Timepoint::max()\<close>; times of the steady clock are in nanoseconds.\<close>

record node =
  n_parent :: "nat option"
  n_name :: str
  n_stat :: stat
  n_expiration :: "int option"
  n_value :: fs_file

record tree =
  t_heap :: "nat \<Rightarrow> node option"
  t_id :: nat

type_synonym heap = "nat \<Rightarrow> node option"

text \<open>The root is the first node constructed: \<^verbatim>\<open>Id::incr\<close> returns the counter plus one.\<close>

definition root_id :: nat where
  "root_id = 1"

definition mk_node :: "str \<Rightarrow> nat option \<Rightarrow> stat \<Rightarrow> fs_file \<Rightarrow> node" where
  "mk_node name par st f = \<lparr>n_parent = par, n_name = name, n_stat = st, n_expiration = None, n_value = f\<rparr>"

definition new_node :: "str \<Rightarrow> nat option \<Rightarrow> stat \<Rightarrow> fs_file \<Rightarrow> tree \<Rightarrow> nat \<times> tree" where
  "new_node name par st f t =
     (let i = Suc (t_id t) in (i, t\<lparr>t_heap := (t_heap t)(i \<mapsto> mk_node name par st f), t_id := i\<rparr>))"

definition init_tree :: tree where
  "init_tree = snd (new_node ''/'' None default_stat (Directory [] False) \<lparr>t_heap = Map.empty, t_id = 0\<rparr>)"

definition upd_node :: "nat \<Rightarrow> (node \<Rightarrow> node) \<Rightarrow> tree \<Rightarrow> tree" where
  "upd_node a f t = (case t_heap t a of None \<Rightarrow> t | Some n \<Rightarrow> t\<lparr>t_heap := (t_heap t)(a \<mapsto> f n)\<rparr>)"

definition the_node :: "nat \<Rightarrow> tree \<Rightarrow> node expect" where
  "the_node a t = (case t_heap t a of Some n \<Rightarrow> Inr n | None \<Rightarrow> Inl UB)"

section \<open>Variants\<close>

definition as_regular :: "node \<Rightarrow> bool expect" where
  "as_regular n =
     (case n_value n of
        Regular dirty \<Rightarrow> Inr dirty
      | Directory _ _ \<Rightarrow> Unexpect is_a_directory
      | Link _ \<Rightarrow> Unexpect too_many_symbolic_link_levels
      | Other \<Rightarrow> Unexpect operation_not_supported
      | Error err \<Rightarrow> Unexpect err)"

definition as_directory :: "node \<Rightarrow> (nat list \<times> bool) expect" where
  "as_directory n =
     (case n_value n of
        Regular _ \<Rightarrow> Unexpect not_a_directory
      | Directory cs readdir \<Rightarrow> Inr (cs, readdir)
      | Link _ \<Rightarrow> Unexpect not_a_directory
      | Other \<Rightarrow> Unexpect not_a_directory
      | Error err \<Rightarrow> Unexpect err)"

definition as_link :: "node \<Rightarrow> str option expect" where
  "as_link n =
     (case n_value n of
        Regular _ \<Rightarrow> Unexpect invalid_argument
      | Directory _ _ \<Rightarrow> Unexpect invalid_argument
      | Link target \<Rightarrow> Inr target
      | Other \<Rightarrow> Unexpect invalid_argument
      | Error err \<Rightarrow> Unexpect err)"

definition as_error :: "node \<Rightarrow> errc option" where
  "as_error n = (case n_value n of Error err \<Rightarrow> Some err | _ \<Rightarrow> None)"

definition is_error :: "node \<Rightarrow> bool" where
  "is_error n = (as_error n \<noteq> None)"

definition is_directory :: "node \<Rightarrow> bool" where
  "is_directory n = (case n_value n of Directory _ _ \<Rightarrow> True | _ \<Rightarrow> False)"

definition has_synced :: "node \<Rightarrow> bool" where
  "has_synced n = (case n_value n of Directory _ readdir \<Rightarrow> readdir | _ \<Rightarrow> True)"

definition set_synced :: "bool \<Rightarrow> node \<Rightarrow> node" where
  "set_synced b n = (case n_value n of Directory cs _ \<Rightarrow> n\<lparr>n_value := Directory cs b\<rparr> | _ \<Rightarrow> n)"

section \<open>Times\<close>

text \<open>\<open>None\<close> stands for \<^verbatim>\<open>Seconds::max()\<close>, which is what an unset TTL is read as.\<close>

definition expires_after :: "int \<Rightarrow> int option \<Rightarrow> node \<Rightarrow> node" where
  "expires_after now duration n =
     n\<lparr>n_expiration := (case duration of None \<Rightarrow> None | Some s \<Rightarrow> Some (now + s * 1000000000))\<rparr>"

definition expired :: "int \<Rightarrow> node \<Rightarrow> bool" where
  "expired now n =
     (if as_regular n = Inr True then False
      else case n_expiration n of None \<Rightarrow> False | Some e \<Rightarrow> now > e)"

abbreviation UTIME_NOW :: i64 where "UTIME_NOW \<equiv> 0x3fffffff"
abbreviation UTIME_OMIT :: i64 where "UTIME_OMIT \<equiv> 0x3ffffffe"

definition timespec_now :: timespec where
  "timespec_now = to_timespec 0 UTIME_NOW"

definition timespec_omit :: timespec where
  "timespec_omit = to_timespec 0 UTIME_OMIT"

definition refresh_stat :: "timespec \<Rightarrow> timespec \<Rightarrow> timespec \<Rightarrow> node \<Rightarrow> node" where
  "refresh_stat time atime mtime n =
     (let st = n_stat n;
          st = (if tv_nsec atime \<noteq> UTIME_OMIT
                then st\<lparr>st_atime := (if tv_nsec atime = UTIME_NOW then time else atime)\<rparr> else st);
          st = (if tv_nsec mtime \<noteq> UTIME_OMIT
                then st\<lparr>st_mtime := (if tv_nsec mtime = UTIME_NOW then time else mtime)\<rparr> else st)
      in n\<lparr>n_stat := st\<lparr>st_ctime := time\<rparr>\<rparr>)"

definition set_size :: "i64 \<Rightarrow> node \<Rightarrow> node" where
  "set_size sz n = n\<lparr>n_stat := (n_stat n)\<lparr>st_size := sz\<rparr>\<rparr>"

section \<open>Directories\<close>

definition has_name :: "heap \<Rightarrow> str \<Rightarrow> nat \<Rightarrow> bool" where
  "has_name h name a = (case h a of Some n \<Rightarrow> n_name n = name | None \<Rightarrow> False)"

text \<open>\<^verbatim>\<open>m_children.find(name)\<close>\<close>

definition child_find :: "heap \<Rightarrow> nat list \<Rightarrow> str \<Rightarrow> nat option" where
  "child_find h cs name = List.find (has_name h name) cs"

text \<open>The children of a node, and the store with other children; only directories have any.\<close>

definition children :: "heap \<Rightarrow> nat \<Rightarrow> nat list" where
  "children h a = (case h a of Some n \<Rightarrow> (case n_value n of Directory cs _ \<Rightarrow> cs | _ \<Rightarrow> []) | None \<Rightarrow> [])"

definition set_children :: "(nat list \<Rightarrow> nat list) \<Rightarrow> node \<Rightarrow> node" where
  "set_children f n = (case n_value n of Directory cs b \<Rightarrow> n\<lparr>n_value := Directory (f cs) b\<rparr> | _ \<Rightarrow> n)"

text \<open>\<^verbatim>\<open>Directory::find\<close>, \<^verbatim>\<open>Node::traverse\<close>\<close>

definition dir_find :: "tree \<Rightarrow> nat list \<Rightarrow> str \<Rightarrow> nat expect" where
  "dir_find t cs name = ok_or (child_find (t_heap t) cs name) no_such_file_or_directory"

definition node_traverse :: "tree \<Rightarrow> nat \<Rightarrow> str \<Rightarrow> nat expect" where
  "node_traverse t a name =
     and_then (the_node a t) (\<lambda>n. and_then (as_directory n) (\<lambda>(cs, _). dir_find t cs name))"

text \<open>
  \<^verbatim>\<open>Directory::erase\<close> and \<^verbatim>\<open>extract\<close> give the node to the caller: it leaves the set and stays in
  the store until the caller drops it.
\<close>

definition dir_extract :: "nat \<Rightarrow> str \<Rightarrow> tree \<Rightarrow> nat option \<times> tree" where
  "dir_extract a name t =
     (case child_find (t_heap t) (children (t_heap t) a) name of
        None \<Rightarrow> (None, t)
      | Some c \<Rightarrow> (Some c, upd_node a (set_children (filter (\<lambda>x. x \<noteq> c))) t))"

definition destroy :: "nat list \<Rightarrow> tree \<Rightarrow> tree" where
  "destroy ns t = t\<lparr>t_heap := (\<lambda>a. if a \<in> set ns then None else t_heap t a)\<rparr>"

text \<open>
  \<^verbatim>\<open>Directory::insert\<close> of a node made by the caller; a refused node is destroyed. The result is the
  node and the one it replaced.
\<close>

definition dir_insert :: "nat \<Rightarrow> nat \<Rightarrow> bool \<Rightarrow> tree \<Rightarrow> (nat \<times> nat option) expect \<times> tree" where
  "dir_insert a c overwrite t =
     (case t_heap t c of
        None \<Rightarrow> (Inl UB, t)
      | Some n \<Rightarrow>
          (case child_find (t_heap t) (children (t_heap t) a) (n_name n) of
             Some old \<Rightarrow>
               if \<not> overwrite then (Unexpect file_exists, destroy [c] t)
               else (Inr (c, Some old),
                     upd_node a (set_children (\<lambda>cs. filter (\<lambda>x. x \<noteq> old) cs @ [c])) t)
           | None \<Rightarrow> (Inr (c, None), upd_node a (set_children (\<lambda>cs. cs @ [c])) t)))"

text \<open>\<^verbatim>\<open>Node::build\<close>\<close>

definition node_build :: "nat \<Rightarrow> str \<Rightarrow> stat \<Rightarrow> fs_file \<Rightarrow> tree \<Rightarrow> nat expect \<times> tree" where
  "node_build a name st f t =
     (case and_then (the_node a t) as_directory of
        Inl e \<Rightarrow> (Inl e, t)
      | Inr _ \<Rightarrow>
          (case new_node name (Some a) st f t of
             (c, t') \<Rightarrow> (case dir_insert a c False t' of (r, t'') \<Rightarrow> (transform r fst, t''))))"

section \<open>Walking\<close>

text \<open>
  The loop of \<^verbatim>\<open>Filesystem::walk\<close>: the nodes in the order \<^verbatim>\<open>func\<close> is called on them. The stack's top is
  its last element. Every iteration uses one unit of fuel.
\<close>

fun walk_loop :: "nat \<Rightarrow> heap \<Rightarrow> nat list \<Rightarrow> nat list \<Rightarrow> nat list expect" where
  "walk_loop fuel h stack acc =
     (if stack = [] then Inr (rev acc)
      else case fuel of
             0 \<Rightarrow> Inl Hang
           | Suc fuel' \<Rightarrow>
               let a = last stack in
               (case h a of
                  None \<Rightarrow> Inl UB
                | Some n \<Rightarrow> walk_loop fuel' h (butlast stack @ children h a) (a # acc)))"

declare walk_loop.simps [simp del]

text \<open>More iterations than nodes were ever made are not needed.\<close>

definition walk :: "tree \<Rightarrow> nat \<Rightarrow> nat list expect" where
  "walk t start = walk_loop (Suc (t_id t)) (t_heap t) [start] []"

text \<open>Each child of a list in turn.\<close>

fun walk_all :: "tree \<Rightarrow> nat list \<Rightarrow> nat list expect" where
  "walk_all t [] = Inr []"
| "walk_all t (c # cs) = and_then (walk t c) (\<lambda>xs. and_then (walk_all t cs) (\<lambda>ys. Inr (xs @ ys)))"

text \<open>Dropping the last owner of a node destroys its whole subtree.\<close>

definition drop_node :: "nat \<Rightarrow> tree \<Rightarrow> unit expect \<times> tree" where
  "drop_node a t = (case walk t a of Inl e \<Rightarrow> (Inl e, t) | Inr ns \<Rightarrow> (Inr (), destroy ns t))"

section \<open>Paths of nodes\<close>

text \<open>\<^verbatim>\<open>Node::build_path\<close> collects the names from the node to the root, reversed.\<close>

fun chain_up :: "nat \<Rightarrow> heap \<Rightarrow> nat option \<Rightarrow> str \<Rightarrow> str expect" where
  "chain_up fuel h None acc = Inr acc"
| "chain_up 0 h (Some a) acc = Inl Hang"
| "chain_up (Suc fuel) h (Some a) acc =
     (case h a of
        None \<Rightarrow> Inl UB
      | Some n \<Rightarrow> chain_up fuel h (n_parent n) (acc @ slash # rev (n_name n)))"

definition build_path :: "tree \<Rightarrow> nat \<Rightarrow> path expect" where
  "build_path t a =
     and_then (the_node a t) (\<lambda>n.
       and_then (chain_up (Suc (t_id t)) (t_heap t) (n_parent n) (rev (n_name n))) (\<lambda>p.
         let p = (if length p > 2 \<and> p ! (length p - 1) = slash \<and> p ! (length p - 2) = slash then butlast p else p)
         in and_then (create_buf (rev p)) (\<lambda>r. case r of Some q \<Rightarrow> Inr q | None \<Rightarrow> Inl UB)))"

end
