(* ===== verification/Filesystem.thy ===== *)
theory Filesystem
  imports Node Handles Cache
begin

text \<open>
  \<^verbatim>\<open>Filesystem\<close> of \<^verbatim>\<open>madbfs/filesystem.hpp\<close> and \<^verbatim>\<open>filesystem.cpp\<close>: the lazily built tree of nodes over
  the connection, the optional page cache and the open file handles, with every FUSE operation.
  An operation runs to completion before the next starts: the interleavings at the suspension
  points are not modelled. A failing \<^verbatim>\<open>assert\<close> ends the execution, but for the
  one in \<^verbatim>\<open>unlink\<close>, which always fails when it is reached and is taken as compiled out.
\<close>

section \<open>State and effects\<close>

record 'd fs =
  f_tree :: tree
  f_cache :: "cache option"
  f_handles :: handles
  f_ttl :: "int option"
  f_root_initialized :: bool
  f_dev :: 'd

type_synonym ('a, 'd) fs_op = "'d fs \<Rightarrow> 'a expect \<times> 'd fs"

definition bind_fs :: "('a, 'd) fs_op \<Rightarrow> ('a \<Rightarrow> ('b, 'd) fs_op) \<Rightarrow> ('b, 'd) fs_op" where
  "bind_fs m k = (\<lambda>s. case m s of (Inl e, s') \<Rightarrow> (Inl e, s') | (Inr v, s') \<Rightarrow> k v s')"

definition then_fs :: "('a, 'd) fs_op \<Rightarrow> ('b, 'd) fs_op \<Rightarrow> ('b, 'd) fs_op" where
  "then_fs m k = bind_fs m (\<lambda>_. k)"

definition return_fs :: "'a \<Rightarrow> ('a, 'd) fs_op" where
  "return_fs v = (\<lambda>s. (Inr v, s))"

definition fail_fs :: "fault \<Rightarrow> ('a, 'd) fs_op" where
  "fail_fs e = (\<lambda>s. (Inl e, s))"

text \<open>The result of an operation as a value; undefined behaviour is not caught.\<close>

definition attempt :: "('a, 'd) fs_op \<Rightarrow> (errc + 'a, 'd) fs_op" where
  "attempt m = (\<lambda>s. case m s of
     (Inr v, s') \<Rightarrow> (Inr (Inr v), s')
   | (Inl (Errc e), s') \<Rightarrow> (Inr (Inl e), s')
   | (Inl f, s') \<Rightarrow> (Inl f, s'))"

definition on_dev :: "('d \<Rightarrow> 'a expect \<times> 'd) \<Rightarrow> ('a, 'd) fs_op" where
  "on_dev f = (\<lambda>s. case f (f_dev s) of (r, d) \<Rightarrow> (r, s\<lparr>f_dev := d\<rparr>))"

definition on_cache :: "(cache \<Rightarrow> 'd \<Rightarrow> 'a expect \<times> cache \<times> 'd) \<Rightarrow> ('a, 'd) fs_op \<Rightarrow> ('a, 'd) fs_op" where
  "on_cache f without = (\<lambda>s. case f_cache s of
     None \<Rightarrow> without s
   | Some c \<Rightarrow> (case f c (f_dev s) of (r, c', d) \<Rightarrow> (r, s\<lparr>f_cache := Some c', f_dev := d\<rparr>)))"

definition on_tree :: "(tree \<Rightarrow> 'a expect \<times> tree) \<Rightarrow> ('a, 'd) fs_op" where
  "on_tree f = (\<lambda>s. case f (f_tree s) of (r, t) \<Rightarrow> (r, s\<lparr>f_tree := t\<rparr>))"

definition from_tree :: "(tree \<Rightarrow> 'a expect) \<Rightarrow> ('a, 'd) fs_op" where
  "from_tree f = (\<lambda>s. (f (f_tree s), s))"

definition get_node :: "nat \<Rightarrow> (node, 'd) fs_op" where
  "get_node a = from_tree (the_node a)"

definition mod_node :: "nat \<Rightarrow> (node \<Rightarrow> node) \<Rightarrow> (unit, 'd) fs_op" where
  "mod_node a f = bind_fs (get_node a) (\<lambda>_. on_tree (\<lambda>t. (Inr (), upd_node a f t)))"

definition fs_expire :: "'d env \<Rightarrow> nat \<Rightarrow> (unit, 'd) fs_op" where
  "fs_expire env a = (\<lambda>s. mod_node a (expires_after (ev_steady env (f_dev s)) (f_ttl s)) s)"

definition fs_refresh :: "'d env \<Rightarrow> nat \<Rightarrow> timespec \<Rightarrow> timespec \<Rightarrow> (unit, 'd) fs_op" where
  "fs_refresh env a atime mtime = (\<lambda>s. mod_node a (refresh_stat (ev_system env (f_dev s)) atime mtime) s)"

definition erase_handles :: "nat list \<Rightarrow> (unit, 'd) fs_op" where
  "erase_handles ns = (\<lambda>s. (Inr (), s\<lparr>f_handles := fold (\<lambda>a hs. snd (hs_erase a hs)) ns (f_handles s)\<rparr>))"

section \<open>Building and updating nodes\<close>

definition should_cache_error :: "errc \<Rightarrow> bool" where
  "should_cache_error err = (err \<noteq> not_connected \<and> err \<noteq> timed_out \<and> err \<noteq> resource_unavailable_try_again)"

text \<open>\<^verbatim>\<open>switch (mode & S_IFMT)\<close>\<close>

definition kind_of :: "u32 \<Rightarrow> fs_file" where
  "kind_of mode =
     (if s_ifmt mode = S_IFREG then Regular False
      else if s_ifmt mode = S_IFDIR then Directory [] False
      else if s_ifmt mode = S_IFLNK then Link None
      else Other)"

definition mk_fs :: "(nat \<times> nat) option \<Rightarrow> int option \<Rightarrow> 'd \<Rightarrow> 'd fs" where
  "mk_fs caching ttl d =
     \<lparr>f_tree = init_tree, f_cache = map_option (\<lambda>(ps, mx). mk_cache ps mx) caching, f_handles = [],
      f_ttl = ttl, f_root_initialized = False, f_dev = d\<rparr>"

definition build_then_expire :: "'d env \<Rightarrow> nat \<Rightarrow> str \<Rightarrow> stat \<Rightarrow> fs_file \<Rightarrow> (nat, 'd) fs_op" where
  "build_then_expire env par name st f =
     bind_fs (on_tree (node_build par name st f)) (\<lambda>c. then_fs (fs_expire env c) (return_fs c))"

definition fs_build :: "'d env \<Rightarrow> nat \<Rightarrow> path \<Rightarrow> (nat, 'd) fs_op" where
  "fs_build env par p =
     bind_fs (attempt (on_dev (conn_stat env p))) (\<lambda>r. case r of
        Inl err \<Rightarrow>
          then_fs (if should_cache_error err
                   then then_fs (attempt (build_then_expire env par (filename p) default_stat (Error err))) (return_fs ())
                   else return_fs ())
            (fail_fs (Errc err))
      | Inr st \<Rightarrow> build_then_expire env par (filename p) st (kind_of (st_mode st)))"

definition build_directory :: "'d env \<Rightarrow> nat \<Rightarrow> path \<Rightarrow> (nat, 'd) fs_op" where
  "build_directory env par p =
     bind_fs (attempt (on_dev (conn_stat env p))) (\<lambda>r. case r of
        Inl err \<Rightarrow>
          then_fs (if should_cache_error err
                   then then_fs (attempt (build_then_expire env par (filename p) default_stat (Error err))) (return_fs ())
                   else return_fs ())
            (fail_fs (Errc err))
      | Inr st \<Rightarrow>
          if s_ifmt (st_mode st) \<noteq> S_IFDIR then fail_fs (Errc not_a_directory)
          else build_then_expire env par (filename p) st (Directory [] False))"

definition cache_invalidate :: "'d env \<Rightarrow> nat \<Rightarrow> (unit, 'd) fs_op" where
  "cache_invalidate env a = on_cache (invalidate_one env a False) (return_fs ())"

fun invalidate_nodes :: "'d env \<Rightarrow> nat list \<Rightarrow> (unit, 'd) fs_op" where
  "invalidate_nodes env [] = return_fs ()"
| "invalidate_nodes env (a # as) = then_fs (cache_invalidate env a) (invalidate_nodes env as)"

text \<open>The old variant lives until the end of the function; with it go the nodes below.\<close>

definition mutate_and_invalidate :: "'d env \<Rightarrow> nat \<Rightarrow> fs_file \<Rightarrow> (unit, 'd) fs_op" where
  "mutate_and_invalidate env a f =
     bind_fs (get_node a) (\<lambda>old.
     then_fs (mod_node a (\<lambda>n. n\<lparr>n_value := f\<rparr>))
       (case n_value old of
          Directory cs _ \<Rightarrow>
            bind_fs (from_tree (\<lambda>t. walk_all t cs)) (\<lambda>nodes.
            then_fs (erase_handles nodes)
            (then_fs (invalidate_nodes env nodes)
            (then_fs (erase_handles [a])
            (on_tree (\<lambda>t. (Inr (), destroy nodes t))))))
        | Regular _ \<Rightarrow> then_fs (cache_invalidate env a) (erase_handles [a])
        | _ \<Rightarrow> return_fs ()))"

definition fs_update :: "'d env \<Rightarrow> nat \<Rightarrow> path \<Rightarrow> (unit, 'd) fs_op" where
  "fs_update env a p =
     bind_fs (attempt (on_dev (conn_stat env p))) (\<lambda>new_stat.
     bind_fs (get_node a) (\<lambda>n. case new_stat of
        Inl err \<Rightarrow>
          then_fs (if should_cache_error err
                   then then_fs (mutate_and_invalidate env a (Error err)) (fs_expire env a)
                   else return_fs ())
            (fail_fs (Errc err))
      | Inr st \<Rightarrow>
          if \<not> is_error n \<and> \<not> detect_modification (n_stat n) st then fs_expire env a
          else if s_ifmt (st_mode st) = S_IFDIR \<and> s_ifmt (st_mode (n_stat n)) = S_IFDIR then
            then_fs (mod_node a (\<lambda>n. n\<lparr>n_stat := st\<rparr>))
            (then_fs (mod_node a (set_synced False)) (fs_expire env a))
          else
            then_fs (mod_node a (\<lambda>n. n\<lparr>n_stat := st\<rparr>))
            (then_fs (mutate_and_invalidate env a (kind_of (st_mode st))) (fs_expire env a))))"

section \<open>Traversal\<close>

fun traverse_loop :: "tree \<Rightarrow> nat \<Rightarrow> str list \<Rightarrow> nat expect" where
  "traverse_loop t cur [] = Inr cur"
| "traverse_loop t cur (name # names) = and_then (node_traverse t cur name) (\<lambda>next. traverse_loop t next names)"

definition traverse :: "tree \<Rightarrow> path \<Rightarrow> nat expect" where
  "traverse t p = (if is_root p then Inr root_id else traverse_loop t root_id (iter p))"

definition refresh_expired :: "'d env \<Rightarrow> nat \<Rightarrow> path \<Rightarrow> (unit, 'd) fs_op" where
  "refresh_expired env a p =
     bind_fs (get_node a) (\<lambda>n s. (if expired (ev_steady env (f_dev s)) n then fs_update env a p else return_fs ()) s)"

fun tob_loop :: "'d env \<Rightarrow> nat \<Rightarrow> path \<Rightarrow> str list \<Rightarrow> (nat \<times> path, 'd) fs_op" where
  "tob_loop env cur cur_path [] = return_fs (cur, cur_path)"
| "tob_loop env cur cur_path (name # names) =
     (let cur_path = snd (Path.extend cur_path name) in
      bind_fs (attempt (from_tree (\<lambda>t. node_traverse t cur name))) (\<lambda>next. case next of
         Inr a \<Rightarrow> then_fs (refresh_expired env a cur_path) (tob_loop env a cur_path names)
       | Inl _ \<Rightarrow> bind_fs (build_directory env cur cur_path) (\<lambda>a. tob_loop env a cur_path names)))"

definition traverse_or_build :: "'d env \<Rightarrow> path \<Rightarrow> (nat, 'd) fs_op" where
  "traverse_or_build env p =
     (if is_root p then return_fs root_id
      else bind_fs (tob_loop env root_id root_path (iter (parent_path p))) (\<lambda>(cur, cur_path).
        let cur_path = snd (Path.extend cur_path (filename p)) in
        bind_fs (attempt (from_tree (\<lambda>t. node_traverse t cur (filename p)))) (\<lambda>found. case found of
           Inr a \<Rightarrow> then_fs (refresh_expired env a cur_path) (return_fs a)
         | Inl _ \<Rightarrow> fs_build env cur cur_path)))"

section \<open>Reading the tree\<close>

text \<open>\<^verbatim>\<open>build_file\<close> asserts that the name can be a component.\<close>

definition build_file :: "str \<Rightarrow> u32 \<Rightarrow> (fs_file, 'd) fs_op" where
  "build_file name mode = (if bad_name name then fail_fs UB else return_fs (kind_of mode))"

text \<open>\<^verbatim>\<open>list.emplace(child)\<close>: nothing happens when the name is taken, and the child is destroyed.\<close>

definition emplace_child :: "nat \<Rightarrow> nat \<Rightarrow> (unit, 'd) fs_op" where
  "emplace_child cur c = then_fs (attempt (on_tree (dir_insert cur c False))) (return_fs ())"

definition add_entry :: "'d env \<Rightarrow> nat \<Rightarrow> str \<times> stat \<Rightarrow> (unit, 'd) fs_op" where
  "add_entry env cur ns =
     (case ns of (name, st) \<Rightarrow>
        bind_fs (build_file name (st_mode st)) (\<lambda>f.
        bind_fs (on_tree (\<lambda>t. case new_node name (Some cur) st f t of (c, t') \<Rightarrow> (Inr c, t'))) (\<lambda>c.
        then_fs (fs_expire env c) (emplace_child cur c))))"

definition change_entry :: "'d env \<Rightarrow> nat \<Rightarrow> str \<times> stat \<Rightarrow> (unit, 'd) fs_op" where
  "change_entry env c ns =
     (case ns of (name, st) \<Rightarrow>
        bind_fs (build_file name (st_mode st)) (\<lambda>f.
        then_fs (mod_node c (\<lambda>n. n\<lparr>n_stat := st\<rparr>))
        (then_fs (mutate_and_invalidate env c f) (fs_expire env c))))"

definition merge_entry :: "'d env \<Rightarrow> nat \<Rightarrow> str \<times> stat \<Rightarrow> (unit, 'd) fs_op" where
  "merge_entry env cur ns =
     (\<lambda>s. (case child_find (t_heap (f_tree s)) (children (t_heap (f_tree s)) cur) (fst ns) of
        None \<Rightarrow> add_entry env cur ns
      | Some c \<Rightarrow>
          bind_fs (get_node c) (\<lambda>n.
            if is_error n \<or> (expired (ev_steady env (f_dev s)) n \<and> detect_modification (n_stat n) (snd ns))
            then change_entry env c ns else return_fs ())) s)"

fun each_entry :: "('e \<Rightarrow> (unit, 'd) fs_op) \<Rightarrow> 'e list \<Rightarrow> (unit, 'd) fs_op" where
  "each_entry f [] = return_fs ()"
| "each_entry f (x # xs) = then_fs (f x) (each_entry f xs)"

text \<open>An entry the device no longer lists is destroyed with everything below it.\<close>

definition remove_entry :: "'d env \<Rightarrow> nat \<Rightarrow> str list \<Rightarrow> nat \<Rightarrow> (unit, 'd) fs_op" where
  "remove_entry env cur names c =
     bind_fs (get_node c) (\<lambda>n.
       if n_name n \<in> set names then return_fs ()
       else then_fs (cache_invalidate env c)
            (then_fs (on_tree (\<lambda>t. (Inr (), upd_node cur (set_children (filter (\<lambda>x. x \<noteq> c))) t)))
            (on_tree (drop_node c))))"

definition sync_dir :: "'d env \<Rightarrow> nat \<Rightarrow> (str \<times> stat) list \<Rightarrow> (unit, 'd) fs_op" where
  "sync_dir env cur stats =
     (\<lambda>s. (if children (t_heap (f_tree s)) cur = [] then each_entry (add_entry env cur) stats
      else then_fs (each_entry (merge_entry env cur) stats)
             (\<lambda>s. each_entry (remove_entry env cur (map fst stats)) (children (t_heap (f_tree s)) cur) s)) s)"

definition list_names :: "nat \<Rightarrow> (str list, 'd) fs_op" where
  "list_names cur =
     from_tree (\<lambda>t. Inr (concat (map (\<lambda>c. case t_heap t c of
        Some n \<Rightarrow> if is_error n then [] else [n_name n] | None \<Rightarrow> []) (children (t_heap t) cur))))"

text \<open>The result is the names given to the filler, in order.\<close>

definition readdir :: "'d env \<Rightarrow> path \<Rightarrow> (str list, 'd) fs_op" where
  "readdir env p =
     bind_fs (if is_root p then return_fs root_id else traverse_or_build env p) (\<lambda>cur.
     bind_fs (get_node cur) (\<lambda>n.
     case as_directory n of
       Inl e \<Rightarrow> fail_fs e
     | Inr _ \<Rightarrow>
         then_fs (if has_synced n then return_fs ()
                  else bind_fs (on_dev (conn_statdir env p)) (\<lambda>stats.
                       then_fs (sync_dir env cur stats) (mod_node cur (set_synced True))))
           (list_names cur)))"

definition getattr :: "'d env \<Rightarrow> path \<Rightarrow> (nat \<times> stat, 'd) fs_op" where
  "getattr env p =
     bind_fs (traverse_or_build env p) (\<lambda>a.
     bind_fs (get_node a) (\<lambda>n. case as_error n of
        Some err \<Rightarrow> fail_fs (Errc err)
      | None \<Rightarrow> return_fs (a, n_stat n)))"

definition readlink :: "'d env \<Rightarrow> path \<Rightarrow> (str, 'd) fs_op" where
  "readlink env p =
     bind_fs (traverse_or_build env p) (\<lambda>a.
     bind_fs (get_node a) (\<lambda>n. case as_link n of
        Inl e \<Rightarrow> fail_fs e
      | Inr (Some target) \<Rightarrow> return_fs target
      | Inr None \<Rightarrow>
          bind_fs (on_dev (conn_readlink env p)) (\<lambda>target.
          then_fs (mod_node a (\<lambda>n. n\<lparr>n_value := Link (Some target)\<rparr>)) (return_fs target))))"

end
