(* ===== verification/Fs_Ops.thy ===== *)
theory Fs_Ops
  imports Filesystem
begin

text \<open>
  The operations of \<^verbatim>\<open>Filesystem\<close> that change the tree or work on open files, in the order of
  \<^verbatim>\<open>filesystem.cpp\<close>.
\<close>

section \<open>Creating and removing\<close>

text \<open>The directory a path is to be created in or removed from.\<close>

definition parent_dir :: "'d env \<Rightarrow> path \<Rightarrow> (nat, 'd) fs_op" where
  "parent_dir env p =
     bind_fs (traverse_or_build env (parent_path p)) (\<lambda>par.
     bind_fs (get_node par) (\<lambda>n. case as_directory n of Inl e \<Rightarrow> fail_fs e | Inr _ \<Rightarrow> return_fs par))"

definition find_in :: "nat \<Rightarrow> str \<Rightarrow> (nat, 'd) fs_op" where
  "find_in par name = from_tree (\<lambda>t. dir_find t (children (t_heap t) par) name)"

text \<open>The last step of \<^verbatim>\<open>mknod\<close> and \<^verbatim>\<open>mkdir\<close>: the node replaced, if any, is destroyed.\<close>

definition insert_new :: "nat \<Rightarrow> str \<Rightarrow> stat \<Rightarrow> fs_file \<Rightarrow> bool \<Rightarrow> (nat, 'd) fs_op" where
  "insert_new par name st f repl =
     bind_fs (on_tree (\<lambda>t. case new_node name (Some par) st f t of (c, t') \<Rightarrow> dir_insert par c repl t'))
       (\<lambda>(c, old). then_fs (case old of Some o' \<Rightarrow> on_tree (drop_node o') | None \<Rightarrow> return_fs ()) (return_fs c))"

text \<open>\<^verbatim>\<open>mknod\<close> and \<^verbatim>\<open>mkdir\<close> differ in the request and in the variant of the new node.\<close>

definition make_entry :: "'d env \<Rightarrow> path \<Rightarrow> ('d \<Rightarrow> unit expect \<times> 'd) \<Rightarrow> fs_file \<Rightarrow> (nat, 'd) fs_op" where
  "make_entry env p request f =
     bind_fs (parent_dir env p) (\<lambda>par.
     bind_fs (attempt (find_in par (filename p))) (\<lambda>found.
     bind_fs (case found of
                Inl _ \<Rightarrow> return_fs False
              | Inr c \<Rightarrow> bind_fs (get_node c) (\<lambda>n. if is_error n then return_fs True else fail_fs (Errc file_exists)))
       (\<lambda>repl.
     bind_fs (attempt (on_dev request)) (\<lambda>created. case created of
        Inl err \<Rightarrow> then_fs (fs_refresh env par timespec_omit timespec_now) (fail_fs (Errc err))
      | Inr _ \<Rightarrow>
          bind_fs (on_dev (conn_stat env p)) (\<lambda>st. insert_new par (filename p) st f repl)))))"

definition mknod :: "'d env \<Rightarrow> path \<Rightarrow> u32 \<Rightarrow> u64 \<Rightarrow> (nat, 'd) fs_op" where
  "mknod env p mode dev = make_entry env p (conn_mknod env p mode dev) (Regular False)"

definition mkdir :: "'d env \<Rightarrow> path \<Rightarrow> u32 \<Rightarrow> (nat, 'd) fs_op" where
  "mkdir env p mode = make_entry env p (conn_mkdir env p mode) (Directory [] False)"

text \<open>
  On failure the node is inserted again, in the place its name has left; the assertion on the result of
  that insertion, which fails whenever it is reached, is compiled out as in the release build.
\<close>

definition unlink :: "'d env \<Rightarrow> path \<Rightarrow> (unit, 'd) fs_op" where
  "unlink env p =
     bind_fs (parent_dir env p) (\<lambda>par.
     bind_fs (find_in par (filename p)) (\<lambda>c.
     bind_fs (get_node c) (\<lambda>n.
       if is_directory n then fail_fs (Errc is_a_directory)
       else
         then_fs (on_tree (\<lambda>t. case dir_extract par (filename p) t of (r, t') \<Rightarrow> (Inr r, t')))
         (bind_fs (attempt (on_dev (conn_unlink env p))) (\<lambda>res. case res of
            Inl err \<Rightarrow>
              then_fs (attempt (on_tree (dir_insert par c True)))
              (then_fs (fs_refresh env par timespec_omit timespec_now) (fail_fs (Errc err)))
          | Inr _ \<Rightarrow>
              then_fs (erase_handles [c])
              (then_fs (cache_invalidate env c) (on_tree (drop_node c))))))))"

definition rmdir :: "'d env \<Rightarrow> path \<Rightarrow> (unit, 'd) fs_op" where
  "rmdir env p =
     bind_fs (parent_dir env p) (\<lambda>par.
     bind_fs (find_in par (filename p)) (\<lambda>c.
     bind_fs (get_node c) (\<lambda>n. case as_directory n of
        Inl e \<Rightarrow> fail_fs e
      | Inr (cs, _) \<Rightarrow>
          bind_fs (from_tree (\<lambda>t. Inr (\<forall>x\<in>set cs. case t_heap t x of Some m \<Rightarrow> is_error m | None \<Rightarrow> False)))
            (\<lambda>all_errors.
               if cs \<noteq> [] \<and> \<not> all_errors then fail_fs (Errc directory_not_empty)
               else
                 bind_fs (on_dev (conn_rmdir env p)) (\<lambda>_.
                 then_fs (fs_refresh env par timespec_omit timespec_now)
                 (then_fs (on_tree (\<lambda>t. case dir_extract par (filename p) t of (r, t') \<Rightarrow> (Inr r, t')))
                 (on_tree (drop_node c))))))))"

section \<open>Renaming\<close>

abbreviation RENAME_NOREPLACE :: u32 where "RENAME_NOREPLACE \<equiv> 1"
abbreviation RENAME_EXCHANGE :: u32 where "RENAME_EXCHANGE \<equiv> 2"

definition flag_set :: "u32 \<Rightarrow> u32 \<Rightarrow> bool" where
  "flag_set flags f = (and flags f \<noteq> 0)"

text \<open>The checks on the target before the request is sent.\<close>

definition rename_checks :: "'d env \<Rightarrow> path \<Rightarrow> u32 \<Rightarrow> (unit, 'd) fs_op" where
  "rename_checks env to flags =
     (if flag_set flags RENAME_EXCHANGE then
        bind_fs (traverse_or_build env to) (\<lambda>x.
        bind_fs (get_node x) (\<lambda>n. case as_error n of Some err \<Rightarrow> fail_fs (Errc err) | None \<Rightarrow> return_fs ()))
      else if flag_set flags RENAME_NOREPLACE then
        bind_fs (attempt (traverse_or_build env to)) (\<lambda>r. case r of
           Inl _ \<Rightarrow> return_fs ()
         | Inr x \<Rightarrow> bind_fs (get_node x) (\<lambda>n. if is_error n then return_fs () else fail_fs (Errc file_exists)))
      else return_fs ())"

definition set_place :: "nat \<Rightarrow> str \<Rightarrow> node \<Rightarrow> node" where
  "set_place par name n = n\<lparr>n_name := name, n_parent := Some par\<rparr>"

text \<open>Taking a node out of a directory by name; \<^verbatim>\<open>value()\<close> of a failed extraction throws.\<close>

definition take_node :: "nat \<Rightarrow> str \<Rightarrow> (nat, 'd) fs_op" where
  "take_node par name =
     on_tree (\<lambda>t. case dir_extract par name t of (Some c, t') \<Rightarrow> (Inr c, t') | (None, t') \<Rightarrow> (Inl UB, t'))"

text \<open>
  What happens in memory once the device has renamed. \<^verbatim>\<open>to_dir\<close> refers to the directory variant of
  the target's parent since before the checks: if they made that node something else, it dangles.
\<close>

definition rename_nodes :: "'d env \<Rightarrow> path \<Rightarrow> nat \<Rightarrow> path \<Rightarrow> nat \<Rightarrow> u32 \<Rightarrow> (unit, 'd) fs_op" where
  "rename_nodes env from from_par to to_par flags =
     bind_fs (take_node from_par (filename from)) (\<lambda>x.
     then_fs (on_cache (\<lambda>c d. (Inr (), cache_rename x to c, d)) (return_fs ()))
     (then_fs (mod_node x (set_place to_par (filename to)))
     (bind_fs (get_node to_par) (\<lambda>tpn. if \<not> is_directory tpn then fail_fs UB else
      bind_fs (on_tree (dir_insert to_par x True)) (\<lambda>(_, old).
        if flag_set flags RENAME_EXCHANGE then
          (case old of
             None \<Rightarrow> fail_fs UB
           | Some y \<Rightarrow>
               then_fs (on_cache (\<lambda>c d. (Inr (), cache_rename y from c, d)) (return_fs ()))
               (then_fs (mod_node y (set_place from_par (filename from)))
               (bind_fs (attempt (on_tree (dir_insert from_par y False))) (\<lambda>res. case res of
                  Inl _ \<Rightarrow> fail_fs UB
                | Inr _ \<Rightarrow> return_fs ()))))
        else
          (case old of
             None \<Rightarrow> return_fs ()
           | Some y \<Rightarrow> then_fs (cache_invalidate env y) (then_fs (erase_handles [y]) (on_tree (drop_node y)))))))))"

definition rename :: "'d env \<Rightarrow> path \<Rightarrow> path \<Rightarrow> u32 \<Rightarrow> (unit, 'd) fs_op" where
  "rename env from to flags =
     (if is_root from then fail_fs (Errc operation_not_supported)
      else
        bind_fs (traverse_or_build env from) (\<lambda>from_node.
        bind_fs (get_node from_node) (\<lambda>fn. case n_parent fn of
           None \<Rightarrow> fail_fs UB
         | Some from_par \<Rightarrow>
             bind_fs (get_node from_par) (\<lambda>fpn.
               if \<not> is_directory fpn then fail_fs UB
               else
                 bind_fs (parent_dir env to) (\<lambda>to_par.
                 then_fs (rename_checks env to flags)
                 (then_fs (on_dev (conn_rename env from to flags))
                 (then_fs (fs_refresh env from_par timespec_omit timespec_now)
                 (then_fs (fs_refresh env to_par timespec_omit timespec_now)
                 (rename_nodes env from from_par to to_par flags)))))))))"

section \<open>Attributes\<close>

definition utimens :: "'d env \<Rightarrow> path \<Rightarrow> timespec \<Rightarrow> timespec \<Rightarrow> (unit, 'd) fs_op" where
  "utimens env p atime mtime =
     bind_fs (traverse_or_build env p) (\<lambda>a.
     then_fs (on_dev (conn_utimens env p atime mtime))
     (bind_fs (on_dev (conn_stat env p)) (\<lambda>st. mod_node a (\<lambda>n. n\<lparr>n_stat := st\<rparr>))))"

text \<open>The node and dirty flag of a regular file.\<close>

definition regular_at :: "'d env \<Rightarrow> path \<Rightarrow> (nat, 'd) fs_op" where
  "regular_at env p =
     bind_fs (traverse_or_build env p) (\<lambda>a.
     bind_fs (get_node a) (\<lambda>n. case as_regular n of Inl e \<Rightarrow> fail_fs e | Inr _ \<Rightarrow> return_fs a))"

definition fs_truncate :: "'d env \<Rightarrow> path \<Rightarrow> i64 \<Rightarrow> (unit, 'd) fs_op" where
  "fs_truncate env p sz =
     bind_fs (regular_at env p) (\<lambda>a.
     then_fs (on_dev (conn_truncate env p sz))
     (bind_fs (get_node a) (\<lambda>n.
     then_fs (attempt (on_cache (cache_truncate env a (unat (st_size (n_stat n))) (unat sz)) (return_fs ())))
     (then_fs (mod_node a (set_size sz)) (fs_refresh env a timespec_omit timespec_now)))))"

section \<open>Open files\<close>

text \<open>
  \<^verbatim>\<open>static_cast<OpenMode>(O_ACCMODE & flags)\<close>; the access mode 3 is outside the enumeration.
\<close>

definition open_mode_of :: "u32 \<Rightarrow> omode option" where
  "open_mode_of flags =
     (let m = and flags 3 in
      if m = 0 then Some OM_Read else if m = 1 then Some OM_Write
      else if m = 2 then Some OM_ReadWrite else None)"

definition store_handle :: "nat \<Rightarrow> omode \<Rightarrow> u64 \<Rightarrow> (nat, 'd) fs_op" where
  "store_handle a mode real_fd =
     (\<lambda>s. case hs_store (Some a) mode real_fd (f_handles s) of (fd, hs) \<Rightarrow> (Inr fd, s\<lparr>f_handles := hs\<rparr>))"

definition fs_open :: "'d env \<Rightarrow> path \<Rightarrow> u32 \<Rightarrow> (nat, 'd) fs_op" where
  "fs_open env p flags =
     bind_fs (regular_at env p) (\<lambda>a. case open_mode_of flags of
        None \<Rightarrow> fail_fs UB
      | Some mode \<Rightarrow>
          (\<lambda>s. (if f_cache s \<noteq> None
                then then_fs (on_cache (\<lambda>c d. case hint_open a p mode c of (r, c') \<Rightarrow> (r, c', d)) (return_fs ()))
                       (store_handle a mode 0)
                else bind_fs (on_dev (conn_open env p mode)) (\<lambda>real_fd. store_handle a mode real_fd)) s))"

text \<open>The handle of a descriptor opened with a mode, with the node it points to.\<close>

definition handle_for :: "nat \<Rightarrow> omode \<Rightarrow> (file_handle \<times> nat, 'd) fs_op" where
  "handle_for fd mode =
     (\<lambda>s. case hs_find_mode (f_handles s) fd mode of
        None \<Rightarrow> (Unexpect bad_file_descriptor, s)
      | Some h \<Rightarrow> (case fh_node h of None \<Rightarrow> (Inl UB, s) | Some a \<Rightarrow> (Inr (h, a), s)))"

text \<open>The number of bytes read and the caller's buffer afterwards.\<close>

definition fs_read :: "'d env \<Rightarrow> nat \<Rightarrow> u8 list \<Rightarrow> i64 \<Rightarrow> (nat \<times> u8 list, 'd) fs_op" where
  "fs_read env fd out off =
     bind_fs (handle_for fd OM_Read) (\<lambda>(h, a).
     then_fs (get_node a)
     (bind_fs
       (on_cache (\<lambda>c d. case Cache.read env a out (unat off) c d of (r, out', c', d') \<Rightarrow> (transform r (\<lambda>n. (n, out')), c', d'))
         (if fh_real_fd h = 0 then fail_fs UB
          else bind_fs (on_dev (conn_read env (fh_real_fd h) (length out) off))
                 (\<lambda>bs. return_fs (length bs, bs @ drop (length bs) out))))
       (\<lambda>res. then_fs (fs_refresh env a timespec_now timespec_omit) (return_fs res))))"

definition set_dirty :: "bool \<Rightarrow> node \<Rightarrow> node" where
  "set_dirty b n = n\<lparr>n_value := Regular b\<rparr>"

text \<open>\<^verbatim>\<open>off_t\<close> is signed: the new size is the maximum as signed numbers.\<close>

definition grow_size :: "i64 \<Rightarrow> nat \<Rightarrow> node \<Rightarrow> node" where
  "grow_size off ret n =
     (let new_size = off + word_of_nat ret; old = st_size (n_stat n)
      in set_size (if sint old < sint new_size then new_size else old) n)"

definition fs_write :: "'d env \<Rightarrow> nat \<Rightarrow> u8 list \<Rightarrow> i64 \<Rightarrow> (nat, 'd) fs_op" where
  "fs_write env fd bs off =
     bind_fs (handle_for fd OM_Write) (\<lambda>(h, a).
     bind_fs (get_node a) (\<lambda>n. case as_regular n of
        Inl _ \<Rightarrow> fail_fs (Errc bad_file_descriptor)
      | Inr _ \<Rightarrow>
          bind_fs
            (on_cache (cache_write env a bs (unat off))
              (bind_fs (on_dev (conn_write env (fh_real_fd h) bs off)) (\<lambda>n. return_fs (unat n))))
            (\<lambda>ret.
              then_fs (mod_node a (grow_size off ret))
              (then_fs (fs_refresh env a timespec_omit timespec_now)
              (then_fs (mod_node a (set_dirty True)) (return_fs ret))))))"

text \<open>A handle whose node pointer is null is dereferenced.\<close>

definition handle_any :: "file_handle option \<Rightarrow> (file_handle \<times> nat, 'd) fs_op" where
  "handle_any handle =
     (case handle of
        None \<Rightarrow> fail_fs (Errc bad_file_descriptor)
      | Some h \<Rightarrow> (case fh_node h of None \<Rightarrow> fail_fs UB | Some a \<Rightarrow> return_fs (h, a)))"

definition fs_flush :: "'d env \<Rightarrow> nat \<Rightarrow> (unit, 'd) fs_op" where
  "fs_flush env fd =
     (\<lambda>s. bind_fs (handle_any (hs_find (f_handles s) fd)) (\<lambda>(h, a).
      bind_fs (get_node a) (\<lambda>n. case as_regular n of
         Inl _ \<Rightarrow> fail_fs (Errc bad_file_descriptor)
       | Inr dirty \<Rightarrow>
           if \<not> dirty then return_fs ()
           else
             then_fs (on_cache (\<lambda>c d. Cache.flush env a c d) (return_fs ()))
             (then_fs (if f_cache s \<noteq> None then fs_refresh env a timespec_omit timespec_now else return_fs ())
             (mod_node a (set_dirty False))))) s)"

definition release :: "'d env \<Rightarrow> nat \<Rightarrow> (unit, 'd) fs_op" where
  "release env fd =
     (\<lambda>s. case hs_release fd (f_handles s) of (handle, hs) \<Rightarrow>
        bind_fs (handle_any handle) (\<lambda>(h, a).
        bind_fs (get_node a) (\<lambda>n. case as_regular n of
           Inl _ \<Rightarrow> fail_fs (Errc bad_file_descriptor)
         | Inr dirty \<Rightarrow>
             then_fs
               (if dirty \<and> f_cache s \<noteq> None
                then then_fs (on_cache (\<lambda>c d. Cache.flush env a c d) (return_fs ()))
                     (then_fs (fs_refresh env a timespec_omit timespec_now) (mod_node a (set_dirty False)))
                else return_fs ())
             (on_cache (\<lambda>c d. case hint_close a (fh_mode h) c of (r, c') \<Rightarrow> (r, c', d))
                (on_dev (conn_close env (fh_real_fd h)))))) (s\<lparr>f_handles := hs\<rparr>))"

definition fs_copy_file_range ::
    "'d env \<Rightarrow> path \<Rightarrow> nat \<Rightarrow> i64 \<Rightarrow> path \<Rightarrow> nat \<Rightarrow> i64 \<Rightarrow> u64 \<Rightarrow> (u64, 'd) fs_op" where
  "fs_copy_file_range env in_path in_fd in_off out_path out_fd out_off sz =
     then_fs (attempt (fs_flush env in_fd))
     (then_fs (attempt (fs_flush env out_fd))
     (bind_fs (from_tree (\<lambda>t. traverse t in_path)) (\<lambda>in_node.
     bind_fs (from_tree (\<lambda>t. traverse t out_path)) (\<lambda>out_node.
     bind_fs (on_dev (conn_copy_file_range env in_path in_off out_path out_off sz)) (\<lambda>copied.
     bind_fs (on_dev (conn_stat env out_path)) (\<lambda>st.
     then_fs (fs_refresh env in_node timespec_now timespec_omit)
     (then_fs (mod_node out_node (\<lambda>n. n\<lparr>n_stat := st\<rparr>)) (return_fs copied))))))))"

section \<open>The rest\<close>

text \<open>Mode \<^verbatim>\<open>lrw-r--r--\<close>.\<close>

definition symlink_stat :: "timespec \<Rightarrow> stat" where
  "symlink_stat time = \<lparr>st_links = 1, st_size = 21, st_mtime = time, st_atime = time, st_ctime = time,
     st_mode = or S_IFLNK 0x1A4, st_uid = 0, st_gid = 0\<rparr>"

definition symlink :: "'d env \<Rightarrow> path \<Rightarrow> str \<Rightarrow> (unit, 'd) fs_op" where
  "symlink env p target =
     (\<lambda>s. bind_fs (from_tree (\<lambda>t. traverse t (parent_path p))) (\<lambda>par.
      bind_fs (get_node par) (\<lambda>n. case as_directory n of
         Inl e \<Rightarrow> fail_fs e
       | Inr _ \<Rightarrow>
           bind_fs (attempt (find_in par (filename p))) (\<lambda>found. case found of
              Inr _ \<Rightarrow> fail_fs (Errc file_exists)
            | Inl _ \<Rightarrow>
                then_fs (insert_new par (filename p) (symlink_stat (ev_system env (f_dev s))) (Link (Some target)) False)
                  (return_fs ())))) s)"

definition initialize_root :: "'d env \<Rightarrow> (unit, 'd) fs_op" where
  "initialize_root env =
     (\<lambda>s. if f_root_initialized s then (Inr (), s)
      else bind_fs (on_dev (conn_stat env root_path)) (\<lambda>st. mod_node root_id (\<lambda>n. n\<lparr>n_stat := st\<rparr>))
             (s\<lparr>f_root_initialized := True\<rparr>))"

definition fs_shutdown :: "'d env \<Rightarrow> (unit, 'd) fs_op" where
  "fs_shutdown env = on_cache (\<lambda>c d. shutdown env c d) (return_fs ())"

definition expire_nodes :: "'d env \<Rightarrow> int option \<Rightarrow> (nat, 'd) fs_op" where
  "expire_nodes env duration =
     (\<lambda>s. bind_fs (from_tree (\<lambda>t. walk t root_id)) (\<lambda>ns.
      on_tree (\<lambda>t. (Inr (length ns), fold (\<lambda>a. upd_node a (expires_after (ev_steady env (f_dev s)) duration)) ns t))) s)"

definition set_ttl :: "'d env \<Rightarrow> int option \<Rightarrow> (int option, 'd) fs_op" where
  "set_ttl env ttl =
     (\<lambda>s. let old = f_ttl s; s = s\<lparr>f_ttl := ttl\<rparr> in
      if old = ttl then (Inr old, s) else then_fs (expire_nodes env ttl) (return_fs old) s)"

definition expires_all :: "'d env \<Rightarrow> (nat, 'd) fs_op" where
  "expires_all env = expire_nodes env (Some 0)"

end
