(* ===== verification/Tree_Inv.thy ===== *)
theory Tree_Inv
  imports Node
begin

text \<open>
  Well-formedness of the node tree. \<open>tree_ok D\<close> says that the store is a tree under the root except
  for the subtrees of \<open>D\<close>, whose roots are owned by a local variable of some operation: a new node
  before it is inserted, or one taken out of its directory. The operations on directories move
  nodes in and out of \<open>D\<close>.
\<close>

section \<open>Definitions\<close>

definition kids :: "node \<Rightarrow> nat list" where
  "kids n = (case n_value n of Directory cs _ \<Rightarrow> cs | _ \<Rightarrow> [])"

lemma children_kids: "children h a = (case h a of Some n \<Rightarrow> kids n | None \<Rightarrow> [])"
  by (simp add: children_def kids_def split: option.splits)

definition edges :: "heap \<Rightarrow> (nat \<times> nat) set" where
  "edges h = {(p, c). c \<in> set (children h p)}"

definition name_of :: "heap \<Rightarrow> nat \<Rightarrow> str" where
  "name_of h a = (case h a of Some n \<Rightarrow> n_name n | None \<Rightarrow> [])"

definition root_ok :: "heap \<Rightarrow> bool" where
  "root_ok h = (\<exists>n. h root_id = Some n \<and> n_parent n = None \<and> n_name n = ''/'' \<and> is_directory n)"

definition children_ok :: "heap \<Rightarrow> nat \<Rightarrow> bool" where
  "children_ok h a = (distinct (children h a) \<and> inj_on (name_of h) (set (children h a)) \<and>
     (\<forall>c\<in>set (children h a). \<exists>m. h c = Some m \<and> n_parent m = Some a))"

definition owned :: "heap \<Rightarrow> nat \<Rightarrow> bool" where
  "owned h a = (\<exists>p. a \<in> set (children h p))"

definition tree_ok :: "nat set \<Rightarrow> tree \<Rightarrow> bool" where
  "tree_ok D t = (root_ok (t_heap t) \<and> (\<forall>a. t_heap t a \<noteq> None \<longrightarrow> a \<le> t_id t) \<and>
     (\<forall>a. children_ok (t_heap t) a) \<and> acyclic (edges (t_heap t)) \<and>
     (\<forall>a. t_heap t a \<noteq> None \<longrightarrow> a \<noteq> root_id \<longrightarrow> a \<notin> D \<longrightarrow> owned (t_heap t) a) \<and>
     (\<forall>d\<in>D. d \<noteq> root_id \<and> t_heap t d \<noteq> None \<and> \<not> owned (t_heap t) d))"

abbreviation tree_inv :: "tree \<Rightarrow> bool" where
  "tree_inv \<equiv> tree_ok {}"

lemma tree_okD:
  assumes "tree_ok D t"
  shows "root_ok (t_heap t)" "t_heap t a \<noteq> None \<Longrightarrow> a \<le> t_id t" "children_ok (t_heap t) a"
    "acyclic (edges (t_heap t))" "t_heap t a \<noteq> None \<Longrightarrow> a \<noteq> root_id \<Longrightarrow> a \<notin> D \<Longrightarrow> owned (t_heap t) a"
    "d \<in> D \<Longrightarrow> d \<noteq> root_id" "d \<in> D \<Longrightarrow> \<not> owned (t_heap t) d" "d \<in> D \<Longrightarrow> t_heap t d \<noteq> None"
  using assms by (auto simp: tree_ok_def)

lemma edges_iff: "(p, c) \<in> edges h \<longleftrightarrow> c \<in> set (children h p)"
  by (simp add: edges_def)

lemma child_live:
  assumes "tree_ok D t" "c \<in> set (children (t_heap t) p)"
  shows "\<exists>m. t_heap t c = Some m \<and> n_parent m = Some p"
  using tree_okD(3) [OF assms(1), of p] assms(2) by (auto simp: children_ok_def)

lemma parent_unique:
  assumes "tree_ok D t" "c \<in> set (children (t_heap t) p)" "c \<in> set (children (t_heap t) q)"
  shows "p = q"
  using child_live [OF assms(1,2)] child_live [OF assms(1,3)] by auto

lemma parent_live: "c \<in> set (children h p) \<Longrightarrow> h p \<noteq> None"
  by (cases "h p") (simp_all add: children_kids)

lemma root_not_child: "tree_ok D t \<Longrightarrow> root_id \<notin> set (children (t_heap t) p)"
  using child_live [of D t root_id p] tree_okD(1) [of D t] by (auto simp: root_ok_def)

lemma tree_finite:
  assumes "tree_ok D t"
  shows "finite {a. t_heap t a \<noteq> None}" "card {a. t_heap t a \<noteq> None} \<le> Suc (t_id t)"
proof -
  have s: "{a. t_heap t a \<noteq> None} \<subseteq> {..t_id t}" using tree_okD(2) [OF assms] by auto
  then show "finite {a. t_heap t a \<noteq> None}" by (rule finite_subset) simp
  show "card {a. t_heap t a \<noteq> None} \<le> Suc (t_id t)" using card_mono [OF _ s] by simp
qed

section \<open>Subtrees\<close>

definition subtree :: "heap \<Rightarrow> nat \<Rightarrow> nat set" where
  "subtree h a = {b. (a, b) \<in> (edges h)\<^sup>*}"

lemma subtree_self [simp]: "a \<in> subtree h a"
  by (simp add: subtree_def)

lemma subtree_unfold: "subtree h a = insert a (\<Union>c\<in>set (children h a). subtree h c)"
  by (auto simp: subtree_def edges_iff elim: converse_rtranclE intro: converse_rtrancl_into_rtrancl)

lemma subtree_step: "b \<in> subtree h a \<Longrightarrow> c \<in> set (children h b) \<Longrightarrow> c \<in> subtree h a"
  by (auto simp: subtree_def edges_iff intro: rtrancl_into_rtrancl)

lemma subtree_trans: "b \<in> subtree h a \<Longrightarrow> c \<in> subtree h b \<Longrightarrow> c \<in> subtree h a"
  by (auto simp: subtree_def)

lemma subtree_pred:
  assumes "tree_ok D t" "b \<in> subtree (t_heap t) a" "b \<noteq> a" "b \<in> set (children (t_heap t) p)"
  shows "p \<in> subtree (t_heap t) a"
proof -
  from assms(2,3) obtain q where "(a, q) \<in> (edges (t_heap t))\<^sup>*" "(q, b) \<in> edges (t_heap t)"
    by (auto simp: subtree_def elim: rtranclE)
  with parent_unique [OF assms(1) _ assms(4), of q] show ?thesis by (auto simp: subtree_def edges_iff)
qed

lemma subtree_live:
  assumes "tree_ok D t" "t_heap t a \<noteq> None"
  shows "subtree (t_heap t) a \<subseteq> {b. t_heap t b \<noteq> None}"
proof
  fix b assume "b \<in> subtree (t_heap t) a"
  then have "(a, b) \<in> (edges (t_heap t))\<^sup>*" by (simp add: subtree_def)
  then show "b \<in> {b. t_heap t b \<noteq> None}"
    using assms(2) child_live [OF assms(1)] by (induction rule: rtrancl_induct) (auto simp: edges_iff)
qed

lemma not_in_child_subtree:
  assumes "tree_ok D t" "c \<in> set (children (t_heap t) a)"
  shows "a \<notin> subtree (t_heap t) c"
proof
  assume "a \<in> subtree (t_heap t) c"
  then have "(a, a) \<in> (edges (t_heap t))\<^sup>+"
    using assms(2) by (auto simp: subtree_def edges_iff intro: rtrancl_into_trancl2 [of a c])
  with tree_okD(4) [OF assms(1)] show False by (auto simp: acyclic_def)
qed

lemma root_not_below: "tree_ok D t \<Longrightarrow> root_id \<in> subtree (t_heap t) a \<Longrightarrow> a = root_id"
  using root_not_child [of D t] by (auto simp: subtree_def edges_iff elim: rtranclE)

section \<open>Walking visits a subtree once\<close>

definition independent :: "heap \<Rightarrow> nat list \<Rightarrow> bool" where
  "independent h st = (distinct st \<and> (\<forall>x\<in>set st. \<forall>y\<in>set st. x \<noteq> y \<longrightarrow> y \<notin> subtree h x))"

lemma independent_push:
  assumes t: "tree_ok D t" and i: "independent (t_heap t) (st @ [a])"
  shows "independent (t_heap t) (st @ children (t_heap t) a)"
proof -
  let ?h = "t_heap t"
  have below: "y \<noteq> c" "y \<notin> subtree ?h c" "c \<notin> subtree ?h y"
    if y: "y \<in> set st" and c: "c \<in> set (children ?h a)" for y c
  proof -
    have ya: "y \<noteq> a" "y \<notin> subtree ?h a" "a \<notin> subtree ?h y" using i y by (auto simp: independent_def)
    have ac: "subtree ?h c \<subseteq> subtree ?h a" using subtree_unfold [of ?h a] c by blast
    then show "y \<notin> subtree ?h c" using ya by blast
    then show "y \<noteq> c" by auto
    then show "c \<notin> subtree ?h y" using subtree_pred [OF t _ _ c, of y] ya by auto
  qed
  have sib: "d \<notin> subtree ?h c" if "c \<in> set (children ?h a)" "d \<in> set (children ?h a)" "c \<noteq> d" for c d
    using subtree_pred [OF t _ _ that(2), of c] not_in_child_subtree [OF t that(1)] that(3) by auto
  have "distinct (children ?h a)" using tree_okD(3) [OF t] by (simp add: children_ok_def)
  then show ?thesis
    using i below sib unfolding independent_def by (auto simp: disjoint_iff)
qed

lemma walk_loop_ok:
  assumes t: "tree_ok D t"
  shows "independent (t_heap t) st \<Longrightarrow> (\<forall>x\<in>set st. t_heap t x \<noteq> None) \<Longrightarrow>
    card (\<Union>x\<in>set st. subtree (t_heap t) x) \<le> fuel \<Longrightarrow>
    \<exists>ns. walk_loop fuel (t_heap t) st acc = Inr (rev acc @ ns) \<and> distinct ns \<and>
      set ns = (\<Union>x\<in>set st. subtree (t_heap t) x)"
proof (induction fuel arbitrary: st acc)
  case 0
  have fin: "finite (\<Union>x\<in>set st. subtree (t_heap t) x)"
    using 0(2) subtree_live [OF t] tree_finite(1) [OF t] by (metis finite_UN_I finite_set finite_subset)
  then have "(\<Union>x\<in>set st. subtree (t_heap t) x) = {}" using 0(3) by (simp only: le_zero_eq card_eq_0_iff) simp
  then have "st = []" using subtree_self by (cases st) fastforce+
  then show ?case by (simp add: walk_loop.simps)
next
  case (Suc fuel)
  let ?h = "t_heap t"
  show ?case
  proof (cases st rule: rev_cases)
    case Nil
    then show ?thesis by (simp add: walk_loop.simps)
  next
    case (snoc rest a)
    let ?st = "rest @ children ?h a"
    let ?S = "\<lambda>xs. \<Union>x\<in>set xs. subtree ?h x"
    obtain n where n: "?h a = Some n" using Suc.prems(2) snoc by auto
    have ind: "independent ?h ?st" using independent_push [OF t] Suc.prems(1) snoc by simp
    have live: "\<forall>x\<in>set ?st. ?h x \<noteq> None" using Suc.prems(2) snoc child_live [OF t] by fastforce
    have "a \<notin> subtree ?h x" if "x \<in> set rest" for x
      using Suc.prems(1) that snoc by (auto simp: independent_def)
    then have a: "a \<notin> ?S ?st" using not_in_child_subtree [OF t] by auto
    have S: "?S st = insert a (?S ?st)" using snoc subtree_unfold [of ?h a] by auto
    have fin: "finite (?S ?st)"
      using live subtree_live [OF t] tree_finite(1) [OF t] by (metis finite_UN_I finite_set finite_subset)
    then have "card (?S ?st) \<le> fuel" using Suc.prems(3) S a by simp
    from Suc.IH [OF ind live this, of "a # acc"] obtain ns
      where ns: "walk_loop fuel ?h ?st (a # acc) = Inr (rev (a # acc) @ ns)" "distinct ns" "set ns = ?S ?st" by blast
    have "walk_loop (Suc fuel) ?h st acc = Inr (rev acc @ a # ns)"
      using ns(1) n snoc by (simp add: walk_loop.simps [of "Suc fuel"])
    moreover have "distinct (a # ns)" "set (a # ns) = ?S st" using ns(2,3) a S by auto
    ultimately show ?thesis by blast
  qed
qed

lemma walk_ok:
  assumes "tree_ok D t" "t_heap t a \<noteq> None"
  shows "\<exists>ns. walk t a = Inr ns \<and> distinct ns \<and> set ns = subtree (t_heap t) a"
proof -
  have "card (subtree (t_heap t) a) \<le> Suc (t_id t)"
    using card_mono [OF tree_finite(1) [OF assms(1)] subtree_live [OF assms]] tree_finite(2) [OF assms(1)] by linarith
  with walk_loop_ok [OF assms(1), of "[a]" "Suc (t_id t)" "[]"] assms(2) show ?thesis
    by (simp add: walk_def independent_def)
qed

lemma walk_all_ok:
  assumes "tree_ok D t" "\<forall>c\<in>set cs. t_heap t c \<noteq> None"
  shows "\<exists>ns. walk_all t cs = Inr ns \<and> set ns = (\<Union>c\<in>set cs. subtree (t_heap t) c)"
  using assms(2)
proof (induction cs)
  case (Cons c cs)
  moreover obtain xs where "walk t c = Inr xs" "set xs = subtree (t_heap t) c"
    using walk_ok [OF assms(1), of c] Cons.prems by auto
  ultimately show ?case by auto
qed simp

section \<open>What the operations on directories keep\<close>

text \<open>Changes that keep the place and the children of every node.\<close>

definition same_shape :: "node \<Rightarrow> node \<Rightarrow> bool" where
  "same_shape n m = (n_parent m = n_parent n \<and> n_name m = n_name n \<and> kids m = kids n \<and>
     (is_directory n \<longleftrightarrow> is_directory m))"

lemma tree_ok_shape:
  assumes "tree_ok D t" "t_id t' = t_id t" "\<And>a. rel_option same_shape (t_heap t a) (t_heap t' a)"
  shows "tree_ok D t'"
proof -
  have live: "t_heap t' a = None \<longleftrightarrow> t_heap t a = None" for a using assms(3) [of a] by (auto simp: option.rel_sel)
  have ch: "children (t_heap t') = children (t_heap t)"
  proof
    fix a show "children (t_heap t') a = children (t_heap t) a"
      using assms(3) [of a] by (auto simp: children_kids same_shape_def option.rel_sel split: option.splits)
  qed
  have nm: "name_of (t_heap t') = name_of (t_heap t)"
  proof
    fix a show "name_of (t_heap t') a = name_of (t_heap t) a"
      using assms(3) [of a] by (auto simp: name_of_def same_shape_def option.rel_sel split: option.splits)
  qed
  have "root_ok (t_heap t')"
    using tree_okD(1) [OF assms(1)] assms(3) [of root_id] by (auto simp: root_ok_def same_shape_def option_rel_Some1)
  moreover have "children_ok (t_heap t') a" for a
  proof -
    have "\<exists>m. t_heap t' c = Some m \<and> n_parent m = Some a" if "c \<in> set (children (t_heap t) a)" for c
      using child_live [OF assms(1) that] assms(3) [of c] by (auto simp: same_shape_def option_rel_Some1)
    then show ?thesis using tree_okD(3) [OF assms(1), of a] by (auto simp: children_ok_def ch nm)
  qed
  ultimately show ?thesis
    using assms(1,2) live by (auto simp: tree_ok_def edges_def owned_def ch)
qed

lemma tree_ok_upd:
  assumes "tree_ok D t" "\<And>n. t_heap t a = Some n \<Longrightarrow> same_shape n (f n)"
  shows "tree_ok D (upd_node a f t)"
proof -
  have "rel_option same_shape (t_heap t b) (t_heap (upd_node a f t) b)" for b
    using assms(2) option.rel_refl [of same_shape "t_heap t b"]
    by (auto simp: upd_node_def same_shape_def split: option.splits)
  then show ?thesis by (intro tree_ok_shape [OF assms(1)]) (simp_all add: upd_node_def split: option.splits)
qed

definition place :: "heap \<Rightarrow> nat \<Rightarrow> (nat option \<times> str) option" where
  "place h a = map_option (\<lambda>n. (n_parent n, n_name n)) (h a)"

lemma place_eqD:
  assumes "place h' a = place h a"
  shows "h' a = None \<longleftrightarrow> h a = None" "name_of h' a = name_of h a"
    "(\<exists>m. h' a = Some m \<and> n_parent m = p) \<longleftrightarrow> (\<exists>m. h a = Some m \<and> n_parent m = p)"
  using assms by (cases "h a"; cases "h' a"; simp add: place_def name_of_def)+

lemma children_ok_cong:
  assumes "children_ok h a" "children h' a = children h a"
    "\<And>c. c \<in> set (children h a) \<Longrightarrow> place h' c = place h c"
  shows "children_ok h' a"
proof -
  have "inj_on (name_of h') (set (children h a)) = inj_on (name_of h) (set (children h a))"
    using place_eqD(2) [OF assms(3)] by (intro inj_on_cong) blast
  moreover have "\<forall>c\<in>set (children h a). \<exists>m. h' c = Some m \<and> n_parent m = Some a"
    using assms(1) place_eqD(3) [OF assms(3)] by (auto simp: children_ok_def)
  ultimately show ?thesis using assms(1,2) by (simp add: children_ok_def)
qed

text \<open>A new node belongs to nobody.\<close>

lemma new_node_heap:
  "new_node name par st f t = (c, t') \<Longrightarrow>
     c = Suc (t_id t) \<and> t_id t' = c \<and> t_heap t' = (t_heap t)(c \<mapsto> mk_node name par st f)"
  by (auto simp: new_node_def Let_def)

lemma tree_ok_new:
  assumes t: "tree_ok D t" and nn: "new_node name par st f t = (c, t')" and k: "kids (mk_node name par st f) = []"
  shows "tree_ok (insert c D) t'" "t_heap t c = None" "c \<notin> D"
proof -
  note c = new_node_heap [OF nn]
  show fresh: "t_heap t c = None" using tree_okD(2) [OF t, of c] c by (cases "t_heap t c") auto
  have ch: "children (t_heap t') a = children (t_heap t) a" for a
    using c k fresh by (simp add: children_kids)
  have notc: "c \<notin> set (children (t_heap t) p)" for p using child_live [OF t, of c p] fresh by auto
  have r: "c \<noteq> root_id" using fresh tree_okD(1) [OF t] by (auto simp: root_ok_def)
  have other: "t_heap t' x = t_heap t x" if "x \<noteq> c" for x using c that by simp
  have "children_ok (t_heap t') a" for a
  proof (rule children_ok_cong [OF tree_okD(3) [OF t] ch])
    show "place (t_heap t') x = place (t_heap t) x" if "x \<in> set (children (t_heap t) a)" for x
      using other notc [of a] that by (metis place_def)
  qed
  moreover have "root_ok (t_heap t')" using tree_okD(1) [OF t] other [of root_id] r by (simp add: root_ok_def)
  moreover have "a \<le> t_id t'" if "t_heap t' a \<noteq> None" for a
    using that tree_okD(2) [OF t, of a] c other [of a] by (cases "a = c") auto
  moreover have "t_heap t' c \<noteq> None" using c by simp
  ultimately show "tree_ok (insert c D) t'"
    using t r notc other unfolding tree_ok_def edges_def owned_def ch by (metis insert_iff)
  show "c \<notin> D" using tree_okD(8) [OF t] fresh by blast
qed

text \<open>Changing the list of children of one directory.\<close>

lemma set_children_heap:
  assumes "t_heap t p = Some n" "is_directory n"
  shows "t_id (upd_node p (set_children f) t) = t_id t"
    "place (t_heap (upd_node p (set_children f) t)) = place (t_heap t)"
    "children (t_heap (upd_node p (set_children f) t)) = (children (t_heap t))(p := f (children (t_heap t) p))"
    "root_ok (t_heap t) \<Longrightarrow> root_ok (t_heap (upd_node p (set_children f) t))"
    "b \<noteq> p \<Longrightarrow> t_heap (upd_node p (set_children f) t) b = t_heap t b"
proof -
  obtain cs rd where n: "n_value n = Directory cs rd" using assms(2) by (auto simp: is_directory_def split: fs_file.splits)
  then have h: "t_heap (upd_node p (set_children f) t) = (t_heap t)(p \<mapsto> n\<lparr>n_value := Directory (f cs) rd\<rparr>)"
    using assms(1) by (simp add: upd_node_def set_children_def)
  show "place (t_heap (upd_node p (set_children f) t)) = place (t_heap t)"
    using assms(1) by (auto simp: h place_def)
  show "children (t_heap (upd_node p (set_children f) t)) = (children (t_heap t))(p := f (children (t_heap t) p))"
    using assms(1) n by (auto simp: h children_kids kids_def)
  show "root_ok (t_heap t) \<Longrightarrow> root_ok (t_heap (upd_node p (set_children f) t))"
    using assms(1) unfolding h root_ok_def by (auto simp: is_directory_def)
  show "t_id (upd_node p (set_children f) t) = t_id t" using assms(1) by (simp add: upd_node_def)
  show "b \<noteq> p \<Longrightarrow> t_heap (upd_node p (set_children f) t) b = t_heap t b" by (simp add: h)
qed

lemma children_directory: "children h p \<noteq> [] \<Longrightarrow> \<exists>n. h p = Some n \<and> is_directory n"
  by (auto simp: children_def is_directory_def split: option.splits fs_file.splits)

lemma tree_ok_detach:
  assumes t: "tree_ok D t" and c: "c \<in> set (children (t_heap t) p)"
  shows "tree_ok (insert c D) (upd_node p (set_children (filter (\<lambda>x. x \<noteq> c))) t)"
proof -
  let ?t = "upd_node p (set_children (filter (\<lambda>x. x \<noteq> c))) t"
  obtain n where n: "t_heap t p = Some n" "is_directory n" using children_directory [of "t_heap t" p] c by (metis empty_iff list.set(1))
  note h = set_children_heap [OF n, where f = "filter (\<lambda>x. x \<noteq> c)"]
  have live: "t_heap ?t a = None \<longleftrightarrow> t_heap t a = None" for a using place_eqD(1) h(2) by metis
  have ok: "children_ok (t_heap ?t) a" for a
  proof (cases "a = p")
    case True
    have "inj_on (name_of (t_heap ?t)) (set (children (t_heap ?t) p))"
      using tree_okD(3) [OF t, of p] place_eqD(2) [of "t_heap ?t" _ "t_heap t"]
      by (auto simp: children_ok_def h inj_on_def)
    then show ?thesis
      using tree_okD(3) [OF t, of p] place_eqD(3) [of "t_heap ?t" _ "t_heap t" "Some p"] True
      by (auto simp: children_ok_def h)
  next
    case False
    then show ?thesis using children_ok_cong [OF tree_okD(3) [OF t, of a]] h by simp
  qed
  have sub: "edges (t_heap ?t) \<subseteq> edges (t_heap t)" by (auto simp: edges_def h split: if_splits)
  have own: "owned (t_heap ?t) x \<longleftrightarrow> owned (t_heap t) x \<and> x \<noteq> c" for x
  proof -
    have "x \<in> set (children (t_heap ?t) q) \<longleftrightarrow> x \<in> set (children (t_heap t) q) \<and> (x \<noteq> c \<or> q \<noteq> p)" for q
      by (auto simp: h)
    then show ?thesis using parent_unique [OF t _ c] by (auto simp: owned_def)
  qed
  have cc: "c \<noteq> root_id" "t_heap t c \<noteq> None" using root_not_child [OF t] c child_live [OF t c] by auto
  show ?thesis
    unfolding tree_ok_def own live h(1)
    using t ok acyclic_subset [OF _ sub] h(4) cc unfolding tree_ok_def by blast
qed

lemma tree_ok_attach:
  assumes t: "tree_ok (insert c D) t" and c: "c \<notin> D" and p: "t_heap t p = Some n" "is_directory n"
    and m: "t_heap t c = Some m" "n_parent m = Some p"
    and nm: "\<And>x. x \<in> set (children (t_heap t) p) \<Longrightarrow> name_of (t_heap t) x \<noteq> n_name m"
    and below: "p \<notin> subtree (t_heap t) c"
  shows "tree_ok D (upd_node p (set_children (\<lambda>cs. cs @ [c])) t)"
proof -
  let ?t = "upd_node p (set_children (\<lambda>cs. cs @ [c])) t"
  note h = set_children_heap [OF p, where f = "\<lambda>cs. cs @ [c]"]
  have live: "t_heap ?t a = None \<longleftrightarrow> t_heap t a = None" for a using place_eqD(1) h(2) by metis
  have notc: "c \<notin> set (children (t_heap t) q)" for q using tree_okD(7) [OF t, of c] by (auto simp: owned_def)
  have nmc: "name_of (t_heap t) c = n_name m" using m by (simp add: name_of_def)
  have names: "name_of (t_heap ?t) = name_of (t_heap t)" using place_eqD(2) [of "t_heap ?t" _ "t_heap t"] h(2) by auto
  have ok: "children_ok (t_heap ?t) a" for a
  proof (cases "a = p")
    case True
    have "inj_on (name_of (t_heap t)) (set (children (t_heap t) p @ [c]))"
      using tree_okD(3) [OF t, of p] nm nmc unfolding children_ok_def by (fastforce simp: inj_on_def)
    moreover have "\<exists>m. t_heap ?t x = Some m \<and> n_parent m = Some p" if "x \<in> set (children (t_heap t) p @ [c])" for x
      using that tree_okD(3) [OF t, of p] m place_eqD(3) [of "t_heap ?t" x "t_heap t" "Some p"] h(2)
      by (auto simp: children_ok_def)
    ultimately show ?thesis
      using tree_okD(3) [OF t, of p] notc [of p] True unfolding children_ok_def names h(3) by auto
  next
    case False
    then show ?thesis using children_ok_cong [OF tree_okD(3) [OF t, of a]] h by simp
  qed
  have "edges (t_heap ?t) = insert (p, c) (edges (t_heap t))" by (auto simp: edges_def h split: if_splits)
  then have ac: "acyclic (edges (t_heap ?t))"
    using tree_okD(4) [OF t] below by (simp add: acyclic_insert subtree_def)
  have own: "owned (t_heap ?t) x \<longleftrightarrow> owned (t_heap t) x \<or> x = c" for x
    by (auto simp: owned_def h split: if_splits)
  show ?thesis
    unfolding tree_ok_def own live h(1)
    using t ok ac h(4) c unfolding tree_ok_def by blast
qed

lemma upd_node_twice: "upd_node a f (upd_node a g t) = upd_node a (\<lambda>n. f (g n)) t"
  by (simp add: upd_node_def split: option.splits)

lemma set_children_twice: "set_children f (set_children g n) = set_children (\<lambda>cs. f (g cs)) n"
  by (simp add: set_children_def split: fs_file.splits)

text \<open>Destroying detached subtrees.\<close>

lemma tree_ok_destroy:
  assumes t: "tree_ok D t" and C: "C \<subseteq> D" and ns: "set ns = (\<Union>c\<in>C. subtree (t_heap t) c)"
  shows "tree_ok (D - C) (destroy ns t)"
proof -
  let ?h = "t_heap t" and ?h' = "t_heap (destroy ns t)"
  have h: "?h' a = (if a \<in> set ns then None else ?h a)" for a by (simp add: destroy_def)
  have ch: "children ?h' a = (if a \<in> set ns then [] else children ?h a)" for a by (simp add: children_kids h)
  have up: "p \<in> set ns" if x: "x \<in> set ns" "x \<in> set (children ?h p)" for x p
  proof -
    obtain c where c: "c \<in> C" "x \<in> subtree ?h c" using x(1) ns by auto
    have "x \<noteq> c" using x(2) tree_okD(7) [OF t, of c] c C by (auto simp: owned_def)
    with subtree_pred [OF t c(2) _ x(2)] c(1) ns show ?thesis by auto
  qed
  have down: "x \<in> set ns" if "p \<in> set ns" "x \<in> set (children ?h p)" for x p
    using that ns subtree_step by fastforce
  have root: "root_id \<notin> set ns"
    using ns root_not_below [OF t] tree_okD(6) [OF t] C by (metis UN_E subsetD)
  have own: "owned ?h' x \<longleftrightarrow> owned ?h x \<and> x \<notin> set ns" for x
  proof -
    have "x \<in> set (children ?h' p) \<longleftrightarrow> x \<in> set (children ?h p) \<and> p \<notin> set ns" for p by (simp add: ch)
    then show ?thesis using up [of x] down [of _ x] unfolding owned_def by blast
  qed
  have "children_ok ?h' a" for a
  proof (cases "a \<in> set ns")
    case False
    show ?thesis
      by (rule children_ok_cong [OF tree_okD(3) [OF t]]) (use False up in \<open>auto simp: ch place_def h\<close>)
  qed (simp add: children_ok_def ch)
  moreover have "edges ?h' \<subseteq> edges ?h" by (auto simp: edges_def ch split: if_splits)
  moreover have "root_ok ?h'" using tree_okD(1) [OF t] root by (simp add: root_ok_def h)
  moreover have "C \<subseteq> set ns" using ns by auto
  moreover have "d \<notin> set ns" if d: "d \<in> D" "d \<notin> C" for d
  proof
    assume "d \<in> set ns"
    then obtain c where c: "c \<in> C" "d \<in> subtree ?h c" using ns by auto
    then have "(c, d) \<in> (edges ?h)\<^sup>*" "d \<noteq> c" using d by (auto simp: subtree_def)
    then obtain p where "d \<in> set (children ?h p)" by (auto simp: edges_iff elim: rtranclE)
    then show False using tree_okD(7) [OF t d(1)] by (auto simp: owned_def)
  qed
  ultimately show ?thesis
    using t acyclic_subset unfolding tree_ok_def own h by (auto simp: destroy_def)
qed

lemma tree_ok_drop:
  assumes "tree_ok (insert c D) t" "c \<notin> D"
  shows "\<exists>t'. drop_node c t = (Inr (), t') \<and> tree_ok D t' \<and> t_id t' = t_id t \<and>
    (\<forall>a. t_heap t' a = (if a \<in> subtree (t_heap t) c then None else t_heap t a))"
proof -
  obtain ns where ns: "walk t c = Inr ns" "set ns = subtree (t_heap t) c"
    using walk_ok [OF assms(1)] tree_okD(8) [OF assms(1), of c] by blast
  have "tree_ok (insert c D - {c}) (destroy ns t)"
    by (rule tree_ok_destroy [OF assms(1)]) (simp_all add: ns)
  with ns assms(2) show ?thesis by (simp add: drop_node_def destroy_def)
qed

text \<open>Changing the variant of a node into one without children: its children are on their own.\<close>

lemma tree_ok_mutate:
  assumes t: "tree_ok D t" and a: "t_heap t a = Some n" "a \<noteq> root_id" and f: "kids (n\<lparr>n_value := f\<rparr>) = []"
  shows "tree_ok (D \<union> set (kids n)) (upd_node a (\<lambda>n. n\<lparr>n_value := f\<rparr>) t)"
proof -
  let ?t = "upd_node a (\<lambda>n. n\<lparr>n_value := f\<rparr>) t"
  have h: "t_heap ?t = (t_heap t)(a \<mapsto> n\<lparr>n_value := f\<rparr>)" "t_id ?t = t_id t" using a(1) by (simp_all add: upd_node_def)
  have ch: "children (t_heap ?t) = (children (t_heap t))(a := [])"
    using f by (auto simp: h children_kids)
  have pl: "place (t_heap ?t) = place (t_heap t)" using a(1) by (auto simp: h place_def)
  have live: "t_heap ?t x = None \<longleftrightarrow> t_heap t x = None" for x using place_eqD(1) pl by metis
  have k: "children (t_heap t) a = kids n" using a(1) by (simp add: children_kids)
  have own: "owned (t_heap ?t) x \<longleftrightarrow> owned (t_heap t) x \<and> x \<notin> set (kids n)" for x
  proof -
    have "x \<in> set (children (t_heap ?t) p) \<longleftrightarrow> x \<in> set (children (t_heap t) p) \<and> p \<noteq> a" for p by (simp add: ch)
    then show ?thesis using parent_unique [OF t, of x a] k unfolding owned_def by metis
  qed
  have ok: "children_ok (t_heap ?t) x" for x
  proof (cases "x = a")
    case True
    then show ?thesis by (simp add: children_ok_def ch)
  next
    case False
    then show ?thesis using children_ok_cong [OF tree_okD(3) [OF t, of x]] ch pl by simp
  qed
  have "edges (t_heap ?t) \<subseteq> edges (t_heap t)" by (auto simp: edges_def ch split: if_splits)
  then have ac: "acyclic (edges (t_heap ?t))" using tree_okD(4) [OF t] by (rule acyclic_subset [rotated])
  have r: "root_ok (t_heap ?t)" using tree_okD(1) [OF t] a(2) by (simp add: root_ok_def h)
  have kid: "c \<noteq> root_id \<and> t_heap t c \<noteq> None" if "c \<in> set (kids n)" for c
    using that k root_not_child [OF t, of a] child_live [OF t, of c a] by auto
  show ?thesis
    unfolding tree_ok_def own live h(2)
    using ok ac r kid tree_okD(6) [OF t, of root_id] tree_okD(2,5,7,8) [OF t] by auto
qed

section \<open>The operations of directories\<close>

lemma child_find_Some:
  "child_find h cs name = Some c \<Longrightarrow> c \<in> set cs \<and> name_of h c = name \<and> h c \<noteq> None"
  by (auto simp: child_find_def find_Some_iff has_name_def name_of_def split: option.splits)

lemma child_find_None:
  assumes "tree_ok D t" "child_find (t_heap t) (children (t_heap t) p) name = None" "x \<in> set (children (t_heap t) p)"
  shows "name_of (t_heap t) x \<noteq> name"
  using assms child_live [OF assms(1,3)]
  by (auto simp: child_find_def find_None_iff has_name_def name_of_def)

lemma child_find_child:
  assumes "tree_ok D t" "x \<in> set (children (t_heap t) p)"
  shows "child_find (t_heap t) (children (t_heap t) p) (name_of (t_heap t) x) = Some x"
proof (cases "child_find (t_heap t) (children (t_heap t) p) (name_of (t_heap t) x)")
  case None
  with child_find_None [OF assms(1) None assms(2)] show ?thesis by simp
next
  case (Some y)
  from child_find_Some [OF Some] have "y \<in> set (children (t_heap t) p)" "name_of (t_heap t) y = name_of (t_heap t) x" by auto
  with tree_okD(3) [OF assms(1), of p] assms(2) Some show ?thesis by (auto simp: children_ok_def inj_on_def)
qed

lemma subtree_childless: "children h c = [] \<Longrightarrow> subtree h c = {c}"
  using subtree_unfold [of h c] by simp

lemma dir_extract_ok:
  assumes "tree_ok D t" "dir_extract p name t = (r, t')"
  shows "case r of None \<Rightarrow> t' = t | Some c \<Rightarrow> tree_ok (insert c D) t' \<and> c \<notin> D \<and> c \<in> set (children (t_heap t) p) \<and>
     name_of (t_heap t) c = name \<and> t_id t' = t_id t \<and> place (t_heap t') = place (t_heap t)"
proof (cases "child_find (t_heap t) (children (t_heap t) p) name")
  case None
  with assms(2) show ?thesis by (auto simp: dir_extract_def)
next
  case (Some c)
  have t': "r = Some c" "t' = upd_node p (set_children (filter (\<lambda>x. x \<noteq> c))) t"
    using assms(2) Some by (auto simp: dir_extract_def)
  have c: "c \<in> set (children (t_heap t) p)" "name_of (t_heap t) c = name" using child_find_Some [OF Some] by auto
  obtain n where n: "t_heap t p = Some n" "is_directory n"
    using children_directory [of "t_heap t" p] c(1) by (metis empty_iff list.set(1))
  have "c \<notin> D" using tree_okD(7) [OF assms(1), of c] c(1) by (auto simp: owned_def)
  with c tree_ok_detach [OF assms(1) c(1)] set_children_heap(1,2) [OF n] show ?thesis by (simp add: t')
qed

lemma dir_insert_ok:
  assumes t: "tree_ok (insert c D) t" and c: "c \<notin> D" and p: "t_heap t p = Some n" "is_directory n"
    and m: "t_heap t c = Some m" "n_parent m = Some p" and below: "p \<notin> subtree (t_heap t) c"
    and ins: "dir_insert p c repl t = (r, t')"
  shows "case r of
     Inr (c', None) \<Rightarrow> c' = c \<and> tree_ok D t' \<and> t' = upd_node p (set_children (\<lambda>cs. cs @ [c])) t
   | Inr (c', Some old) \<Rightarrow> c' = c \<and> tree_ok (insert old D) t' \<and> old \<notin> D \<and> old \<noteq> c \<and>
       old \<in> set (children (t_heap t) p) \<and> name_of (t_heap t) old = n_name m \<and>
       t' = upd_node p (set_children (\<lambda>cs. filter (\<lambda>x. x \<noteq> old) cs @ [c])) t
   | Inl e \<Rightarrow> e = Errc file_exists \<and> \<not> repl \<and> t' = destroy [c] t"
proof (cases "child_find (t_heap t) (children (t_heap t) p) (n_name m)")
  case None
  have "tree_ok D (upd_node p (set_children (\<lambda>cs. cs @ [c])) t)"
    by (rule tree_ok_attach [OF t c p m _ below]) (rule child_find_None [OF t None])
  with None ins m(1) show ?thesis by (auto simp: dir_insert_def)
next
  case (Some old)
  have old: "old \<in> set (children (t_heap t) p)" "name_of (t_heap t) old = n_name m" "t_heap t old \<noteq> None"
    using child_find_Some [OF Some] by auto
  have oD: "old \<notin> insert c D" using tree_okD(7) [OF t, of old] old(1) by (auto simp: owned_def)
  let ?t = "upd_node p (set_children (filter (\<lambda>x. x \<noteq> old))) t"
  note h = set_children_heap [OF p, where f = "filter (\<lambda>x. x \<noteq> old)"]
  have t1: "tree_ok (insert c (insert old D)) ?t" using tree_ok_detach [OF t old(1)] by (simp add: insert_commute)
  obtain n1 where p1: "t_heap ?t p = Some n1" "is_directory n1"
    using p by (auto simp: upd_node_def set_children_def is_directory_def split: fs_file.splits)
  have "c \<noteq> p" using below by auto
  then have m1: "t_heap ?t c = Some m" using h(5) [of c] m(1) by simp
  have nm: "name_of (t_heap ?t) x \<noteq> n_name m" if x: "x \<in> set (children (t_heap ?t) p)" for x
  proof -
    have "x \<in> set (children (t_heap t) p)" "x \<noteq> old" using x by (auto simp: h)
    then have "name_of (t_heap t) x \<noteq> name_of (t_heap t) old"
      using tree_okD(3) [OF t, of p] old(1) by (auto simp: children_ok_def inj_on_def)
    then show ?thesis using place_eqD(2) [of "t_heap ?t" x "t_heap t"] h(2) old(2) by simp
  qed
  have "edges (t_heap ?t) \<subseteq> edges (t_heap t)" by (auto simp: edges_def h split: if_splits)
  then have "p \<notin> subtree (t_heap ?t) c" using below rtrancl_mono unfolding subtree_def by blast
  moreover have "c \<notin> insert old D" using c oD by auto
  ultimately have "tree_ok (insert old D) (upd_node p (set_children (\<lambda>cs. cs @ [c])) ?t)"
    using tree_ok_attach [OF t1 _ p1 m1 m(2) nm] by blast
  then show ?thesis
    using Some ins m(1) oD old by (auto simp: dir_insert_def upd_node_twice set_children_twice split: if_splits)
qed

lemma dir_insert_refused:
  assumes "tree_ok (insert c D) t" "c \<notin> D" "children (t_heap t) c = []"
  shows "tree_ok D (destroy [c] t)"
proof -
  have "tree_ok (insert c D - {c}) (destroy [c] t)"
    by (rule tree_ok_destroy [OF assms(1)]) (simp_all add: subtree_childless [OF assms(3)])
  with assms(2) show ?thesis by simp
qed

lemma kids_mk_node: "kids (mk_node name par st f) = (case f of Directory cs _ \<Rightarrow> cs | _ \<Rightarrow> [])"
  by (simp add: kids_def mk_node_def)

text \<open>A node made for a directory, ready to be inserted.\<close>

lemma new_node_ready:
  assumes t: "tree_ok D t" and nn: "new_node name (Some p) st f t = (c, t')"
    and k: "kids (mk_node name (Some p) st f) = []" and p: "t_heap t p = Some n"
  shows "tree_ok (insert c D) t'" "c \<notin> D" "t_heap t' p = Some n" "t_heap t' c = Some (mk_node name (Some p) st f)"
    "p \<notin> subtree (t_heap t') c" "children (t_heap t') c = []" "c \<noteq> p" "t_heap t c = None"
    "\<And>a. a \<noteq> c \<Longrightarrow> t_heap t' a = t_heap t a"
proof -
  note c = new_node_heap [OF nn] and new = tree_ok_new [OF t nn k]
  show "tree_ok (insert c D) t'" "c \<notin> D" "t_heap t c = None" by (rule new)+
  then show cp: "c \<noteq> p" using p by auto
  then show "t_heap t' p = Some n" using c p by auto
  show "t_heap t' c = Some (mk_node name (Some p) st f)" using c by simp
  then show ch: "children (t_heap t') c = []" using k by (simp add: children_kids)
  show "p \<notin> subtree (t_heap t') c" using cp by (simp add: subtree_childless [OF ch])
  show "\<And>a. a \<noteq> c \<Longrightarrow> t_heap t' a = t_heap t a" using c by auto
qed

lemma node_build_ok:
  assumes t: "tree_ok D t" and k: "kids (mk_node name (Some a) st f) = []"
    and b: "node_build a name st f t = (r, t')"
  shows "tree_ok D t'" and "r = Inr c \<Longrightarrow> c \<in> set (children (t_heap t') a) \<and> t_heap t c = None \<and>
     t_heap t' c = Some (mk_node name (Some a) st f) \<and> (\<forall>x. x \<noteq> c \<longrightarrow> x \<noteq> a \<longrightarrow> t_heap t' x = t_heap t x) \<and>
     (\<exists>n. t_heap t a = Some n \<and> t_heap t' a = Some (set_children (\<lambda>cs. cs @ [c]) n))"
    and "r = Inl UB \<Longrightarrow> t_heap t a = None"
proof -
  have "tree_ok D t' \<and> (r = Inr c \<longrightarrow> c \<in> set (children (t_heap t') a) \<and> t_heap t c = None \<and>
     t_heap t' c = Some (mk_node name (Some a) st f) \<and> (\<forall>x. x \<noteq> c \<longrightarrow> x \<noteq> a \<longrightarrow> t_heap t' x = t_heap t x) \<and>
     (\<exists>n. t_heap t a = Some n \<and> t_heap t' a = Some (set_children (\<lambda>cs. cs @ [c]) n))) \<and>
     (r = Inl UB \<longrightarrow> t_heap t a = None)"
  proof (cases "and_then (the_node a t) as_directory")
    case (Inl e)
    then show ?thesis using t b by (auto simp: node_build_def the_node_def as_directory_def split: option.splits fs_file.splits)
  next
    case (Inr v)
    then obtain n where n: "t_heap t a = Some n" "is_directory n"
      by (auto simp: the_node_def as_directory_def is_directory_def split: option.splits fs_file.splits)
    obtain d t1 where nn: "new_node name (Some a) st f t = (d, t1)" by fastforce
    note rdy = new_node_ready [OF t nn k n(1)]
    obtain r2 t2 where ins: "dir_insert a d False t1 = (r2, t2)" by fastforce
    have rt: "r = transform r2 fst" "t' = t2" using b Inr nn ins by (auto simp: node_build_def)
    note di = dir_insert_ok [OF rdy(1,2,3) n(2) rdy(4) _ rdy(5) ins]
    show ?thesis
    proof (cases r2)
      case (Inl e)
      then show ?thesis using di rt dir_insert_refused [OF rdy(1,2,6)] by (auto simp: mk_node_def)
    next
      case (Inr cv)
      have new: "snd cv = None" "fst cv = d" "tree_ok D t2" "t2 = upd_node a (set_children (\<lambda>cs. cs @ [d])) t1"
        using di Inr ins rdy(4) by (auto simp: mk_node_def dir_insert_def split: option.splits)
      have "t_heap t2 a = Some (set_children (\<lambda>cs. cs @ [d]) n)" using new(4) rdy(3) by (simp add: upd_node_def)
      moreover have "d \<in> set (children (t_heap t2) a)"
        using new(4) set_children_heap(3) [OF rdy(3) n(2)] by simp
      moreover have "t_heap t2 x = t_heap t1 x" if "x \<noteq> a" for x
        using that new(4) set_children_heap(5) [OF rdy(3) n(2)] by simp
      ultimately show ?thesis using new rt Inr rdy(4,7,8,9) n(1) by auto
    qed
  qed
  then show "tree_ok D t'" and "r = Inr c \<Longrightarrow> c \<in> set (children (t_heap t') a) \<and> t_heap t c = None \<and>
     t_heap t' c = Some (mk_node name (Some a) st f) \<and> (\<forall>x. x \<noteq> c \<longrightarrow> x \<noteq> a \<longrightarrow> t_heap t' x = t_heap t x) \<and>
     (\<exists>n. t_heap t a = Some n \<and> t_heap t' a = Some (set_children (\<lambda>cs. cs @ [c]) n))"
    and "r = Inl UB \<Longrightarrow> t_heap t a = None" by blast+
qed

end
