(* ===== verification/Fs_Inv.thy ===== *)
theory Fs_Inv
  imports Fs_Ops Tree_Inv "HOL-Library.Sublist"
begin

text \<open>
  The tree under the operations of the file system, proved with triples over the tree:
  \<open>valid P m Q R\<close> says that from a tree satisfying \<open>P\<close> the operation \<open>m\<close> ends in one satisfying \<open>Q v\<close>
  if it returns \<open>v\<close>, and \<open>R\<close> if it returns an error code; an execution that is undefined or
  does not end is not constrained.
\<close>

named_theorems valid_intros

section \<open>Triples\<close>

definition valid :: "(tree \<Rightarrow> bool) \<Rightarrow> ('a, 'd) fs_op \<Rightarrow> ('a \<Rightarrow> tree \<Rightarrow> bool) \<Rightarrow> (tree \<Rightarrow> bool) \<Rightarrow> bool" where
  "valid P m Q R = (\<forall>s. P (f_tree s) \<longrightarrow>
     (case m s of
        (Inr v, s') \<Rightarrow> Q v (f_tree s')
      | (Inl e, s') \<Rightarrow> (case e of Errc _ \<Rightarrow> R (f_tree s') | _ \<Rightarrow> True)))"

lemma valid_conseq:
  "valid P' m Q' R' \<Longrightarrow> (\<And>t. P t \<Longrightarrow> P' t) \<Longrightarrow> (\<And>v t. Q' v t \<Longrightarrow> Q v t) \<Longrightarrow> (\<And>t. R' t \<Longrightarrow> R t) \<Longrightarrow> valid P m Q R"
  unfolding valid_def by (fastforce split: prod.splits sum.splits fault.splits)

lemma valid_bind: "valid P m Q' R \<Longrightarrow> (\<And>v. valid (Q' v) (k v) Q R) \<Longrightarrow> valid P (bind_fs m k) Q R"
  unfolding valid_def bind_fs_def by (fastforce split: prod.splits sum.splits fault.splits)

lemma valid_then: "valid P m (\<lambda>_. Q') R \<Longrightarrow> valid Q' k Q R \<Longrightarrow> valid P (then_fs m k) Q R"
  unfolding then_fs_def by (rule valid_bind)

lemma valid_return: "(\<And>t. P t \<Longrightarrow> Q v t) \<Longrightarrow> valid P (return_fs v) Q R"
  by (simp add: valid_def return_fs_def)

lemma valid_fail: "(\<And>t. P t \<Longrightarrow> R t) \<Longrightarrow> valid P (fail_fs (Errc e)) Q R"
  by (simp add: valid_def fail_fs_def)

lemma valid_fault: "valid P (fail_fs UB) Q R"
  by (simp add: valid_def fail_fs_def)

lemma valid_fail_any: "(\<And>t. P t \<Longrightarrow> R t) \<Longrightarrow> valid P (fail_fs e) Q R"
  by (simp add: valid_def fail_fs_def split: fault.splits)

lemma valid_attempt:
  assumes "valid P m Q' R'" "\<And>v t. Q' v t \<Longrightarrow> Q (Inr v) t" "\<And>e t. R' t \<Longrightarrow> Q (Inl e) t"
  shows "valid P (attempt m) Q R"
  using assms unfolding valid_def attempt_def by (fastforce split: prod.splits sum.splits fault.splits)

lemma valid_dev: "(\<And>v t. P t \<Longrightarrow> Q v t) \<Longrightarrow> (\<And>t. P t \<Longrightarrow> R t) \<Longrightarrow> valid P (on_dev f) Q R"
  by (auto simp: valid_def on_dev_def split: prod.splits sum.splits fault.splits)

lemma valid_cache:
  assumes "valid P m Q R" "\<And>v t. P t \<Longrightarrow> Q v t" "\<And>t. P t \<Longrightarrow> R t"
  shows "valid P (on_cache f m) Q R"
  using assms unfolding valid_def on_cache_def by (fastforce split: prod.splits sum.splits fault.splits option.splits)

lemma valid_tree:
  "(\<And>t r t'. P t \<Longrightarrow> f t = (r, t') \<Longrightarrow> (case r of Inr v \<Rightarrow> Q v t' | Inl (Errc _) \<Rightarrow> R t' | _ \<Rightarrow> True)) \<Longrightarrow> valid P (on_tree f) Q R"
  unfolding valid_def on_tree_def by (fastforce split: prod.splits sum.splits fault.splits)

lemma valid_from:
  "(\<And>t v. P t \<Longrightarrow> f t = Inr v \<Longrightarrow> Q v t) \<Longrightarrow> (\<And>t. P t \<Longrightarrow> R t) \<Longrightarrow> valid P (from_tree f) Q R"
  by (auto simp: valid_def from_tree_def split: sum.splits fault.splits)

lemma valid_from_ok: "(\<And>t. P t \<Longrightarrow> \<exists>v. f t = Inr v \<and> Q v t) \<Longrightarrow> valid P (from_tree f) Q R"
  by (fastforce simp: valid_def from_tree_def split: sum.splits)

lemma valid_get: "(\<And>t n. P t \<Longrightarrow> t_heap t a = Some n \<Longrightarrow> Q n t) \<Longrightarrow> valid P (get_node a) Q R"
  by (auto simp: valid_def get_node_def from_tree_def the_node_def split: sum.splits fault.splits option.splits)

lemma valid_mod:
  "(\<And>t n. P t \<Longrightarrow> t_heap t a = Some n \<Longrightarrow> Q () (upd_node a f t)) \<Longrightarrow> valid P (mod_node a f) Q R"
  unfolding mod_node_def by (intro valid_bind [where Q' = "\<lambda>n t. P t \<and> t_heap t a = Some n"] valid_get valid_tree) auto

lemma valid_erase: "(\<And>t. P t \<Longrightarrow> Q () t) \<Longrightarrow> valid P (erase_handles ns) Q R"
  by (simp add: valid_def erase_handles_def)

lemma valid_state: "(\<And>s. valid P (k s) Q R) \<Longrightarrow> valid P (\<lambda>s. k s s) Q R"
  by (simp add: valid_def)

lemma valid_state_tree: "(\<And>s. valid (\<lambda>t. P t \<and> t = f_tree s) (k s) Q R) \<Longrightarrow> valid P (\<lambda>s. k s s) Q R"
  by (simp add: valid_def)

lemma valid_if: "(b \<Longrightarrow> valid P m Q R) \<Longrightarrow> (\<not> b \<Longrightarrow> valid P m' Q R) \<Longrightarrow> valid P (if b then m else m') Q R"
  by simp

text \<open>The same rules in forward form, with the strongest postcondition they give.\<close>

lemma valid_fwd:
  "(\<And>t. P t \<Longrightarrow> R t) \<Longrightarrow> valid P (on_dev f) (\<lambda>_. P) R"
  "valid P (get_node a) (\<lambda>n t. P t \<and> t_heap t a = Some n) R"
  "(\<And>t. P t \<Longrightarrow> R t) \<Longrightarrow> valid P (from_tree g) (\<lambda>v t. P t \<and> g t = Inr v) R"
  "valid P (attempt (on_dev f)) (\<lambda>_. P) R"
  "valid P (attempt (from_tree g)) (\<lambda>r t. P t \<and> (\<forall>v. r = Inr v \<longrightarrow> g t = Inr v)) R"
  "valid P (erase_handles ns) (\<lambda>_. P) R"
  "valid P (return_fs w) (\<lambda>r t. P t \<and> r = w) R"
  by (auto simp: valid_def on_dev_def get_node_def from_tree_def the_node_def attempt_def erase_handles_def
      return_fs_def split: prod.splits sum.splits fault.splits option.splits)

lemma valid_attempt_fwd:
  "valid P m Q' R' \<Longrightarrow> valid P (attempt m) (\<lambda>r t. case r of Inl _ \<Rightarrow> R' t | Inr v \<Rightarrow> Q' v t) R"
  by (rule valid_attempt) auto

lemma valid_post: "valid P m Q' R \<Longrightarrow> (\<And>v t. Q' v t \<Longrightarrow> Q v t) \<Longrightarrow> valid P m Q R"
  by (rule valid_conseq)

lemma valid_pre: "valid P' m Q R \<Longrightarrow> (\<And>t. P t \<Longrightarrow> P' t) \<Longrightarrow> valid P m Q R"
  by (rule valid_conseq)

lemma valid_each: "(\<And>x. valid P (f x) (\<lambda>_. P) R) \<Longrightarrow> valid P (each_entry f xs) (\<lambda>_. P) R"
  by (induction xs) (auto intro: valid_return valid_then)

section \<open>What never moves\<close>

text \<open>Nodes keep their name and parent as long as they live, and a dead reference stays dead.\<close>

definition evolves :: "tree \<Rightarrow> tree \<Rightarrow> bool" where
  "evolves t0 t = (t_id t0 \<le> t_id t \<and>
     (\<forall>a\<le>t_id t0. t_heap t a = None \<or> place (t_heap t) a = place (t_heap t0) a))"

lemma evolves_refl: "evolves t t"
  by (simp add: evolves_def)

lemma place_None: "place h a = None \<longleftrightarrow> h a = None"
  by (simp add: place_def)

lemma evolves_trans: "evolves t0 t1 \<Longrightarrow> evolves t1 t2 \<Longrightarrow> evolves t0 t2"
  unfolding evolves_def by (metis le_trans place_None)

lemma evolves_place: "place (t_heap t') = place (t_heap t) \<Longrightarrow> t_id t' = t_id t \<Longrightarrow> evolves t t'"
  by (simp add: evolves_def)

lemma evolves_destroy: "evolves t (destroy ns t)"
  by (simp add: evolves_def destroy_def place_def)

lemma evolves_new: "new_node name par st f t = (c, t') \<Longrightarrow> evolves t t'"
  using new_node_heap [of name par st f t c t'] by (auto simp: evolves_def place_def)

lemma place_upd: "(\<And>n. n_parent (f n) = n_parent n \<and> n_name (f n) = n_name n) \<Longrightarrow> place (t_heap (upd_node a f t)) = place (t_heap t)"
  by (auto simp: upd_node_def place_def split: option.splits)

lemma upd_node_id [simp]: "t_id (upd_node a f t) = t_id t"
  by (simp add: upd_node_def split: option.splits)

definition fs_ok :: "tree \<Rightarrow> nat set \<Rightarrow> tree \<Rightarrow> bool" where
  "fs_ok t0 D t = (tree_ok D t \<and> evolves t0 t)"

lemma fs_ok_evolve: "fs_ok t0 D t \<Longrightarrow> tree_ok D' t' \<Longrightarrow> evolves t t' \<Longrightarrow> fs_ok t0 D' t'"
  by (auto simp: fs_ok_def intro: evolves_trans)

lemma fs_ok_tree: "fs_ok t0 D t \<Longrightarrow> tree_ok D t"
  by (simp add: fs_ok_def)

text \<open>A live node that is not the root.\<close>

definition live :: "nat \<Rightarrow> tree \<Rightarrow> bool" where
  "live a t = (t_heap t a \<noteq> None)"

lemma live_upd [simp]: "live a (upd_node b f t) = live a t"
  by (auto simp: live_def upd_node_def split: option.splits)

section \<open>Updates in place\<close>

definition keeps_shape :: "(node \<Rightarrow> node) \<Rightarrow> bool" where
  "keeps_shape f = (\<forall>n. same_shape n (f n))"

lemma fs_ok_upd: "fs_ok t0 D t \<Longrightarrow> keeps_shape f \<Longrightarrow> fs_ok t0 D (upd_node a f t)"
  using tree_ok_upd [of D t a f] evolves_place [OF place_upd [of f a t]]
  by (auto simp: keeps_shape_def same_shape_def fs_ok_def intro: evolves_trans)

lemma keeps_shape_simps [simp]:
  "keeps_shape (\<lambda>n. n\<lparr>n_stat := st\<rparr>)" "keeps_shape (expires_after now d)" "keeps_shape (refresh_stat time at mt)"
  "keeps_shape (set_size sz)" "keeps_shape (set_synced b)" "keeps_shape (grow_size off ret)"
  by (simp_all add: keeps_shape_def same_shape_def kids_def is_directory_def expires_after_def refresh_stat_def
      set_size_def set_synced_def grow_size_def Let_def split: fs_file.splits)

lemma valid_shape:
  "keeps_shape f \<Longrightarrow> (\<And>t. P t \<Longrightarrow> fs_ok t0 D t) \<Longrightarrow> (\<And>t. P t \<Longrightarrow> X t) \<Longrightarrow> (\<And>t. X t \<Longrightarrow> X (upd_node a f t)) \<Longrightarrow>
     valid P (mod_node a f) (\<lambda>_ t. fs_ok t0 D t \<and> X t) R"
  by (rule valid_mod) (auto intro: fs_ok_upd)

section \<open>Where a node is\<close>

inductive at :: "heap \<Rightarrow> nat \<Rightarrow> str list \<Rightarrow> bool" for h where
  at_root: "at h root_id []"
| at_child: "h a = Some n \<Longrightarrow> n_parent n = Some p \<Longrightarrow> a \<noteq> root_id \<Longrightarrow> at h p xs \<Longrightarrow> at h a (xs @ [n_name n])"

inductive_cases at_elim: "at h a xs"

lemma at_root_iff: "at h a xs \<Longrightarrow> a = root_id \<longleftrightarrow> xs = []"
  by (auto elim: at.cases)

lemma at_unique: "at h a xs \<Longrightarrow> at h a ys \<Longrightarrow> xs = ys"
proof (induction arbitrary: ys rule: at.induct)
  case at_root
  then show ?case by (auto elim: at.cases)
next
  case (at_child a n p xs)
  from at_child.prems at_child.hyps(1-3) obtain zs where "ys = zs @ [n_name n]" "at h p zs" by (auto elim: at.cases)
  with at_child.IH show ?case by simp
qed

text \<open>What is known of a reference that was found under a path: while it is alive it is there.\<close>

definition known :: "nat \<Rightarrow> str list \<Rightarrow> tree \<Rightarrow> bool" where
  "known a xs t = (a \<le> t_id t \<and> (live a t \<longrightarrow> at (t_heap t) a xs))"

definition child_of :: "nat \<Rightarrow> str \<Rightarrow> nat \<Rightarrow> tree \<Rightarrow> bool" where
  "child_of p name c t = (place (t_heap t) c = Some (Some p, name))"

lemma child_of_alt: "child_of p name c t \<longleftrightarrow> (\<exists>n. t_heap t c = Some n \<and> n_parent n = Some p \<and> n_name n = name)"
  by (auto simp: child_of_def place_def)

lemma child_of_not_root: "tree_ok D t \<Longrightarrow> child_of p name c t \<Longrightarrow> c \<noteq> root_id"
  using tree_okD(1) [of D t] by (auto simp: root_ok_def child_of_alt)

lemma child_of_owned:
  assumes "tree_inv t" "child_of p name c t"
  shows "c \<in> set (children (t_heap t) p)"
proof -
  obtain q where "c \<in> set (children (t_heap t) q)"
    using tree_okD(5) [OF assms(1), of c] child_of_not_root [OF assms] assms(2) by (auto simp: owned_def child_of_alt)
  with child_live [OF assms(1) this] assms(2) show ?thesis by (auto simp: child_of_alt)
qed

lemma known_child:
  assumes "tree_inv t" "child_of p name c t" "known p xs t"
  shows "live c t" "known c (xs @ [name]) t"
proof -
  obtain n where n: "t_heap t c = Some n" "n_parent n = Some p" "n_name n = name" using assms(2) by (auto simp: child_of_alt)
  then show "live c t" by (simp add: live_def)
  have "live p t" using parent_live [OF child_of_owned [OF assms(1,2)]] by (simp add: live_def)
  with assms(3) have "at (t_heap t) p xs" by (simp add: known_def)
  then have "at (t_heap t) c (xs @ [name])" using at_child [of "t_heap t" c n p xs] n child_of_not_root [OF assms(1,2)] by blast
  then show "known c (xs @ [name]) t" using tree_okD(2) [OF assms(1), of c] n(1) by (simp add: known_def)
qed

definition persistent :: "(tree \<Rightarrow> bool) \<Rightarrow> bool" where
  "persistent X = (\<forall>t t'. tree_inv t \<longrightarrow> tree_inv t' \<longrightarrow> evolves t t' \<longrightarrow> X t \<longrightarrow> X t')"

lemma at_persist:
  assumes "tree_inv t" "tree_inv t'" "evolves t t'"
  shows "at (t_heap t) a xs \<Longrightarrow> t_heap t' a \<noteq> None \<Longrightarrow> at (t_heap t') a xs"
proof (induction rule: at.induct)
  case at_root
  show ?case by (rule at.at_root)
next
  case (at_child a n p xs)
  have "a \<le> t_id t" using tree_okD(2) [OF assms(1)] at_child.hyps(1) by auto
  then have "place (t_heap t') a = place (t_heap t) a" using assms(3) at_child.prems by (auto simp: evolves_def)
  with at_child.hyps(1,2) have c: "child_of p (n_name n) a t'" by (simp add: child_of_def place_def)
  then obtain m where m: "t_heap t' a = Some m" "n_parent m = Some p" "n_name m = n_name n" by (auto simp: child_of_alt)
  have "t_heap t' p \<noteq> None" by (rule parent_live [OF child_of_owned [OF assms(2) c]])
  with at.at_child [OF m(1,2) at_child.hyps(3) at_child.IH] m(3) show ?case by simp
qed

lemma known_persistent: "persistent (known a xs)"
  unfolding persistent_def known_def live_def
proof (intro allI impI conjI)
  fix t t' assume t: "tree_inv t" "tree_inv t'" "evolves t t'" "a \<le> t_id t \<and> (t_heap t a \<noteq> None \<longrightarrow> at (t_heap t) a xs)"
  show "a \<le> t_id t'" using t(3,4) by (simp add: evolves_def)
  assume l: "t_heap t' a \<noteq> None"
  then have "t_heap t a \<noteq> None" using t(3,4) by (metis evolves_def place_None)
  with at_persist [OF t(1-3)] l t(4) show "at (t_heap t') a xs" by blast
qed

lemma persistent_True [simp]: "persistent (\<lambda>_. True)"
  by (simp add: persistent_def)

lemma persistent_conj: "persistent X \<Longrightarrow> persistent Y \<Longrightarrow> persistent (\<lambda>t. X t \<and> Y t)"
  unfolding persistent_def by blast

lemma evolves_to_start: "fs_ok t0 D t \<Longrightarrow> fs_ok t D t"
  by (simp add: fs_ok_def evolves_refl)

text \<open>The frame rule: what is known stays known.\<close>

lemma valid_frame:
  assumes m: "\<And>t0. valid (\<lambda>t. fs_ok t0 {} t \<and> P t) m (\<lambda>v t. fs_ok t0 {} t \<and> Q v t) (fs_ok t0 {})" and X: "persistent X"
  shows "valid (\<lambda>t. fs_ok t0 {} t \<and> P t \<and> X t) m (\<lambda>v t. fs_ok t0 {} t \<and> Q v t \<and> X t) (\<lambda>t. fs_ok t0 {} t \<and> X t)"
  unfolding valid_def
proof (intro allI impI)
  fix s :: "'a fs" assume s: "fs_ok t0 {} (f_tree s) \<and> P (f_tree s) \<and> X (f_tree s)"
  have "X t'" if "fs_ok (f_tree s) {} t'" for t'
    using s that X unfolding persistent_def fs_ok_def by blast
  then show "case m s of (Inr v, s') \<Rightarrow> fs_ok t0 {} (f_tree s') \<and> Q v (f_tree s') \<and> X (f_tree s')
      | (Inl e, s') \<Rightarrow> (case e of Errc _ \<Rightarrow> fs_ok t0 {} (f_tree s') \<and> X (f_tree s') | _ \<Rightarrow> True)"
    using m [of t0, unfolded valid_def, rule_format, of s] m [of "f_tree s", unfolded valid_def, rule_format, of s]
      s evolves_to_start [of t0 "{}" "f_tree s"]
    by (auto split: prod.splits sum.splits fault.splits)
qed

section \<open>Building and updating\<close>

lemma valid_expire:
  assumes "\<And>t. P t \<Longrightarrow> fs_ok t0 D t" "\<And>t. P t \<Longrightarrow> X t" "\<And>t f. X t \<Longrightarrow> keeps_shape f \<Longrightarrow> X (upd_node a f t)"
  shows "valid P (fs_expire env a) (\<lambda>_ t. fs_ok t0 D t \<and> X t) R" "valid P (fs_refresh env a at' mt) (\<lambda>_ t. fs_ok t0 D t \<and> X t) R"
proof -
  have m: "valid P (mod_node a f) (\<lambda>_ t. fs_ok t0 D t \<and> X t) R" if "keeps_shape f" for f
    by (rule valid_shape [OF that]) (use assms that in auto)
  show "valid P (fs_expire env a) (\<lambda>_ t. fs_ok t0 D t \<and> X t) R"
    unfolding fs_expire_def by (rule valid_state) (simp add: m)
  show "valid P (fs_refresh env a at' mt) (\<lambda>_ t. fs_ok t0 D t \<and> X t) R"
    unfolding fs_refresh_def by (rule valid_state) (simp add: m)
qed

lemma child_of_upd: "keeps_shape f \<Longrightarrow> child_of p name c (upd_node a f t) = child_of p name c t"
  using place_upd [of f a t] by (simp add: child_of_def keeps_shape_def same_shape_def)

lemma build_tree_step:
  assumes "fs_ok t0 {} t" "kids (mk_node name (Some a) st f) = []" "node_build a name st f t = (r, t')"
  shows "fs_ok t0 {} t'" "r = Inr c \<Longrightarrow> child_of a name c t'"
proof -
  have t: "tree_inv t" using assms(1) by (rule fs_ok_tree)
  have "evolves t t'"
  proof (cases "and_then (the_node a t) as_directory")
    case Inl
    then show ?thesis using assms(3) by (auto simp: node_build_def evolves_refl)
  next
    case (Inr v)
    obtain c t1 where nn: "new_node name (Some a) st f t = (c, t1)" by fastforce
    have "evolves t1 t'"
      using assms(3) Inr nn
      by (auto simp: node_build_def dir_insert_def evolves_refl intro!: evolves_destroy evolves_place place_upd
          split: option.splits prod.splits if_splits fs_file.splits simp: set_children_def)
    with evolves_new [OF nn] show ?thesis by (rule evolves_trans)
  qed
  then show "fs_ok t0 {} t'" using fs_ok_evolve [OF assms(1) node_build_ok(1) [OF t assms(2,3)]] by blast
  show "child_of a name c t'" if "r = Inr c"
    using node_build_ok(2) [OF t assms(2,3) that] by (simp add: child_of_alt mk_node_def)
qed

lemma valid_build_then_expire:
  assumes "kids (mk_node name (Some a) st f) = []"
  shows "valid (fs_ok t0 {}) (build_then_expire env a name st f) (\<lambda>c t. fs_ok t0 {} t \<and> child_of a name c t) (fs_ok t0 {})"
  unfolding build_then_expire_def
proof (rule valid_bind)
  show "valid (fs_ok t0 {}) (on_tree (node_build a name st f)) (\<lambda>c t. fs_ok t0 {} t \<and> child_of a name c t) (fs_ok t0 {})"
    using build_tree_step [OF _ assms] by (intro valid_tree) (auto split: sum.splits fault.splits)
  show "valid (\<lambda>t. fs_ok t0 {} t \<and> child_of a name c t) (then_fs (fs_expire env c) (return_fs c))
      (\<lambda>c t. fs_ok t0 {} t \<and> child_of a name c t) (fs_ok t0 {})" for c
    by (rule valid_then [OF valid_expire(1) [where X = "child_of a name c"]])
      (auto intro: valid_return simp: child_of_upd)
qed

lemma kids_simps [simp]:
  "kids (mk_node name par st (Error e)) = []" "kids (mk_node name par st (kind_of m)) = []"
  "kids (mk_node name par st (Directory [] b)) = []" "kids (mk_node name par st (Regular d)) = []"
  "kids (mk_node name par st (Link l)) = []"
  "kids (n\<lparr>n_value := Error e\<rparr>) = []" "kids (n\<lparr>n_value := kind_of m\<rparr>) = []"
  by (simp_all add: kids_def mk_node_def kind_of_def)

lemma valid_fs_build:
  "valid (fs_ok t0 {}) (fs_build env a p) (\<lambda>c t. fs_ok t0 {} t \<and> child_of a (filename p) c t) (fs_ok t0 {})"
  "valid (fs_ok t0 {}) (build_directory env a p) (\<lambda>c t. fs_ok t0 {} t \<and> child_of a (filename p) c t) (fs_ok t0 {})"
proof -
  have neg: "valid (fs_ok t0 {})
      (then_fs (if should_cache_error err
                then then_fs (attempt (build_then_expire env a (filename p) default_stat (Error err))) (return_fs ())
                else return_fs ()) (fail_fs (Errc err))) Q (fs_ok t0 {})" for err and Q :: "nat \<Rightarrow> tree \<Rightarrow> bool"
    by (intro valid_then [where Q' = "fs_ok t0 {}"] valid_if valid_return valid_fail valid_attempt [OF valid_build_then_expire])
      simp_all
  show "valid (fs_ok t0 {}) (fs_build env a p) (\<lambda>c t. fs_ok t0 {} t \<and> child_of a (filename p) c t) (fs_ok t0 {})"
    unfolding fs_build_def
    by (rule valid_bind, rule valid_fwd(4)) (simp add: neg valid_build_then_expire split: sum.split)
  show "valid (fs_ok t0 {}) (build_directory env a p) (\<lambda>c t. fs_ok t0 {} t \<and> child_of a (filename p) c t) (fs_ok t0 {})"
    unfolding build_directory_def
    by (rule valid_bind, rule valid_fwd(4)) (simp add: neg valid_build_then_expire valid_fail split: sum.split)
qed

lemma invalidate_no_errc: "fst (invalidate_one env a False c d) \<noteq> Unexpect e"
proof -
  have "fst (erase_pages ps c) \<noteq> Unexpect e" for ps c
    by (induction ps c rule: erase_pages.induct) auto
  then show ?thesis by (auto simp: invalidate_one_def split: option.splits prod.splits) (metis fst_conv)
qed

lemma valid_invalidate: "valid P (cache_invalidate env a) (\<lambda>_. P) R"
proof -
  have nf: "False" if "invalidate_one env a False c d = (Unexpect e, x)" for c d x e
    using invalidate_no_errc [of env a c d e] that by simp
  show ?thesis
    by (auto dest: nf simp: valid_def cache_invalidate_def on_cache_def return_fs_def split: option.splits prod.splits sum.splits fault.splits)
qed

lemma valid_invalidate_nodes: "valid P (invalidate_nodes env ns) (\<lambda>_. P) R"
  by (induction ns) (auto intro: valid_return valid_then [OF valid_invalidate])

lemma kids_not_self:
  assumes "tree_ok D t" "t_heap t a = Some n"
  shows "a \<notin> (\<Union>c\<in>set (kids n). subtree (t_heap t) c)"
  using not_in_child_subtree [OF assms(1), of _ a] assms(2) by (auto simp: children_kids)

lemma evolves_mutate: "evolves t (upd_node a (\<lambda>n. n\<lparr>n_value := f\<rparr>) t)"
  by (rule evolves_place [OF place_upd]) auto

lemma valid_mutate:
  assumes a: "a \<noteq> root_id" and f: "\<And>n. kids (n\<lparr>n_value := f\<rparr>) = []"
  shows "valid (fs_ok t0 {}) (mutate_and_invalidate env a f) (\<lambda>_ t. fs_ok t0 {} t \<and> live a t) (fs_ok t0 {})"
  unfolding mutate_and_invalidate_def
proof (rule valid_bind, rule valid_fwd(2))
  fix old
  let ?I = "\<lambda>t. fs_ok t0 (set (kids old)) t \<and> live a t \<and> (\<forall>c\<in>set (kids old). a \<notin> subtree (t_heap t) c)"
  have mut: "?I (upd_node a (\<lambda>n. n\<lparr>n_value := f\<rparr>) t)" if t: "fs_ok t0 {} t" "t_heap t a = Some old" for t
  proof -
    let ?t = "upd_node a (\<lambda>n. n\<lparr>n_value := f\<rparr>) t"
    have "tree_ok (set (kids old)) ?t" using tree_ok_mutate [OF fs_ok_tree [OF t(1)] t(2) a f] by simp
    then have "fs_ok t0 (set (kids old)) ?t" by (rule fs_ok_evolve [OF t(1) _ evolves_mutate])
    moreover have "edges (t_heap ?t) \<subseteq> edges (t_heap t)"
      using t(2) f by (auto simp: upd_node_def edges_def children_kids split: if_splits)
    note sub = rtrancl_mono [OF this]
    have "subtree (t_heap ?t) c \<subseteq> subtree (t_heap t) c" for c using sub by (auto simp: subtree_def)
    moreover have "live a ?t" using t(2) by (simp add: live_def upd_node_def)
    ultimately show ?thesis using kids_not_self [OF fs_ok_tree [OF t(1)] t(2)] by blast
  qed
  have step: "valid (\<lambda>t. fs_ok t0 {} t \<and> t_heap t a = Some old) (mod_node a (\<lambda>n. n\<lparr>n_value := f\<rparr>)) (\<lambda>_. ?I) (fs_ok t0 {})"
    using mut by (intro valid_mod) auto
  show "valid (\<lambda>t. fs_ok t0 {} t \<and> t_heap t a = Some old)
     (then_fs (mod_node a (\<lambda>n. n\<lparr>n_value := f\<rparr>))
       (case n_value old of
          Directory cs _ \<Rightarrow>
            bind_fs (from_tree (\<lambda>t. walk_all t cs)) (\<lambda>nodes.
            then_fs (erase_handles nodes)
            (then_fs (invalidate_nodes env nodes)
            (then_fs (erase_handles [a])
            (on_tree (\<lambda>t. (Inr (), destroy nodes t))))))
        | Regular _ \<Rightarrow> then_fs (cache_invalidate env a) (erase_handles [a])
        | _ \<Rightarrow> return_fs ())) (\<lambda>_ t. fs_ok t0 {} t \<and> live a t) (fs_ok t0 {})"
  proof (rule valid_then [OF step])
    show "valid ?I
       (case n_value old of
          Directory cs _ \<Rightarrow>
            bind_fs (from_tree (\<lambda>t. walk_all t cs)) (\<lambda>nodes.
            then_fs (erase_handles nodes)
            (then_fs (invalidate_nodes env nodes)
            (then_fs (erase_handles [a])
            (on_tree (\<lambda>t. (Inr (), destroy nodes t))))))
        | Regular _ \<Rightarrow> then_fs (cache_invalidate env a) (erase_handles [a])
        | _ \<Rightarrow> return_fs ()) (\<lambda>_ t. fs_ok t0 {} t \<and> live a t) (fs_ok t0 {})"
    proof (cases "n_value old")
      case (Directory cs rd)
      have k: "kids old = cs" by (simp add: kids_def Directory)
      have w: "\<exists>ns. walk_all t cs = Inr ns \<and> (fs_ok t0 {} (destroy ns t) \<and> live a (destroy ns t))" if t: "?I t" for t
      proof -
        have ok: "tree_ok (set cs) t" using t k by (simp add: fs_ok_def)
        obtain ns where ns: "walk_all t cs = Inr ns" "set ns = (\<Union>c\<in>set cs. subtree (t_heap t) c)"
          using walk_all_ok [OF ok, of cs] tree_okD(8) [OF ok] by auto
        have "fs_ok t0 {} (destroy ns t)"
          using tree_ok_destroy [OF ok, of "set cs" ns] ns(2) t by (auto intro: fs_ok_evolve [OF _ _ evolves_destroy])
        moreover have "live a (destroy ns t)" using t k ns(2) by (auto simp: live_def destroy_def)
        ultimately show ?thesis using ns(1) by blast
      qed
      show ?thesis
        unfolding Directory fs_file.case
      proof (rule valid_bind [OF valid_from_ok [OF w]])
        fix ns
        let ?Q = "\<lambda>t. fs_ok t0 {} (destroy ns t) \<and> live a (destroy ns t)"
        show "valid ?Q (then_fs (erase_handles ns) (then_fs (invalidate_nodes env ns)
            (then_fs (erase_handles [a]) (on_tree (\<lambda>t. (Inr (), destroy ns t)))))) (\<lambda>_ t. fs_ok t0 {} t \<and> live a t) (fs_ok t0 {})"
          by (rule valid_then [OF valid_fwd(6)], rule valid_then [OF valid_invalidate_nodes],
              rule valid_then [OF valid_fwd(6)], rule valid_tree) auto
      qed
    next
      case (Regular d)
      have k: "kids old = []" by (simp add: kids_def Regular)
      show ?thesis
        by (simp only: Regular fs_file.case k set_empty)
          (rule valid_then [OF valid_invalidate], rule valid_erase, simp)
    qed (simp_all add: kids_def valid_return)
  qed
qed

lemma valid_expire_live: "valid (\<lambda>t. fs_ok t0 {} t \<and> live a t) (fs_expire env a) (\<lambda>_ t. fs_ok t0 {} t \<and> live a t) R"
  by (rule valid_expire) auto

lemma valid_shape_live: "keeps_shape f \<Longrightarrow> valid (\<lambda>t. fs_ok t0 {} t \<and> live a t) (mod_node b f) (\<lambda>_ t. fs_ok t0 {} t \<and> live a t) R"
  by (rule valid_shape) auto

lemma valid_update:
  assumes a: "a \<noteq> root_id"
  shows "valid (\<lambda>t. fs_ok t0 {} t \<and> live a t) (fs_update env a p) (\<lambda>_ t. fs_ok t0 {} t \<and> live a t) (fs_ok t0 {})"
proof -
  let ?P = "\<lambda>t. fs_ok t0 {} t \<and> live a t"
  have mut: "valid ?P (then_fs (mutate_and_invalidate env a f) (fs_expire env a)) (\<lambda>_. ?P) (fs_ok t0 {})"
    if "\<And>n. kids (n\<lparr>n_value := f\<rparr>) = []" for f
    by (rule valid_then [OF valid_pre [OF valid_mutate [OF a that]] valid_expire_live]) simp
  show ?thesis
    unfolding fs_update_def
  proof (rule valid_bind, rule valid_fwd(4), rule valid_bind, rule valid_fwd(2))
    fix new_stat n
    show "valid (\<lambda>t. (fs_ok t0 {} t \<and> live a t) \<and> t_heap t a = Some n)
      (case new_stat of
        Inl err \<Rightarrow>
          then_fs (if should_cache_error err
                   then then_fs (mutate_and_invalidate env a (Error err)) (fs_expire env a)
                   else return_fs ()) (fail_fs (Errc err))
      | Inr st \<Rightarrow>
          if \<not> is_error n \<and> \<not> detect_modification (n_stat n) st then fs_expire env a
          else if s_ifmt (st_mode st) = S_IFDIR \<and> s_ifmt (st_mode (n_stat n)) = S_IFDIR then
            then_fs (mod_node a (\<lambda>n. n\<lparr>n_stat := st\<rparr>))
            (then_fs (mod_node a (set_synced False)) (fs_expire env a))
          else
            then_fs (mod_node a (\<lambda>n. n\<lparr>n_stat := st\<rparr>))
            (then_fs (mutate_and_invalidate env a (kind_of (st_mode st))) (fs_expire env a))) (\<lambda>_. ?P) (fs_ok t0 {})"
    proof (cases new_stat)
      case (Inl err)
      show ?thesis
        unfolding Inl sum.case
        by (rule valid_then [where Q' = ?P])
          (auto intro!: valid_if valid_return valid_fail valid_pre [OF mut])
    next
      case (Inr st)
      show ?thesis
        unfolding Inr sum.case
        by (rule valid_pre [where P' = ?P], intro valid_if valid_expire_live valid_then [OF valid_shape_live] mut) simp_all
    qed
  qed
qed

lemma valid_refresh_expired:
  assumes a: "a \<noteq> root_id"
  shows "valid (\<lambda>t. fs_ok t0 {} t \<and> live a t) (refresh_expired env a p) (\<lambda>_ t. fs_ok t0 {} t \<and> live a t) (fs_ok t0 {})"
  unfolding refresh_expired_def
  by (rule valid_bind, rule valid_fwd(2), rule valid_state, rule valid_pre [where P' = "\<lambda>t. fs_ok t0 {} t \<and> live a t"])
    (auto intro: valid_update [OF a] valid_return)

lemma valid_prop: "(b \<Longrightarrow> valid P m Q R) \<Longrightarrow> valid (\<lambda>t. P t \<and> b) m Q R"
  by (cases b) (simp_all add: valid_def)

section \<open>Traversal\<close>

text \<open>The two ways to the next node of a path, with what they make known of it.\<close>

lemma valid_found:
  "valid (\<lambda>t. fs_ok t0 {} t \<and> live a t \<and> known a xs t \<and> a \<noteq> root_id) (refresh_expired env a p)
     (\<lambda>_ t. fs_ok t0 {} t \<and> live a t \<and> known a xs t) (fs_ok t0 {})"
proof -
  have "valid (\<lambda>t. fs_ok t0 {} t \<and> (live a t \<and> a \<noteq> root_id)) (refresh_expired env a p)
     (\<lambda>_ t. fs_ok t0 {} t \<and> live a t) (fs_ok t0 {})" for t0
    using valid_refresh_expired [of a t0 env p] by (cases "a = root_id") (simp_all add: valid_def)
  from valid_frame [OF this known_persistent, of t0 a xs] show ?thesis by (rule valid_conseq) auto
qed

lemma valid_built:
  assumes "\<And>t0. valid (fs_ok t0 {}) m (\<lambda>c t. fs_ok t0 {} t \<and> child_of a name c t) (fs_ok t0 {})"
  shows "valid (\<lambda>t. fs_ok t0 {} t \<and> known a xs t) m (\<lambda>c t. fs_ok t0 {} t \<and> live c t \<and> known c (xs @ [name]) t) (fs_ok t0 {})"
proof -
  have "valid (\<lambda>t. fs_ok t0 {} t \<and> True) m (\<lambda>c t. fs_ok t0 {} t \<and> child_of a name c t) (fs_ok t0 {})" for t0
    using assms by simp
  from valid_frame [OF this known_persistent, of t0 a xs] show ?thesis
    by (rule valid_conseq) (auto dest: known_child [OF fs_ok_tree])
qed

lemma node_traverse_child:
  assumes "tree_ok D t" "node_traverse t a name = Inr c"
  shows "child_of a name c t"
proof -
  obtain n cs rd where n: "t_heap t a = Some n" "as_directory n = Inr (cs, rd)" "dir_find t cs name = Inr c"
    using assms(2) by (cases "the_node a t") (auto simp: node_traverse_def the_node_def and_then_def split: option.splits sum.splits)
  then have cs: "children (t_heap t) a = cs" by (auto simp: children_def as_directory_def split: fs_file.splits)
  have "child_find (t_heap t) cs name = Some c" using n(3) by (auto simp: dir_find_def ok_or_def split: option.splits)
  from child_find_Some [OF this] child_live [OF assms(1), of c a] cs show ?thesis
    by (auto simp: child_of_alt name_of_def)
qed

lemma traversed_known:
  assumes "fs_ok t0 {} t" "known a xs t" "node_traverse t a name = Inr c"
  shows "live c t" "known c (xs @ [name]) t" "c \<noteq> root_id"
  using known_child [OF fs_ok_tree [OF assms(1)]] child_of_not_root [OF fs_ok_tree [OF assms(1)]]
    node_traverse_child [OF fs_ok_tree [OF assms(1)] assms(3)] assms(2) by blast+

lemma node_traverse_iff:
  assumes "tree_inv t"
  shows "node_traverse t a name = Inr c \<longleftrightarrow> child_of a name c t"
proof
  assume c: "child_of a name c t"
  from child_of_owned [OF assms c] have m: "c \<in> set (children (t_heap t) a)" .
  then obtain n where n: "t_heap t a = Some n" "is_directory n"
    using children_directory [of "t_heap t" a] by (metis empty_iff list.set(1))
  have "name_of (t_heap t) c = name" using c by (auto simp: child_of_alt name_of_def)
  with child_find_child [OF assms m] n show "node_traverse t a name = Inr c"
    by (auto simp: node_traverse_def the_node_def as_directory_def is_directory_def dir_find_def children_def split: fs_file.splits)
qed (rule node_traverse_child [OF assms])

lemma traverse_at:
  assumes "tree_inv t"
  shows "at (t_heap t) a xs \<Longrightarrow> traverse_loop t a ys = r \<Longrightarrow> traverse_loop t root_id (xs @ ys) = r"
proof (induction arbitrary: ys r rule: at.induct)
  case (at_child a n p xs)
  have "node_traverse t p (n_name n) = Inr a"
    using at_child.hyps(1,2) by (simp add: node_traverse_iff [OF assms] child_of_alt)
  with at_child.IH [of "n_name n # ys" r] at_child.prems show ?case by simp
qed simp

lemma valid_tob_loop:
  assumes "path_ok cp" "iter cp = xs" "\<forall>x\<in>set names. \<not> bad_name x"
  shows "valid (\<lambda>t. fs_ok t0 {} t \<and> live cur t \<and> known cur xs t) (tob_loop env cur cp names)
     (\<lambda>(c, q) t. fs_ok t0 {} t \<and> live c t \<and> known c (xs @ names) t \<and> path_ok q \<and> iter q = xs @ names) (fs_ok t0 {})"
  using assms
proof (induction names arbitrary: cur cp xs)
  case Nil
  then show ?case by (auto intro!: valid_return)
next
  case (Cons name names)
  let ?cp = "snd (Path.extend cp name)"
  have cp: "path_ok ?cp" "iter ?cp = xs @ [name]" "filename ?cp = name"
    using extend_ok [OF Cons.prems(1), of name] Cons.prems(2,3) by auto
  have loop: "valid (\<lambda>t. fs_ok t0 {} t \<and> live c t \<and> known c (xs @ [name]) t) (tob_loop env c ?cp names)
     (\<lambda>(c, q) t. fs_ok t0 {} t \<and> live c t \<and> known c (xs @ name # names) t \<and> path_ok q \<and> iter q = xs @ name # names) (fs_ok t0 {})" for c
    using Cons.IH [OF cp(1,2), of c] Cons.prems(3) by simp
  show ?case
    unfolding tob_loop.simps Let_def
  proof (rule valid_bind, rule valid_fwd(5))
    fix r :: "errc + nat"
    let ?P = "\<lambda>t. (fs_ok t0 {} t \<and> live cur t \<and> known cur xs t) \<and> (\<forall>v. r = Inr v \<longrightarrow> node_traverse t cur name = Inr v)"
    show "valid ?P (case r of
         Inr a \<Rightarrow> then_fs (refresh_expired env a ?cp) (tob_loop env a ?cp names)
       | Inl _ \<Rightarrow> bind_fs (build_directory env cur ?cp) (\<lambda>a. tob_loop env a ?cp names))
       (\<lambda>(c, q) t. fs_ok t0 {} t \<and> live c t \<and> known c (xs @ name # names) t \<and> path_ok q \<and> iter q = xs @ name # names) (fs_ok t0 {})"
    proof (cases r)
      case (Inr a)
      show ?thesis
        unfolding Inr sum.case
      proof (rule valid_then [OF valid_pre [OF valid_found [where xs = "xs @ [name]"]] loop])
        show "fs_ok t0 {} t \<and> live a t \<and> known a (xs @ [name]) t \<and> a \<noteq> root_id"
          if "(fs_ok t0 {} t \<and> live cur t \<and> known cur xs t) \<and>
            (\<forall>v. Inr a = (Inr v :: errc + nat) \<longrightarrow> node_traverse t cur name = Inr v)" for t
          using that traversed_known [of t0 t cur xs name a] by simp
      qed
    next
      case (Inl e)
      have b: "valid (\<lambda>t. fs_ok t0 {} t \<and> known cur xs t) (build_directory env cur ?cp)
          (\<lambda>c t. fs_ok t0 {} t \<and> live c t \<and> known c (xs @ [name]) t) (fs_ok t0 {})"
        using valid_built [OF valid_fs_build(2), of t0 cur xs env ?cp] by (simp only: cp(3))
      show ?thesis
        unfolding Inl sum.case
        by (rule valid_bind [OF valid_pre [OF b] loop]) blast
    qed
  qed
qed

lemma path_parts:
  assumes "path_ok p" "\<not> is_root p"
  shows "path_ok (parent_path p)" "iter p = iter (parent_path p) @ [filename p]"
proof -
  show "path_ok (parent_path p)" using parent_path_ok [OF assms(1)] by blast
  have "iter (parent_path p) = butlast (iter p)" using parent_path_ok [OF assms(1)] by blast
  moreover have "iter p \<noteq> []" "last (iter p) = filename p" using assms(2) by (simp_all add: iter_def is_root_def filename_def last_map)
  ultimately show "iter p = iter (parent_path p) @ [filename p]" by (metis append_butlast_last_id)
qed

text \<open>A path as the kernel hands it over: well formed, with proper names.\<close>

definition good_path :: "path \<Rightarrow> bool" where
  "good_path p = (path_ok p \<and> (\<forall>x\<in>set (iter p). \<not> bad_name x))"

lemma good_parent: "good_path p \<Longrightarrow> good_path (parent_path p)"
  using parent_path_ok [of p] by (auto simp: good_path_def dest: in_set_butlastD)

lemma known_root: "fs_ok t0 D t \<Longrightarrow> live root_id t \<and> known root_id [] t"
  using tree_okD(1,2) [OF fs_ok_tree, of t0 D t] by (auto simp: root_ok_def live_def known_def intro: at_root)

lemma valid_traverse_or_build:
  assumes "good_path p"
  shows "valid (fs_ok t0 {}) (traverse_or_build env p)
     (\<lambda>a t. fs_ok t0 {} t \<and> live a t \<and> known a (iter p) t) (fs_ok t0 {})"
proof (cases "is_root p")
  case True
  then have "iter p = []" by (simp add: iter_def is_root_def)
  with True show ?thesis by (auto simp: traverse_or_build_def dest: known_root intro!: valid_return)
next
  case False
  have ok: "path_ok p" "\<forall>x\<in>set (iter p). \<not> bad_name x" using assms by (auto simp: good_path_def)
  note parts = path_parts [OF ok(1) False]
  have names: "\<forall>x\<in>set (iter (parent_path p)). \<not> bad_name x" "\<not> bad_name (filename p)" using ok(2) parts(2) by auto
  have loop: "valid (fs_ok t0 {}) (tob_loop env root_id root_path (iter (parent_path p)))
     (\<lambda>(c, q) t. fs_ok t0 {} t \<and> live c t \<and> known c (iter (parent_path p)) t \<and> path_ok q \<and> iter q = iter (parent_path p)) (fs_ok t0 {})"
    using valid_tob_loop [of root_path "[]" "iter (parent_path p)" t0 root_id env, OF _ _ names(1)] known_root [of t0 "{}"]
    by (simp add: valid_def)
  show ?thesis
    unfolding traverse_or_build_def if_not_P [OF False]
  proof (rule valid_bind [OF loop], unfold split_beta Let_def)
    fix cq :: "nat \<times> path"
    let ?cur = "fst cq" and ?p = "snd cq"
    let ?q = "snd (Path.extend ?p (filename p))"
    let ?P = "\<lambda>t. fs_ok t0 {} t \<and> live ?cur t \<and> known ?cur (iter (parent_path p)) t \<and> path_ok ?p \<and> iter ?p = iter (parent_path p)"
    show "valid ?P (bind_fs (attempt (from_tree (\<lambda>t. node_traverse t ?cur (filename p)))) (\<lambda>found. case found of
           Inr a \<Rightarrow> then_fs (refresh_expired env a ?q) (return_fs a)
         | Inl _ \<Rightarrow> fs_build env ?cur ?q)) (\<lambda>a t. fs_ok t0 {} t \<and> live a t \<and> known a (iter p) t) (fs_ok t0 {})"
    proof (rule valid_bind, rule valid_fwd(5))
      fix r :: "errc + nat"
      show "valid (\<lambda>t. ?P t \<and> (\<forall>v. r = Inr v \<longrightarrow> node_traverse t ?cur (filename p) = Inr v)) (case r of
           Inr a \<Rightarrow> then_fs (refresh_expired env a ?q) (return_fs a)
         | Inl _ \<Rightarrow> fs_build env ?cur ?q) (\<lambda>a t. fs_ok t0 {} t \<and> live a t \<and> known a (iter p) t) (fs_ok t0 {})"
      proof (cases r)
        case (Inr a)
        show ?thesis
          unfolding Inr sum.case
        proof (rule valid_then [OF valid_pre [OF valid_found [where xs = "iter p"]]])
          show "fs_ok t0 {} t \<and> live a t \<and> known a (iter p) t \<and> a \<noteq> root_id"
            if "?P t \<and> (\<forall>v. Inr a = (Inr v :: errc + nat) \<longrightarrow> node_traverse t ?cur (filename p) = Inr v)" for t
            using that traversed_known [of t0 t ?cur "iter (parent_path p)" "filename p" a] by (simp add: parts(2))
        qed (rule valid_return)
      next
        case (Inl e)
        have "valid (\<lambda>t. fs_ok t0 {} t \<and> known ?cur (iter (parent_path p)) t) (fs_build env ?cur ?q)
            (\<lambda>a t. fs_ok t0 {} t \<and> live a t \<and> known a (iter p) t) (fs_ok t0 {})" if "path_ok ?p"
          using valid_built [OF valid_fs_build(1), of t0 ?cur "iter (parent_path p)" env ?q]
            extend_ok [OF that names(2)] parts(2) by simp
        then show ?thesis
          unfolding Inl sum.case by (auto simp: valid_def)
      qed
    qed
  qed
qed

end
