(* ===== verification/Fs_Run.thy ===== *)
theory Fs_Run
  imports Fs_Inv
begin

text \<open>
  Every operation of the file system keeps the tree a tree: the triples of the operations, by
  the triples of the traversal, and the relation of the steps between them.
\<close>

section \<open>Directories and leaves\<close>

definition isdir :: "nat \<Rightarrow> tree \<Rightarrow> bool" where
  "isdir a t = (\<exists>n. t_heap t a = Some n \<and> is_directory n)"

definition leaf :: "nat \<Rightarrow> tree \<Rightarrow> bool" where
  "leaf a t = (\<exists>n. t_heap t a = Some n \<and> \<not> is_directory n)"

lemma keeps_shape_dir: "keeps_shape f \<Longrightarrow> is_directory (f n) = is_directory n"
  by (auto simp: keeps_shape_def same_shape_def)

lemma isdir_upd [simp]: "keeps_shape f \<Longrightarrow> isdir a (upd_node b f t) = isdir a t"
  by (auto simp: isdir_def upd_node_def keeps_shape_dir split: option.splits)

lemma leaf_upd [simp]: "keeps_shape f \<Longrightarrow> leaf a (upd_node b f t) = leaf a t"
  by (auto simp: leaf_def upd_node_def keeps_shape_dir split: option.splits)

lemma as_directory_isdir: "as_directory n = Inr v \<Longrightarrow> is_directory n"
  by (auto simp: as_directory_def is_directory_def split: fs_file.splits)

lemma as_regular_leaf: "as_regular n = Inr v \<Longrightarrow> \<not> is_directory n"
  by (auto simp: as_regular_def is_directory_def split: fs_file.splits)

lemma as_link_leaf: "as_link n = Inr v \<Longrightarrow> \<not> is_directory n"
  by (auto simp: as_link_def is_directory_def split: fs_file.splits)

lemma leaf_kids: "\<not> is_directory n \<Longrightarrow> kids n = []"
  by (auto simp: is_directory_def kids_def split: fs_file.splits)

lemma child_of_isdir: "tree_inv t \<Longrightarrow> child_of p name c t \<Longrightarrow> isdir p t"
  using child_of_owned [of t p name c] children_directory [of "t_heap t" p]
  by (metis empty_iff isdir_def list.set(1))

text \<open>Changing the variant of a leaf into another leaf.\<close>

lemma valid_leaf:
  assumes "\<And>n. n_parent (f n) = n_parent n \<and> n_name (f n) = n_name n \<and> \<not> is_directory (f n)"
  shows "valid (\<lambda>t. fs_ok t0 {} t \<and> leaf a t) (mod_node a f) (\<lambda>_ t. fs_ok t0 {} t \<and> leaf a t) R"
proof (rule valid_mod)
  fix t n assume t: "fs_ok t0 {} t \<and> leaf a t" "t_heap t a = Some n"
  have "same_shape n (f n)" using t assms [of n] leaf_kids by (auto simp: same_shape_def leaf_def)
  then have "tree_inv (upd_node a f t)" using t by (intro tree_ok_upd) (auto simp: fs_ok_def)
  moreover have "evolves t (upd_node a f t)" using assms by (intro evolves_place place_upd) auto
  moreover have "leaf a (upd_node a f t)" using t assms [of n] by (auto simp: leaf_def upd_node_def)
  ultimately show "fs_ok t0 {} (upd_node a f t) \<and> leaf a (upd_node a f t)"
    using t fs_ok_evolve by blast
qed

definition keeps_tree :: "('a, 'd) fs_op \<Rightarrow> bool" where
  "keeps_tree m = (\<forall>t0. valid (fs_ok t0 {}) m (\<lambda>_. fs_ok t0 {}) (fs_ok t0 {}))"

lemma keeps_treeI: "(\<And>t0. valid (fs_ok t0 {}) m (\<lambda>_. fs_ok t0 {}) (fs_ok t0 {})) \<Longrightarrow> keeps_tree m"
  by (simp add: keeps_tree_def)

lemma keeps_tree_bind: "keeps_tree m \<Longrightarrow> (\<And>v. keeps_tree (k v)) \<Longrightarrow> keeps_tree (bind_fs m k)"
  unfolding keeps_tree_def by (blast intro: valid_bind)

lemma keeps_tree_then: "keeps_tree m \<Longrightarrow> keeps_tree k \<Longrightarrow> keeps_tree (then_fs m k)"
  unfolding keeps_tree_def by (blast intro: valid_then)

lemma keeps_tree_basic:
  "keeps_tree (return_fs v)" "keeps_tree (fail_fs e)" "keeps_tree (on_dev f)" "keeps_tree (get_node a)"
  "keeps_tree (from_tree g)" "keeps_tree (erase_handles ns)" "keeps_tree (fs_expire env a)"
  "keeps_tree (fs_refresh env a at' mt)" "keeps_shape h \<Longrightarrow> keeps_tree (mod_node a h)" "keeps_tree (store_handle a md fd)"
  unfolding keeps_tree_def
  by (auto intro: valid_return valid_fail_any valid_dev valid_get valid_from valid_erase fs_ok_upd valid_mod
      valid_expire [where X = "\<lambda>_. True", simplified])
    (auto simp: valid_def store_handle_def split: prod.splits)

lemma keeps_tree_attempt: "keeps_tree m \<Longrightarrow> keeps_tree (attempt m)"
  unfolding keeps_tree_def by (blast intro: valid_attempt)

lemma keeps_tree_cache: "keeps_tree m \<Longrightarrow> keeps_tree (on_cache f m)"
  unfolding keeps_tree_def by (blast intro: valid_cache)

lemma keeps_tree_state: "(\<And>s. keeps_tree (k s)) \<Longrightarrow> keeps_tree (\<lambda>s. k s s)"
  unfolding keeps_tree_def by (blast intro: valid_state)

lemma keeps_tree_traverse: "good_path p \<Longrightarrow> keeps_tree (traverse_or_build env p)"
  unfolding keeps_tree_def by (auto intro: valid_post [OF valid_traverse_or_build])

lemmas keeps_tree_intros = keeps_tree_bind keeps_tree_then keeps_tree_basic keeps_tree_attempt keeps_tree_cache keeps_tree_traverse

section \<open>Operations that do not change the tree's shape\<close>

lemma fs_keeps_getattr: "good_path p \<Longrightarrow> keeps_tree (getattr env p)"
  unfolding getattr_def by (intro keeps_tree_intros) (auto intro: keeps_tree_intros split: option.split)

lemma fs_keeps_utimens: "good_path p \<Longrightarrow> keeps_tree (utimens env p at' mt)"
  unfolding utimens_def by (intro keeps_tree_intros) simp_all

lemma fs_keeps_regular_at: "good_path p \<Longrightarrow> keeps_tree (regular_at env p)"
  unfolding regular_at_def by (intro keeps_tree_intros) (auto intro: keeps_tree_intros split: sum.split)

lemma fs_keeps_truncate: "good_path p \<Longrightarrow> keeps_tree (fs_truncate env p sz)"
  unfolding fs_truncate_def by (intro keeps_tree_intros fs_keeps_regular_at) simp_all

lemma fs_keeps_open: "good_path p \<Longrightarrow> keeps_tree (fs_open env p flags)"
  unfolding fs_open_def
proof (intro keeps_tree_bind fs_keeps_regular_at, goal_cases)
  case (2 a)
  show ?case
  proof (cases "open_mode_of flags")
    case (Some mode)
    show ?thesis
      unfolding Some option.case by (rule keeps_tree_state) (auto intro: keeps_tree_intros)
  qed (simp add: keeps_tree_basic)
qed

lemma fs_keeps_handle: "keeps_tree (handle_for fd mode)" "keeps_tree (handle_any h)"
proof -
  show "keeps_tree (handle_for fd mode)"
    unfolding handle_for_def keeps_tree_def valid_def by (auto split: option.splits)
  show "keeps_tree (handle_any h)"
    unfolding handle_any_def by (auto intro: keeps_tree_intros split: option.split)
qed

lemma fs_keeps_read: "keeps_tree (fs_read env fd out off)"
  unfolding fs_read_def by (auto intro!: keeps_tree_intros fs_keeps_handle split: prod.split)

text \<open>After a check that the node is a regular file, the dirty flag is set in the end.\<close>

lemma valid_regular:
  assumes k: "\<And>dirty. as_regular n = Inr dirty \<Longrightarrow> valid (\<lambda>t. fs_ok t0 {} t \<and> leaf a t) (k dirty) Q (fs_ok t0 {})"
  shows "valid (\<lambda>t. fs_ok t0 {} t \<and> t_heap t a = Some n)
    (case as_regular n of Inl _ \<Rightarrow> fail_fs (Errc e) | Inr dirty \<Rightarrow> k dirty) Q (fs_ok t0 {})"
proof (cases "as_regular n")
  case (Inr dirty)
  show ?thesis
    unfolding Inr sum.case using k [OF Inr] by (rule valid_pre) (auto simp: leaf_def as_regular_leaf [OF Inr])
qed (auto intro: valid_fail)

text \<open>Operations that keep a node a leaf.\<close>

definition keeps_leaf :: "nat \<Rightarrow> ('a, 'd) fs_op \<Rightarrow> bool" where
  "keeps_leaf a m = (\<forall>t0. valid (\<lambda>t. fs_ok t0 {} t \<and> leaf a t) m (\<lambda>_ t. fs_ok t0 {} t \<and> leaf a t) (fs_ok t0 {}))"

lemma keeps_leaf_bind: "keeps_leaf a m \<Longrightarrow> (\<And>v. keeps_leaf a (k v)) \<Longrightarrow> keeps_leaf a (bind_fs m k)"
  unfolding keeps_leaf_def by (blast intro: valid_bind)

lemma keeps_leaf_then: "keeps_leaf a m \<Longrightarrow> keeps_leaf a k \<Longrightarrow> keeps_leaf a (then_fs m k)"
  unfolding keeps_leaf_def by (blast intro: valid_then)

lemma keeps_leaf_if: "keeps_leaf a m \<Longrightarrow> keeps_leaf a m' \<Longrightarrow> keeps_leaf a (if b then m else m')"
  by simp

lemma keeps_leaf_cache: "keeps_leaf a m \<Longrightarrow> keeps_leaf a (on_cache f m)"
  unfolding keeps_leaf_def by (auto intro: valid_cache)

lemma keeps_leaf_mod:
  "keeps_shape g \<Longrightarrow> keeps_leaf a (mod_node b g)"
  "keeps_leaf a (mod_node a (set_dirty d))"
  "keeps_leaf a (mod_node a (\<lambda>n. n\<lparr>n_value := Link l\<rparr>))"
proof -
  show "keeps_shape g \<Longrightarrow> keeps_leaf a (mod_node b g)"
    unfolding keeps_leaf_def by (auto intro!: valid_shape)
  show "keeps_leaf a (mod_node a (set_dirty d))" "keeps_leaf a (mod_node a (\<lambda>n. n\<lparr>n_value := Link l\<rparr>))"
    unfolding keeps_leaf_def by (intro allI valid_leaf, simp add: set_dirty_def is_directory_def)+
qed

lemma keeps_leaf_basic: "keeps_leaf a (return_fs v)" "keeps_leaf a (on_dev f)" "keeps_leaf a (fs_refresh env b at' mt)"
  unfolding keeps_leaf_def by (auto intro!: valid_return valid_dev valid_expire)

lemmas keeps_leaf_intros = keeps_leaf_bind keeps_leaf_then keeps_leaf_if keeps_leaf_cache keeps_leaf_mod keeps_leaf_basic

lemma valid_keeps_leaf: "keeps_leaf a m \<Longrightarrow> valid (\<lambda>t. fs_ok t0 {} t \<and> leaf a t) m (\<lambda>_. fs_ok t0 {}) (fs_ok t0 {})"
  unfolding keeps_leaf_def by (blast intro: valid_post)

text \<open>The shape of \<^verbatim>\<open>write\<close>, \<^verbatim>\<open>flush\<close> and \<^verbatim>\<open>release\<close>: the node is checked to be a regular file first.\<close>

lemma keeps_regular:
  assumes "\<And>n dirty. as_regular n = Inr dirty \<Longrightarrow> keeps_leaf a (k n dirty)"
  shows "keeps_tree (bind_fs (get_node a) (\<lambda>n. case as_regular n of Inl _ \<Rightarrow> fail_fs (Errc e) | Inr dirty \<Rightarrow> k n dirty))"
  by (rule keeps_treeI, rule valid_bind, rule valid_fwd(2), rule valid_regular) (rule valid_keeps_leaf, rule assms)

lemma fs_keeps_write: "keeps_tree (fs_write env fd bs off)"
  unfolding fs_write_def
  by (intro keeps_tree_bind fs_keeps_handle, unfold split_beta, rule keeps_regular, intro keeps_leaf_intros) simp

lemma fs_keeps_flush_op: "keeps_tree (fs_flush env fd)"
  unfolding fs_flush_def
  by (rule keeps_tree_state, intro keeps_tree_bind fs_keeps_handle, unfold split_beta, rule keeps_regular, intro keeps_leaf_intros)

lemma keeps_tree_after:
  assumes u: "\<And>s. f_tree (u s) = f_tree s" and k: "\<And>s. keeps_tree (k s)"
  shows "keeps_tree (\<lambda>s. k s (u s))"
proof (rule keeps_treeI, unfold valid_def, intro allI impI)
  fix t0 and s :: "'a fs" assume "fs_ok t0 {} (f_tree s)"
  then show "case k s (u s) of (Inr v, s') \<Rightarrow> fs_ok t0 {} (f_tree s')
      | (Inl e, s') \<Rightarrow> (case e of Errc _ \<Rightarrow> fs_ok t0 {} (f_tree s') | _ \<Rightarrow> True)"
    using k [of s, unfolded keeps_tree_def valid_def, rule_format, of t0 "u s"] by (simp add: u)
qed

lemma fs_keeps_release: "keeps_tree (release env fd)"
  unfolding release_def split_beta
  by (rule keeps_tree_after [where u = "\<lambda>s. s\<lparr>f_handles := snd (hs_release fd (f_handles s))\<rparr>"], simp,
      rule keeps_tree_bind [OF fs_keeps_handle(2)], rule keeps_regular, intro keeps_leaf_intros)

lemma valid_link:
  assumes "as_link n = Inr l" "keeps_leaf a m"
  shows "valid (\<lambda>t. fs_ok t0 {} t \<and> t_heap t a = Some n) m (\<lambda>_. fs_ok t0 {}) (fs_ok t0 {})"
  by (rule valid_pre [OF valid_keeps_leaf [OF assms(2)]]) (simp add: leaf_def as_link_leaf [OF assms(1)])

lemma fs_keeps_readlink:
  assumes "good_path p"
  shows "keeps_tree (readlink env p)"
  unfolding readlink_def
proof (rule keeps_tree_bind [OF keeps_tree_traverse [OF assms]], rule keeps_treeI, rule valid_bind, rule valid_fwd(2))
  fix a n t0
  show "valid (\<lambda>t. fs_ok t0 {} t \<and> t_heap t a = Some n)
    (case as_link n of
        Inl e \<Rightarrow> fail_fs e
      | Inr (Some target) \<Rightarrow> return_fs target
      | Inr None \<Rightarrow>
          bind_fs (on_dev (conn_readlink env p)) (\<lambda>target.
          then_fs (mod_node a (\<lambda>n. n\<lparr>n_value := Link (Some target)\<rparr>)) (return_fs target))) (\<lambda>_. fs_ok t0 {}) (fs_ok t0 {})"
  proof (cases "as_link n")
    case (Inr l)
    have "keeps_leaf a (bind_fs (on_dev (conn_readlink env p)) (\<lambda>target.
          then_fs (mod_node a (\<lambda>n. n\<lparr>n_value := Link (Some target)\<rparr>)) (return_fs target)))"
      by (intro keeps_leaf_intros)
    then show ?thesis
      using valid_link [OF Inr] Inr by (cases l) (auto intro: valid_return)
  qed (auto intro: valid_fail_any)
qed

lemma fs_keeps_copy_file_range: "keeps_tree (fs_copy_file_range env p i j q k l sz)"
  unfolding fs_copy_file_range_def by (intro keeps_tree_intros fs_keeps_flush_op) simp

lemma fs_keeps_initialize_root: "keeps_tree (initialize_root env)"
proof -
  have "keeps_tree (\<lambda>s. (if f_root_initialized s then return_fs ()
      else bind_fs (on_dev (conn_stat env root_path)) (\<lambda>st. mod_node root_id (\<lambda>n. n\<lparr>n_stat := st\<rparr>))) (s\<lparr>f_root_initialized := True\<rparr>))"
    by (rule keeps_tree_after [where u = "\<lambda>s. s\<lparr>f_root_initialized := True\<rparr>"]) (auto intro!: keeps_tree_intros)
  moreover have "initialize_root env = (\<lambda>s. (if f_root_initialized s then return_fs ()
      else bind_fs (on_dev (conn_stat env root_path)) (\<lambda>st. mod_node root_id (\<lambda>n. n\<lparr>n_stat := st\<rparr>))) (s\<lparr>f_root_initialized := True\<rparr>))"
    by (auto simp: initialize_root_def return_fs_def fun_eq_iff)
  ultimately show ?thesis by simp
qed

lemma fs_keeps_shutdown: "keeps_tree (fs_shutdown env)"
  unfolding fs_shutdown_def by (intro keeps_tree_intros)

lemma fs_ok_fold_upd: "fs_ok t0 D t \<Longrightarrow> keeps_shape f \<Longrightarrow> fs_ok t0 D (fold (\<lambda>a. upd_node a f) ns t)"
  by (induction ns arbitrary: t) (simp_all add: fs_ok_upd)

lemma fs_keeps_expire_nodes: "keeps_tree (expire_nodes env duration)"
  unfolding expire_nodes_def
  by (rule keeps_tree_state, intro keeps_tree_bind keeps_tree_basic, rule keeps_treeI, rule valid_tree)
    (auto simp: fs_ok_fold_upd)

lemma fs_keeps_set_ttl: "keeps_tree (set_ttl env ttl)"
proof -
  have "keeps_tree (\<lambda>s. (if f_ttl s = ttl then return_fs (f_ttl s) else then_fs (expire_nodes env ttl) (return_fs (f_ttl s)))
      (s\<lparr>f_ttl := ttl\<rparr>))"
    by (rule keeps_tree_after [where u = "\<lambda>s. s\<lparr>f_ttl := ttl\<rparr>"]) (auto intro: keeps_tree_intros fs_keeps_expire_nodes)
  moreover have "set_ttl env ttl = (\<lambda>s. (if f_ttl s = ttl then return_fs (f_ttl s) else then_fs (expire_nodes env ttl) (return_fs (f_ttl s)))
      (s\<lparr>f_ttl := ttl\<rparr>))"
    by (auto simp: set_ttl_def return_fs_def fun_eq_iff Let_def)
  ultimately show ?thesis by simp
qed

section \<open>Operations that change the tree's shape\<close>

lemma dir_insert_tree:
  "dir_insert p c repl t = (r, t') \<Longrightarrow> t' = t \<or> t' = destroy [c] t \<or> (\<exists>f. t' = upd_node p (set_children f) t)"
  by (auto simp: dir_insert_def split: option.splits if_splits)

lemma evolves_insert: "dir_insert p c repl t = (r, t') \<Longrightarrow> evolves t t'"
proof (drule dir_insert_tree, elim disjE exE)
  show "t' = upd_node p (set_children f) t \<Longrightarrow> evolves t t'" for f
    by (simp add: evolves_place place_upd set_children_def split: fs_file.split)
qed (simp_all add: evolves_refl evolves_destroy)

lemma valid_fresh_insert:
  assumes k: "kids (mk_node name (Some par) st f) = []"
  shows "valid (\<lambda>t. fs_ok t0 {} t \<and> isdir par t)
    (on_tree (\<lambda>t. case new_node name (Some par) st f t of (c, t') \<Rightarrow> dir_insert par c repl t'))
    (\<lambda>(c, old). case old of None \<Rightarrow> fs_ok t0 {} | Some x \<Rightarrow> fs_ok t0 {x}) (fs_ok t0 {})"
proof (rule valid_tree)
  fix t r t2 assume t: "fs_ok t0 {} t \<and> isdir par t"
    and step: "(case new_node name (Some par) st f t of (c, t') \<Rightarrow> dir_insert par c repl t') = (r, t2)"
  obtain c t1 where nn: "new_node name (Some par) st f t = (c, t1)" by fastforce
  from t obtain n where n: "t_heap t par = Some n" "is_directory n" by (auto simp: isdir_def)
  note rdy = new_node_ready [OF fs_ok_tree [OF conjunct1 [OF t]] nn k n(1)]
  have ins: "dir_insert par c repl t1 = (r, t2)" using step nn by simp
  have ev: "evolves t t2" using evolves_new [OF nn] evolves_insert [OF ins] evolves_trans by blast
  note di = dir_insert_ok [OF rdy(1,2,3) n(2) rdy(4) _ rdy(5) ins]
  show "case r of Inr v \<Rightarrow> (case v of (c, old) \<Rightarrow> case old of None \<Rightarrow> fs_ok t0 {} | Some x \<Rightarrow> fs_ok t0 {x}) t2
      | Inl (Errc _) \<Rightarrow> fs_ok t0 {} t2 | _ \<Rightarrow> True"
    using di dir_insert_refused [OF rdy(1,2,6)] fs_ok_evolve [OF conjunct1 [OF t] _ ev]
    by (auto simp: mk_node_def split: sum.splits option.splits)
qed

lemma valid_drop: "valid (fs_ok t0 {x}) (on_tree (drop_node x)) (\<lambda>_. fs_ok t0 {}) R"
proof (rule valid_tree)
  fix t r t' assume t: "fs_ok t0 {x} t" and d: "drop_node x t = (r, t')"
  from tree_ok_drop [of x "{}" t] fs_ok_tree [OF t] obtain t2 where
    t2: "drop_node x t = (Inr (), t2)" "tree_inv t2" by auto
  have "evolves t t2" using t2(1) by (auto simp: drop_node_def evolves_destroy split: sum.splits)
  with t2 d fs_ok_evolve [OF t] show "case r of Inr v \<Rightarrow> fs_ok t0 {} t' | Inl (Errc _) \<Rightarrow> R t' | _ \<Rightarrow> True" by auto
qed

lemma valid_insert_new:
  assumes "kids (mk_node name (Some par) st f) = []"
  shows "valid (\<lambda>t. fs_ok t0 {} t \<and> isdir par t) (insert_new par name st f repl) (\<lambda>_. fs_ok t0 {}) (fs_ok t0 {})"
  unfolding insert_new_def
proof (rule valid_bind [OF valid_fresh_insert [OF assms]])
  fix v :: "nat \<times> nat option"
  show "valid ((\<lambda>(c, old). case old of None \<Rightarrow> fs_ok t0 {} | Some x \<Rightarrow> fs_ok t0 {x}) v)
    (case v of (c, old) \<Rightarrow> then_fs (case old of Some o' \<Rightarrow> on_tree (drop_node o') | None \<Rightarrow> return_fs ()) (return_fs c))
    (\<lambda>_. fs_ok t0 {}) (fs_ok t0 {})"
    by (cases v; cases "snd v")
      (auto intro!: valid_then [where Q' = "fs_ok t0 {}"] valid_return valid_drop)
qed

lemma valid_directory:
  assumes m: "valid (\<lambda>t. P t \<and> isdir par t) m Q R" and R: "\<And>t. P t \<Longrightarrow> R t"
  shows "valid (\<lambda>t. P t \<and> t_heap t par = Some n) (case as_directory n of Inl e \<Rightarrow> fail_fs e | Inr _ \<Rightarrow> m) Q R"
proof (cases "as_directory n")
  case (Inr v)
  show ?thesis
    unfolding Inr sum.case by (rule valid_pre [OF m]) (simp add: isdir_def as_directory_isdir [OF Inr])
qed (auto intro: valid_fail_any R)

lemma valid_parent_dir:
  assumes "good_path (parent_path p)"
  shows "valid (fs_ok t0 {}) (parent_dir env p) (\<lambda>par t. fs_ok t0 {} t \<and> isdir par t \<and> known par (iter (parent_path p)) t) (fs_ok t0 {})"
  unfolding parent_dir_def
proof (rule valid_bind [OF valid_traverse_or_build [OF assms]], rule valid_bind, rule valid_fwd(2))
  fix par n
  show "valid (\<lambda>t. (fs_ok t0 {} t \<and> live par t \<and> known par (iter (parent_path p)) t) \<and> t_heap t par = Some n)
    (case as_directory n of Inl e \<Rightarrow> fail_fs e | Inr _ \<Rightarrow> return_fs par)
    (\<lambda>par t. fs_ok t0 {} t \<and> isdir par t \<and> known par (iter (parent_path p)) t) (fs_ok t0 {})"
    by (rule valid_directory) (auto intro: valid_return)
qed

lemma valid_in_parent:
  assumes "good_path p" "\<And>par. valid (\<lambda>t. fs_ok t0 {} t \<and> isdir par t) (k par) Q (fs_ok t0 {})"
  shows "valid (fs_ok t0 {}) (bind_fs (parent_dir env p) k) Q (fs_ok t0 {})"
  by (rule valid_bind [OF valid_post [OF valid_parent_dir [OF good_parent [OF assms(1)]]] assms(2)]) simp

text \<open>Operations that do not touch the tree.\<close>

definition still :: "('a, 'd) fs_op \<Rightarrow> bool" where
  "still m = (\<forall>s. f_tree (snd (m s)) = f_tree s)"

lemma still_bind: "still m \<Longrightarrow> (\<And>v. still (k v)) \<Longrightarrow> still (bind_fs m k)"
  unfolding still_def bind_fs_def by (auto split: prod.splits sum.splits) (metis snd_conv)+

lemma still_then: "still m \<Longrightarrow> still k \<Longrightarrow> still (then_fs m k)"
  unfolding then_fs_def by (rule still_bind)

lemma still_attempt: "still m \<Longrightarrow> still (attempt m)"
  unfolding still_def attempt_def by (auto split: prod.splits sum.splits fault.splits) (metis snd_conv)+

lemma still_cache: "still m \<Longrightarrow> still (on_cache f m)"
  unfolding still_def on_cache_def by (auto split: prod.splits option.splits)

lemma still_basic: "still (return_fs v)" "still (fail_fs e)" "still (on_dev f)" "still (get_node a)" "still (from_tree g)"
  "still (find_in par name)" "still (erase_handles ns)"
  by (simp_all add: still_def return_fs_def fail_fs_def on_dev_def get_node_def from_tree_def find_in_def
      erase_handles_def split: prod.splits)

lemmas still_intros = still_bind still_then still_attempt still_cache still_basic

lemma valid_still: "still m \<Longrightarrow> (\<And>t. P t \<Longrightarrow> R t) \<Longrightarrow> valid P m (\<lambda>_. P) R"
  unfolding valid_def still_def by (auto split: prod.splits sum.splits fault.splits) (metis snd_conv)+

lemma fs_keeps_make_entry:
  assumes p: "good_path p" and f: "\<And>st par. kids (mk_node (filename p) (Some par) st f) = []"
  shows "keeps_tree (make_entry env p request f)"
  unfolding make_entry_def
proof (rule keeps_treeI, rule valid_in_parent [OF p])
  fix t0 par
  let ?P = "\<lambda>t. fs_ok t0 {} t \<and> isdir par t"
  show "valid ?P (bind_fs (attempt (find_in par (filename p))) (\<lambda>found.
     bind_fs (case found of
                Inl _ \<Rightarrow> return_fs False
              | Inr c \<Rightarrow> bind_fs (get_node c) (\<lambda>n. if is_error n then return_fs True else fail_fs (Errc file_exists)))
       (\<lambda>repl.
     bind_fs (attempt (on_dev request)) (\<lambda>created. case created of
        Inl err \<Rightarrow> then_fs (fs_refresh env par timespec_omit timespec_now) (fail_fs (Errc err))
      | Inr _ \<Rightarrow>
          bind_fs (on_dev (conn_stat env p)) (\<lambda>st. insert_new par (filename p) st f repl))))) (\<lambda>_. fs_ok t0 {}) (fs_ok t0 {})"
  proof (rule valid_bind [where Q' = "\<lambda>_. ?P"], rule valid_still, goal_cases)
    case (3 found)
    show ?case
    proof (rule valid_bind [where Q' = "\<lambda>_. ?P"], rule valid_still, goal_cases)
      case 1
      show ?case by (cases found) (auto intro!: still_intros simp: still_basic)
    next
      case (3 repl)
      have "valid ?P (then_fs (fs_refresh env par timespec_omit timespec_now) (fail_fs (Errc err))) Q (fs_ok t0 {})"
        for err and Q :: "nat \<Rightarrow> tree \<Rightarrow> bool"
        by (rule valid_then [OF valid_expire(2) [where X = "\<lambda>_. True"]]) (auto intro: valid_fail)
      then show ?case
        by (intro valid_bind [OF valid_still [where P = ?P]])
          (auto intro!: still_intros valid_bind [OF valid_still [where P = ?P]] valid_insert_new [OF f] split: sum.split)
    qed simp
  qed (auto intro: still_intros)
qed

lemma fs_keeps_mknod: "good_path p \<Longrightarrow> keeps_tree (mknod env p mode dev)"
  unfolding mknod_def by (rule fs_keeps_make_entry) simp_all

lemma fs_keeps_mkdir: "good_path p \<Longrightarrow> keeps_tree (mkdir env p mode)"
  unfolding mkdir_def by (rule fs_keeps_make_entry) simp_all

lemma fs_keeps_symlink: "keeps_tree (symlink env p target)"
  unfolding symlink_def
proof (rule keeps_tree_state, rule keeps_tree_bind [OF keeps_tree_basic(5)], rule keeps_treeI, rule valid_bind, rule valid_fwd(2))
  fix s :: "'a fs" and par n t0
  let ?P = "\<lambda>t. fs_ok t0 {} t \<and> isdir par t"
  have "valid ?P (bind_fs (attempt (find_in par (filename p))) (\<lambda>found. case found of
              Inr _ \<Rightarrow> fail_fs (Errc file_exists)
            | Inl _ \<Rightarrow>
                then_fs (insert_new par (filename p) (symlink_stat (ev_system env (f_dev s))) (Link (Some target)) False)
                  (return_fs ()))) (\<lambda>_. fs_ok t0 {}) (fs_ok t0 {})"
    by (rule valid_bind [OF valid_still [where P = ?P]])
      (auto intro!: still_intros valid_fail valid_then [OF valid_insert_new] valid_return split: sum.split)
  then show "valid (\<lambda>t. fs_ok t0 {} t \<and> t_heap t par = Some n)
    (case as_directory n of
         Inl e \<Rightarrow> fail_fs e
       | Inr _ \<Rightarrow> bind_fs (attempt (find_in par (filename p))) (\<lambda>found. case found of
              Inr _ \<Rightarrow> fail_fs (Errc file_exists)
            | Inl _ \<Rightarrow>
                then_fs (insert_new par (filename p) (symlink_stat (ev_system env (f_dev s))) (Link (Some target)) False)
                  (return_fs ()))) (\<lambda>_. fs_ok t0 {}) (fs_ok t0 {})"
    by (rule valid_directory) simp
qed

lemma valid_find_in:
  assumes "\<And>t. P t \<Longrightarrow> fs_ok t0 {} t"
  shows "valid P (find_in par name) (\<lambda>c t. P t \<and> child_of par name c t) P"
  unfolding find_in_def
proof (rule valid_from)
  fix t c assume t: "P t" "dir_find t (children (t_heap t) par) name = Inr c"
  then have "child_find (t_heap t) (children (t_heap t) par) name = Some c" by (auto simp: dir_find_def ok_or_def split: option.splits)
  from child_find_Some [OF this] child_live [OF fs_ok_tree [OF assms [OF t(1)]], of c par]
  show "P t \<and> child_of par name c t" using t(1) by (auto simp: child_of_alt name_of_def)
qed simp

lemma child_of_find:
  assumes "tree_inv t" "child_of par name c t"
  shows "child_find (t_heap t) (children (t_heap t) par) name = Some c"
  using child_find_child [OF assms(1) child_of_owned [OF assms]] assms(2) by (auto simp: child_of_alt name_of_def)

lemma valid_extract:
  "valid (\<lambda>t. fs_ok t0 {} t \<and> child_of par name c t)
     (on_tree (\<lambda>t. case dir_extract par name t of (r, t') \<Rightarrow> (Inr r, t'))) (\<lambda>_. fs_ok t0 {c}) R"
proof (rule valid_tree)
  fix t t' and r :: "nat option expect" assume t: "fs_ok t0 {} t \<and> child_of par name c t"
    and e: "(case dir_extract par name t of (r, t') \<Rightarrow> (Inr r, t')) = (r, t')"
  have ti: "tree_inv t" using t by (simp add: fs_ok_def)
  obtain v where v: "dir_extract par name t = (v, t')" "r = Inr v" using e by (cases "dir_extract par name t") auto
  then have "v = Some c" using child_of_find [OF ti conjunct2 [OF t]] by (auto simp: dir_extract_def)
  with dir_extract_ok [OF ti v(1)] have "tree_ok {c} t'" "evolves t t'" by (auto intro: evolves_place)
  with v(2) show "case r of Inr v \<Rightarrow> fs_ok t0 {c} t' | Inl (Errc _) \<Rightarrow> R t' | _ \<Rightarrow> True"
    using fs_ok_evolve [OF conjunct1 [OF t]] by simp
qed

lemma fs_keeps_rmdir:
  assumes p: "good_path p"
  shows "keeps_tree (rmdir env p)"
  unfolding rmdir_def
proof (rule keeps_treeI, rule valid_in_parent [OF p])
  fix t0 par
  let ?errs = "\<lambda>cs t. Inr (\<forall>x\<in>set cs. case t_heap t x of Some m \<Rightarrow> is_error m | None \<Rightarrow> False)"
  let ?remove = "\<lambda>c. bind_fs (on_dev (conn_rmdir env p)) (\<lambda>_.
     then_fs (fs_refresh env par timespec_omit timespec_now)
     (then_fs (on_tree (\<lambda>t. case dir_extract par (filename p) t of (r, t') \<Rightarrow> (Inr r, t'))) (on_tree (drop_node c))))"
  show "valid (\<lambda>t. fs_ok t0 {} t \<and> isdir par t) (bind_fs (find_in par (filename p)) (\<lambda>c.
     bind_fs (get_node c) (\<lambda>n. case as_directory n of
        Inl e \<Rightarrow> fail_fs e
      | Inr (cs, _) \<Rightarrow>
          bind_fs (from_tree (?errs cs))
            (\<lambda>all_errors. if cs \<noteq> [] \<and> \<not> all_errors then fail_fs (Errc directory_not_empty) else ?remove c)))) (\<lambda>_. fs_ok t0 {}) (fs_ok t0 {})"
  proof (rule valid_bind [OF valid_pre [OF valid_find_in [where P = "fs_ok t0 {}"]]], simp_all del: bind_fs_def)
    fix c
    let ?P = "\<lambda>t. fs_ok t0 {} t \<and> child_of par (filename p) c t"
    have rem: "valid ?P (?remove c) (\<lambda>_. fs_ok t0 {}) (fs_ok t0 {})"
      by (rule valid_bind [OF valid_still [where P = ?P]], rule still_basic, simp,
          rule valid_then [OF valid_expire(2) [where X = "child_of par (filename p) c"]])
        (auto simp: child_of_upd intro: valid_then [OF valid_extract valid_drop])
    show "valid ?P (bind_fs (get_node c) (\<lambda>n. case as_directory n of
        Inl e \<Rightarrow> fail_fs e
      | Inr (cs, _) \<Rightarrow>
          bind_fs (from_tree (?errs cs))
            (\<lambda>all_errors. if cs \<noteq> [] \<and> \<not> all_errors then fail_fs (Errc directory_not_empty) else ?remove c))) (\<lambda>_. fs_ok t0 {}) (fs_ok t0 {})"
    proof (rule valid_bind [OF valid_still [where P = ?P]], rule still_basic, simp, goal_cases)
      case (1 n)
      show ?case
        by (cases "as_directory n")
          (auto intro!: valid_fail_any valid_bind [OF valid_still [where P = ?P]] still_basic rem)
    qed
  qed
qed

section \<open>Reading a directory\<close>

text \<open>A new node that waits to be inserted into a directory.\<close>

definition ready :: "nat \<Rightarrow> nat \<Rightarrow> tree \<Rightarrow> bool" where
  "ready cur c t = (isdir cur t \<and> c \<noteq> cur \<and> (\<exists>m. t_heap t c = Some m \<and> n_parent m = Some cur \<and> kids m = []))"

lemma ready_upd: "ready cur c t \<Longrightarrow> keeps_shape f \<Longrightarrow> ready cur c (upd_node a f t)"
proof -
  assume r: "ready cur c t" and f: "keeps_shape f"
  then obtain m where m: "t_heap t c = Some m" "n_parent m = Some cur" "kids m = []" by (auto simp: ready_def)
  have "\<exists>m. t_heap (upd_node a f t) c = Some m \<and> n_parent m = Some cur \<and> kids m = []"
    using m f by (auto simp: upd_node_def keeps_shape_def same_shape_def split: option.split)
  with r f show ?thesis by (simp add: ready_def)
qed

lemma isdir_set_children: "isdir p (upd_node q (set_children f) t) = isdir p t"
proof -
  have "is_directory (set_children f n) = is_directory n" for n
    by (simp add: set_children_def is_directory_def split: fs_file.splits)
  then show ?thesis by (auto simp: isdir_def upd_node_def split: option.splits)
qed

lemma valid_emplace:
  "valid (\<lambda>t. fs_ok t0 {c} t \<and> ready cur c t) (emplace_child cur c) (\<lambda>_ t. fs_ok t0 {} t \<and> isdir cur t) R"
proof -
  have "valid (\<lambda>t. fs_ok t0 {c} t \<and> ready cur c t) (on_tree (dir_insert cur c False))
     (\<lambda>_ t. fs_ok t0 {} t \<and> isdir cur t) (\<lambda>t. fs_ok t0 {} t \<and> isdir cur t)"
  proof (rule valid_tree)
    fix t r t' assume t: "fs_ok t0 {c} t \<and> ready cur c t" and ins: "dir_insert cur c False t = (r, t')"
    then obtain n m where n: "t_heap t cur = Some n" "is_directory n" "c \<noteq> cur"
      and m: "t_heap t c = Some m" "n_parent m = Some cur" "kids m = []" by (auto simp: ready_def isdir_def)
    have ti: "tree_ok {c} t" using t by (simp add: fs_ok_def)
    have ch: "children (t_heap t) c = []" using m by (simp add: children_kids)
    have below: "cur \<notin> subtree (t_heap t) c" using n(3) by (simp add: subtree_childless [OF ch])
    note di = dir_insert_ok [OF ti _ n(1,2) m(1,2) below ins]
    have "isdir cur t'"
      using dir_insert_tree [OF ins] t n(3) by (auto simp: ready_def isdir_set_children) (auto simp: isdir_def destroy_def)
    moreover have "tree_inv t'"
    proof (cases r)
      case (Inl e)
      then show ?thesis using di dir_insert_refused [OF ti _ ch] by simp
    next
      case (Inr v)
      then have "snd v = None" using ins m(1) by (auto simp: dir_insert_def split: option.splits)
      then show ?thesis using di Inr by (cases v) auto
    qed
    then have "fs_ok t0 {} t'" using t evolves_insert [OF ins] fs_ok_evolve by blast
    ultimately show "case r of Inr v \<Rightarrow> fs_ok t0 {} t' \<and> isdir cur t'
        | Inl (Errc _) \<Rightarrow> fs_ok t0 {} t' \<and> isdir cur t' | _ \<Rightarrow> True"
      by (auto split: sum.split fault.split)
  qed
  then show ?thesis
    unfolding emplace_child_def
    by (rule valid_then [OF valid_attempt [where Q = "\<lambda>_ t. fs_ok t0 {} t \<and> isdir cur t"]]) (auto intro: valid_return)
qed

text \<open>A leaf that is taken out of its directory can be put back: its name is free.\<close>

definition loose :: "nat \<Rightarrow> nat \<Rightarrow> tree \<Rightarrow> bool" where
  "loose par c t = (ready par c t \<and> child_find (t_heap t) (children (t_heap t) par) (name_of (t_heap t) c) = None)"

lemma extract_loose:
  assumes ti: "tree_inv t" and c: "child_of par name c t" "leaf c t" and e: "dir_extract par name t = (v, t')"
  shows "loose par c t'"
proof -
  have f: "child_find (t_heap t) (children (t_heap t) par) name = Some c" by (rule child_of_find [OF ti c(1)])
  obtain n where n: "t_heap t par = Some n" "is_directory n" using child_of_isdir [OF ti c(1)] by (auto simp: isdir_def)
  obtain m where m: "t_heap t c = Some m" "\<not> is_directory m" using c(2) by (auto simp: leaf_def)
  have t': "t' = upd_node par (set_children (filter (\<lambda>x. x \<noteq> c))) t" using e f by (simp add: dir_extract_def)
  note h = set_children_heap [OF n, where f = "filter (\<lambda>x. x \<noteq> c)"]
  have cp: "c \<noteq> par" using n m by auto
  have own: "c \<in> set (children (t_heap t) par)" "name_of (t_heap t) c = name" using child_find_Some [OF f] by auto
  have "n_parent m = Some par" using c(1) m(1) by (auto simp: child_of_alt)
  moreover have "isdir par t'" using n by (simp add: t' isdir_set_children) (simp add: isdir_def)
  moreover have "t_heap t' c = Some m" using m(1) n(1) cp by (simp add: t' upd_node_def)
  ultimately have r: "ready par c t'" using cp leaf_kids [OF m(2)] by (auto simp: ready_def)
  have nm: "name_of (t_heap t') x = name_of (t_heap t) x" for x
    using n(1) by (auto simp: t' upd_node_def name_of_def set_children_def split: fs_file.splits)
  have "child_find (t_heap t') (children (t_heap t') par) (name_of (t_heap t') c) \<noteq> Some x" for x
  proof
    assume "child_find (t_heap t') (children (t_heap t') par) (name_of (t_heap t') c) = Some x"
    from child_find_Some [OF this] have x: "x \<in> set (children (t_heap t) par)" "x \<noteq> c" "name_of (t_heap t) x = name"
      using own(2) by (auto simp: nm) (auto simp: t' h)
    from child_find_child [OF ti x(1)] f x(2,3) show False by simp
  qed
  then have "child_find (t_heap t') (children (t_heap t') par) (name_of (t_heap t') c) = None" by (meson not_Some_eq)
  with r show ?thesis by (simp add: loose_def)
qed

lemma valid_extract_leaf:
  "valid (\<lambda>t. fs_ok t0 {} t \<and> child_of par name c t \<and> leaf c t)
     (on_tree (\<lambda>t. case dir_extract par name t of (r, t') \<Rightarrow> (Inr r, t'))) (\<lambda>_ t. fs_ok t0 {c} t \<and> loose par c t) R"
proof -
  have l: "valid (\<lambda>t. fs_ok t0 {} t \<and> child_of par name c t \<and> leaf c t)
     (on_tree (\<lambda>t. case dir_extract par name t of (r, t') \<Rightarrow> (Inr r, t'))) (\<lambda>_. loose par c) R"
    by (rule valid_tree) (auto simp: fs_ok_def intro: extract_loose split: prod.splits)
  have k: "valid (\<lambda>t. fs_ok t0 {} t \<and> child_of par name c t \<and> leaf c t)
     (on_tree (\<lambda>t. case dir_extract par name t of (r, t') \<Rightarrow> (Inr r, t'))) (\<lambda>_. fs_ok t0 {c}) R"
    by (rule valid_pre [OF valid_extract]) simp
  from l k show ?thesis unfolding valid_def by (fastforce split: prod.splits sum.splits fault.splits)
qed

lemma valid_insert_again:
  "valid (\<lambda>t. fs_ok t0 {c} t \<and> loose par c t) (attempt (on_tree (dir_insert par c True))) (\<lambda>_. fs_ok t0 {}) R"
proof -
  have "valid (\<lambda>t. fs_ok t0 {c} t \<and> loose par c t) (on_tree (dir_insert par c True)) (\<lambda>_. fs_ok t0 {}) (\<lambda>_. False)"
  proof (rule valid_tree)
    fix t r t' assume t: "fs_ok t0 {c} t \<and> loose par c t" and ins: "dir_insert par c True t = (r, t')"
    then obtain n m where n: "t_heap t par = Some n" "is_directory n" "c \<noteq> par"
      and m: "t_heap t c = Some m" "n_parent m = Some par" "kids m = []" by (auto simp: loose_def ready_def isdir_def)
    have ti: "tree_ok {c} t" using t by (simp add: fs_ok_def)
    have ch: "children (t_heap t) c = []" using m by (simp add: children_kids)
    have below: "par \<notin> subtree (t_heap t) c" using n(3) by (simp add: subtree_childless [OF ch])
    have r: "r = Inr (c, None)" using ins m(1) t by (auto simp: dir_insert_def loose_def name_of_def)
    with dir_insert_ok [OF ti _ n(1,2) m(1,2) below ins] have "tree_inv t'" by auto
    with t evolves_insert [OF ins] have "fs_ok t0 {} t'" using fs_ok_evolve by blast
    with r show "case r of Inr v \<Rightarrow> fs_ok t0 {} t' | Inl (Errc _) \<Rightarrow> False | _ \<Rightarrow> True" by simp
  qed
  then show ?thesis by (rule valid_attempt) simp_all
qed

lemma fs_keeps_unlink:
  assumes p: "good_path p"
  shows "keeps_tree (unlink env p)"
  unfolding unlink_def
proof (rule keeps_treeI, rule valid_in_parent [OF p])
  fix t0 par
  let ?again = "\<lambda>c err. then_fs (attempt (on_tree (dir_insert par c True)))
              (then_fs (fs_refresh env par timespec_omit timespec_now) (fail_fs (Errc err)))"
  let ?erase = "\<lambda>c. then_fs (erase_handles [c]) (then_fs (cache_invalidate env c) (on_tree (drop_node c)))"
  let ?request = "\<lambda>c. then_fs (on_tree (\<lambda>t. case dir_extract par (filename p) t of (r, t') \<Rightarrow> (Inr r, t')))
         (bind_fs (attempt (on_dev (conn_unlink env p))) (\<lambda>res. case res of Inl err \<Rightarrow> ?again c err | Inr _ \<Rightarrow> ?erase c))"
  have again: "valid (\<lambda>t. fs_ok t0 {c} t \<and> loose par c t) (?again c err) (\<lambda>_. fs_ok t0 {}) (fs_ok t0 {})" for c err
    by (rule valid_then [OF valid_insert_again], rule valid_then [OF valid_expire(2) [where X = "\<lambda>_. True"]]) (auto intro: valid_fail)
  have erase: "valid (\<lambda>t. fs_ok t0 {c} t \<and> loose par c t) (?erase c) (\<lambda>_. fs_ok t0 {}) (fs_ok t0 {})" for c
    by (rule valid_pre [where P' = "fs_ok t0 {c}"])
      (auto intro!: valid_then [OF valid_fwd(6)] valid_then [OF valid_invalidate] valid_drop)
  have request: "valid (\<lambda>t. fs_ok t0 {} t \<and> child_of par (filename p) c t \<and> t_heap t c = Some n) (?request c) (\<lambda>_. fs_ok t0 {}) (fs_ok t0 {})"
    if "\<not> is_directory n" for c n
  proof (rule valid_then)
    show "valid (\<lambda>t. fs_ok t0 {} t \<and> child_of par (filename p) c t \<and> t_heap t c = Some n)
      (on_tree (\<lambda>t. case dir_extract par (filename p) t of (r, t') \<Rightarrow> (Inr r, t'))) (\<lambda>_ t. fs_ok t0 {c} t \<and> loose par c t) (fs_ok t0 {})"
      by (rule valid_pre [OF valid_extract_leaf]) (use that in \<open>auto simp: leaf_def\<close>)
    show "valid (\<lambda>t. fs_ok t0 {c} t \<and> loose par c t)
      (bind_fs (attempt (on_dev (conn_unlink env p))) (\<lambda>res. case res of Inl err \<Rightarrow> ?again c err | Inr _ \<Rightarrow> ?erase c))
      (\<lambda>_. fs_ok t0 {}) (fs_ok t0 {})"
      by (rule valid_bind, rule valid_fwd(4)) (auto intro!: again erase split: sum.split)
  qed
  show "valid (\<lambda>t. fs_ok t0 {} t \<and> isdir par t) (bind_fs (find_in par (filename p)) (\<lambda>c.
     bind_fs (get_node c) (\<lambda>n. if is_directory n then fail_fs (Errc is_a_directory) else ?request c))) (\<lambda>_. fs_ok t0 {}) (fs_ok t0 {})"
  proof (rule valid_bind [OF valid_pre [OF valid_find_in [where P = "fs_ok t0 {}"]]], simp_all)
    fix c
    show "valid (\<lambda>t. fs_ok t0 {} t \<and> child_of par (filename p) c t)
      (bind_fs (get_node c) (\<lambda>n. if is_directory n then fail_fs (Errc is_a_directory) else ?request c)) (\<lambda>_. fs_ok t0 {}) (fs_ok t0 {})"
      by (rule valid_bind, rule valid_fwd(2)) (auto intro: valid_fail request)
  qed
qed

lemma valid_build_file: "(\<And>t. P t \<Longrightarrow> R t) \<Longrightarrow> valid P (build_file name mode) (\<lambda>f t. P t \<and> f = kind_of mode) R"
  by (auto simp: build_file_def intro: valid_return valid_fault)

lemma valid_add_entry:
  "valid (\<lambda>t. fs_ok t0 {} t \<and> isdir cur t) (add_entry env cur ns) (\<lambda>_ t. fs_ok t0 {} t \<and> isdir cur t) (fs_ok t0 {})"
proof -
  obtain name st where ns: "ns = (name, st)" by fastforce
  have new: "valid (\<lambda>t. fs_ok t0 {} t \<and> isdir cur t)
     (on_tree (\<lambda>t. case new_node name (Some cur) st (kind_of (st_mode st)) t of (c, t') \<Rightarrow> (Inr c, t')))
     (\<lambda>c t. fs_ok t0 {c} t \<and> ready cur c t) (fs_ok t0 {})"
  proof (rule valid_tree)
    fix t t'' and r :: "nat expect" assume t: "fs_ok t0 {} t \<and> isdir cur t"
      and e: "(case new_node name (Some cur) st (kind_of (st_mode st)) t of (c, t') \<Rightarrow> (Inr c, t')) = (r, t'')"
    obtain c t1 where nn: "new_node name (Some cur) st (kind_of (st_mode st)) t = (c, t1)" by fastforce
    from t obtain n where n: "t_heap t cur = Some n" "is_directory n" by (auto simp: isdir_def)
    note rdy = new_node_ready [OF fs_ok_tree [OF conjunct1 [OF t]] nn _ n(1)]
    have "fs_ok t0 {c} t1" using fs_ok_evolve [OF conjunct1 [OF t] rdy(1) evolves_new [OF nn]] by simp
    moreover have "ready cur c t1"
      using rdy(3,4,7) n(2) by (auto simp: ready_def isdir_def) (simp add: mk_node_def)
    ultimately show "case r of Inr c \<Rightarrow> fs_ok t0 {c} t'' \<and> ready cur c t'' | Inl (Errc _) \<Rightarrow> fs_ok t0 {} t'' | _ \<Rightarrow> True"
      using e nn by auto
  qed
  show ?thesis
    unfolding add_entry_def ns prod.case
  proof (rule valid_bind [OF valid_build_file], simp, rule valid_prop [unfolded conj_assoc [symmetric]], goal_cases)
    case (1 f)
    show ?case
      by (simp only: 1, rule valid_bind [OF new],
          rule valid_then [OF valid_expire(1) [where X = "ready cur _"] valid_emplace]) (auto intro: ready_upd)
  qed
qed

text \<open>A reference found among the children of a directory stays one of them while it is alive.\<close>

definition mine :: "nat \<Rightarrow> str \<Rightarrow> nat \<Rightarrow> tree \<Rightarrow> bool" where
  "mine cur name c t = (c \<le> t_id t \<and> (live c t \<longrightarrow> child_of cur name c t))"

lemma mine_persistent: "persistent (mine cur name c)"
  unfolding persistent_def mine_def
proof (intro allI impI conjI)
  fix t t' assume t: "tree_inv t" "tree_inv t'" "evolves t t'" "c \<le> t_id t \<and> (live c t \<longrightarrow> child_of cur name c t)"
  show "c \<le> t_id t'" using t(3,4) by (simp add: evolves_def)
  assume l: "live c t'"
  then have "place (t_heap t') c = place (t_heap t) c" using t(3,4) by (auto simp: evolves_def live_def)
  with l t(4) place_eqD(1) [OF this] show "child_of cur name c t'" by (simp add: child_of_def live_def)
qed

lemma child_of_mine: "tree_inv t \<Longrightarrow> child_of cur name c t \<Longrightarrow> mine cur name c t"
  using tree_okD(2) [of "{}" t c] by (auto simp: mine_def child_of_alt)

lemma mine_isdir: "fs_ok t0 {} t \<and> live c t \<and> mine cur name c t \<Longrightarrow> isdir cur t"
  using child_of_isdir [OF fs_ok_tree] by (auto simp: mine_def)

lemma valid_change_entry:
  "valid (\<lambda>t. fs_ok t0 {} t \<and> child_of cur name c t) (change_entry env c ns) (\<lambda>_ t. fs_ok t0 {} t \<and> isdir cur t) (fs_ok t0 {})"
proof -
  obtain nm st where ns: "ns = (nm, st)" by fastforce
  have "valid (\<lambda>t. fs_ok t0 {} t \<and> (live c t \<and> c \<noteq> root_id)) (change_entry env c ns) (\<lambda>_ t. fs_ok t0 {} t \<and> live c t) (fs_ok t0 {})" for t0
  proof (cases "c = root_id")
    case False
    have "valid (\<lambda>t. fs_ok t0 {} t \<and> live c t) (change_entry env c ns) (\<lambda>_ t. fs_ok t0 {} t \<and> live c t) (fs_ok t0 {})"
      unfolding change_entry_def ns prod.case
    proof (rule valid_bind [OF valid_build_file], simp, rule valid_prop [unfolded conj_assoc [symmetric]], goal_cases)
      case (1 f)
      have m: "valid (fs_ok t0 {}) (mutate_and_invalidate env c f) (\<lambda>_ t. fs_ok t0 {} t \<and> live c t) (fs_ok t0 {})"
        by (rule valid_mutate [OF False]) (simp add: 1)
      show ?case
        by (rule valid_then [OF valid_shape_live], simp, rule valid_then [OF valid_pre [OF m] valid_expire_live]) simp
    qed
    then show ?thesis by (rule valid_pre) simp
  qed (simp add: valid_def)
  from valid_frame [OF this mine_persistent, of t0 cur name c] show ?thesis
  proof (rule valid_conseq)
    fix t assume t: "fs_ok t0 {} t \<and> child_of cur name c t"
    then show "fs_ok t0 {} t \<and> (live c t \<and> c \<noteq> root_id) \<and> mine cur name c t"
      using child_of_mine [OF fs_ok_tree, of t0 t cur name c] child_of_not_root [OF fs_ok_tree, of t0 "{}" t cur name c]
      by (auto simp: live_def child_of_alt)
  qed (use mine_isdir in blast)+
qed

lemma valid_merge_entry:
  "valid (\<lambda>t. fs_ok t0 {} t \<and> isdir cur t) (merge_entry env cur ns) (\<lambda>_ t. fs_ok t0 {} t \<and> isdir cur t) (fs_ok t0 {})"
proof -
  have "valid (\<lambda>t. (fs_ok t0 {} t \<and> isdir cur t) \<and> t = f_tree s) (case child_find (t_heap (f_tree s)) (children (t_heap (f_tree s)) cur) (fst ns) of
        None \<Rightarrow> add_entry env cur ns
      | Some c \<Rightarrow>
          bind_fs (get_node c) (\<lambda>n.
            if is_error n \<or> (expired (ev_steady env (f_dev s)) n \<and> detect_modification (n_stat n) (snd ns))
            then change_entry env c ns else return_fs ())) (\<lambda>_ t. fs_ok t0 {} t \<and> isdir cur t) (fs_ok t0 {})" for s :: "'a fs"
  proof (cases "child_find (t_heap (f_tree s)) (children (t_heap (f_tree s)) cur) (fst ns)")
    case None
    show ?thesis unfolding None option.case by (rule valid_pre [OF valid_add_entry]) simp
  next
    case (Some c)
    let ?P = "\<lambda>t. (fs_ok t0 {} t \<and> isdir cur t) \<and> t = f_tree s"
    have found: "child_of cur (fst ns) c t" if "?P t" for t
      using child_find_Some [OF Some] child_live [OF fs_ok_tree, of t0 "{}" t c cur] that by (auto simp: child_of_alt name_of_def)
    show ?thesis
      unfolding Some option.case
      by (rule valid_bind [OF valid_still [where P = ?P]], rule still_basic, simp, rule valid_if,
          rule valid_pre [OF valid_change_entry [where name = "fst ns"]])
        (use found in \<open>auto intro: valid_return\<close>)
  qed
  from valid_state_tree [OF this] show ?thesis by (simp only: merge_entry_def)
qed

lemma drop_child:
  assumes t: "tree_inv t" and c: "c \<in> set (children (t_heap t) cur)"
    and d: "drop_node c (upd_node cur (set_children (filter (\<lambda>x. x \<noteq> c))) t) = (r, t')"
  shows "r = Inr () \<and> tree_inv t' \<and> evolves t t' \<and> isdir cur t' \<and>
    children (t_heap t') cur = filter (\<lambda>x. x \<noteq> c) (children (t_heap t) cur)"
proof -
  let ?t = "upd_node cur (set_children (filter (\<lambda>x. x \<noteq> c))) t"
  obtain n where n: "t_heap t cur = Some n" "is_directory n"
    using children_directory [of "t_heap t" cur] c by (metis empty_iff list.set(1))
  note h = set_children_heap [OF n, where f = "filter (\<lambda>x. x \<noteq> c)"]
  obtain t2 where t2: "drop_node c ?t = (Inr (), t2)" "tree_inv t2"
      "\<forall>a. t_heap t2 a = (if a \<in> subtree (t_heap ?t) c then None else t_heap ?t a)"
    using tree_ok_drop [of c "{}" ?t] tree_ok_detach [OF t c] by auto
  have "edges (t_heap ?t) \<subseteq> edges (t_heap t)" by (auto simp: edges_def h split: if_splits)
  then have "cur \<notin> subtree (t_heap ?t) c"
    using not_in_child_subtree [OF t c] rtrancl_mono unfolding subtree_def by blast
  then have cur: "t_heap t2 cur = t_heap ?t cur" using t2(3) by simp
  have "isdir cur ?t" using n by (simp add: isdir_set_children) (simp add: isdir_def)
  then have "isdir cur t2" using cur by (simp add: isdir_def)
  moreover have "children (t_heap t2) cur = filter (\<lambda>x. x \<noteq> c) (children (t_heap t) cur)"
    using cur h(3) by (simp add: children_kids fun_eq_iff)
  moreover have "evolves ?t t2" using t2(1) by (auto simp: drop_node_def evolves_destroy split: sum.splits)
  then have "evolves t t2" using evolves_trans [OF evolves_place [OF h(2,1)]] by blast
  ultimately show ?thesis using t2 d by auto
qed

lemma valid_remove_entry:
  assumes "c \<notin> set xs"
  shows "valid (\<lambda>t. fs_ok t0 {} t \<and> isdir cur t \<and> set (c # xs) \<subseteq> set (children (t_heap t) cur)) (remove_entry env cur names c)
    (\<lambda>_ t. fs_ok t0 {} t \<and> isdir cur t \<and> set xs \<subseteq> set (children (t_heap t) cur)) (fs_ok t0 {})"
proof -
  let ?P = "\<lambda>t. fs_ok t0 {} t \<and> isdir cur t \<and> set (c # xs) \<subseteq> set (children (t_heap t) cur)"
  let ?Q = "\<lambda>t. fs_ok t0 {} t \<and> isdir cur t \<and> set xs \<subseteq> set (children (t_heap t) cur)"
  have "valid ?P (then_fs (on_tree (\<lambda>t. (Inr (), upd_node cur (set_children (filter (\<lambda>x. x \<noteq> c))) t))) (on_tree (drop_node c)))
      (\<lambda>_. ?Q) (fs_ok t0 {})"
  proof (rule valid_then [where Q' = "\<lambda>t. \<exists>t1. ?P t1 \<and> t = upd_node cur (set_children (filter (\<lambda>x. x \<noteq> c))) t1"], rule valid_tree)
    show "valid (\<lambda>t. \<exists>t1. ?P t1 \<and> t = upd_node cur (set_children (filter (\<lambda>x. x \<noteq> c))) t1) (on_tree (drop_node c)) (\<lambda>_. ?Q) (fs_ok t0 {})"
    proof (rule valid_tree, elim exE conjE)
      fix t r t' t1 assume t1: "fs_ok t0 {} t1" "isdir cur t1" "set (c # xs) \<subseteq> set (children (t_heap t1) cur)"
        and d: "drop_node c t = (r, t')" "t = upd_node cur (set_children (filter (\<lambda>x. x \<noteq> c))) t1"
      have "c \<in> set (children (t_heap t1) cur)" using t1(3) by simp
      note dc = drop_child [OF fs_ok_tree [OF t1(1)] this d(1) [unfolded d(2)]]
      then have "?Q t'" using fs_ok_evolve [OF t1(1), of "{}" t'] t1(3) assms by auto
      with dc show "case r of Inr v \<Rightarrow> ?Q t' | Inl (Errc _) \<Rightarrow> fs_ok t0 {} t' | _ \<Rightarrow> True" by simp
    qed
  qed auto
  then show ?thesis
    unfolding remove_entry_def
    by (intro valid_bind [OF valid_still [where P = ?P]] valid_if valid_then [OF valid_invalidate])
      (auto intro: still_basic valid_return)
qed

lemma valid_remove_entries:
  "distinct xs \<Longrightarrow> valid (\<lambda>t. fs_ok t0 {} t \<and> isdir cur t \<and> set xs \<subseteq> set (children (t_heap t) cur)) (each_entry (remove_entry env cur names) xs)
    (\<lambda>_ t. fs_ok t0 {} t \<and> isdir cur t) (fs_ok t0 {})"
  by (induction xs) (auto intro: valid_return intro!: valid_then [OF valid_remove_entry [simplified]])

lemma valid_sync_dir:
  "valid (\<lambda>t. fs_ok t0 {} t \<and> isdir cur t) (sync_dir env cur stats) (\<lambda>_ t. fs_ok t0 {} t \<and> isdir cur t) (fs_ok t0 {})"
proof -
  let ?P = "\<lambda>t. fs_ok t0 {} t \<and> isdir cur t"
  have "valid (\<lambda>t. ?P t \<and> t = f_tree s) (each_entry (remove_entry env cur (map fst stats)) (children (t_heap (f_tree s)) cur)) (\<lambda>_. ?P) (fs_ok t0 {})"
    for s :: "'a fs"
  proof (cases "?P (f_tree s)")
    case True
    then have "distinct (children (t_heap (f_tree s)) cur)"
      using tree_okD(3) [OF fs_ok_tree, of t0 "{}" "f_tree s" cur] by (simp add: children_ok_def)
    from valid_remove_entries [OF this] show ?thesis by (rule valid_pre) auto
  qed (auto simp: valid_def)
  from valid_state_tree [OF this] have rem: "valid ?P (\<lambda>s. each_entry (remove_entry env cur (map fst stats)) (children (t_heap (f_tree s)) cur) s) (\<lambda>_. ?P) (fs_ok t0 {})" .
  have "valid (\<lambda>t. ?P t \<and> t = f_tree s) (if children (t_heap (f_tree s)) cur = [] then each_entry (add_entry env cur) stats
      else then_fs (each_entry (merge_entry env cur) stats)
             (\<lambda>s. each_entry (remove_entry env cur (map fst stats)) (children (t_heap (f_tree s)) cur) s)) (\<lambda>_. ?P) (fs_ok t0 {})" for s :: "'a fs"
    by (rule valid_pre [where P' = ?P], rule valid_if, rule valid_each [OF valid_add_entry],
        rule valid_then [OF valid_each [OF valid_merge_entry] rem]) simp
  from valid_state_tree [OF this] show ?thesis by (simp only: sync_dir_def)
qed

lemma fs_keeps_readdir:
  assumes p: "good_path p"
  shows "keeps_tree (readdir env p)"
  unfolding readdir_def
proof (rule keeps_treeI, rule valid_bind [where Q' = "\<lambda>_. fs_ok t0 {}" for t0])
  fix t0 cur
  show "valid (fs_ok t0 {}) (if is_root p then return_fs root_id else traverse_or_build env p) (\<lambda>_. fs_ok t0 {}) (fs_ok t0 {})"
    using keeps_tree_traverse [OF p, of env] by (auto simp: keeps_tree_def intro: valid_return)
  let ?P = "\<lambda>t. fs_ok t0 {} t \<and> isdir cur t"
  show "valid (fs_ok t0 {}) (bind_fs (get_node cur) (\<lambda>n.
     case as_directory n of
       Inl e \<Rightarrow> fail_fs e
     | Inr _ \<Rightarrow>
         then_fs (if has_synced n then return_fs ()
                  else bind_fs (on_dev (conn_statdir env p)) (\<lambda>stats.
                       then_fs (sync_dir env cur stats) (mod_node cur (set_synced True))))
           (list_names cur))) (\<lambda>_. fs_ok t0 {}) (fs_ok t0 {})"
  proof (rule valid_bind, rule valid_fwd(2), rule valid_directory, rule valid_then [where Q' = ?P], rule valid_if)
    fix n
    show "valid ?P (bind_fs (on_dev (conn_statdir env p)) (\<lambda>stats. then_fs (sync_dir env cur stats) (mod_node cur (set_synced True)))) (\<lambda>_. ?P) (fs_ok t0 {})"
      by (rule valid_bind [OF valid_still [where P = ?P]], rule still_basic, simp, rule valid_then [OF valid_sync_dir], rule valid_shape) auto
    show "valid ?P (list_names cur) (\<lambda>_. fs_ok t0 {}) (fs_ok t0 {})"
      unfolding list_names_def by (rule valid_from) auto
  qed (auto intro: valid_return)
qed

end
