(* ===== verification/Fs_Rename.thy ===== *)
theory Fs_Rename
  imports Fs_Run
begin

text \<open>
  \<^verbatim>\<open>Filesystem::rename\<close> keeps the tree a tree when neither path lies below the other, which is what the
  kernel checks before it calls the file system. Nodes change their name and parent here, so the
  result is stated for the tree alone.
\<close>

section \<open>Moving nodes\<close>

lemma at_subtree:
  assumes "tree_ok D t" "at (t_heap t) a xs" "b \<in> subtree (t_heap t) a"
  shows "\<exists>zs. at (t_heap t) b (xs @ zs)"
  using assms(3) unfolding subtree_def mem_Collect_eq
proof (induction rule: rtrancl_induct)
  case base
  with assms(2) show ?case by (metis append_Nil2)
next
  case (step b c)
  then obtain zs where zs: "at (t_heap t) b (xs @ zs)" by blast
  have c: "c \<in> set (children (t_heap t) b)" using step.hyps(2) by (simp add: edges_iff)
  then obtain m where m: "t_heap t c = Some m" "n_parent m = Some b" using child_live [OF assms(1)] by blast
  have "c \<noteq> root_id" using root_not_child [OF assms(1)] c by blast
  from at_child [OF m this zs] show ?case by (metis append_assoc)
qed

lemma tree_ok_set_place:
  assumes t: "tree_ok D t" and d: "d \<in> D"
  shows "tree_ok D (upd_node d (set_place p name) t)"
proof -
  let ?t = "upd_node d (set_place p name) t"
  obtain n where n: "t_heap t d = Some n" using tree_okD(8) [OF t d] by auto
  have k: "kids (set_place p name n) = kids n" by (simp add: kids_def set_place_def)
  have h: "t_heap ?t = (t_heap t)(d \<mapsto> set_place p name n)" "t_id ?t = t_id t" using n by (simp_all add: upd_node_def)
  have ch: "children (t_heap ?t) a = children (t_heap t) a" for a using n k by (simp add: children_kids h)
  have nc: "d \<notin> set (children (t_heap t) a)" for a using tree_okD(7) [OF t d] by (auto simp: owned_def)
  have ed: "edges (t_heap ?t) = edges (t_heap t)" by (simp add: edges_def ch)
  have ow: "owned (t_heap ?t) a = owned (t_heap t) a" for a by (simp add: owned_def ch)
  have "children_ok (t_heap ?t) a" for a
    by (rule children_ok_cong [OF tree_okD(3) [OF t] ch]) (use nc in \<open>auto simp: h place_def\<close>)
  moreover have "root_ok (t_heap ?t)" using tree_okD(1) [OF t] tree_okD(6) [OF t d] by (simp add: root_ok_def h)
  moreover have "t_heap ?t a = None \<longleftrightarrow> t_heap t a = None" for a using n by (simp add: h)
  ultimately show ?thesis
    using t unfolding tree_ok_def ed ow h(2) by auto
qed

lemma isdir_place: "isdir p (upd_node a (set_place q name) t) = isdir p t"
  by (auto simp: isdir_def upd_node_def set_place_def is_directory_def split: option.splits)

lemma edges_place: "edges (t_heap (upd_node a (set_place q name) t)) = edges (t_heap t)"
proof -
  have "children (t_heap (upd_node a (set_place q name) t)) b = children (t_heap t) b" for b
    by (simp add: upd_node_def children_kids kids_def set_place_def split: option.splits)
  then show ?thesis by (simp add: edges_def)
qed

lemma edges_insert:
  assumes "dir_insert p c True t = (Inr (c', old), t')"
  shows "edges (t_heap t') \<subseteq> insert (p, c) (edges (t_heap t))"
proof -
  have "children (t_heap (upd_node p (set_children f) t)) b = (if b = p then (if isdir p t then f (children (t_heap t) p) else []) else children (t_heap t) b)" for f b
    by (auto simp: upd_node_def children_def set_children_def isdir_def is_directory_def split: option.splits fs_file.splits)
  then show ?thesis using assms by (auto simp: dir_insert_def edges_def split: option.splits if_splits)
qed

lemma subtree_insert:
  assumes "edges h' \<subseteq> insert (p, c) (edges h)" "p \<notin> subtree h y"
  shows "subtree h' y \<subseteq> subtree h y"
proof
  fix b assume "b \<in> subtree h' y"
  then have "(y, b) \<in> (edges h')\<^sup>*" by (simp add: subtree_def)
  then show "b \<in> subtree h y"
  proof (induction rule: rtrancl_induct)
    case (step b d)
    then have "(b, d) \<in> edges h" using assms by auto
    with step.IH show ?case by (auto simp: edges_iff intro: subtree_step)
  qed simp
qed

text \<open>Moving a child of one directory to another under a new name.\<close>

lemma move_ok:
  assumes t: "tree_inv t" and x: "child_of from_par nm x t" and to: "isdir to_par t" and below: "to_par \<notin> subtree (t_heap t) x"
    and e: "dir_extract from_par nm t = (Some x, t1)" and t2: "t2 = upd_node x (set_place to_par name) t1"
    and ins: "dir_insert to_par x True t2 = (r, t3)"
  shows "case r of
      Inr (_, None) \<Rightarrow> tree_inv t3
    | Inr (_, Some y) \<Rightarrow> tree_ok {y} t3 \<and> y \<noteq> x \<and> child_of to_par name y t \<and> isdir from_par t3 \<and> subtree (t_heap t3) y \<subseteq> subtree (t_heap t) y
    | Inl _ \<Rightarrow> False"
proof -
  have ex: "tree_ok {x} t1" "place (t_heap t1) = place (t_heap t)" using dir_extract_ok [OF t e] by auto
  have t1: "t1 = upd_node from_par (set_children (filter (\<lambda>y. y \<noteq> x))) t"
    using e by (auto simp: dir_extract_def split: option.splits)
  have ok: "tree_ok {x} t2" unfolding t2 by (rule tree_ok_set_place [OF ex(1)]) simp
  have "isdir to_par t2" unfolding t2 t1 by (simp add: isdir_place isdir_set_children to)
  then obtain n where n: "t_heap t2 to_par = Some n" "is_directory n" by (auto simp: isdir_def)
  obtain m0 where "t_heap t1 x = Some m0" using tree_okD(8) [OF ex(1), of x] by auto
  then have m: "t_heap t2 x = Some (set_place to_par name m0)" by (simp add: t2 upd_node_def)
  have "children (t_heap t1) b = (if b = from_par then filter (\<lambda>y. y \<noteq> x) (children (t_heap t) b) else children (t_heap t) b)" for b
    by (auto simp: t1 upd_node_def children_def set_children_def split: option.splits fs_file.splits)
  then have "edges (t_heap t1) \<subseteq> edges (t_heap t)" by (auto simp: edges_def split: if_splits)
  then have ed: "edges (t_heap t2) \<subseteq> edges (t_heap t)" by (simp add: t2 edges_place)
  then have b2: "to_par \<notin> subtree (t_heap t2) x" using below rtrancl_mono unfolding subtree_def by blast
  note di = dir_insert_ok [OF ok _ n m _ b2 ins]
  show ?thesis
  proof (cases r)
    case (Inl e)
    then show ?thesis using di by (simp add: set_place_def)
  next
    case (Inr v)
    show ?thesis
    proof (cases "snd v")
      case None
      then show ?thesis using di Inr by (cases v) (auto simp: set_place_def)
    next
      case (Some y)
      have y: "tree_ok {y} t3" "y \<noteq> x" "y \<in> set (children (t_heap t2) to_par)" "name_of (t_heap t2) y = name"
        using di Inr Some by (cases v; simp add: set_place_def)+
      have yt: "y \<in> set (children (t_heap t) to_par)" using y(3) ed by (auto simp: edges_def)
      have "t_heap t2 y = t_heap t1 y" using y(2) by (simp add: t2 upd_node_def split: option.splits)
      then have "name_of (t_heap t) y = name"
        using y(4) place_eqD(2) [of "t_heap t1" y "t_heap t"] ex(2) by (simp add: name_of_def)
      with child_live [OF t yt] have c: "child_of to_par name y t" by (auto simp: child_of_alt name_of_def)
      have "isdir from_par t" using child_of_isdir [OF t x] .
      then have "isdir from_par t2" unfolding t2 t1 by (simp add: isdir_place isdir_set_children)
      then have "isdir from_par t3"
        using di Inr Some by (cases v) (auto simp: set_place_def isdir_set_children)
      moreover have "edges (t_heap t3) \<subseteq> insert (to_par, x) (edges (t_heap t))"
        using edges_insert [of to_par x t2 "fst v" "snd v" t3] ins Inr ed by auto
      from subtree_insert [OF this] have "subtree (t_heap t3) y \<subseteq> subtree (t_heap t) y"
        using not_in_child_subtree [OF t yt] by blast
      ultimately show ?thesis using y c Inr Some by (cases v) simp
    qed
  qed
qed

text \<open>Putting the replaced node into the place of the moved one.\<close>

lemma put_back_ok:
  assumes t: "tree_ok {y} t" and p: "isdir from_par t" and below: "from_par \<notin> subtree (t_heap t) y"
    and ins: "dir_insert from_par y False (upd_node y (set_place from_par nm) t) = (Inr v, t')"
  shows "tree_inv t'"
proof -
  let ?t = "upd_node y (set_place from_par nm) t"
  have ok: "tree_ok {y} ?t" by (rule tree_ok_set_place [OF t]) simp
  obtain n where n: "t_heap ?t from_par = Some n" "is_directory n"
    using p isdir_place [of from_par y from_par nm t] by (auto simp: isdir_def)
  obtain m0 where "t_heap t y = Some m0" using tree_okD(8) [OF t, of y] by auto
  then have m: "t_heap ?t y = Some (set_place from_par nm m0)" by (simp add: upd_node_def)
  have b: "from_par \<notin> subtree (t_heap ?t) y" using below by (simp add: subtree_def edges_place)
  have "snd v = None" using ins m by (auto simp: dir_insert_def split: option.splits)
  then show ?thesis using dir_insert_ok [OF ok _ n m _ b ins] by (cases v) (auto simp: set_place_def)
qed

section \<open>The operation\<close>

lemma below_path:
  assumes "tree_inv t" "at (t_heap t) a xs" "at (t_heap t) b ys" "\<not> prefix xs ys"
  shows "b \<notin> subtree (t_heap t) a"
  using at_subtree [OF assms(1,2), of b] at_unique [OF assms(3)] assms(4) by (auto simp: prefix_def)

lemma child_of_at:
  assumes "tree_inv t" "child_of p nm c t" "known p xs t"
  shows "at (t_heap t) c (xs @ [nm])"
  using known_child [OF assms] by (simp add: known_def)

definition separate :: "path \<Rightarrow> path \<Rightarrow> bool" where
  "separate p q = (\<not> strict_prefix (iter p) (iter q) \<and> \<not> strict_prefix (iter q) (iter p))"

lemma separate_parent:
  assumes "good_path p" "good_path q" "\<not> is_root p" "\<not> is_root q" "separate p q"
  shows "\<not> prefix (iter p) (iter (parent_path q))" "\<not> prefix (iter q) (iter (parent_path p))"
proof -
  have sp: "strict_prefix xs (ys @ [y])" if "prefix xs ys" for xs ys :: "str list" and y
    using that by (auto simp: prefix_def strict_prefix_def)
  have "iter p = iter (parent_path p) @ [filename p]" "iter q = iter (parent_path q) @ [filename q]"
    using assms path_parts(2) by (auto simp: good_path_def)
  then show "\<not> prefix (iter p) (iter (parent_path q))" "\<not> prefix (iter q) (iter (parent_path p))"
    using assms(5) sp unfolding separate_def by metis+
qed

lemma keeps_known:
  assumes "keeps_tree m" "persistent X"
  shows "valid (\<lambda>t. fs_ok t0 {} t \<and> X t) m (\<lambda>_ t. fs_ok t0 {} t \<and> X t) (fs_ok t0 {})"
  using valid_frame [of "\<lambda>_. True" m "\<lambda>_ _. True" X t0] assms by (auto simp: keeps_tree_def elim: valid_conseq)

lemma valid_start: "(\<And>t0. valid (fs_ok t0 {}) m Q R) \<Longrightarrow> valid tree_inv m Q R"
  unfolding valid_def by (meson evolves_refl fs_ok_def)

lemma valid_take_node:
  "valid (\<lambda>t. fs_ok t0 {} t \<and> X t) (take_node par nm)
     (\<lambda>x t1. \<exists>t. fs_ok t0 {} t \<and> X t \<and> child_of par nm x t \<and> dir_extract par nm t = (Some x, t1)) R"
  unfolding take_node_def
proof (rule valid_tree)
  fix t t1 and r :: "nat expect" assume t: "fs_ok t0 {} t \<and> X t"
    and e: "(case dir_extract par nm t of (Some c, t') \<Rightarrow> (Inr c, t') | (None, t') \<Rightarrow> (Inl UB, t')) = (r, t1)"
  have "child_of par nm x t" if "dir_extract par nm t = (Some x, t1)" for x
    using dir_extract_ok [OF fs_ok_tree [OF conjunct1 [OF t]] that] child_live [OF fs_ok_tree [OF conjunct1 [OF t]], of x par]
    by (auto simp: child_of_alt name_of_def)
  with t e show "case r of Inr x \<Rightarrow> (\<exists>t. fs_ok t0 {} t \<and> X t \<and> child_of par nm x t \<and> dir_extract par nm t = (Some x, t1))
      | Inl (Errc _) \<Rightarrow> R t1 | _ \<Rightarrow> True"
    by (auto split: prod.splits option.splits)
qed

lemma valid_cache_pure: "valid P (on_cache (\<lambda>c d. (Inr (), g c, d)) (return_fs ())) (\<lambda>_. P) R"
  by (auto simp: valid_def on_cache_def return_fs_def split: option.splits)

text \<open>
  The state after the extraction and the renaming of the node, in terms of the tree before: the
  paths of the two parents are known, the node was found, and it is ready to be inserted.
\<close>

definition lifted :: "tree \<Rightarrow> path \<Rightarrow> nat \<Rightarrow> path \<Rightarrow> nat \<Rightarrow> nat \<Rightarrow> tree \<Rightarrow> bool" where
  "lifted t0 from from_par to to_par x t2 =
     (\<exists>t t1. fs_ok t0 {} t \<and> known from_par (iter (parent_path from)) t \<and> known to_par (iter (parent_path to)) t \<and>
        child_of from_par (filename from) x t \<and> dir_extract from_par (filename from) t = (Some x, t1) \<and>
        t2 = upd_node x (set_place to_par (filename to)) t1)"

definition swapped :: "nat \<Rightarrow> nat \<times> nat option \<Rightarrow> tree \<Rightarrow> bool" where
  "swapped from_par r t =
     (case snd r of None \<Rightarrow> tree_inv t
      | Some y \<Rightarrow> tree_ok {y} t \<and> isdir from_par t \<and> from_par \<notin> subtree (t_heap t) y)"

lemma valid_move:
  assumes paths: "good_path from" "good_path to" "\<not> is_root from" "\<not> is_root to" "separate from to"
  shows "valid (\<lambda>t. lifted t0 from from_par to to_par x t \<and> isdir to_par t) (on_tree (dir_insert to_par x True))
    (swapped from_par) tree_inv"
proof (rule valid_tree)
  fix t2 t3 and r :: "(nat \<times> nat option) expect"
  assume l: "lifted t0 from from_par to to_par x t2 \<and> isdir to_par t2" and ins: "dir_insert to_par x True t2 = (r, t3)"
  then obtain t t1 where t: "fs_ok t0 {} t" "known from_par (iter (parent_path from)) t" "known to_par (iter (parent_path to)) t"
    and x: "child_of from_par (filename from) x t" and e: "dir_extract from_par (filename from) t = (Some x, t1)"
    and t2: "t2 = upd_node x (set_place to_par (filename to)) t1" unfolding lifted_def by blast
  note ti = fs_ok_tree [OF t(1)]
  have parts: "iter from = iter (parent_path from) @ [filename from]" "iter to = iter (parent_path to) @ [filename to]"
    using path_parts(2) paths by (auto simp: good_path_def)
  have "t1 = upd_node from_par (set_children (filter (\<lambda>y. y \<noteq> x))) t"
    using e by (auto simp: dir_extract_def split: option.splits)
  then have to: "isdir to_par t" using l by (simp add: t2 isdir_place isdir_set_children)
  then have at: "at (t_heap t) to_par (iter (parent_path to))" using t(3) by (auto simp: known_def live_def isdir_def)
  have "to_par \<notin> subtree (t_heap t) x"
    using below_path [OF ti child_of_at [OF ti x t(2)] at] separate_parent(1) [OF paths] by (simp add: parts(1))
  note mv = move_ok [OF ti x to this e t2 ins]
  have atf: "at (t_heap t) from_par (iter (parent_path from))"
    using t(2) child_of_isdir [OF ti x] by (auto simp: known_def live_def isdir_def)
  have "from_par \<notin> subtree (t_heap t) y" if "child_of to_par (filename to) y t" for y
    using below_path [OF ti child_of_at [OF ti that t(3)] atf] separate_parent(2) [OF paths] by (simp add: parts(2))
  with mv show "case r of Inr v \<Rightarrow> swapped from_par v t3 | Inl (Errc _) \<Rightarrow> tree_inv t3 | _ \<Rightarrow> True"
    by (auto simp: swapped_def split: sum.splits option.splits)
qed

lemma valid_put_back:
  "valid (\<lambda>t. tree_ok {y} t \<and> isdir from_par t \<and> from_par \<notin> subtree (t_heap t) y)
    (then_fs (mod_node y (set_place from_par nm))
       (bind_fs (attempt (on_tree (dir_insert from_par y False))) (\<lambda>res. case res of
          Inl _ \<Rightarrow> fail_fs UB
        | Inr _ \<Rightarrow> return_fs ()))) (\<lambda>_. tree_inv) tree_inv"
proof (rule valid_then)
  let ?P = "\<lambda>t. tree_ok {y} t \<and> isdir from_par t \<and> from_par \<notin> subtree (t_heap t) y"
  let ?Q = "\<lambda>t'. \<exists>t. ?P t \<and> t' = upd_node y (set_place from_par nm) t"
  show "valid ?P (mod_node y (set_place from_par nm)) (\<lambda>_. ?Q) tree_inv" by (rule valid_mod) blast
  have "valid ?Q (on_tree (dir_insert from_par y False)) (\<lambda>_. tree_inv) (\<lambda>_. True)"
    by (rule valid_tree) (auto split: sum.splits fault.splits intro: put_back_ok)
  from valid_attempt_fwd [OF this] show "valid ?Q (bind_fs (attempt (on_tree (dir_insert from_par y False))) (\<lambda>res. case res of
          Inl _ \<Rightarrow> fail_fs UB
        | Inr _ \<Rightarrow> return_fs ())) (\<lambda>_. tree_inv) tree_inv"
    by (rule valid_bind) (auto intro: valid_return valid_fault split: sum.split)
qed

lemma valid_drop_tree: "valid (tree_ok {x}) (on_tree (drop_node x)) (\<lambda>_. tree_inv) R"
proof (rule valid_tree)
  fix t t' and r :: "unit expect" assume "tree_ok {x} t" "drop_node x t = (r, t')"
  with tree_ok_drop [of x "{}" t] show "case r of Inr v \<Rightarrow> tree_inv t' | Inl (Errc _) \<Rightarrow> R t' | _ \<Rightarrow> True" by auto
qed

lemma valid_rename_nodes:
  assumes paths: "good_path from" "good_path to" "\<not> is_root from" "\<not> is_root to" "separate from to"
  shows "valid (\<lambda>t. fs_ok t0 {} t \<and> known from_par (iter (parent_path from)) t \<and> known to_par (iter (parent_path to)) t)
    (rename_nodes env from from_par to to_par flags) (\<lambda>_. tree_inv) tree_inv"
  unfolding rename_nodes_def
proof (rule valid_bind [OF valid_take_node], rule valid_then [OF valid_cache_pure], rule valid_then)
  fix x
  show "valid (\<lambda>t1. \<exists>t. fs_ok t0 {} t \<and> (known from_par (iter (parent_path from)) t \<and> known to_par (iter (parent_path to)) t) \<and>
      child_of from_par (filename from) x t \<and> dir_extract from_par (filename from) t = (Some x, t1))
    (mod_node x (set_place to_par (filename to))) (\<lambda>_. lifted t0 from from_par to to_par x) tree_inv"
    by (rule valid_mod) (unfold lifted_def, blast)
  show "valid (lifted t0 from from_par to to_par x)
     (bind_fs (get_node to_par) (\<lambda>tpn. if \<not> is_directory tpn then fail_fs UB else
      bind_fs (on_tree (dir_insert to_par x True)) (\<lambda>(_, old).
        if flag_set flags RENAME_EXCHANGE then
          (case old of
             None \<Rightarrow> fail_fs UB
           | Some y \<Rightarrow>
               then_fs (on_cache (\<lambda>c d. (Inr (), cache_rename y from c, d)) (return_fs ()))
               (then_fs (mod_node y (set_place from_par (filename from)))
               (bind_fs (attempt (on_tree (dir_insert from_par y False))) (\<lambda>res. case res of
                  Inl _ \<Rightarrow> fail_fs UB
                | Inr _ \<Rightarrow> return_fs ()))))
        else
          (case old of
             None \<Rightarrow> return_fs ()
           | Some y \<Rightarrow> then_fs (cache_invalidate env y) (then_fs (erase_handles [y]) (on_tree (drop_node y))))))) (\<lambda>_. tree_inv) tree_inv"
  proof (rule valid_bind, rule valid_fwd(2), rule valid_if, rule valid_fault, rule valid_bind [OF valid_pre [OF valid_move [OF paths, of t0 from_par]]], goal_cases)
    case (1 tpn t)
    then show ?case by (auto simp: isdir_def)
  next
    case (2 tpn v)
    obtain c old where v: "v = (c, old)" by fastforce
    show ?case
    proof (cases old)
      case None
      show ?thesis unfolding v None prod.case option.case
        by (rule valid_if [OF _ valid_return]) (simp_all add: valid_fault swapped_def)
    next
      case (Some y)
      have d: "valid (tree_ok {y}) (then_fs (cache_invalidate env y) (then_fs (erase_handles [y]) (on_tree (drop_node y)))) (\<lambda>_. tree_inv) tree_inv"
        by (rule valid_then [OF valid_invalidate], rule valid_then [OF valid_fwd(6)], rule valid_drop_tree)
      show ?thesis unfolding v Some prod.case option.case
        by (rule valid_if, rule valid_then [OF valid_cache_pure], rule valid_pre [OF valid_put_back], simp add: swapped_def,
            rule valid_pre [OF d], simp add: swapped_def)
    qed
  qed
qed

lemma keeps_rename_checks: "good_path p \<Longrightarrow> keeps_tree (rename_checks env p flags)"
  unfolding rename_checks_def
  by (auto intro!: keeps_tree_intros split: option.split sum.split)

lemma at_parent:
  assumes "tree_inv t" "live a t" "known a (xs @ [nm]) t" "t_heap t a = Some n" "n_parent n = Some p"
  shows "known p xs t"
proof -
  have "at (t_heap t) a (xs @ [nm])" using assms(2,3) by (simp add: known_def)
  then have at: "at (t_heap t) p xs" using assms(4,5) by (auto elim: at.cases)
  have "child_of p (n_name n) a t" using assms(4,5) by (simp add: child_of_alt)
  from parent_live [OF child_of_owned [OF assms(1) this]] tree_okD(2) [OF assms(1)] at show ?thesis by (simp add: known_def)
qed

lemma valid_rename:
  assumes paths: "good_path from" "good_path to" "\<not> is_root to" "separate from to"
  shows "valid tree_inv (rename env from to flags) (\<lambda>_. tree_inv) tree_inv"
proof (cases "is_root from")
  case True
  then show ?thesis by (simp add: rename_def valid_fail)
next
  case False
  have parts: "iter from = iter (parent_path from) @ [filename from]"
    using path_parts(2) [OF _ False] paths(1) by (simp add: good_path_def)
  have "valid (fs_ok t0 {}) (rename env from to flags) (\<lambda>_. tree_inv) tree_inv" for t0
    unfolding rename_def if_not_P [OF False]
  proof (rule valid_bind [OF valid_conseq [OF valid_traverse_or_build [OF paths(1)]]], assumption, assumption, simp add: fs_ok_def,
      rule valid_bind, rule valid_fwd(2))
    fix from_node fn
    let ?P = "\<lambda>t. (fs_ok t0 {} t \<and> live from_node t \<and> known from_node (iter from) t) \<and> t_heap t from_node = Some fn"
    show "valid ?P (case n_parent fn of
           None \<Rightarrow> fail_fs UB
         | Some from_par \<Rightarrow>
             bind_fs (get_node from_par) (\<lambda>fpn.
               if \<not> is_directory fpn then fail_fs UB
               else
                 bind_fs (parent_dir env to) (\<lambda>to_par.
                 then_fs (rename_checks env to flags)
                 (then_fs (on_dev (conn_rename env from to flags))
                 (then_fs (fs_refresh env from_par timespec_omit timespec_now)
                 (then_fs (fs_refresh env to_par timespec_omit timespec_now)
                 (rename_nodes env from from_par to to_par flags))))))) (\<lambda>_. tree_inv) tree_inv"
    proof (cases "n_parent fn")
      case (Some from_par)
      let ?F = "known from_par (iter (parent_path from))" and ?T = "\<lambda>to_par. known to_par (iter (parent_path to))"
      have pre: "fs_ok t0 {} t \<and> True \<and> ?F t" if "?P t" for t
        using that at_parent [OF fs_ok_tree, of t0 t from_node "iter (parent_path from)" "filename from" fn from_par] Some
        by (simp add: parts)
      have ok: "valid P m Q tree_inv" if "valid P m Q (fs_ok t0 {})" for P m and Q :: "'b \<Rightarrow> tree \<Rightarrow> bool"
        using that by (rule valid_conseq) (simp_all add: fs_ok_def)
      have pd: "valid (\<lambda>t. fs_ok t0 {} t \<and> True \<and> ?F t) (parent_dir env to)
          (\<lambda>to_par t. fs_ok t0 {} t \<and> ?F t \<and> ?T to_par t) tree_inv"
      proof -
        have "valid (\<lambda>t. fs_ok t0 {} t \<and> True) (parent_dir env to) (\<lambda>p t. fs_ok t0 {} t \<and> (isdir p t \<and> ?T p t)) (fs_ok t0 {})" for t0
          using valid_parent_dir [OF good_parent [OF paths(2)], of t0 env] by simp
        from valid_frame [OF this known_persistent, of t0 from_par "iter (parent_path from)"]
        show ?thesis by (rule valid_conseq) (auto simp: fs_ok_def)
      qed
      have k: "valid (\<lambda>t. fs_ok t0 {} t \<and> ?F t \<and> ?T q t) m (\<lambda>_ t. fs_ok t0 {} t \<and> ?F t \<and> ?T q t) tree_inv"
        if "keeps_tree m" for m :: "(unit, 'a) fs_op" and q
        by (rule valid_conseq [OF keeps_known [OF that persistent_conj [OF known_persistent known_persistent]]]) (auto simp: fs_ok_def)
      show ?thesis
        unfolding Some option.case
      proof (rule valid_bind [OF valid_fwd(2)], rule valid_if, rule valid_fault, rule valid_bind [OF valid_pre [OF pd]])
        fix fpn to_par
        show "valid (\<lambda>t. fs_ok t0 {} t \<and> ?F t \<and> ?T to_par t) (then_fs (rename_checks env to flags)
                 (then_fs (on_dev (conn_rename env from to flags))
                 (then_fs (fs_refresh env from_par timespec_omit timespec_now)
                 (then_fs (fs_refresh env to_par timespec_omit timespec_now)
                 (rename_nodes env from from_par to to_par flags))))) (\<lambda>_. tree_inv) tree_inv"
          by (intro valid_then [OF k] valid_rename_nodes [OF paths(1,2) False paths(3,4)] keeps_rename_checks paths(2) keeps_tree_basic)
      qed (use pre in blast)
    qed (simp add: valid_fault)
  qed
  then show ?thesis by (rule valid_start)
qed

end
