(* ===== verification/Fs_Props.thy ===== *)
theory Fs_Props
  imports Fs_Rename Cache_Props
begin

text \<open>
  The properties of the file system: sequences of operations keep the tree a tree, what an
  operation finds is what is there, cached results need no request, and what lookups, removal,
  replacement and expiry do to the tree and to the open handles.
\<close>

section \<open>Sequences of operations\<close>

definition returned :: "'a expect \<Rightarrow> bool" where
  "returned r = (case r of Inr _ \<Rightarrow> True | Inl (Errc _) \<Rightarrow> True | Inl _ \<Rightarrow> False)"

text \<open>
  One call of a public operation that returns. Paths are those the FUSE callbacks build: absolute
  and normalised. The kernel does not ask to rename a file to the root or to a place below itself.
\<close>

inductive fs_step :: "'d env \<Rightarrow> 'd fs \<Rightarrow> 'd fs \<Rightarrow> bool" for env where
  readdir: "good_path p \<Longrightarrow> readdir env p s = (r, s') \<Longrightarrow> returned r \<Longrightarrow> fs_step env s s'"
| getattr: "good_path p \<Longrightarrow> getattr env p s = (r, s') \<Longrightarrow> returned r \<Longrightarrow> fs_step env s s'"
| readlink: "good_path p \<Longrightarrow> readlink env p s = (r, s') \<Longrightarrow> returned r \<Longrightarrow> fs_step env s s'"
| mknod: "good_path p \<Longrightarrow> mknod env p mode dev s = (r, s') \<Longrightarrow> returned r \<Longrightarrow> fs_step env s s'"
| mkdir: "good_path p \<Longrightarrow> mkdir env p mode s = (r, s') \<Longrightarrow> returned r \<Longrightarrow> fs_step env s s'"
| unlink: "good_path p \<Longrightarrow> unlink env p s = (r, s') \<Longrightarrow> returned r \<Longrightarrow> fs_step env s s'"
| rmdir: "good_path p \<Longrightarrow> rmdir env p s = (r, s') \<Longrightarrow> returned r \<Longrightarrow> fs_step env s s'"
| rename: "good_path p \<Longrightarrow> good_path q \<Longrightarrow> \<not> is_root q \<Longrightarrow> separate p q \<Longrightarrow> rename env p q flags s = (r, s') \<Longrightarrow>
    returned r \<Longrightarrow> fs_step env s s'"
| utimens: "good_path p \<Longrightarrow> utimens env p at' mt s = (r, s') \<Longrightarrow> returned r \<Longrightarrow> fs_step env s s'"
| truncate: "good_path p \<Longrightarrow> fs_truncate env p sz s = (r, s') \<Longrightarrow> returned r \<Longrightarrow> fs_step env s s'"
| open': "good_path p \<Longrightarrow> fs_open env p fl s = (r, s') \<Longrightarrow> returned r \<Longrightarrow> fs_step env s s'"
| read': "fs_read env fd out off s = (r, s') \<Longrightarrow> returned r \<Longrightarrow> fs_step env s s'"
| write': "fs_write env fd bs off s = (r, s') \<Longrightarrow> returned r \<Longrightarrow> fs_step env s s'"
| flush': "fs_flush env fd s = (r, s') \<Longrightarrow> returned r \<Longrightarrow> fs_step env s s'"
| release: "release env fd s = (r, s') \<Longrightarrow> returned r \<Longrightarrow> fs_step env s s'"
| copy_file_range: "fs_copy_file_range env p i j q k l sz s = (r, s') \<Longrightarrow> returned r \<Longrightarrow> fs_step env s s'"
| symlink: "symlink env p target s = (r, s') \<Longrightarrow> returned r \<Longrightarrow> fs_step env s s'"
| initialize_root: "initialize_root env s = (r, s') \<Longrightarrow> returned r \<Longrightarrow> fs_step env s s'"
| set_ttl: "set_ttl env ttl s = (r, s') \<Longrightarrow> returned r \<Longrightarrow> fs_step env s s'"
| expires_all: "expires_all env s = (r, s') \<Longrightarrow> returned r \<Longrightarrow> fs_step env s s'"
| shutdown: "fs_shutdown env s = (r, s') \<Longrightarrow> returned r \<Longrightarrow> fs_step env s s'"

lemma safe_step:
  "valid tree_inv m (\<lambda>_. tree_inv) tree_inv \<Longrightarrow> m s = (r, s') \<Longrightarrow> returned r \<Longrightarrow> tree_inv (f_tree s) \<Longrightarrow> tree_inv (f_tree s')"
  unfolding valid_def returned_def by (fastforce split: sum.splits fault.splits)

lemma keeps_step:
  assumes "keeps_tree m" "m s = (r, s')" "returned r" "tree_inv (f_tree s)"
  shows "tree_inv (f_tree s')"
proof -
  have "valid (fs_ok t0 {}) m (\<lambda>_. tree_inv) tree_inv" for t0
    using assms(1) [unfolded keeps_tree_def, THEN spec, of t0] by (rule valid_conseq) (simp_all add: fs_ok_def)
  from safe_step [OF valid_start [OF this] assms(2-4)] show ?thesis .
qed

lemmas fs_keeps = fs_keeps_readdir fs_keeps_getattr fs_keeps_readlink fs_keeps_mknod fs_keeps_mkdir fs_keeps_unlink
  fs_keeps_rmdir fs_keeps_utimens fs_keeps_truncate fs_keeps_open fs_keeps_read fs_keeps_write fs_keeps_flush_op
  fs_keeps_release fs_keeps_copy_file_range fs_keeps_symlink fs_keeps_initialize_root fs_keeps_set_ttl
  fs_keeps_expire_nodes [of _ "Some 0", folded expires_all_def] fs_keeps_shutdown

lemma fs_step_inv: "fs_step env s s' \<Longrightarrow> tree_inv (f_tree s) \<Longrightarrow> tree_inv (f_tree s')"
proof (induction rule: fs_step.induct)
  case (rename p q flags s r s')
  from safe_step [OF valid_rename [OF rename(1-4)] rename(5-7)] show ?case .
qed (erule (2) keeps_step [rotated], rule fs_keeps, assumption?)+

interpretation fs_runs: step_invariant "fs_step env" "\<lambda>s. tree_inv (f_tree s)"
  by unfold_locales (rule fs_step_inv)

lemma init_tree_inv: "tree_inv init_tree"
proof -
  have h: "t_heap init_tree = [root_id \<mapsto> mk_node ''/'' None default_stat (Directory [] False)]" "t_id init_tree = 1"
    by (simp_all add: init_tree_def new_node_def root_id_def)
  have "children (t_heap init_tree) a = []" for a by (simp add: h children_def mk_node_def)
  then show ?thesis
    unfolding tree_ok_def by (auto simp: root_ok_def children_ok_def edges_def owned_def acyclic_def)
      (auto simp: h mk_node_def is_directory_def root_id_def split: if_splits)
qed

text \<open>C1: every sequence of operations. From a new file system, whatever operations return and
  whatever the device answers, the nodes form a tree below the root: every node but the root is in
  the child list of exactly the directory its parent pointer names, siblings have different names,
  there are no cycles, and the ids are the ones handed out.\<close>

theorem fs_run_safe:
  assumes "(fs_step env)\<^sup>*\<^sup>* (mk_fs caching ttl d) s"
  shows "tree_inv (f_tree s)"
  using fs_runs.reach_inv [OF assms] init_tree_inv by (simp add: mk_fs_def)

theorem fs_run_safe_witness:
  "tree_inv (f_tree (snd (set_ttl (flat_env []) (Some 3) (mk_fs None None ()))))"
proof -
  have w: "walk init_tree root_id = Inr [root_id]"
    by (simp add: walk_def init_tree_def new_node_def walk_loop.simps root_id_def children_def mk_node_def)
  have "returned (fst (set_ttl (flat_env []) (Some 3) (mk_fs None None ())))"
    by (simp add: set_ttl_def Let_def mk_fs_def then_fs_def bind_fs_def expire_nodes_def from_tree_def on_tree_def
        w return_fs_def returned_def)
  then have "fs_step (flat_env []) (mk_fs None None ()) (snd (set_ttl (flat_env []) (Some 3) (mk_fs None None ())))"
    by (intro fs_step.set_ttl) auto
  from fs_run_safe [OF r_into_rtranclp [of "fs_step (flat_env [])", OF this]] show ?thesis .
qed

section \<open>Looking up\<close>

lemma valid_result: "valid P m Q R \<Longrightarrow> P (f_tree s) \<Longrightarrow> m s = (Inr v, s') \<Longrightarrow> Q v (f_tree s')"
  by (auto simp: valid_def dest: spec [of _ s])

lemma fs_ok_self: "tree_inv t \<Longrightarrow> fs_ok t {} t"
  by (simp add: fs_ok_def evolves_refl)

text \<open>C25: the node that \<^verbatim>\<open>traverse_or_build\<close> returns, after building and updating whatever it had to, is
  the one a plain traversal of the resulting tree finds under the same path.\<close>

theorem traverse_or_build_finds:
  assumes "tree_inv (f_tree s)" "good_path p" "traverse_or_build env p s = (Inr a, s')"
  shows "traverse (f_tree s') p = Inr a \<and> tree_inv (f_tree s')"
proof -
  have "fs_ok (f_tree s) {} (f_tree s') \<and> live a (f_tree s') \<and> known a (iter p) (f_tree s')"
    using valid_result [OF valid_traverse_or_build [OF assms(2)] fs_ok_self [OF assms(1)] assms(3)] .
  then have t: "tree_inv (f_tree s')" "at (t_heap (f_tree s')) a (iter p)" by (auto simp: fs_ok_def known_def)
  from traverse_at [OF t, of "[]" "Inr a"] have "traverse_loop (f_tree s') root_id (iter p) = Inr a" by simp
  with at_root_iff [OF t(2)] t(1) show ?thesis by (auto simp: traverse_def is_root_def iter_def)
qed

text \<open>Nodes along a path that are there and not expired.\<close>

fun fresh_path :: "int \<Rightarrow> tree \<Rightarrow> nat \<Rightarrow> str list \<Rightarrow> bool" where
  "fresh_path now t cur [] = (t_heap t cur \<noteq> None)"
| "fresh_path now t cur (x # xs) =
     (case node_traverse t cur x of
        Inl _ \<Rightarrow> False
      | Inr a \<Rightarrow> (case t_heap t a of Some n \<Rightarrow> \<not> expired now n \<and> fresh_path now t a xs | None \<Rightarrow> False))"

lemma fresh_traverse: "fresh_path now t cur xs \<Longrightarrow> \<exists>a. traverse_loop t cur xs = Inr a \<and> t_heap t a \<noteq> None"
  by (induction now t cur xs rule: fresh_path.induct) (auto split: sum.splits option.splits)

lemma traverse_loop_append: "traverse_loop t cur (xs @ ys) = and_then (traverse_loop t cur xs) (\<lambda>c. traverse_loop t c ys)"
  by (induction t cur xs rule: traverse_loop.induct) (auto simp: and_then_def split: sum.splits)

lemma fresh_join: "fresh_path now t cur xs \<Longrightarrow> traverse_loop t cur xs = Inr b \<Longrightarrow> fresh_path now t b ys \<Longrightarrow> fresh_path now t cur (xs @ ys)"
  by (induction now t cur xs rule: fresh_path.induct) (auto split: sum.splits option.splits)

lemma fresh_append:
  "traverse_loop t cur xs = Inr b \<Longrightarrow> fresh_path now t cur (xs @ ys) \<Longrightarrow> fresh_path now t b ys"
  by (induction now t cur xs rule: fresh_path.induct) (auto split: sum.splits option.splits)

lemma fresh_prefix: "fresh_path now t cur (xs @ ys) \<Longrightarrow> t_heap t cur \<noteq> None \<Longrightarrow> fresh_path now t cur xs"
  by (induction now t cur xs rule: fresh_path.induct) (auto split: sum.splits option.splits)

lemma refresh_fresh:
  "t_heap (f_tree s) a = Some n \<Longrightarrow> \<not> expired (ev_steady env (f_dev s)) n \<Longrightarrow> refresh_expired env a q s = (Inr (), s)"
  by (simp add: refresh_expired_def bind_fs_def get_node_def from_tree_def the_node_def return_fs_def)

lemma find_attempt:
  "node_traverse (f_tree s) cur x = Inr a \<Longrightarrow> attempt (from_tree (\<lambda>t. node_traverse t cur x)) s = (Inr (Inr a), s)"
  by (simp add: attempt_def from_tree_def)

lemma tob_loop_fresh:
  "fresh_path (ev_steady env (f_dev s)) (f_tree s) cur xs \<Longrightarrow>
     \<exists>q b. tob_loop env cur cp xs s = (Inr (b, q), s) \<and> traverse_loop (f_tree s) cur xs = Inr b"
proof (induction env cur cp xs rule: tob_loop.induct)
  case (2 env cur cp x xs)
  then obtain a n where a: "node_traverse (f_tree s) cur x = Inr a" "t_heap (f_tree s) a = Some n"
      "\<not> expired (ev_steady env (f_dev s)) n" "fresh_path (ev_steady env (f_dev s)) (f_tree s) a xs"
    by (auto split: sum.splits option.splits)
  from 2(1) [OF refl] a(4) obtain q b where qb: "tob_loop env a (snd (Path.extend cp x)) xs s = (Inr (b, q), s)" "traverse_loop (f_tree s) a xs = Inr b"
    by blast
  have "tob_loop env cur cp (x # xs) s = (Inr (b, q), s)"
    by (simp add: bind_fs_def find_attempt [OF a(1)] then_fs_def refresh_fresh [OF a(2,3)] qb(1) Let_def)
  with a(1) qb(2) show ?case by simp
qed (simp add: return_fs_def)

lemma traverse_fresh:
  assumes p: "good_path p" and f: "fresh_path (ev_steady env (f_dev s)) (f_tree s) root_id (iter p)" and r: "t_heap (f_tree s) root_id \<noteq> None"
  shows "\<exists>a. traverse_or_build env p s = (Inr a, s) \<and> traverse (f_tree s) p = Inr a \<and> t_heap (f_tree s) a \<noteq> None"
proof (cases "is_root p")
  case True
  with r show ?thesis by (simp add: traverse_or_build_def traverse_def return_fs_def)
next
  case False
  let ?now = "ev_steady env (f_dev s)"
  have parts: "iter p = iter (parent_path p) @ [filename p]" using path_parts(2) [OF _ False] p by (simp add: good_path_def)
  have "fresh_path ?now (f_tree s) root_id (iter (parent_path p))" using f r unfolding parts by (rule fresh_prefix)
  from tob_loop_fresh [OF this, of root_path] obtain q b where
    b: "tob_loop env root_id root_path (iter (parent_path p)) s = (Inr (b, q), s)" "traverse_loop (f_tree s) root_id (iter (parent_path p)) = Inr b"
    by blast
  from fresh_append [OF b(2)] f parts have "fresh_path ?now (f_tree s) b [filename p]" by metis
  then obtain a n where a: "node_traverse (f_tree s) b (filename p) = Inr a" "t_heap (f_tree s) a = Some n" "\<not> expired ?now n"
    by (auto split: sum.splits option.splits)
  have "traverse_or_build env p s = (Inr a, s)"
    using False by (simp add: traverse_or_build_def bind_fs_def b(1) find_attempt [OF a(1)] then_fs_def refresh_fresh [OF a(2,3)] return_fs_def Let_def)
  moreover have "traverse (f_tree s) p = Inr a" using False a(1) b(2) by (simp add: traverse_def parts traverse_loop_append)
  ultimately show ?thesis using a(2) by blast
qed

lemma getattr_fresh:
  assumes "tree_inv (f_tree s)" "good_path p" "fresh_path (ev_steady env (f_dev s)) (f_tree s) root_id (iter p)"
  shows "\<exists>a n. traverse (f_tree s) p = Inr a \<and> t_heap (f_tree s) a = Some n \<and>
    getattr env p s = (case n_value n of Error err \<Rightarrow> Unexpect err | _ \<Rightarrow> Inr (a, n_stat n), s)"
proof -
  have "t_heap (f_tree s) root_id \<noteq> None" using tree_okD(1) [OF assms(1)] by (auto simp: root_ok_def)
  from traverse_fresh [OF assms(2,3) this] obtain a n where
    "traverse_or_build env p s = (Inr a, s)" "traverse (f_tree s) p = Inr a" "t_heap (f_tree s) a = Some n" by auto
  then show ?thesis
    by (intro exI [of _ a] exI [of _ n])
      (simp add: getattr_def bind_fs_def get_node_def from_tree_def the_node_def as_error_def fail_fs_def return_fs_def split: fs_file.split)
qed

text \<open>Attributes of cached nodes. When every node on the path is in the tree and has not
  expired, \<^verbatim>\<open>getattr\<close> answers with the node's status, or with the error cached in an error node, and
  changes nothing: no request is sent.\<close>

theorem getattr_cached:
  assumes "tree_inv (f_tree s)" "good_path p" "fresh_path (ev_steady env (f_dev s)) (f_tree s) root_id (iter p)"
  shows "\<exists>a n. traverse (f_tree s) p = Inr a \<and> t_heap (f_tree s) a = Some n \<and>
    getattr env p s = (case n_value n of Error err \<Rightarrow> Unexpect err | _ \<Rightarrow> Inr (a, n_stat n), s)"
  by (rule getattr_fresh [OF assms])

section \<open>A small file system\<close>

text \<open>The root with a regular file and a cached error, as the concrete input of the witnesses.\<close>

definition demo_path :: "str \<Rightarrow> path" where
  "demo_path name = snd (Path.extend root_path name)"

lemma demo_path_ok:
  assumes "\<not> bad_name name"
  shows "good_path (demo_path name)" "iter (demo_path name) = [name]" "filename (demo_path name) = name"
  using extend_ok [of root_path name] assms by (auto simp: demo_path_def good_path_def)

definition demo_tree :: tree where
  "demo_tree = snd (node_build root_id ''b'' default_stat (Error no_such_file_or_directory)
     (snd (node_build root_id ''a'' default_stat (Regular False) init_tree)))"

definition demo_fs :: "unit fs" where
  "demo_fs = (mk_fs None None ())\<lparr>f_tree := demo_tree\<rparr>"

lemma demo_tree_inv: "tree_inv demo_tree"
  unfolding demo_tree_def by (intro node_build_ok(1) [OF _ _ prod.collapse [symmetric]] init_tree_inv) simp_all

lemma demo_heap:
  "t_heap demo_tree = [1 \<mapsto> mk_node ''/'' None default_stat (Directory [2, 3] False),
     2 \<mapsto> mk_node ''a'' (Some 1) default_stat (Regular False),
     3 \<mapsto> mk_node ''b'' (Some 1) default_stat (Error no_such_file_or_directory)]" "t_id demo_tree = 3"
  by (auto simp: demo_tree_def node_build_def init_tree_def new_node_def root_id_def the_node_def as_directory_def mk_node_def
      dir_insert_def children_def child_find_def has_name_def upd_node_def set_children_def fun_eq_iff numeral_2_eq_2 numeral_3_eq_3)

lemma demo_traverse:
  "node_traverse demo_tree root_id ''a'' = Inr 2" "node_traverse demo_tree root_id ''b'' = Inr 3"
  by (simp_all add: root_id_def node_traverse_def the_node_def demo_heap as_directory_def mk_node_def dir_find_def child_find_def has_name_def)

lemma demo_fresh: "fresh_path now demo_tree root_id [''a'']" "fresh_path now demo_tree root_id [''b'']"
  by (simp_all add: demo_traverse demo_heap expired_def mk_node_def as_regular_def)

lemma demo_names: "\<not> bad_name ''a''" "\<not> bad_name ''b''"
  by (simp_all add: bad_name_def)

theorem traverse_or_build_finds_witness:
  "\<exists>a s'. traverse_or_build (flat_env []) (demo_path ''a'') demo_fs = (Inr a, s') \<and> traverse (f_tree s') (demo_path ''a'') = Inr a"
proof -
  have t: "tree_inv (f_tree demo_fs)" by (simp add: demo_fs_def demo_tree_inv)
  obtain a where a: "traverse_or_build (flat_env []) (demo_path ''a'') demo_fs = (Inr a, demo_fs)"
    using traverse_fresh [of "demo_path ''a''" "flat_env []" demo_fs] demo_path_ok [OF demo_names(1)] demo_fresh
    by (auto simp: demo_fs_def demo_heap root_id_def)
  with traverse_or_build_finds [OF t demo_path_ok(1) [OF demo_names(1)] a] show ?thesis by blast
qed

theorem getattr_cached_witness:
  "getattr (flat_env []) (demo_path ''b'') demo_fs = (Unexpect no_such_file_or_directory, demo_fs)"
proof -
  have b: "traverse demo_tree (demo_path ''b'') = Inr 3"
    using demo_path_ok(2) [OF demo_names(2)] by (auto simp: traverse_def demo_traverse iter_def is_root_def)
  have "\<exists>a n. traverse demo_tree (demo_path ''b'') = Inr a \<and> t_heap demo_tree a = Some n \<and>
    getattr (flat_env []) (demo_path ''b'') demo_fs = (case n_value n of Error err \<Rightarrow> Unexpect err | _ \<Rightarrow> Inr (a, n_stat n), demo_fs)"
    using getattr_cached [of demo_fs "demo_path ''b''" "flat_env []"] demo_path_ok [OF demo_names(2)] demo_fresh demo_tree_inv
    by (simp add: demo_fs_def)
  then show ?thesis by (auto simp: b demo_heap mk_node_def)
qed

section \<open>Cached failures\<close>

lemma is_directory_iff: "is_directory n \<longleftrightarrow> (\<exists>cs rd. n_value n = Directory cs rd)"
  by (cases "n_value n") (simp_all add: is_directory_def)

lemma node_build_new:
  assumes t: "tree_inv t" and p: "isdir par t" and k: "kids (mk_node name (Some par) st f) = []"
    and free: "\<And>c. node_traverse t par name \<noteq> Inr c"
  shows "\<exists>c t'. node_build par name st f t = (Inr c, t')"
proof -
  obtain n where n: "t_heap t par = Some n" "is_directory n" using p by (auto simp: isdir_def)
  obtain c t1 where nn: "new_node name (Some par) st f t = (c, t1)" by fastforce
  note rdy = new_node_ready [OF t nn k n(1)]
  have ch: "children (t_heap t1) par = children (t_heap t) par" using rdy(3) n(1) by (simp add: children_def)
  have "child_find (t_heap t1) (children (t_heap t1) par) name = None"
  proof (cases "child_find (t_heap t1) (children (t_heap t1) par) name")
    case (Some x)
    then have x: "x \<in> set (children (t_heap t) par)" "name_of (t_heap t1) x = name" using child_find_Some [OF Some] ch by auto
    have "x \<noteq> c" using child_live [OF t x(1)] rdy(8) by auto
    then have "t_heap t1 x = t_heap t x" using rdy(9) by simp
    with x child_live [OF t x(1)] have "child_of par name x t" by (auto simp: child_of_alt name_of_def)
    with free node_traverse_iff [OF t] show ?thesis by blast
  qed
  with n nn rdy(4) show ?thesis
    by (auto simp: node_build_def the_node_def as_directory_def is_directory_def dir_insert_def mk_node_def split: fs_file.splits)
qed

text \<open>A tree in which nothing changed but that a directory got one more child.\<close>

definition same_nodes :: "tree \<Rightarrow> tree \<Rightarrow> bool" where
  "same_nodes t t' = (\<forall>a n. t_heap t a = Some n \<longrightarrow>
     (\<exists>n'. t_heap t' a = Some n' \<and> n_parent n' = n_parent n \<and> n_name n' = n_name n \<and> (\<forall>now. expired now n' = expired now n)))"

lemma fresh_mono:
  assumes t: "tree_inv t" "tree_inv t'"
    and nodes: "same_nodes t t'"
  shows "fresh_path now t cur xs \<Longrightarrow> fresh_path now t' cur xs" "traverse_loop t cur xs = Inr b \<Longrightarrow> traverse_loop t' cur xs = Inr b"
proof -
  have same: "\<exists>n'. t_heap t' a = Some n' \<and> n_parent n' = n_parent n \<and> n_name n' = n_name n \<and> expired now n' = expired now n"
    if "t_heap t a = Some n" for a n now using nodes that unfolding same_nodes_def by blast
  have step: "node_traverse t' a x = Inr c" if "node_traverse t a x = Inr c" for a x c
    using that unfolding node_traverse_iff [OF t(1)] node_traverse_iff [OF t(2)] child_of_alt by (metis same)
  show "fresh_path now t cur xs \<Longrightarrow> fresh_path now t' cur xs"
  proof (induction xs arbitrary: cur)
    case Nil
    then show ?case by (auto dest: same)
  next
    case (Cons x xs)
    then obtain a n where a: "node_traverse t cur x = Inr a" "t_heap t a = Some n" "\<not> expired now n" "fresh_path now t' a xs"
      by (auto split: sum.splits option.splits)
    with step same [of a n now] show ?case by auto
  qed
  show "traverse_loop t cur xs = Inr b \<Longrightarrow> traverse_loop t' cur xs = Inr b"
    by (induction xs arbitrary: cur) (auto dest: step simp: and_then_def split: sum.splits)
qed

lemma expired_set_children: "expired now (set_children f n) = expired now n"
  by (simp add: expired_def set_children_def as_regular_def split: fs_file.splits)

lemma fs_build_error:
  assumes t: "tree_inv (f_tree s)" and p: "isdir par (f_tree s)" and free: "\<And>c. node_traverse (f_tree s) par (filename q) \<noteq> Inr c"
    and st: "conn_stat env q (f_dev s) = (Unexpect err, d')" and sc: "should_cache_error err"
  shows "\<exists>s' c m. fs_build env par q s = (Unexpect err, s') \<and> f_dev s' = d' \<and> tree_inv (f_tree s') \<and>
    child_of par (filename q) c (f_tree s') \<and> t_heap (f_tree s') c = Some m \<and> n_value m = Error err \<and>
    n_expiration m = map_option (\<lambda>d. ev_steady env d' + d * 1000000000) (f_ttl s) \<and> same_nodes (f_tree s) (f_tree s')"
proof -
  let ?s1 = "s\<lparr>f_dev := d'\<rparr>" and ?m = "mk_node (filename q) (Some par) default_stat (Error err)"
  obtain c t1 where b: "node_build par (filename q) default_stat (Error err) (f_tree s) = (Inr c, t1)"
    using node_build_new [OF t p _ free] by fastforce
  note ok = node_build_ok [OF t kids_simps(1) b]
  have c: "t_heap (f_tree s) c = None" "t_heap t1 c = Some ?m" "c \<in> set (children (t_heap t1) par)"
      "\<And>x. x \<noteq> c \<Longrightarrow> x \<noteq> par \<Longrightarrow> t_heap t1 x = t_heap (f_tree s) x"
      "\<exists>n. t_heap (f_tree s) par = Some n \<and> t_heap t1 par = Some (set_children (\<lambda>cs. cs @ [c]) n)"
    using ok(2) [OF refl] by auto
  let ?f = "expires_after (ev_steady env d') (f_ttl s)"
  let ?t2 = "upd_node c ?f t1" and ?s2 = "?s1\<lparr>f_tree := upd_node c ?f t1\<rparr>"
  have "build_then_expire env par (filename q) default_stat (Error err) ?s1 = (Inr c, ?s2)"
    using c(2) by (simp add: build_then_expire_def bind_fs_def on_tree_def b then_fs_def fs_expire_def mod_node_def get_node_def
        from_tree_def the_node_def return_fs_def)
  then have "fs_build env par q s = (Unexpect err, ?s2)"
    by (simp add: fs_build_def bind_fs_def attempt_def on_dev_def st sc then_fs_def return_fs_def fail_fs_def)
  moreover have "tree_inv ?t2" using ok(1) by (rule tree_ok_upd) (simp add: same_shape_def expires_after_def kids_def is_directory_def)
  moreover have "t_heap ?t2 c = Some (?f ?m)" using c(2) by (simp add: upd_node_def)
  moreover have "same_nodes (f_tree s) ?t2"
    unfolding same_nodes_def
  proof (intro allI impI)
    fix a n assume a: "t_heap (f_tree s) a = Some n"
    then have ac: "a \<noteq> c" using c(1) by auto
    then have h: "t_heap ?t2 a = t_heap t1 a" by (simp add: upd_node_def split: option.split)
    have "n_parent (set_children f n) = n_parent n" "n_name (set_children f n) = n_name n" for f
      by (simp_all add: set_children_def split: fs_file.split)
    with a ac c(4,5) show "\<exists>n'. t_heap ?t2 a = Some n' \<and> n_parent n' = n_parent n \<and> n_name n' = n_name n \<and> (\<forall>now. expired now n' = expired now n)"
      unfolding h by (cases "a = par") (auto simp: expired_set_children)
  qed
  ultimately show ?thesis
    by (intro exI [of _ ?s2] exI [of _ c] exI [of _ "?f ?m"])
      (simp add: child_of_alt mk_node_def expires_after_def map_option_case split: option.split)
qed

lemma tob_parent:
  assumes t: "tree_inv (f_tree s)" and p: "good_path p" "\<not> is_root p"
    and f: "fresh_path (ev_steady env (f_dev s)) (f_tree s) root_id (iter (parent_path p))"
    and par: "traverse_loop (f_tree s) root_id (iter (parent_path p)) = Inr par"
  shows "\<exists>q. tob_loop env root_id root_path (iter (parent_path p)) s = (Inr (par, q), s) \<and>
    iter (snd (Path.extend q (filename p))) = iter p \<and> filename (snd (Path.extend q (filename p))) = filename p"
proof -
  obtain q where q: "tob_loop env root_id root_path (iter (parent_path p)) s = (Inr (par, q), s)"
    using tob_loop_fresh [OF f, of root_path] par by auto
  have parts: "iter p = iter (parent_path p) @ [filename p]" using path_parts(2) p by (auto simp: good_path_def)
  have names: "\<forall>x\<in>set (iter (parent_path p)). \<not> bad_name x" "\<not> bad_name (filename p)" using p(1) parts by (auto simp: good_path_def)
  note loop = valid_tob_loop [of root_path "[]" "iter (parent_path p)" "f_tree s" root_id env, OF path_ok_root(1,2) names(1)]
  have "path_ok q \<and> iter q = iter (parent_path p)"
    using valid_result [OF loop _ q] known_root [OF fs_ok_self [OF t]] fs_ok_self [OF t] by auto
  with extend_ok [of q "filename p"] names(2) q parts show ?thesis by auto
qed

lemma getattr_build:
  assumes "tree_inv (f_tree s)" "good_path p" "\<not> is_root p"
    "fresh_path (ev_steady env (f_dev s)) (f_tree s) root_id (iter (parent_path p))"
    "traverse_loop (f_tree s) root_id (iter (parent_path p)) = Inr par"
    "\<And>c. node_traverse (f_tree s) par (filename p) \<noteq> Inr c" "isdir par (f_tree s)"
  shows "\<exists>q. iter q = iter p \<and> filename q = filename p \<and>
    (\<forall>e s'. fs_build env par q s = (Inl e, s') \<longrightarrow> getattr env p s = (Inl e, s'))"
proof -
  obtain q where q: "tob_loop env root_id root_path (iter (parent_path p)) s = (Inr (par, q), s)"
      "iter (snd (Path.extend q (filename p))) = iter p" "filename (snd (Path.extend q (filename p))) = filename p"
    using tob_parent [OF assms(1-5)] by blast
  obtain n cs rd where n: "t_heap (f_tree s) par = Some n" "n_value n = Directory cs rd"
    using assms(7) by (auto simp: isdir_def is_directory_iff)
  have "node_traverse (f_tree s) par (filename p) = dir_find (f_tree s) cs (filename p)"
    by (simp add: node_traverse_def the_node_def as_directory_def n)
  with assms(6) have "\<exists>e. node_traverse (f_tree s) par (filename p) = Unexpect e"
    by (cases "child_find (t_heap (f_tree s)) cs (filename p)") (auto simp: dir_find_def)
  then obtain e where "attempt (from_tree (\<lambda>t. node_traverse t par (filename p))) s = (Inr (Inl e), s)"
    by (auto simp: attempt_def from_tree_def)
  then have "traverse_or_build env p s = fs_build env par (snd (Path.extend q (filename p))) s"
    using assms(3) by (simp add: traverse_or_build_def bind_fs_def q(1) Let_def)
  with q(2,3) show ?thesis by (intro exI [of _ "snd (Path.extend q (filename p))"]) (auto simp: getattr_def bind_fs_def)
qed

text \<open>C26: failed lookups. When the parent of a path is cached and the device's status request for the
  path fails, \<^verbatim>\<open>getattr\<close> returns that error. If the error is one to cache, it is kept as an error node
  in the tree, and asking again before the TTL ends returns the same error without any request; the
  errors of a broken connection are not cached, and the tree stays as it was.\<close>

theorem failed_lookup_cached:
  assumes "tree_inv (f_tree s)" "good_path p" "\<not> is_root p"
    "fresh_path (ev_steady env (f_dev s)) (f_tree s) root_id (iter (parent_path p))"
    "fresh_path (ev_steady env d') (f_tree s) root_id (iter (parent_path p))"
    "traverse_loop (f_tree s) root_id (iter (parent_path p)) = Inr par" "isdir par (f_tree s)"
    "\<forall>c. node_traverse (f_tree s) par (filename p) \<noteq> Inr c"
    "\<forall>q. iter q = iter p \<longrightarrow> conn_stat env q (f_dev s) = (Unexpect err, d')"
    "\<forall>d. f_ttl s = Some d \<longrightarrow> 0 \<le> d"
  shows "\<exists>s'. getattr env p s = (Unexpect err, s') \<and> f_dev s' = d' \<and>
    (if should_cache_error err then tree_inv (f_tree s') \<and> getattr env p s' = (Unexpect err, s') else f_tree s' = f_tree s)"
proof -
  have free: "node_traverse (f_tree s) par (filename p) \<noteq> Inr c" for c using assms(8) by blast
  obtain q where q: "iter q = iter p" "filename q = filename p"
      "\<And>e s'. fs_build env par q s = (Inl e, s') \<Longrightarrow> getattr env p s = (Inl e, s')"
    using getattr_build [OF assms(1-4,6) free assms(7)] by blast
  have st: "conn_stat env q (f_dev s) = (Unexpect err, d')" using assms(9) q(1) by blast
  show ?thesis
  proof (cases "should_cache_error err")
    case False
    then have "fs_build env par q s = (Unexpect err, s\<lparr>f_dev := d'\<rparr>)"
      by (simp add: fs_build_def bind_fs_def attempt_def on_dev_def st then_fs_def return_fs_def fail_fs_def)
    from q(3) [OF this] False show ?thesis by simp
  next
    case True
    obtain s' c m where s': "fs_build env par q s = (Unexpect err, s')" "f_dev s' = d'" "tree_inv (f_tree s')"
        "child_of par (filename p) c (f_tree s')" "t_heap (f_tree s') c = Some m" "n_value m = Error err"
        "n_expiration m = map_option (\<lambda>d. ev_steady env d' + d * 1000000000) (f_ttl s)" "same_nodes (f_tree s) (f_tree s')"
      using fs_build_error [OF assms(1,7) free [folded q(2)] st True] q(2) by auto
    have parts: "iter p = iter (parent_path p) @ [filename p]" using path_parts(2) assms(2,3) by (auto simp: good_path_def)
    have f: "fresh_path (ev_steady env d') (f_tree s') root_id (iter (parent_path p))"
        "traverse_loop (f_tree s') root_id (iter (parent_path p)) = Inr par"
      using fresh_mono [OF assms(1) s'(3,8)] assms(5,6) by blast+
    have nt: "node_traverse (f_tree s') par (filename p) = Inr c" using s'(4) by (simp add: node_traverse_iff [OF s'(3)])
    have "\<not> expired (ev_steady env d') m" using s'(6,7) assms(10) by (auto simp: expired_def as_regular_def split: option.splits)
    then have "fresh_path (ev_steady env d') (f_tree s') par [filename p]" using nt s'(5) by simp
    then have "fresh_path (ev_steady env (f_dev s')) (f_tree s') root_id (iter p)" using fresh_join [OF f] by (simp add: parts s'(2))
    from getattr_fresh [OF s'(3) assms(2) this] obtain a n where
      an: "traverse (f_tree s') p = Inr a" "t_heap (f_tree s') a = Some n"
        "getattr env p s' = (case n_value n of Error err \<Rightarrow> Unexpect err | _ \<Rightarrow> Inr (a, n_stat n), s')" by blast
    have "a = c" using an(1) assms(3) f(2) nt by (simp add: traverse_def parts traverse_loop_append)
    with an s' q(3) [OF s'(1)] True show ?thesis by auto
  qed
qed

theorem failed_lookup_cached_witness:
  "\<exists>s'. getattr dead_env (demo_path ''c'') demo_fs = (Unexpect io_error, s') \<and> getattr dead_env (demo_path ''c'') s' = (Unexpect io_error, s')"
proof -
  have n: "\<not> bad_name ''c''" by (simp add: bad_name_def)
  have "iter (parent_path (demo_path ''c'')) = []"
    using parent_path_ok(2) [of "demo_path ''c''"] demo_path_ok [OF n] by (simp add: good_path_def)
  moreover have "\<not> is_root (demo_path ''c'')" using demo_path_ok(2) [OF n] by (auto simp: is_root_def iter_def)
  moreover have "conn_stat dead_env q d = (Unexpect io_error, d)" for q d
    by (simp add: conn_stat_def get_resp_def send_req_def max_attempts_def eval_nat_numeral transport_send_req_def dead_env_def)
  moreover have "isdir root_id demo_tree" "node_traverse demo_tree root_id ''c'' \<noteq> Inr c" for c
    by (simp_all add: isdir_def is_directory_def demo_heap root_id_def mk_node_def node_traverse_def the_node_def as_directory_def
        dir_find_def child_find_def has_name_def)
  ultimately show ?thesis
    using failed_lookup_cached [of demo_fs "demo_path ''c''" dead_env "()" root_id io_error] demo_path_ok [OF n] demo_tree_inv
    by (auto simp: demo_fs_def mk_fs_def should_cache_error_def demo_heap root_id_def)
qed

end
