(* ===== verification/Fs_Walk.thy ===== *)
theory Fs_Walk
  imports Fs_Props
begin

text \<open>
  Walking the tree and the paths of nodes: a walk ends and visits the nodes below its start once,
  expiry reaches every node, and \<^verbatim>\<open>build_path\<close> gives the path that leads back to the node.
\<close>

section \<open>Walking\<close>

lemma subtree_traverse:
  assumes "tree_inv t"
  shows "b \<in> subtree (t_heap t) a \<longleftrightarrow> (\<exists>xs. traverse_loop t a xs = Inr b)"
proof
  assume "b \<in> subtree (t_heap t) a"
  then have "(a, b) \<in> (edges (t_heap t))\<^sup>*" by (simp add: subtree_def)
  then show "\<exists>xs. traverse_loop t a xs = Inr b"
  proof (induction rule: converse_rtrancl_induct)
    case base
    show ?case by (rule exI [of _ "[]"]) simp
  next
    case (step a c)
    from step.IH obtain xs where xs: "traverse_loop t c xs = Inr b" by blast
    have "c \<in> set (children (t_heap t) a)" using step.hyps(1) by (simp add: edges_iff)
    from child_live [OF assms this] obtain m where m: "t_heap t c = Some m" "n_parent m = Some a" by blast
    then have "node_traverse t a (n_name m) = Inr c" by (simp add: node_traverse_iff [OF assms] child_of_alt)
    then show ?case using xs by (intro exI [of _ "n_name m # xs"]) simp
  qed
next
  assume "\<exists>xs. traverse_loop t a xs = Inr b"
  then obtain xs where "traverse_loop t a xs = Inr b" ..
  then show "b \<in> subtree (t_heap t) a"
  proof (induction xs arbitrary: a)
    case (Cons x xs)
    then obtain c where c: "node_traverse t a x = Inr c" "b \<in> subtree (t_heap t) c"
      by (auto simp: and_then_def split: sum.splits)
    then have "c \<in> set (children (t_heap t) a)" using child_of_owned [OF assms] by (simp add: node_traverse_iff [OF assms])
    with c(2) subtree_unfold [of "t_heap t" a] show ?case by blast
  qed simp
qed

text \<open>C27: \<^verbatim>\<open>walk\<close> ends, within one iteration per node that was ever made, and calls its function exactly
  once on every node that can be reached from the start by a sequence of names, and on no other.\<close>

theorem walk_once:
  assumes "tree_inv t" "t_heap t a \<noteq> None"
  shows "\<exists>ns. walk t a = Inr ns \<and> distinct ns \<and> (\<forall>b. b \<in> set ns \<longleftrightarrow> (\<exists>xs. traverse_loop t a xs = Inr b))"
  using walk_ok [OF assms] subtree_traverse [OF assms(1)] by blast

theorem walk_once_witness:
  "\<exists>ns. walk demo_tree root_id = Inr ns \<and> distinct ns \<and> 2 \<in> set ns"
proof -
  have "t_heap demo_tree root_id \<noteq> None" by (simp add: demo_heap root_id_def)
  from walk_once [OF demo_tree_inv this] obtain ns where
    ns: "walk demo_tree root_id = Inr ns" "distinct ns" "\<forall>b. b \<in> set ns \<longleftrightarrow> (\<exists>xs. traverse_loop demo_tree root_id xs = Inr b)" by blast
  have "traverse_loop demo_tree root_id [''a''] = Inr 2" by (simp add: demo_traverse)
  with ns show ?thesis by blast
qed

section \<open>Expiry\<close>

lemma all_below_root:
  assumes t: "tree_inv t"
  shows "subtree (t_heap t) root_id = {a. t_heap t a \<noteq> None}"
proof -
  have "edges (t_heap t) \<subseteq> {a. t_heap t a \<noteq> None} \<times> {a. t_heap t a \<noteq> None}"
    using child_live [OF t] parent_live by (fastforce simp: edges_def)
  then have "finite (edges (t_heap t))" using tree_finite(1) [OF t] finite_subset by blast
  then have wf: "wf (edges (t_heap t))" using tree_okD(4) [OF t] by (rule finite_acyclic_wf)
  have "a \<in> subtree (t_heap t) root_id" if "t_heap t a \<noteq> None" for a
    using wf that
  proof (induction a rule: wf_induct_rule)
    case (less a)
    show ?case
    proof (cases "a = root_id")
      case False
      then obtain p where p: "a \<in> set (children (t_heap t) p)"
        using tree_okD(5) [OF t less.prems False] by (auto simp: owned_def)
      from less.IH [of p] parent_live [OF p] p have "p \<in> subtree (t_heap t) root_id" by (simp add: edges_iff)
      from subtree_step [OF this p] show ?thesis .
    qed simp
  qed
  moreover have "t_heap t root_id \<noteq> None" using tree_okD(1) [OF t] by (auto simp: root_ok_def)
  from subtree_live [OF t this] have "subtree (t_heap t) root_id \<subseteq> {a. t_heap t a \<noteq> None}" .
  ultimately show ?thesis by blast
qed

lemma fold_upd:
  "distinct ns \<Longrightarrow> t_heap (fold (\<lambda>a. upd_node a f) ns t) b = (if b \<in> set ns then map_option f (t_heap t b) else t_heap t b)"
proof (induction ns arbitrary: t)
  case (Cons a ns)
  have "t_heap (upd_node a f t) b = (if b = a then map_option f (t_heap t b) else t_heap t b)" for t
    by (auto simp: upd_node_def split: option.split)
  with Cons show ?case by auto
qed simp

lemma expire_nodes_all:
  assumes "tree_inv (f_tree s)"
  shows "\<exists>s'. expire_nodes env duration s = (Inr (card {a. t_heap (f_tree s) a \<noteq> None}), s') \<and> f_ttl s' = f_ttl s \<and>
    t_heap (f_tree s') = map_option (expires_after (ev_steady env (f_dev s)) duration) \<circ> t_heap (f_tree s)"
proof -
  have r: "t_heap (f_tree s) root_id \<noteq> None" using tree_okD(1) [OF assms] by (auto simp: root_ok_def)
  obtain ns where ns: "walk (f_tree s) root_id = Inr ns" "distinct ns" "set ns = {a. t_heap (f_tree s) a \<noteq> None}"
    using walk_ok [OF assms r] all_below_root [OF assms] by auto
  then have "length ns = card {a. t_heap (f_tree s) a \<noteq> None}" using distinct_card by metis
  then show ?thesis
    by (simp add: expire_nodes_def bind_fs_def from_tree_def on_tree_def ns(1) fun_eq_iff fold_upd [OF ns(2)] ns(3))
qed

text \<open>A change of the TTL sets the expiry of every node in the tree from the new TTL (never, when it
  is switched off) and returns the old TTL; setting the same TTL changes nothing. \<^verbatim>\<open>expires_all\<close>
  makes every node expire at once and returns their number.\<close>

theorem expiry_reaches_all:
  assumes "tree_inv (f_tree s)"
  shows "(\<exists>s'. set_ttl env ttl s = (Inr (f_ttl s), s') \<and> f_ttl s' = ttl \<and>
      t_heap (f_tree s') = (if f_ttl s = ttl then t_heap (f_tree s)
        else map_option (expires_after (ev_steady env (f_dev s)) ttl) \<circ> t_heap (f_tree s))) \<and>
    (\<exists>s'. expires_all env s = (Inr (card {a. t_heap (f_tree s) a \<noteq> None}), s') \<and>
      t_heap (f_tree s') = map_option (expires_after (ev_steady env (f_dev s)) (Some 0)) \<circ> t_heap (f_tree s))"
proof
  show "\<exists>s'. expires_all env s = (Inr (card {a. t_heap (f_tree s) a \<noteq> None}), s') \<and>
      t_heap (f_tree s') = map_option (expires_after (ev_steady env (f_dev s)) (Some 0)) \<circ> t_heap (f_tree s)"
    unfolding expires_all_def using expire_nodes_all [OF assms] by blast
  have "tree_inv (f_tree (s\<lparr>f_ttl := ttl\<rparr>))" using assms by simp
  from expire_nodes_all [OF this, of env ttl] show "\<exists>s'. set_ttl env ttl s = (Inr (f_ttl s), s') \<and> f_ttl s' = ttl \<and>
      t_heap (f_tree s') = (if f_ttl s = ttl then t_heap (f_tree s)
        else map_option (expires_after (ev_steady env (f_dev s)) ttl) \<circ> t_heap (f_tree s))"
    by (auto simp: set_ttl_def Let_def then_fs_def bind_fs_def return_fs_def)
qed

theorem expiry_reaches_all_witness:
  "\<exists>s'. set_ttl (flat_env []) (Some 5) demo_fs = (Inr None, s') \<and> t_heap (f_tree s') 2 = Some (expires_after 0 (Some 5) (mk_node ''a'' (Some 1) default_stat (Regular False)))"
proof -
  have "tree_inv (f_tree demo_fs)" by (simp add: demo_fs_def demo_tree_inv)
  from expiry_reaches_all [OF this, of "flat_env []" "Some 5"] show ?thesis
    by (auto simp: demo_fs_def mk_fs_def demo_heap flat_env_def)
qed

section \<open>Paths of nodes\<close>

lemma at_live: "tree_inv t \<Longrightarrow> at (t_heap t) a xs \<Longrightarrow> t_heap t a \<noteq> None"
  using tree_okD(1) [of "{}" t] by (auto elim: at.cases simp: root_ok_def)

text \<open>Every live node is somewhere, and not deeper than there are nodes.\<close>

lemma live_at:
  assumes "tree_inv t" "t_heap t a \<noteq> None"
  shows "\<exists>xs. at (t_heap t) a xs"
proof -
  have "a \<in> subtree (t_heap t) root_id" using all_below_root [OF assms(1)] assms(2) by blast
  from at_subtree [OF assms(1) at_root this] show ?thesis by auto
qed

lemma depth_ancestors:
  assumes t: "tree_inv t"
  shows "at (t_heap t) a xs \<Longrightarrow> length xs < card {p. a \<in> subtree (t_heap t) p \<and> t_heap t p \<noteq> None}"
proof (induction rule: at.induct)
  case at_root
  have "root_id \<in> {p. root_id \<in> subtree (t_heap t) p \<and> t_heap t p \<noteq> None}" using at_live [OF t at.at_root] by simp
  moreover have "finite {p. root_id \<in> subtree (t_heap t) p \<and> t_heap t p \<noteq> None}"
    by (rule finite_subset [OF _ tree_finite(1) [OF t]]) blast
  ultimately show ?case by (metis card_gt_0_iff empty_iff list.size(3))
next
  case (at_child a n p xs)
  let ?A = "\<lambda>a. {p. a \<in> subtree (t_heap t) p \<and> t_heap t p \<noteq> None}"
  have "child_of p (n_name n) a t" using at_child.hyps(1,2) by (simp add: child_of_alt)
  then have c: "a \<in> set (children (t_heap t) p)" by (rule child_of_owned [OF t])
  have fin: "finite (?A b)" for b by (rule finite_subset [OF _ tree_finite(1) [OF t]]) blast
  have "a \<notin> ?A p" using not_in_child_subtree [OF t c] by simp
  then have "Suc (card (?A p)) = card (insert a (?A p))" by (rule card_insert_disjoint [symmetric, OF fin])
  also have "\<dots> \<le> card (?A a)" by (rule card_mono [OF fin]) (use at_child.hyps(1) subtree_step [OF _ c] in auto)
  finally have "Suc (card (?A p)) \<le> card (?A a)" .
  with at_child.IH show ?case by simp
qed

lemma depth_bound:
  assumes "tree_inv t" "at (t_heap t) a xs"
  shows "length xs \<le> t_id t"
proof -
  have "card {p. a \<in> subtree (t_heap t) p \<and> t_heap t p \<noteq> None} \<le> card {p. t_heap t p \<noteq> None}"
    by (rule card_mono [OF tree_finite(1) [OF assms(1)]]) blast
  with depth_ancestors [OF assms] tree_finite(2) [OF assms(1)] show ?thesis by linarith
qed

lemma chain_up_at:
  assumes t: "tree_inv t"
  shows "at (t_heap t) a xs \<Longrightarrow> length xs < fuel \<Longrightarrow>
    chain_up fuel (t_heap t) (Some a) acc = Inr (acc @ slash # rev (join_path xs) @ [slash])"
proof (induction arbitrary: fuel acc rule: at.induct)
  case at_root
  then obtain k where k: "fuel = Suc k" by (cases fuel) auto
  obtain n where "t_heap t root_id = Some n" "n_parent n = None" "n_name n = ''/''" using tree_okD(1) [OF t] by (auto simp: root_ok_def)
  then show ?case by (simp add: k join_path_def)
next
  case (at_child a n p xs)
  then obtain k where k: "fuel = Suc k" by (cases fuel) auto
  with at_child have "chain_up k (t_heap t) (Some p) (acc @ slash # rev (n_name n)) = Inr ((acc @ slash # rev (n_name n)) @ slash # rev (join_path xs) @ [slash])"
    by simp
  with at_child.hyps(1,2) show ?case by (simp add: k join_path_def)
qed

definition names_ok :: "tree \<Rightarrow> bool" where
  "names_ok t = (\<forall>a n. t_heap t a = Some n \<longrightarrow> a \<noteq> root_id \<longrightarrow> \<not> bad_name (n_name n))"

lemma at_names: "names_ok t \<Longrightarrow> at (t_heap t) a xs \<Longrightarrow> x \<in> set xs \<Longrightarrow> \<not> bad_name x"
  by (rotate_tac 1, induction rule: at.induct) (auto simp: names_ok_def)

lemma build_path_at:
  assumes t: "tree_inv t" "names_ok t" and a: "at (t_heap t) a xs"
  shows "\<exists>q. build_path t a = Inr q \<and> good_path q \<and> iter q = xs"
proof -
  have names: "\<forall>x\<in>set xs. \<not> bad_name x" using at_names [OF t(2) a] by blast
  have join: "\<exists>q. create_buf (if xs = [] then ''/'' else join_path xs) = Inr (Some q) \<and> path_ok q \<and> iter q = xs"
  proof -
    let ?s = "if xs = [] then ''/'' else join_path xs"
    have "?s \<noteq> []" "hd ?s = slash" by (cases xs; simp add: join_path_def)+
    then obtain q where q: "create ?s = Some q" using create_None_iff [of ?s] by fastforce
    have "tokens is_slash ?s = xs"
      using tokens_join [of xs] names by (auto simp: plain_component_def bad_name_def)
    with create_SomeD [OF q] q show ?thesis by (simp add: create_buf_eq)
  qed
  obtain n where n: "t_heap t a = Some n" using at_live [OF t(1) a] by auto
  show ?thesis
  proof (cases "a = root_id")
    case True
    then have "n_parent n = None" "n_name n = ''/''" "xs = []" using tree_okD(1) [OF t(1)] n at_root_iff [OF a] by (auto simp: root_ok_def)
    with join names show ?thesis by (auto simp: build_path_def the_node_def n Let_def good_path_def)
  next
    case False
    with a n obtain p ys where p: "n_parent n = Some p" "xs = ys @ [n_name n]" "at (t_heap t) p ys" by (auto elim: at.cases)
    have nn: "n_name n \<noteq> []" using names p(2) by (auto simp: bad_name_def)
    have "length ys < Suc (t_id t)" using depth_bound [OF t(1) p(3)] by simp
    from chain_up_at [OF t(1) p(3) this]
    have c: "chain_up (Suc (t_id t)) (t_heap t) (n_parent n) (rev (n_name n)) = Inr (rev (join_path xs) @ [slash])"
      by (simp add: p(1,2) join_path_def)
    have "\<exists>zs. rev (join_path xs) = zs @ [slash] \<and> zs \<noteq> []"
      using nn by (cases ys) (auto simp: p(2) join_path_def)
    then obtain zs where zs: "rev (join_path xs) = zs @ [slash]" "zs \<noteq> []" by blast
    then have j: "join_path xs = slash # rev zs"
      by (metis rev_eq_Cons_iff rev_rev_ident)
    have "xs \<noteq> []" using p(2) by simp
    with join names zs show ?thesis
      by (auto simp: build_path_def the_node_def n c j Let_def good_path_def nth_append butlast_append Suc_lessI simp del: chain_up.simps)
  qed
qed

text \<open>C28: the path of a node. In a tree whose names can be components of a path, \<^verbatim>\<open>build_path\<close> of every
  live node returns a well-formed path, and traversing that path leads to the node.\<close>

theorem build_path_roundtrip:
  assumes "tree_inv t" "names_ok t" "t_heap t a \<noteq> None"
  shows "\<exists>q. build_path t a = Inr q \<and> good_path q \<and> traverse t q = Inr a"
proof -
  obtain xs where a: "at (t_heap t) a xs" using live_at [OF assms(1,3)] by blast
  obtain q where q: "build_path t a = Inr q" "good_path q" "iter q = xs" using build_path_at [OF assms(1,2) a] by blast
  have "traverse_loop t root_id xs = Inr a" using traverse_at [OF assms(1) a, of "[]" "Inr a"] by simp
  with at_root_iff [OF a] q show ?thesis by (auto simp: traverse_def is_root_def iter_def)
qed

theorem build_path_roundtrip_witness: "\<exists>q. build_path demo_tree 2 = Inr q \<and> traverse demo_tree q = Inr 2"
proof -
  have "names_ok demo_tree" by (auto simp: names_ok_def demo_heap root_id_def mk_node_def bad_name_def split: if_splits)
  with build_path_roundtrip [OF demo_tree_inv this, of 2] show ?thesis by (auto simp: demo_heap)
qed

end
