(* ===== verification/Request_Handler.thy ===== *)
theory Request_Handler
  imports Rpc
begin

text \<open>
  \<^verbatim>\<open>RequestHandler\<close> of \<^verbatim>\<open>madbfs-server/request_handler.hpp\<close> and \<^verbatim>\<open>request_handler.cpp\<close>: the server
  on the device turns every request into system calls. The kernel is a parameter: a state \<open>'k\<close> and
  one function per system call, whose result is \<open>Inl errno\<close> when the call returns \<open>-1\<close>.
\<close>

section \<open>The kernel\<close>

record 'k kernel =
  k_opendir :: "str \<Rightarrow> 'k \<Rightarrow> (errc + nat) \<times> 'k"
  k_readdir :: "nat \<Rightarrow> 'k \<Rightarrow> str option \<times> 'k"
  k_closedir :: "nat \<Rightarrow> 'k \<Rightarrow> (errc + unit) \<times> 'k"
  k_fstatat :: "nat \<Rightarrow> str \<Rightarrow> 'k \<Rightarrow> (errc + rpc_stat) \<times> 'k"
  k_lstat :: "str \<Rightarrow> 'k \<Rightarrow> (errc + rpc_stat) \<times> 'k"
  k_readlink :: "str \<Rightarrow> nat \<Rightarrow> 'k \<Rightarrow> (errc + str) \<times> 'k"
  k_mknod :: "str \<Rightarrow> u32 \<Rightarrow> u64 \<Rightarrow> 'k \<Rightarrow> (errc + unit) \<times> 'k"
  k_mkdir :: "str \<Rightarrow> u32 \<Rightarrow> 'k \<Rightarrow> (errc + unit) \<times> 'k"
  k_unlink :: "str \<Rightarrow> 'k \<Rightarrow> (errc + unit) \<times> 'k"
  k_rmdir :: "str \<Rightarrow> 'k \<Rightarrow> (errc + unit) \<times> 'k"
  k_renameat2 :: "str \<Rightarrow> str \<Rightarrow> u32 \<Rightarrow> 'k \<Rightarrow> (errc + unit) \<times> 'k"
  k_renameat :: "str \<Rightarrow> str \<Rightarrow> 'k \<Rightarrow> (errc + unit) \<times> 'k"
  k_truncate :: "str \<Rightarrow> i64 \<Rightarrow> 'k \<Rightarrow> (errc + unit) \<times> 'k"
  k_utimensat :: "str \<Rightarrow> timespec \<Rightarrow> timespec \<Rightarrow> 'k \<Rightarrow> (errc + unit) \<times> 'k"
  k_open :: "str \<Rightarrow> i32 \<Rightarrow> 'k \<Rightarrow> (errc + i32) \<times> 'k"
  k_close :: "i32 \<Rightarrow> 'k \<Rightarrow> (errc + unit) \<times> 'k"
  k_lseek :: "i32 \<Rightarrow> i64 \<Rightarrow> 'k \<Rightarrow> (errc + unit) \<times> 'k"
  k_read :: "i32 \<Rightarrow> nat \<Rightarrow> 'k \<Rightarrow> (errc + u8 list) \<times> 'k"
  k_write :: "i32 \<Rightarrow> u8 list \<Rightarrow> 'k \<Rightarrow> (errc + nat) \<times> 'k"
  k_copy_file_range :: "i32 \<Rightarrow> i64 \<Rightarrow> i32 \<Rightarrow> i64 \<Rightarrow> u64 \<Rightarrow> 'k \<Rightarrow> (errc + nat) \<times> 'k"
  k_fuel :: nat

text \<open>
  \<^verbatim>\<open>path.data()\<close> is passed as a C string: the view is followed by the terminator the builder
  wrote, so the kernel sees the path up to its first null character.
\<close>

definition c_str :: "str \<Rightarrow> str" where
  "c_str p = takeWhile (\<lambda>c. of_char c \<noteq> (0 :: nat)) p"

record handler =
  h_renameat2_impl :: bool
  h_copy_file_range_impl :: bool

definition mk_handler :: handler where
  "mk_handler = \<lparr>h_renameat2_impl = True, h_copy_file_range_impl = True\<rparr>"

abbreviation O_RDONLY :: i32 where "O_RDONLY \<equiv> 0"
abbreviation O_WRONLY :: i32 where "O_WRONLY \<equiv> 1"

definition path_max :: nat where
  "path_max = 4096"

type_synonym 'k handled = "fallible_response \<times> handler \<times> 'k"

definition failed :: "request \<Rightarrow> errc \<Rightarrow> fallible_response" where
  "failed req status = FailedResponse (req_proc req) status"

text \<open>A handler that makes one call: its error or the response built from the result.\<close>

definition one_call :: "request \<Rightarrow> ('k \<Rightarrow> (errc + 'a) \<times> 'k) \<Rightarrow> ('a \<Rightarrow> response) \<Rightarrow> handler \<Rightarrow> 'k \<Rightarrow> 'k handled" where
  "one_call req call resp h k =
     (case call k of
        (Inl e, k') \<Rightarrow> (failed req e, h, k')
      | (Inr v, k') \<Rightarrow> (OkResponse (resp v), h, k'))"

section \<open>Handlers of one system call\<close>

definition handle_stat :: "'k kernel \<Rightarrow> str \<Rightarrow> handler \<Rightarrow> 'k \<Rightarrow> 'k handled" where
  "handle_stat sys p = one_call (ReqStat p) (k_lstat sys (c_str p)) RespStat"

definition handle_readlink :: "'k kernel \<Rightarrow> str \<Rightarrow> handler \<Rightarrow> 'k \<Rightarrow> 'k handled" where
  "handle_readlink sys p = one_call (ReqReadlink p) (k_readlink sys (c_str p) path_max) RespReadlink"

definition handle_mknod :: "'k kernel \<Rightarrow> str \<Rightarrow> u32 \<Rightarrow> u64 \<Rightarrow> handler \<Rightarrow> 'k \<Rightarrow> 'k handled" where
  "handle_mknod sys p m d = one_call (ReqMknod p m d) (k_mknod sys (c_str p) m d) (\<lambda>_. RespMknod)"

definition handle_mkdir :: "'k kernel \<Rightarrow> str \<Rightarrow> u32 \<Rightarrow> handler \<Rightarrow> 'k \<Rightarrow> 'k handled" where
  "handle_mkdir sys p m = one_call (ReqMkdir p m) (k_mkdir sys (c_str p) m) (\<lambda>_. RespMkdir)"

definition handle_unlink :: "'k kernel \<Rightarrow> str \<Rightarrow> handler \<Rightarrow> 'k \<Rightarrow> 'k handled" where
  "handle_unlink sys p = one_call (ReqUnlink p) (k_unlink sys (c_str p)) (\<lambda>_. RespUnlink)"

definition handle_rmdir :: "'k kernel \<Rightarrow> str \<Rightarrow> handler \<Rightarrow> 'k \<Rightarrow> 'k handled" where
  "handle_rmdir sys p = one_call (ReqRmdir p) (k_rmdir sys (c_str p)) (\<lambda>_. RespRmdir)"

definition handle_truncate :: "'k kernel \<Rightarrow> str \<Rightarrow> i64 \<Rightarrow> handler \<Rightarrow> 'k \<Rightarrow> 'k handled" where
  "handle_truncate sys p s = one_call (ReqTruncate p s) (k_truncate sys (c_str p) s) (\<lambda>_. RespTruncate)"

definition handle_utimens :: "'k kernel \<Rightarrow> str \<Rightarrow> timespec \<Rightarrow> timespec \<Rightarrow> handler \<Rightarrow> 'k \<Rightarrow> 'k handled" where
  "handle_utimens sys p a m = one_call (ReqUtimens p a m) (k_utimensat sys (c_str p) a m) (\<lambda>_. RespUtimens)"

definition handle_close :: "'k kernel \<Rightarrow> u64 \<Rightarrow> handler \<Rightarrow> 'k \<Rightarrow> 'k handled" where
  "handle_close sys fd = one_call (ReqClose fd) (k_close sys (ucast fd)) (\<lambda>_. RespClose)"

definition handle_ping :: "u64 \<Rightarrow> handler \<Rightarrow> 'k \<Rightarrow> 'k handled" where
  "handle_ping n h k = (OkResponse (RespPing n), h, k)"

lemmas one_call_handlers = handle_stat_def handle_readlink_def handle_mknod_def handle_mkdir_def handle_unlink_def handle_rmdir_def handle_truncate_def handle_utimens_def handle_close_def

section \<open>Listing\<close>

text \<open>
  The loop of \<^verbatim>\<open>Listdir\<close>. Names are appended to the request's buffer and remembered as offset and
  size; entries that cannot be inspected are left out.
\<close>

fun listdir_loop :: "nat \<Rightarrow> 'k kernel \<Rightarrow> nat \<Rightarrow> u8 list \<Rightarrow> (nat \<times> nat \<times> rpc_stat) list \<Rightarrow> 'k \<Rightarrow>
    (u8 list \<times> (nat \<times> nat \<times> rpc_stat) list) expect \<times> 'k" where
  "listdir_loop fuel sys dir buf slices k =
     (case k_readdir sys dir k of
        (None, k') \<Rightarrow> (Inr (buf, slices), k')
      | (Some name, k') \<Rightarrow>
          (case fuel of
             0 \<Rightarrow> (Inl Hang, k')
           | Suc fuel' \<Rightarrow>
               if name = ''.'' \<or> name = ''..'' then listdir_loop fuel' sys dir buf slices k'
               else case k_fstatat sys dir name k' of
                   (Inl e, k') \<Rightarrow> listdir_loop fuel' sys dir buf slices k'
                 | (Inr st, k') \<Rightarrow>
                     listdir_loop fuel' sys dir (buf @ bytes_of name) (slices @ [(length buf, length name, st)]) k'))"

declare listdir_loop.simps [simp del]

text \<open>The handlers answer with a response, unless a loop has used up its fuel (\<open>Inl Hang\<close>).\<close>

definition handle_listdir :: "'k kernel \<Rightarrow> str \<Rightarrow> handler \<Rightarrow> 'k \<Rightarrow> fallible_response expect \<times> handler \<times> 'k" where
  "handle_listdir sys path h k =
     (case k_opendir sys (c_str path) k of
        (Inl e, k) \<Rightarrow> (Inr (failed (ReqListdir path) e), h, k)
      | (Inr dir, k) \<Rightarrow>
          (case listdir_loop (k_fuel sys) sys dir [] [] k of
             (r, k) \<Rightarrow>
               (case k_closedir sys dir k of
                  (_, k) \<Rightarrow>
                    (transform r (\<lambda>(buf, slices). OkResponse (RespListdir (view_entries buf slices))), h, k))))"

section \<open>Renaming and copying\<close>

definition handle_rename :: "'k kernel \<Rightarrow> str \<Rightarrow> str \<Rightarrow> u32 \<Rightarrow> handler \<Rightarrow> 'k \<Rightarrow> 'k handled" where
  "handle_rename sys from to flags h k =
     (let req = ReqRename from to flags;
          fallback = (\<lambda>h k.
            if flags \<noteq> 0 then (failed req invalid_argument, h, k)
            else one_call req (k_renameat sys (c_str from) (c_str to)) (\<lambda>_. RespRename) h k)
      in if h_renameat2_impl h then
           (case k_renameat2 sys (c_str from) (c_str to) flags k of
              (Inl e, k) \<Rightarrow>
                if e = function_not_supported then fallback (h\<lparr>h_renameat2_impl := False\<rparr>) k
                else (failed req e, h, k)
            | (Inr _, k) \<Rightarrow> (OkResponse RespRename, h, k))
         else fallback h k)"

text \<open>The inner loop of the fallback: what was read is written completely.\<close>

fun write_loop :: "nat \<Rightarrow> 'k kernel \<Rightarrow> i32 \<Rightarrow> u8 list \<Rightarrow> nat \<Rightarrow> 'k \<Rightarrow> (errc + nat) expect \<times> 'k" where
  "write_loop fuel sys out_fd bs copied k =
     (if bs = [] then (Inr (Inr copied), k)
      else case fuel of
             0 \<Rightarrow> (Inl Hang, k)
           | Suc fuel' \<Rightarrow>
               (case k_write sys out_fd bs k of
                  (Inl e, k') \<Rightarrow> (Inr (Inl e), k')
                | (Inr n, k') \<Rightarrow> write_loop fuel' sys out_fd (drop n bs) (copied + n) k'))"

declare write_loop.simps [simp del]

definition copy_buffer :: nat where
  "copy_buffer = 64 * 1024"

fun copy_loop :: "nat \<Rightarrow> 'k kernel \<Rightarrow> i32 \<Rightarrow> i32 \<Rightarrow> nat \<Rightarrow> nat \<Rightarrow> 'k \<Rightarrow> (errc + nat) expect \<times> 'k" where
  "copy_loop fuel sys in_fd out_fd sz copied k =
     (if copied < sz then
        case fuel of
          0 \<Rightarrow> (Inl Hang, k)
        | Suc fuel' \<Rightarrow>
            (case k_read sys in_fd (min copy_buffer (sz - copied)) k of
               (Inl e, k') \<Rightarrow> (Inr (Inl e), k')
             | (Inr bs, k') \<Rightarrow>
                 if bs = [] then (Inr (Inr copied), k')
                 else case write_loop (k_fuel sys) sys out_fd bs copied k' of
                     (Inl f, k') \<Rightarrow> (Inl f, k')
                   | (Inr (Inl e), k') \<Rightarrow> (Inr (Inl e), k')
                   | (Inr (Inr copied'), k') \<Rightarrow> copy_loop fuel' sys in_fd out_fd sz copied' k')
      else (Inr (Inr copied), k))"

declare copy_loop.simps [simp del]

text \<open>The copy proper, between the descriptors' opening and closing.\<close>

definition copy_between :: "'k kernel \<Rightarrow> request \<Rightarrow> i32 \<Rightarrow> i64 \<Rightarrow> i32 \<Rightarrow> i64 \<Rightarrow> u64 \<Rightarrow> handler \<Rightarrow> 'k \<Rightarrow>
    fallible_response expect \<times> handler \<times> 'k" where
  "copy_between sys req in_fd in_off out_fd out_off sz h k =
     (let fallback = (\<lambda>h k.
            case copy_loop (k_fuel sys) sys in_fd out_fd (unat sz) 0 k of
              (r, k') \<Rightarrow>
                (transform r (\<lambda>c. case c of
                     Inl e \<Rightarrow> failed req e
                   | Inr copied \<Rightarrow> OkResponse (RespCopyFileRange (word_of_nat copied))), h, k'))
      in if h_copy_file_range_impl h then
           (case k_copy_file_range sys in_fd in_off out_fd out_off sz k of
              (Inr n, k) \<Rightarrow> (Inr (OkResponse (RespCopyFileRange (word_of_nat n))), h, k)
            | (Inl e, k) \<Rightarrow>
                if e = function_not_supported then fallback (h\<lparr>h_copy_file_range_impl := False\<rparr>) k
                else if e = cross_device_link then fallback h k
                else (Inr (failed req e), h, k))
         else fallback h k)"

text \<open>
  \<^verbatim>\<open>util::defer\<close>: the descriptor is closed when the scope is left, whatever the body returned; an
  error of \<^verbatim>\<open>close\<close> is only logged.
\<close>

definition with_file :: "'k kernel \<Rightarrow> request \<Rightarrow> str \<Rightarrow> i32 \<Rightarrow> i64 \<Rightarrow>
    (i32 \<Rightarrow> handler \<Rightarrow> 'k \<Rightarrow> fallible_response expect \<times> handler \<times> 'k) \<Rightarrow>
    handler \<Rightarrow> 'k \<Rightarrow> fallible_response expect \<times> handler \<times> 'k" where
  "with_file sys req path flags off body h k =
     (case k_open sys (c_str path) flags k of
        (Inl e, k) \<Rightarrow> (Inr (failed req e), h, k)
      | (Inr fd, k) \<Rightarrow>
          (case (case k_lseek sys fd off k of
                   (Inl e, k) \<Rightarrow> (Inr (failed req e), h, k)
                 | (Inr _, k) \<Rightarrow> body fd h k) of
             (r, h, k) \<Rightarrow> (case k_close sys fd k of (_, k) \<Rightarrow> (r, h, k))))"

definition handle_copy_file_range :: "'k kernel \<Rightarrow> str \<Rightarrow> i64 \<Rightarrow> str \<Rightarrow> i64 \<Rightarrow> u64 \<Rightarrow> handler \<Rightarrow> 'k \<Rightarrow>
    fallible_response expect \<times> handler \<times> 'k" where
  "handle_copy_file_range sys inp in_off out out_off sz =
     (let req = ReqCopyFileRange inp in_off out out_off sz in
      with_file sys req inp O_RDONLY in_off (\<lambda>in_fd.
      with_file sys req out O_WRONLY out_off (\<lambda>out_fd.
      copy_between sys req in_fd in_off out_fd out_off sz)))"

section \<open>Descriptors\<close>

text \<open>\<^verbatim>\<open>lseek\<close> and then the transfer, on a descriptor narrowed to \<^verbatim>\<open>int\<close>.\<close>

definition seek_then :: "'k kernel \<Rightarrow> request \<Rightarrow> u64 \<Rightarrow> i64 \<Rightarrow> (i32 \<Rightarrow> 'k \<Rightarrow> (errc + 'a) \<times> 'k) \<Rightarrow> ('a \<Rightarrow> response) \<Rightarrow>
    handler \<Rightarrow> 'k \<Rightarrow> 'k handled" where
  "seek_then sys req fd off call resp h k =
     (case k_lseek sys (ucast fd) off k of
        (Inl e, k) \<Rightarrow> (failed req e, h, k)
      | (Inr _, k) \<Rightarrow> one_call req (call (ucast fd)) resp h k)"

definition handle_open :: "'k kernel \<Rightarrow> str \<Rightarrow> open_mode \<Rightarrow> handler \<Rightarrow> 'k \<Rightarrow> 'k handled" where
  "handle_open sys path mode = one_call (ReqOpen path mode) (k_open sys (c_str path) (ucast mode)) (\<lambda>fd. RespOpen (scast fd))"

definition handle_read_req :: "'k kernel \<Rightarrow> u64 \<Rightarrow> i64 \<Rightarrow> u64 \<Rightarrow> handler \<Rightarrow> 'k \<Rightarrow> 'k handled" where
  "handle_read_req sys fd off sz =
     seek_then sys (ReqRead fd off sz) fd off (\<lambda>fd. k_read sys fd (unat sz)) RespRead"

definition handle_write_req :: "'k kernel \<Rightarrow> u64 \<Rightarrow> i64 \<Rightarrow> u8 list \<Rightarrow> handler \<Rightarrow> 'k \<Rightarrow> 'k handled" where
  "handle_write_req sys fd off bs =
     seek_then sys (ReqWrite fd off bs) fd off (\<lambda>fd. k_write sys fd bs) (\<lambda>n. RespWrite (word_of_nat n))"

definition lift_handled :: "'k handled \<Rightarrow> fallible_response expect \<times> handler \<times> 'k" where
  "lift_handled r = (case r of (resp, h, k) \<Rightarrow> (Inr resp, h, k))"

text \<open>\<^verbatim>\<open>Connection::handle_request\<close>: the variant's \<^verbatim>\<open>visit\<close> with the overloads of \<^verbatim>\<open>handle_req\<close>.\<close>

fun handle_req :: "'k kernel \<Rightarrow> request \<Rightarrow> handler \<Rightarrow> 'k \<Rightarrow> fallible_response expect \<times> handler \<times> 'k" where
  "handle_req sys (ReqListdir p) h k = handle_listdir sys p h k"
| "handle_req sys (ReqStat p) h k = lift_handled (handle_stat sys p h k)"
| "handle_req sys (ReqReadlink p) h k = lift_handled (handle_readlink sys p h k)"
| "handle_req sys (ReqMknod p m d) h k = lift_handled (handle_mknod sys p m d h k)"
| "handle_req sys (ReqMkdir p m) h k = lift_handled (handle_mkdir sys p m h k)"
| "handle_req sys (ReqUnlink p) h k = lift_handled (handle_unlink sys p h k)"
| "handle_req sys (ReqRmdir p) h k = lift_handled (handle_rmdir sys p h k)"
| "handle_req sys (ReqRename p q f) h k = lift_handled (handle_rename sys p q f h k)"
| "handle_req sys (ReqTruncate p s) h k = lift_handled (handle_truncate sys p s h k)"
| "handle_req sys (ReqUtimens p a m) h k = lift_handled (handle_utimens sys p a m h k)"
| "handle_req sys (ReqCopyFileRange p i q j s) h k = handle_copy_file_range sys p i q j s h k"
| "handle_req sys (ReqOpen p m) h k = lift_handled (handle_open sys p m h k)"
| "handle_req sys (ReqClose fd) h k = lift_handled (handle_close sys fd h k)"
| "handle_req sys (ReqRead fd off sz) h k = lift_handled (handle_read_req sys fd off sz h k)"
| "handle_req sys (ReqWrite fd off bs) h k = lift_handled (handle_write_req sys fd off bs h k)"
| "handle_req sys (ReqPing n) h k = lift_handled (handle_ping n h k)"

end
