(* ===== verification/Handler_Props.thy ===== *)
theory Handler_Props
  imports Request_Handler
begin

text \<open>
  The request handler of the server: its answers belong to their requests, it closes what it
  opens, a listing is complete, and the copy loop copies. The hypotheses on the kernel are
  predicates over the record of system calls; a small kernel in memory satisfies them.
\<close>

section \<open>Answers\<close>

definition fallible_proc :: "fallible_response \<Rightarrow> procedure" where
  "fallible_proc r = (case r of OkResponse resp \<Rightarrow> resp_proc resp | FailedResponse p _ \<Rightarrow> p)"

text \<open>What every handler keeps: an answer is of the request's procedure, and the other outcome is lack of fuel.\<close>

definition answers :: "request \<Rightarrow> fallible_response expect \<Rightarrow> bool" where
  "answers req r = (case r of Inr resp \<Rightarrow> fallible_proc resp = req_proc req | Inl f \<Rightarrow> f = Hang)"

lemma answers_failed [simp]: "answers req (Inr (failed req e))"
  by (simp add: answers_def failed_def fallible_proc_def)

lemma answers_ok [simp]: "resp_proc v = req_proc req \<Longrightarrow> answers req (Inr (OkResponse v))"
  by (simp add: answers_def fallible_proc_def)

lemma answers_hang [simp]: "answers req (Inl Hang)"
  by (simp add: answers_def)

lemma answers_transform: "(\<And>v. r = Inr v \<Longrightarrow> answers req (Inr (f v))) \<Longrightarrow> (\<And>e. r = Inl e \<Longrightarrow> e = Hang) \<Longrightarrow> answers req (transform r f)"
  by (cases r) auto

lemma fst_lift_handled [simp]: "fst (lift_handled r) = Inr (fst r)"
  by (simp add: lift_handled_def split: prod.split)

lemma answers_one_call [simp]: "(\<And>v. resp_proc (resp v) = req_proc req) \<Longrightarrow> answers req (Inr (fst (one_call req call resp h k)))"
  by (auto simp: one_call_def split: prod.split sum.split)

lemma answers_seek: "(\<And>v. resp_proc (resp v) = req_proc req) \<Longrightarrow> answers req (Inr (fst (seek_then sys req fd off call resp h k)))"
  by (simp add: seek_then_def split: prod.split sum.split)

lemma listdir_loop_hang: "fst (listdir_loop fuel sys dir buf slices k) = Inl e \<Longrightarrow> e = Hang"
  by (induction fuel arbitrary: buf slices k; subst (asm) listdir_loop.simps)
    (auto split: prod.splits option.splits sum.splits if_splits)

lemma write_loop_hang: "fst (write_loop fuel sys fd bs n k) = Inl e \<Longrightarrow> e = Hang"
  by (induction fuel arbitrary: bs n k; subst (asm) write_loop.simps)
    (auto split: prod.splits sum.splits if_splits)

lemma copy_loop_hang: "fst (copy_loop fuel sys in_fd out_fd sz n k) = Inl e \<Longrightarrow> e = Hang"
proof (induction fuel arbitrary: n k)
  case (Suc fuel)
  have w: "write_loop f sys out_fd bs n k = (Inl e', k') \<Longrightarrow> e' = Hang" for f bs n k e' k'
    using write_loop_hang [of f sys out_fd bs n k] by simp
  from Suc show ?case
    by (subst (asm) copy_loop.simps) (auto dest: w split: prod.splits sum.splits if_splits)
qed (subst (asm) copy_loop.simps, simp split: if_splits)

lemma answers_copy_between:
  assumes "req_proc req = PCopyFileRange"
  shows "answers req (fst (copy_between sys req in_fd in_off out_fd out_off sz h k))"
proof -
  have "answers req (transform (fst (copy_loop f sys in_fd out_fd n m k)) (\<lambda>c. case c of
      Inl e \<Rightarrow> failed req e | Inr copied \<Rightarrow> OkResponse (RespCopyFileRange (word_of_nat copied))))" for f n m k
    using assms copy_loop_hang by (intro answers_transform) (auto split: sum.split)
  then show ?thesis
    using assms by (auto simp: copy_between_def Let_def split: prod.split sum.split) (metis fst_conv)+
qed

lemma answers_with_file:
  assumes "\<And>fd h k. answers req (fst (body fd h k))"
  shows "answers req (fst (with_file sys req path flags off body h k))"
  using assms by (auto simp: with_file_def split: prod.split sum.split) (metis fst_conv)

lemma answers_copy_file_range:
  "answers (ReqCopyFileRange p i q j sz) (fst (handle_copy_file_range sys p i q j sz h k))"
  unfolding handle_copy_file_range_def Let_def by (intro answers_with_file answers_copy_between) simp

lemma answers_listdir: "answers (ReqListdir p) (fst (handle_listdir sys p h k))"
  by (auto simp: handle_listdir_def split: prod.split sum.split intro!: answers_transform)
    (metis fst_conv listdir_loop_hang)

lemma answers_rename: "answers (ReqRename p q f) (Inr (fst (handle_rename sys p q f h k)))"
  by (simp add: handle_rename_def Let_def split: prod.split sum.split)

lemma handle_req_answers: "answers req (fst (handle_req sys req h k))"
  by (cases req)
    (simp_all add: one_call_handlers handle_ping_def answers_copy_file_range answers_listdir answers_rename handle_open_def
      handle_read_req_def handle_write_req_def answers_seek)

section \<open>Descriptors in the kernel\<close>

text \<open>
  What the code relies on of the kernel's descriptor table: a successful open returns a descriptor
  that was free, closing frees it even when it reports an error, and no other call opens or
  closes anything. \<open>Inl\<close> are directory streams, \<open>Inr\<close> file descriptors.
\<close>

definition keeps_open :: "('k \<Rightarrow> (nat + i32) set) \<Rightarrow> ('k \<Rightarrow> 'a \<times> 'k) \<Rightarrow> bool" where
  "keeps_open opened call = (\<forall>k. opened (snd (call k)) = opened k)"

definition opens :: "('k \<Rightarrow> (nat + i32) set) \<Rightarrow> ('a \<Rightarrow> nat + i32) \<Rightarrow> ('k \<Rightarrow> (errc + 'a) \<times> 'k) \<Rightarrow> bool" where
  "opens opened f call = (\<forall>k. case call k of
     (Inl e, k') \<Rightarrow> opened k' = opened k
   | (Inr v, k') \<Rightarrow> f v \<notin> opened k \<and> opened k' = insert (f v) (opened k))"

definition closes :: "('k \<Rightarrow> (nat + i32) set) \<Rightarrow> nat + i32 \<Rightarrow> ('k \<Rightarrow> 'a \<times> 'k) \<Rightarrow> bool" where
  "closes opened x call = (\<forall>k. opened (snd (call k)) = opened k - {x})"

definition fd_kernel :: "('k \<Rightarrow> (nat + i32) set) \<Rightarrow> 'k kernel \<Rightarrow> bool" where
  "fd_kernel opened sys =
     ((\<forall>p. opens opened Inl (k_opendir sys p)) \<and> (\<forall>d. closes opened (Inl d) (k_closedir sys d)) \<and>
      (\<forall>p f. opens opened Inr (k_open sys p f)) \<and> (\<forall>fd. closes opened (Inr fd) (k_close sys fd)) \<and>
      (\<forall>d. keeps_open opened (k_readdir sys d)) \<and> (\<forall>d p. keeps_open opened (k_fstatat sys d p)) \<and>
      (\<forall>p. keeps_open opened (k_lstat sys p)) \<and> (\<forall>p n. keeps_open opened (k_readlink sys p n)) \<and>
      (\<forall>p m d. keeps_open opened (k_mknod sys p m d)) \<and> (\<forall>p m. keeps_open opened (k_mkdir sys p m)) \<and>
      (\<forall>p. keeps_open opened (k_unlink sys p)) \<and> (\<forall>p. keeps_open opened (k_rmdir sys p)) \<and>
      (\<forall>p q f. keeps_open opened (k_renameat2 sys p q f)) \<and> (\<forall>p q. keeps_open opened (k_renameat sys p q)) \<and>
      (\<forall>p s. keeps_open opened (k_truncate sys p s)) \<and> (\<forall>p a m. keeps_open opened (k_utimensat sys p a m)) \<and>
      (\<forall>fd i. keeps_open opened (k_lseek sys fd i)) \<and> (\<forall>fd n. keeps_open opened (k_read sys fd n)) \<and>
      (\<forall>fd bs. keeps_open opened (k_write sys fd bs)) \<and>
      (\<forall>a i b j s. keeps_open opened (k_copy_file_range sys a i b j s)))"

lemma keeps_openD: "keeps_open opened call \<Longrightarrow> call k = (r, k') \<Longrightarrow> opened k' = opened k"
  by (auto simp: keeps_open_def dest: spec [of _ k])

lemma opensD:
  "opens opened f call \<Longrightarrow> call k = (Inl e, k') \<Longrightarrow> opened k' = opened k"
  "opens opened f call \<Longrightarrow> call k = (Inr v, k') \<Longrightarrow> f v \<notin> opened k \<and> opened k' = insert (f v) (opened k)"
  by (auto simp: opens_def dest: spec [of _ k])

lemma closesD: "closes opened x call \<Longrightarrow> call k = (r, k') \<Longrightarrow> opened k' = opened k - {x}"
  by (auto simp: closes_def dest: spec [of _ k])

lemma fd_kernel_keeps:
  assumes "fd_kernel opened sys"
  shows "keeps_open opened (k_readdir sys d)" "keeps_open opened (k_fstatat sys d p)" "keeps_open opened (k_lstat sys p)"
    "keeps_open opened (k_readlink sys p n)" "keeps_open opened (k_mknod sys p m dv)" "keeps_open opened (k_mkdir sys p m)"
    "keeps_open opened (k_unlink sys p)" "keeps_open opened (k_rmdir sys p)" "keeps_open opened (k_renameat2 sys p q m)"
    "keeps_open opened (k_renameat sys p q)" "keeps_open opened (k_truncate sys p s)" "keeps_open opened (k_utimensat sys p a b)"
    "keeps_open opened (k_lseek sys fd i)" "keeps_open opened (k_read sys fd n)" "keeps_open opened (k_write sys fd bs)"
    "keeps_open opened (k_copy_file_range sys fd i fd2 j s2)"
    "opens opened Inl (k_opendir sys p)" "opens opened Inr (k_open sys p fl)"
    "closes opened (Inl d) (k_closedir sys d)" "closes opened (Inr fd) (k_close sys fd)"
  using assms by (simp_all add: fd_kernel_def)

text \<open>Handlers that leave the table as they found it.\<close>

definition balanced :: "('k \<Rightarrow> (nat + i32) set) \<Rightarrow> (handler \<Rightarrow> 'k \<Rightarrow> 'r \<times> handler \<times> 'k) \<Rightarrow> bool" where
  "balanced opened m = (\<forall>h k r h' k'. m h k = (r, h', k') \<longrightarrow> opened k' = opened k)"

lemma balanced_one_call: "keeps_open opened call \<Longrightarrow> balanced opened (one_call req call resp)"
  unfolding balanced_def by (auto simp: one_call_def dest: keeps_openD split: prod.splits sum.splits)

lemma balanced_lift: "balanced opened m \<Longrightarrow> balanced opened (\<lambda>h k. lift_handled (m h k))"
  unfolding balanced_def lift_handled_def by (auto split: prod.splits)

lemma balanced_seek:
  assumes "fd_kernel opened sys" "\<And>fd. keeps_open opened (call fd)"
  shows "balanced opened (seek_then sys req fd off call resp)"
proof -
  have o: "one_call req (call x) resp h k = (r, h', k') \<Longrightarrow> opened k' = opened k" for x h k r h' k'
    using balanced_one_call [OF assms(2), of req x resp] unfolding balanced_def by blast
  show ?thesis
    unfolding balanced_def seek_then_def
    by (auto dest!: o keeps_openD [OF fd_kernel_keeps(13) [OF assms(1)]] split: prod.splits sum.splits)
qed

lemma balanced_with_file:
  assumes sys: "fd_kernel opened sys" and body: "\<And>fd. balanced opened (body fd)"
  shows "balanced opened (with_file sys req path flags off body)"
  unfolding balanced_def
proof (intro allI impI)
  fix h k r h' k' assume run: "with_file sys req path flags off body h k = (r, h', k')"
  show "opened k' = opened k"
  proof (cases "fst (k_open sys (c_str path) flags k)")
    case (Inr fd)
    then obtain k1 where op: "k_open sys (c_str path) flags k = (Inr fd, k1)" by (metis prod.collapse)
    note o = opensD(2) [OF fd_kernel_keeps(18) [OF sys] op]
    obtain r2 h2 k2 where mid: "(case k_lseek sys fd off k1 of (Inl e, k) \<Rightarrow> (Inr (failed req e), h, k)
        | (Inr _, k) \<Rightarrow> body fd h k) = (r2, h2, k2)" by (rule prod_cases3)
    have b: "body fd h k = (r, h', k') \<Longrightarrow> opened k' = opened k" for h k r h' k'
      using body [of fd] unfolding balanced_def by blast
    from mid have "opened k2 = opened k1"
      by (auto dest!: b keeps_openD [OF fd_kernel_keeps(13) [OF sys]] split: prod.splits sum.splits)
    moreover have "opened k' = opened k2 - {Inr fd}"
      using run op mid closesD [OF fd_kernel_keeps(20) [OF sys]] by (auto simp: with_file_def split: prod.splits)
    ultimately show ?thesis using o by auto
  next
    case (Inl e)
    with run opensD(1) [OF fd_kernel_keeps(18) [OF sys]] show ?thesis
      by (cases "k_open sys (c_str path) flags k") (auto simp: with_file_def)
  qed
qed

lemma write_loop_open: "fd_kernel opened sys \<Longrightarrow> opened (snd (write_loop fuel sys fd bs n k)) = opened k"
proof (induction fuel arbitrary: bs n k)
  case (Suc fuel)
  with keeps_openD [OF fd_kernel_keeps(15) [OF Suc.prems]] show ?case
    by (subst write_loop.simps) (auto split: prod.splits sum.splits)
qed (subst write_loop.simps, simp)

lemma copy_loop_open: "fd_kernel opened sys \<Longrightarrow> opened (snd (copy_loop fuel sys fd fd' sz n k)) = opened k"
proof (induction fuel arbitrary: n k)
  case (Suc fuel)
  have w: "write_loop f sys fd' bs n k = (r, k') \<Longrightarrow> opened k' = opened k" for f bs n k r k'
    using write_loop_open [OF Suc.prems, of f fd' bs n k] by simp
  from Suc keeps_openD [OF fd_kernel_keeps(14) [OF Suc.prems]] show ?case
    by (subst copy_loop.simps) (auto dest!: w split: prod.splits sum.splits)
qed (subst copy_loop.simps, simp)

lemma listdir_loop_open: "fd_kernel opened sys \<Longrightarrow> opened (snd (listdir_loop fuel sys d buf sl k)) = opened k"
proof (induction fuel arbitrary: buf sl k)
  case (Suc fuel)
  with keeps_openD [OF fd_kernel_keeps(1) [OF Suc.prems]] keeps_openD [OF fd_kernel_keeps(2) [OF Suc.prems]] show ?case
    by (subst listdir_loop.simps) (auto split: prod.splits sum.splits option.splits)
next
  case 0
  with keeps_openD [OF fd_kernel_keeps(1) [OF 0]] show ?case
    by (subst listdir_loop.simps) (auto split: prod.splits option.splits)
qed

lemma balanced_copy_between:
  assumes "fd_kernel opened sys"
  shows "balanced opened (copy_between sys req fd i fd' j sz)"
proof -
  have c: "copy_loop f sys fd fd' n m k = (r, k') \<Longrightarrow> opened k' = opened k" for f n m k r k'
    using copy_loop_open [OF assms, of f fd fd' n m k] by simp
  show ?thesis
    unfolding balanced_def copy_between_def Let_def
    by (auto dest!: c keeps_openD [OF fd_kernel_keeps(16) [OF assms]] split: prod.splits sum.splits if_splits)
qed

lemma balanced_listdir:
  assumes "fd_kernel opened sys"
  shows "balanced opened (handle_listdir sys p)"
proof -
  have l: "listdir_loop f sys d b s k = (r, k') \<Longrightarrow> opened k' = opened k" for f d b s k r k'
    using listdir_loop_open [OF assms, of f d b s k] by simp
  show ?thesis
    unfolding balanced_def handle_listdir_def
    by (auto dest!: l opensD [OF fd_kernel_keeps(17) [OF assms]] closesD [OF fd_kernel_keeps(19) [OF assms]]
        split: prod.splits sum.splits)
qed

lemma balanced_rename:
  assumes "fd_kernel opened sys"
  shows "balanced opened (handle_rename sys p q f)"
proof -
  have o: "one_call req (k_renameat sys a b) resp h k = (r, h', k') \<Longrightarrow> opened k' = opened k" for req a b resp h k r h' k'
    using balanced_one_call [OF fd_kernel_keeps(10) [OF assms], of req a b resp] unfolding balanced_def by blast
  show ?thesis
    unfolding balanced_def handle_rename_def Let_def
    by (auto dest!: o keeps_openD [OF fd_kernel_keeps(9) [OF assms]] split: prod.splits sum.splits if_splits)
qed

section \<open>The copy loop\<close>

text \<open>
  What the code relies on of \<^verbatim>\<open>read\<close> and \<^verbatim>\<open>write\<close> on the two descriptors: a read delivers a prefix of
  the bytes not read yet, empty only at the end of the file; a write accepts a non-empty prefix of
  its buffer. Both may transfer less than asked for.
\<close>

definition copies :: "'k kernel \<Rightarrow> i32 \<Rightarrow> i32 \<Rightarrow> ('k \<Rightarrow> u8 list) \<Rightarrow> ('k \<Rightarrow> u8 list) \<Rightarrow> bool" where
  "copies sys in_fd out_fd rest written =
     ((\<forall>n k. 0 < n \<longrightarrow> (\<exists>m k'. k_read sys in_fd n k = (Inr (take m (rest k)), k') \<and> m \<le> n \<and> 0 < m \<and>
        rest k' = drop m (rest k) \<and> written k' = written k)) \<and>
      (\<forall>bs k. bs \<noteq> [] \<longrightarrow> (\<exists>m k'. k_write sys out_fd bs k = (Inr m, k') \<and> 0 < m \<and> m \<le> length bs \<and>
        rest k' = rest k \<and> written k' = written k @ take m bs)))"

lemma copies_read:
  assumes "copies sys in_fd out_fd rest written" "0 < n"
  obtains m k' where "k_read sys in_fd n k = (Inr (take m (rest k)), k')" "m \<le> n" "0 < m"
    "rest k' = drop m (rest k)" "written k' = written k"
  using assms unfolding copies_def by blast

lemma copies_write:
  assumes "copies sys in_fd out_fd rest written" "bs \<noteq> []"
  obtains m k' where "k_write sys out_fd bs k = (Inr m, k')" "0 < m" "m \<le> length bs"
    "rest k' = rest k" "written k' = written k @ take m bs"
  using assms unfolding copies_def by blast

lemma write_loop_all:
  assumes "copies sys in_fd out_fd rest written" "length bs \<le> fuel"
  shows "\<exists>k'. write_loop fuel sys out_fd bs n k = (Inr (Inr (n + length bs)), k') \<and>
    rest k' = rest k \<and> written k' = written k @ bs"
  using assms(2)
proof (induction fuel arbitrary: bs n k)
  case (Suc fuel)
  show ?case
  proof (cases "bs = []")
    case False
    obtain m k1 where w: "k_write sys out_fd bs k = (Inr m, k1)" "0 < m" "m \<le> length bs"
      "rest k1 = rest k" "written k1 = written k @ take m bs"
      by (rule copies_write [OF assms(1) False])
    from Suc.prems w(2) have "length (drop m bs) \<le> fuel" by simp
    from Suc.IH [OF this, of "n + m" k1] w show ?thesis
      by (subst write_loop.simps) (auto simp: False)
  qed (simp add: write_loop.simps)
qed (simp add: write_loop.simps)

lemma copy_loop_all:
  assumes "copies sys in_fd out_fd rest written" "copy_buffer \<le> k_fuel sys" "sz - n \<le> fuel" "n \<le> sz"
  shows "\<exists>k'. copy_loop fuel sys in_fd out_fd sz n k = (Inr (Inr (n + min (sz - n) (length (rest k)))), k') \<and>
    written k' = written k @ take (sz - n) (rest k)"
  using assms(3,4)
proof (induction fuel arbitrary: n k)
  case (Suc fuel)
  show ?case
  proof (cases "n < sz")
    case True
    let ?want = "min copy_buffer (sz - n)"
    have "0 < ?want" using True by (simp add: copy_buffer_def)
    then obtain m k1 where r: "k_read sys in_fd ?want k = (Inr (take m (rest k)), k1)" "m \<le> ?want" "0 < m"
      "rest k1 = drop m (rest k)" "written k1 = written k"
      by (rule copies_read [OF assms(1)])
    show ?thesis
    proof (cases "rest k = []")
      case False
      let ?bs = "take m (rest k)"
      have bs: "?bs \<noteq> []" "length ?bs \<le> k_fuel sys" "0 < length ?bs" "n + length ?bs \<le> sz"
        using False r(2,3) assms(2) True by auto
      obtain k2 where w: "write_loop (k_fuel sys) sys out_fd ?bs n k1 = (Inr (Inr (n + length ?bs)), k2)"
        "rest k2 = rest k1" "written k2 = written k1 @ ?bs"
        using write_loop_all [OF assms(1) bs(2), of n k1] by blast
      have "sz - (n + length ?bs) \<le> fuel" using Suc.prems(1) bs(3) by linarith
      from Suc.IH [OF this bs(4), of k2] obtain k3 where
        "copy_loop fuel sys in_fd out_fd sz (n + length ?bs) k2 =
          (Inr (Inr (n + length ?bs + min (sz - (n + length ?bs)) (length (rest k2)))), k3)"
        "written k3 = written k2 @ take (sz - (n + length ?bs)) (rest k2)" by blast
      moreover have "length ?bs + min (sz - (n + length ?bs)) (length (rest k2)) = min (sz - n) (length (rest k))"
        using bs(4) by (simp add: w(2) r(4))
      moreover have "?bs @ take (sz - (n + length ?bs)) (rest k2) = take (sz - n) (rest k)"
      proof -
        have "take (sz - n) (rest k) = take (length ?bs + (sz - (n + length ?bs))) (rest k)" using bs(4) by simp
        also have "\<dots> = take (length ?bs) (rest k) @ take (sz - (n + length ?bs)) (drop (length ?bs) (rest k))"
          by (rule take_add)
        finally show ?thesis by (simp add: w(2) r(4) min_def split: if_splits)
      qed
      ultimately show ?thesis
        using True r(1,5) w(1,3) bs(1) by (subst copy_loop.simps) (auto simp: add.assoc)
    next
      case True with r show ?thesis using \<open>n < sz\<close> by (subst copy_loop.simps) auto
    qed
  qed (use Suc.prems in \<open>simp add: copy_loop.simps\<close>)
qed (simp add: copy_loop.simps)

section \<open>The listing loop\<close>

text \<open>
  What the code relies on of a directory stream: \<^verbatim>\<open>readdir\<close> delivers the names that are left, one
  after the other, and inspecting an entry does not move the stream.
\<close>

definition dir_stream :: "'k kernel \<Rightarrow> nat \<Rightarrow> ('k \<Rightarrow> str list) \<Rightarrow> (str \<Rightarrow> errc + rpc_stat) \<Rightarrow> bool" where
  "dir_stream sys dir rest st =
     ((\<forall>k. rest k = [] \<longrightarrow> (\<exists>k'. k_readdir sys dir k = (None, k'))) \<and>
      (\<forall>k n ns. rest k = n # ns \<longrightarrow> (\<exists>k'. k_readdir sys dir k = (Some n, k') \<and> rest k' = ns)) \<and>
      (\<forall>k n. \<exists>k'. k_fstatat sys dir n k = (st n, k') \<and> rest k' = rest k))"

text \<open>The entries a listing should have.\<close>

definition listing :: "(str \<Rightarrow> errc + rpc_stat) \<Rightarrow> str list \<Rightarrow> (str \<times> rpc_stat) list" where
  "listing st names =
     concat (map (\<lambda>n. if n = ''.'' \<or> n = ''..'' then []
        else case st n of Inl _ \<Rightarrow> [] | Inr v \<Rightarrow> [(n, v)]) names)"

definition in_buffer :: "u8 list \<Rightarrow> (nat \<times> nat \<times> rpc_stat) list \<Rightarrow> bool" where
  "in_buffer buf slices = (\<forall>(off, n, st) \<in> set slices. off + n \<le> length buf)"

lemma view_grow: "in_buffer buf slices \<Longrightarrow> view_entries (buf @ bs) slices = view_entries buf slices"
  by (auto simp: view_entries_def in_buffer_def sublist_append_left)

lemma view_add:
  assumes "in_buffer buf slices"
  shows "view_entries (buf @ bytes_of name) (slices @ [(length buf, length name, st)]) = view_entries buf slices @ [(name, st)]"
    "in_buffer (buf @ bytes_of name) (slices @ [(length buf, length name, st)])"
  using assms view_grow [OF assms, of "bytes_of name"]
  by (auto simp: view_entries_def in_buffer_def sublist_append_right str_of_bytes_of)

lemma listdir_loop_all:
  assumes s: "dir_stream sys dir rest st"
  shows "in_buffer buf slices \<Longrightarrow> length (rest k) \<le> fuel \<Longrightarrow>
    \<exists>buf' slices' k'. listdir_loop fuel sys dir buf slices k = (Inr (buf', slices'), k') \<and>
      view_entries buf' slices' = view_entries buf slices @ listing st (rest k)"
proof (induction "rest k" arbitrary: fuel buf slices k)
  case Nil
  from s [unfolded dir_stream_def, THEN conjunct1, rule_format, OF Nil(1) [symmetric]]
  obtain k1 where "k_readdir sys dir k = (None, k1)" by blast
  then show ?case by (subst listdir_loop.simps) (simp add: Nil(1) [symmetric] listing_def)
next
  case (Cons n ns)
  from s [unfolded dir_stream_def, THEN conjunct2, THEN conjunct1, rule_format, OF Cons.hyps(2) [symmetric]]
  obtain k1 where k1: "k_readdir sys dir k = (Some n, k1)" "rest k1 = ns" by blast
  from s [unfolded dir_stream_def, THEN conjunct2, THEN conjunct2, rule_format, of n k1] k1(2)
  obtain k2 where k2: "k_fstatat sys dir n k1 = (st n, k2)" "rest k2 = ns" by auto
  obtain f where f: "fuel = Suc f" "length ns \<le> f" using Cons.prems(2) Cons.hyps(2) [symmetric] by (cases fuel) auto
  have l: "listing st (rest k) = listing st [n] @ listing st ns" using Cons.hyps(2) [symmetric] by (simp add: listing_def)
  have ih: "rest k' = ns \<Longrightarrow> in_buffer b sl \<Longrightarrow> \<exists>buf' slices' k2. listdir_loop f sys dir b sl k' = (Inr (buf', slices'), k2) \<and>
      view_entries buf' slices' = view_entries b sl @ listing st ns" for k' b sl
    using Cons.hyps(1) [of k' b sl f] f(2) by auto
  show ?case
  proof (cases "n = ''.'' \<or> n = ''..''")
    case True
    then have "listdir_loop fuel sys dir buf slices k = listdir_loop f sys dir buf slices k1"
      by (subst listdir_loop.simps) (simp add: k1 f)
    with ih [of k1 buf slices] k1(2) Cons.prems(1) True l show ?thesis by (auto simp: listing_def)
  next
    case False
    show ?thesis
    proof (cases "st n")
      case (Inl e)
      then have "listdir_loop fuel sys dir buf slices k = listdir_loop f sys dir buf slices k2"
        using False by (subst listdir_loop.simps) (simp add: k1 k2 f)
      with ih [of k2 buf slices] k2(2) Cons.prems(1) False Inl l show ?thesis by (auto simp: listing_def)
    next
      case (Inr v)
      let ?b = "buf @ bytes_of n" and ?s = "slices @ [(length buf, length n, v)]"
      from Inr have "listdir_loop fuel sys dir buf slices k = listdir_loop f sys dir ?b ?s k2"
        using False by (subst listdir_loop.simps) (simp add: k1 k2 f)
      with ih [of k2 ?b ?s] k2(2) view_add [OF Cons.prems(1)] False Inr l show ?thesis by (auto simp: listing_def)
    qed
  qed
qed

lemma handle_listdir_all:
  assumes "dir_stream sys dir rest st" "k_opendir sys (c_str p) k = (Inr dir, k1)" "length (rest k1) \<le> k_fuel sys"
  shows "\<exists>k'. handle_listdir sys p h k = (Inr (OkResponse (RespListdir (listing st (rest k1)))), h, k')"
proof -
  have "in_buffer [] []" by (simp add: in_buffer_def)
  from listdir_loop_all [OF assms(1) this assms(3)] show ?thesis
    by (auto simp: handle_listdir_def assms(2) view_entries_def split: prod.split)
qed

section \<open>A small kernel\<close>

text \<open>
  Two descriptors, one directory stream, reads of at most three and writes of at most two bytes,
  and no \<^verbatim>\<open>copy_file_range\<close>: the concrete input of the witnesses.
\<close>

record mem =
  mm_src :: "u8 list"
  mm_out :: "u8 list"
  mm_dir :: "str list"
  mm_open :: "(nat + i32) list"

definition mem_stat :: rpc_stat where
  "mem_stat = \<lparr>rs_size = 1, rs_links = 1, rs_mtime = to_timespec 0 0, rs_atime = to_timespec 0 0,
     rs_ctime = to_timespec 0 0, rs_mode = 0, rs_uid = 0, rs_gid = 0\<rparr>"

definition mem_take :: "(nat + i32) list \<Rightarrow> ((nat + i32) \<Rightarrow> 'a) \<Rightarrow> mem \<Rightarrow> (errc + 'a) \<times> mem" where
  "mem_take free f m =
     (case filter (\<lambda>x. x \<notin> set (mm_open m)) free of
        [] \<Rightarrow> (Inl 24, m)
      | x # _ \<Rightarrow> (Inr (f x), m\<lparr>mm_open := x # mm_open m\<rparr>))"

definition mem_kernel :: "mem kernel" where
  "mem_kernel = \<lparr>
     k_opendir = (\<lambda>p. mem_take [Inl 1] projl),
     k_readdir = (\<lambda>d m. case mm_dir m of [] \<Rightarrow> (None, m) | n # ns \<Rightarrow> (Some n, m\<lparr>mm_dir := ns\<rparr>)),
     k_closedir = (\<lambda>d m. (Inr (), m\<lparr>mm_open := removeAll (Inl d) (mm_open m)\<rparr>)),
     k_fstatat = (\<lambda>d n m. (if n = ''gone'' then Inl no_such_file_or_directory else Inr mem_stat, m)),
     k_lstat = (\<lambda>p m. (Inr mem_stat, m)),
     k_readlink = (\<lambda>p n m. (Inl invalid_argument, m)),
     k_mknod = (\<lambda>p md dv m. (Inl file_exists, m)),
     k_mkdir = (\<lambda>p md m. (Inl file_exists, m)),
     k_unlink = (\<lambda>p m. (Inr (), m)),
     k_rmdir = (\<lambda>p m. (Inl directory_not_empty, m)),
     k_renameat2 = (\<lambda>p q f m. (Inl function_not_supported, m)),
     k_renameat = (\<lambda>p q m. (Inr (), m)),
     k_truncate = (\<lambda>p s m. (Inr (), m)),
     k_utimensat = (\<lambda>p a b m. (Inr (), m)),
     k_open = (\<lambda>p f. mem_take [Inr 3, Inr 4] projr),
     k_close = (\<lambda>fd m. (Inr (), m\<lparr>mm_open := removeAll (Inr fd) (mm_open m)\<rparr>)),
     k_lseek = (\<lambda>fd i m. (Inr (), m)),
     k_read = (\<lambda>fd n m. (Inr (take (min n 3) (mm_src m)), m\<lparr>mm_src := drop (min n 3) (mm_src m)\<rparr>)),
     k_write = (\<lambda>fd bs m. (Inr (min 2 (length bs)), m\<lparr>mm_out := mm_out m @ take (min 2 (length bs)) bs\<rparr>)),
     k_copy_file_range = (\<lambda>a i b j s m. (Inl function_not_supported, m)),
     k_fuel = 2 ^ 20\<rparr>"

lemma mem_copies: "copies mem_kernel in_fd out_fd mm_src mm_out"
  by (auto simp: copies_def mem_kernel_def)

lemma mem_dir: "dir_stream mem_kernel d mm_dir (\<lambda>n. if n = ''gone'' then Inl no_such_file_or_directory else Inr mem_stat)"
  by (auto simp: dir_stream_def mem_kernel_def)

lemma mem_opens:
  assumes "\<And>x. x \<in> set free \<Longrightarrow> g (f x) = x"
  shows "opens (\<lambda>m. set (mm_open m)) g (mem_take free f)"
  unfolding opens_def
proof
  fix m
  show "case mem_take free f m of (Inl e, k') \<Rightarrow> set (mm_open k') = set (mm_open m)
    | (Inr v, k') \<Rightarrow> g v \<notin> set (mm_open m) \<and> set (mm_open k') = insert (g v) (set (mm_open m))"
  proof (cases "filter (\<lambda>x. x \<notin> set (mm_open m)) free")
    case (Cons x xs)
    then have "x \<in> set (filter (\<lambda>x. x \<notin> set (mm_open m)) free)" by simp
    then have "x \<in> set free" "x \<notin> set (mm_open m)" by simp_all
    with assms Cons show ?thesis by (simp add: mem_take_def)
  qed (simp add: mem_take_def)
qed

lemma mem_fds: "fd_kernel (\<lambda>m. set (mm_open m)) mem_kernel"
proof -
  have "opens (\<lambda>m. set (mm_open m)) Inl (mem_take [Inl 1] projl)" "opens (\<lambda>m. set (mm_open m)) Inr (mem_take [Inr 3, Inr 4] projr)"
    by (auto intro!: mem_opens)
  then show ?thesis by (simp add: fd_kernel_def mem_kernel_def keeps_open_def closes_def set_removeAll split: list.split)
qed

section \<open>Properties\<close>

text \<open>Whatever the kernel answers, the handler's answer belongs to the procedure of the request, as a
  response or as a failure with a status; the only other outcome of the model is a loop that has
  used up its fuel.\<close>

theorem handle_req_typed:
  "case fst (handle_req sys req h k) of
     Inr (OkResponse resp) \<Rightarrow> resp_proc resp = req_proc req
   | Inr (FailedResponse p status) \<Rightarrow> p = req_proc req
   | Inl f \<Rightarrow> f = Hang"
  using handle_req_answers [of req sys h k]
  by (auto simp: answers_def fallible_proc_def split: sum.splits fallible_response.splits)

text \<open>C36: descriptors. On every path through every handler, errors included, the descriptors and
  directory streams open after a request are those open before it; only an \<^verbatim>\<open>open\<close> request adds the
  descriptor it returns, and only a \<^verbatim>\<open>close\<close> request removes the one it names.\<close>

theorem handlers_close_what_they_open:
  assumes "fd_kernel opened sys" "handle_req sys req h k = (r, h', k')"
  shows "opened k' = (case req of
      ReqOpen p m \<Rightarrow> (case r of Inr (OkResponse (RespOpen fd)) \<Rightarrow> insert (Inr (ucast fd)) (opened k) | _ \<Rightarrow> opened k)
    | ReqClose fd \<Rightarrow> opened k - {Inr (ucast fd)}
    | _ \<Rightarrow> opened k)"
proof -
  note keep = fd_kernel_keeps [OF assms(1)]
  have bal: "balanced opened m \<Longrightarrow> m h k = (r, h', k') \<Longrightarrow> opened k' = opened k" for m :: "handler \<Rightarrow> 'a \<Rightarrow> fallible_response expect \<times> handler \<times> 'a"
    unfolding balanced_def by blast
  have one: "keeps_open opened call \<Longrightarrow> lift_handled (one_call q call resp h k) = (r, h', k') \<Longrightarrow> opened k' = opened k"
    for q and call :: "'a \<Rightarrow> (errc + 'c) \<times> 'a" and resp
    by (rule bal [OF balanced_lift [OF balanced_one_call]])
  have fd: "ucast (scast x :: u64) = x" for x :: i32 by (rule bit_word_eqI) (simp add: bit_simps)
  show ?thesis
  proof (cases req)
    case (ReqOpen p m)
    with assms(2) opensD [OF keep(18)] show ?thesis
      by (auto simp: handle_open_def one_call_def lift_handled_def failed_def fd split: prod.splits sum.splits)
  next
    case (ReqClose x)
    with assms(2) closesD [OF keep(20)] show ?thesis
      by (auto simp: handle_close_def one_call_def lift_handled_def split: prod.splits sum.splits)
  next
    case (ReqCopyFileRange p i q j s)
    from bal [OF balanced_with_file [OF assms(1) balanced_with_file [OF assms(1) balanced_copy_between [OF assms(1)]]]]
      assms(2) ReqCopyFileRange show ?thesis by (simp add: handle_copy_file_range_def Let_def)
  next
    case (ReqRead x i n)
    from bal [OF balanced_lift [OF balanced_seek [OF assms(1) keep(14)]]] assms(2) ReqRead show ?thesis
      by (simp add: handle_read_req_def)
  next
    case (ReqWrite x i bs)
    from bal [OF balanced_lift [OF balanced_seek [OF assms(1) keep(15)]]] assms(2) ReqWrite show ?thesis
      by (simp add: handle_write_req_def)
  qed (use assms(2) in \<open>auto simp: one_call_handlers handle_ping_def lift_handled_def [of "(a, b, c)" for a b c] dest!: bal [OF balanced_listdir [OF assms(1)]] bal [OF balanced_lift [OF balanced_rename [OF assms(1)]]]
      one [OF keep(3)] one [OF keep(4)] one [OF keep(5)] one [OF keep(6)] one [OF keep(7)] one [OF keep(8)]
      one [OF keep(11)] one [OF keep(12)]\<close>)
qed

theorem handlers_close_what_they_open_witness:
  "set (mm_open (snd (snd (handle_req mem_kernel (ReqCopyFileRange ''/a'' 0 ''/b'' 0 5) mk_handler
     \<lparr>mm_src = [1, 2, 3, 4, 5, 6], mm_out = [], mm_dir = [], mm_open = [Inr 9]\<rparr>)))) = {Inr 9}"
proof -
  let ?m = "\<lparr>mm_src = [1, 2, 3, 4, 5, 6], mm_out = [], mm_dir = [], mm_open = [Inr 9]\<rparr>"
  obtain r h' k' where run: "handle_req mem_kernel (ReqCopyFileRange ''/a'' 0 ''/b'' 0 5) mk_handler ?m = (r, h', k')"
    by (rule prod_cases3)
  from handlers_close_what_they_open [OF mem_fds run] show ?thesis unfolding run by simp
qed

text \<open>C35: the fallback of \<^verbatim>\<open>CopyFileRange\<close>. When the system call is missing, which is remembered, or the
  files are on different file systems, the loop copies: it ends, whatever portions the kernel reads
  and writes, with exactly the first \<open>sz\<close> unread bytes of the source (all of them if there are fewer)
  appended to what was written, and their number as the answer.\<close>

theorem copy_fallback_copies:
  assumes "copies sys in_fd out_fd rest written"
    "h_copy_file_range_impl h \<longrightarrow> k_copy_file_range sys in_fd in_off out_fd out_off sz k = (Inl e, k1) \<and>
       (e = function_not_supported \<or> e = cross_device_link)"
    "\<not> h_copy_file_range_impl h \<longrightarrow> k1 = k"
    "unat sz \<le> k_fuel sys" "copy_buffer \<le> k_fuel sys"
  shows "\<exists>h' k'. copy_between sys req in_fd in_off out_fd out_off sz h k =
      (Inr (OkResponse (RespCopyFileRange (word_of_nat (min (unat sz) (length (rest k1)))))), h', k') \<and>
    written k' = written k1 @ take (unat sz) (rest k1) \<and>
    h_copy_file_range_impl h' = (h_copy_file_range_impl h \<and> e \<noteq> function_not_supported)"
proof -
  obtain k' where "copy_loop (k_fuel sys) sys in_fd out_fd (unat sz) 0 k1 =
      (Inr (Inr (min (unat sz) (length (rest k1)))), k')" "written k' = written k1 @ take (unat sz) (rest k1)"
    using copy_loop_all [OF assms(1,5), of "unat sz" 0 "k_fuel sys" k1] assms(4) by auto
  with assms(2,3) show ?thesis by (auto simp: copy_between_def Let_def)
qed

theorem copy_fallback_copies_witness:
  "\<exists>h' m'. copy_between mem_kernel (ReqCopyFileRange ''/a'' 0 ''/b'' 0 5) 3 0 4 0 5 mk_handler
      \<lparr>mm_src = [1, 2, 3, 4, 5, 6], mm_out = [], mm_dir = [], mm_open = []\<rparr> =
      (Inr (OkResponse (RespCopyFileRange 5)), h', m') \<and> mm_out m' = [1, 2, 3, 4, 5] \<and> \<not> h_copy_file_range_impl h'"
  using copy_fallback_copies [OF mem_copies, of mk_handler 3 0 4 0 5
      "\<lparr>mm_src = [1, 2, 3, 4, 5, 6], mm_out = [], mm_dir = [], mm_open = []\<rparr>" function_not_supported
      "\<lparr>mm_src = [1, 2, 3, 4, 5, 6], mm_out = [], mm_dir = [], mm_open = []\<rparr>" "ReqCopyFileRange ''/a'' 0 ''/b'' 0 5"]
  by (simp add: mk_handler_def mem_kernel_def copy_buffer_def)

text \<open>C37: listing. The answer has exactly the entries of the directory that can be inspected, in the order
  the kernel delivers them, without the two dot entries, each with its own name although the names
  live in one growing buffer.\<close>

theorem listdir_lists:
  assumes "dir_stream sys dir rest st" "k_opendir sys (c_str p) k = (Inr dir, k1)" "length (rest k1) \<le> k_fuel sys"
  shows "\<exists>k'. handle_req sys (ReqListdir p) h k = (Inr (OkResponse (RespListdir (listing st (rest k1)))), h, k')"
  using handle_listdir_all [OF assms] by simp

theorem listdir_lists_witness:
  "\<exists>k'. handle_req mem_kernel (ReqListdir ''/d'') mk_handler
     \<lparr>mm_src = [], mm_out = [], mm_dir = [''.'', ''a'', ''gone'', ''bc''], mm_open = []\<rparr> =
     (Inr (OkResponse (RespListdir [(''a'', mem_stat), (''bc'', mem_stat)])), mk_handler, k')"
proof -
  let ?m = "\<lparr>mm_src = [], mm_out = [], mm_dir = [''.'', ''a'', ''gone'', ''bc''], mm_open = []\<rparr>"
  have "k_opendir mem_kernel (c_str ''/d'') ?m = (Inr 1, ?m\<lparr>mm_open := [Inl 1]\<rparr>)"
    by (simp add: mem_kernel_def mem_take_def)
  from listdir_lists [OF mem_dir this, of mk_handler] show ?thesis by (simp add: listing_def mem_kernel_def)
qed

end
