(* ===== verification/Inflight.thy ===== *)
theory Inflight
  imports Rpc
begin

text \<open>
  The part the two transports of \<^verbatim>\<open>madbfs/src/transport\<close> share: the table of promises of the requests
  in flight (\<^verbatim>\<open>m_requests\<close>), the counter of identifiers and the running flag. A promise that is set
  is kept in a log, so that setting one twice or never is visible. The contract of a transport is
  the locale \<open>transport_runs\<close>: its steps move promises only in the ways of \<open>pt_move\<close>, and then every
  request ever accepted is in exactly one place.
\<close>

section \<open>Sockets\<close>

record 's socket_ops =
  sk_read :: "'s sock_read"
  sk_write :: "'s sock_write"
  sk_close :: "'s \<Rightarrow> 's"

section \<open>The table of promises\<close>

record 'q ptable =
  pt_running :: bool
  pt_requests :: "(u32 \<times> 'q) list"
  pt_counter :: u32
  pt_done :: "(u32 \<times> 'q \<times> response expect) list"

definition pt_init :: "'q ptable" where
  "pt_init = \<lparr>pt_running = False, pt_requests = [], pt_counter = 0, pt_done = []\<rparr>"

definition next_id :: "'q ptable \<Rightarrow> u32" where
  "next_id t = pt_counter t + 1"

text \<open>
  The start of \<^verbatim>\<open>send\<close>: refused when the transport does not run; otherwise a new identifier and a
  promise, with the assertion that the identifier was free.
\<close>

definition pt_open :: "'q \<Rightarrow> 'q ptable \<Rightarrow> u32 expect \<times> 'q ptable" where
  "pt_open q t =
     (if \<not> pt_running t then (Unexpect resource_unavailable_try_again, t)
      else let i = next_id t in
        if i \<in> fst ` set (pt_requests t) then (Inl UB, t\<lparr>pt_counter := i\<rparr>)
        else (Inr i, t\<lparr>pt_counter := i, pt_requests := pt_requests t @ [(i, q)]\<rparr>))"

definition pt_extract :: "u32 \<Rightarrow> 'q ptable \<Rightarrow> 'q option \<times> 'q ptable" where
  "pt_extract i t = (map_of (pt_requests t) i, t\<lparr>pt_requests := filter (\<lambda>e. fst e \<noteq> i) (pt_requests t)\<rparr>)"

definition set_value :: "u32 \<Rightarrow> 'q \<Rightarrow> response expect \<Rightarrow> 'q ptable \<Rightarrow> 'q ptable" where
  "set_value i q res t = t\<lparr>pt_done := pt_done t @ [(i, q, res)]\<rparr>"

text \<open>Extracting a promise, if it is still there, and setting it.\<close>

definition pt_settle :: "u32 \<Rightarrow> response expect \<Rightarrow> 'q ptable \<Rightarrow> 'q ptable" where
  "pt_settle i res t = (case pt_extract i t of (None, t') \<Rightarrow> t' | (Some q, t') \<Rightarrow> set_value i q res t')"

text \<open>Setting all promises, in \<^verbatim>\<open>stop\<close> and when the receiving coroutine has ended.\<close>

definition pt_cancel :: "errc \<Rightarrow> 'q ptable \<Rightarrow> 'q ptable" where
  "pt_cancel status t =
     t\<lparr>pt_running := False, pt_requests := [],
       pt_done := pt_done t @ map (\<lambda>(i, q). (i, q, Unexpect status)) (pt_requests t)\<rparr>"

definition pt_stop :: "errc \<Rightarrow> 'q ptable \<Rightarrow> 'q ptable" where
  "pt_stop status t = (if pt_running t then pt_cancel status t else t)"

section \<open>Moves\<close>

text \<open>
  \<open>held\<close> are the promises taken out of the table whose result is still being received. Fewer than
  \<open>2 ^ 32\<close> requests are sent: then the counter does not wrap around.
\<close>

inductive pt_move :: "'q ptable \<times> (u32 \<times> 'q) list \<Rightarrow> 'q ptable \<times> (u32 \<times> 'q) list \<Rightarrow> bool" where
  idle: "pt_move (t, held) (t, held)"
| issue: "pt_counter t \<noteq> - 1 \<Longrightarrow> pt_open q t = (Inr i, t') \<Longrightarrow> pt_move (t, held) (t', held)"
| take: "pt_extract i t = (Some q, t') \<Longrightarrow> pt_move (t, held) (t', (i, q) # held)"
| give: "pt_move (t, held @ (i, q) # held') (set_value i q res t, held @ held')"
| settle: "pt_move (t, held) (pt_settle i res t, held)"
| cancel: "pt_move (t, held) (pt_cancel status t, held)"
| start: "pt_requests t = [] \<Longrightarrow> pt_move (t, held) (t\<lparr>pt_running := True\<rparr>, held)"

definition issued :: "'q ptable \<Rightarrow> u32 set" where
  "issued t = {i. i \<noteq> 0 \<and> i \<le> pt_counter t}"

definition accounted :: "'q ptable \<times> (u32 \<times> 'q) list \<Rightarrow> bool" where
  "accounted s = (case s of (t, held) \<Rightarrow>
     distinct (map fst (pt_requests t) @ map fst held @ map fst (pt_done t)) \<and>
     fst ` set (pt_requests t) \<union> fst ` set held \<union> fst ` set (pt_done t) = issued t \<and>
     (\<not> pt_running t \<longrightarrow> pt_requests t = []))"

lemma issued_next:
  assumes "pt_counter t \<noteq> - 1"
  shows "next_id t \<notin> issued t" "issued (t\<lparr>pt_counter := next_id t\<rparr>) = insert (next_id t) (issued t)"
proof -
  let ?c = "pt_counter t"
  have nz: "1 + ?c \<noteq> 0" using assms by (simp add: add_eq_0_iff)
  then have u: "unat (1 + ?c) = Suc (unat ?c)" by (rule unatSuc)
  show "next_id t \<notin> issued t"
    using u by (simp add: next_id_def issued_def word_le_nat_alt add.commute)
  have "i \<le> 1 + ?c \<longleftrightarrow> i = 1 + ?c \<or> i \<le> ?c" for i
    by (metis u le_Suc_eq word_le_nat_alt unsigned_word_eqI)
  then show "issued (t\<lparr>pt_counter := next_id t\<rparr>) = insert (next_id t) (issued t)"
    using nz by (auto simp: next_id_def issued_def add.commute)
qed

text \<open>Under the invariant a new identifier is free, so the assertion in \<^verbatim>\<open>send\<close> holds.\<close>

lemma pt_open_ok:
  assumes "accounted (t, held)" "pt_counter t \<noteq> - 1" "pt_running t"
  shows "pt_open q t = (Inr (next_id t), t\<lparr>pt_counter := next_id t, pt_requests := pt_requests t @ [(next_id t, q)]\<rparr>)"
proof -
  have "fst ` set (pt_requests t) \<subseteq> issued t" using assms(1) by (auto simp: accounted_def)
  with issued_next(1) [OF assms(2)] assms(3) show ?thesis by (auto simp: pt_open_def Let_def)
qed

lemma extract_perm:
  assumes "distinct (map fst xs)" "map_of xs i = Some q"
  shows "distinct (map fst (filter (\<lambda>e. fst e \<noteq> i) xs))" "i \<notin> fst ` set (filter (\<lambda>e. fst e \<noteq> i) xs)"
    "insert i (fst ` set (filter (\<lambda>e. fst e \<noteq> i) xs)) = fst ` set xs" "i \<in> fst ` set xs"
proof -
  show "i \<in> fst ` set xs" using assms(2) by (metis domI dom_map_of_conv_image_fst)
  then show "insert i (fst ` set (filter (\<lambda>e. fst e \<noteq> i) xs)) = fst ` set xs" by force
qed (use assms(1) in \<open>auto simp: distinct_map_filter\<close>)

lemma accounted_take:
  assumes "accounted (t, held)" "pt_extract i t = (Some q, t')"
  shows "accounted (t', (i, q) # held)"
proof -
  have m: "map_of (pt_requests t) i = Some q" and t': "t' = t\<lparr>pt_requests := filter (\<lambda>e. fst e \<noteq> i) (pt_requests t)\<rparr>"
    using assms(2) by (auto simp: pt_extract_def)
  have "distinct (map fst (pt_requests t))" using assms(1) by (simp add: accounted_def)
  note x = extract_perm [OF this m]
  have "issued t' = issued t" by (simp add: t' issued_def)
  with assms(1) x show ?thesis unfolding accounted_def t' by auto
qed

lemma accounted_give:
  assumes "accounted (t, held @ (i, q) # held')"
  shows "accounted (set_value i q res t, held @ held')"
proof -
  have "issued (set_value i q res t) = issued t" by (simp add: issued_def set_value_def)
  with assms show ?thesis by (auto simp: accounted_def set_value_def)
qed

lemma accounted_settle:
  assumes "accounted (t, held)"
  shows "accounted (pt_settle i res t, held)"
proof (cases "map_of (pt_requests t) i")
  case None
  then have "filter (\<lambda>e. fst e \<noteq> i) (pt_requests t) = pt_requests t"
    by (auto simp: map_of_eq_None_iff filter_id_conv)
  with None assms show ?thesis by (simp add: pt_settle_def pt_extract_def)
next
  case (Some q)
  then obtain t' where e: "pt_extract i t = (Some q, t')" by (simp add: pt_extract_def)
  from accounted_give [of _ "[]", simplified, OF accounted_take [OF assms e]] show ?thesis
    by (simp add: pt_settle_def e)
qed

lemma accounted_cancel:
  assumes "accounted (t, held)"
  shows "accounted (pt_cancel status t, held)"
proof -
  define D where "D = map (\<lambda>(i, q). (i, q, Unexpect status :: response expect)) (pt_requests t)"
  have m: "map fst D = map fst (pt_requests t)" by (auto simp: D_def)
  then have i: "fst ` set D = fst ` set (pt_requests t)" by (metis list.set_map)
  have c: "pt_cancel status t = t\<lparr>pt_running := False, pt_requests := [], pt_done := pt_done t @ D\<rparr>"
    by (simp add: pt_cancel_def D_def)
  have "issued (pt_cancel status t) = issued t" by (simp add: issued_def c)
  with assms show ?thesis by (auto simp: accounted_def c m i image_Un)
qed

lemma accounted_open:
  assumes "accounted (t, held)" "pt_counter t \<noteq> - 1" "pt_open q t = (Inr i, t')"
  shows "accounted (t', held)"
proof -
  have r: "pt_running t" using assms(3) by (simp add: pt_open_def split: if_splits)
  have t': "i = next_id t" "t' = t\<lparr>pt_counter := next_id t, pt_requests := pt_requests t @ [(next_id t, q)]\<rparr>"
    using pt_open_ok [OF assms(1,2) r, of q] assms(3) by auto
  have "issued t' = insert (next_id t) (issued t)" using issued_next(2) [OF assms(2)] by (simp add: t' issued_def)
  with assms(1) issued_next(1) [OF assms(2)] r show ?thesis by (auto simp: accounted_def t')
qed

lemma pt_move_accounted: "pt_move s s' \<Longrightarrow> accounted s \<Longrightarrow> accounted s'"
proof (induction rule: pt_move.induct)
  case (start t held)
  then show ?case by (simp add: accounted_def issued_def)
qed (simp_all add: accounted_open accounted_take accounted_give accounted_settle accounted_cancel)

lemma first_id: "{i :: u32. i \<noteq> 0 \<and> i \<le> 1} = {1}"
  by (auto simp: word_le_nat_alt unsigned_eq_0_iff le_Suc_eq)
    (metis One_nat_def le_SucE le_zero_eq unsigned_1 unsigned_eq_0_iff unsigned_word_eqI)

section \<open>The contract of a transport\<close>

locale transport_runs =
  fixes step :: "'s \<Rightarrow> 's \<Rightarrow> bool" and table :: "'s \<Rightarrow> 'q ptable" and held :: "'s \<Rightarrow> (u32 \<times> 'q) list"
  assumes step_moves: "step s s' \<Longrightarrow> pt_move\<^sup>*\<^sup>* (table s, held s) (table s', held s')"
begin

lemma step_accounted:
  assumes "step s s'" "accounted (table s, held s)"
  shows "accounted (table s', held s')"
proof -
  have "accounted y" if "pt_move\<^sup>*\<^sup>* x y" "accounted x" for x y
    using that by (induction rule: rtranclp_induct) (auto intro: pt_move_accounted)
  with step_moves [OF assms(1)] assms(2) show ?thesis by blast
qed

lemma run_accounted: "step\<^sup>*\<^sup>* s s' \<Longrightarrow> accounted (table s, held s) \<Longrightarrow> accounted (table s', held s')"
  by (induction rule: rtranclp_induct) (auto intro: step_accounted)

text \<open>No request is lost and none is answered twice; when the transport has stopped all are answered.\<close>

lemma all_answered:
  assumes "step\<^sup>*\<^sup>* s s'" "accounted (table s, held s)" "held s' = []" "\<not> pt_running (table s')"
  shows "fst ` set (pt_done (table s')) = issued (table s') \<and> distinct (map fst (pt_done (table s')))"
  using run_accounted [OF assms(1,2)] assms(3,4) by (auto simp: accounted_def)

end

end
