(* ===== verification/Server.thy ===== *)
theory Server
  imports Handler_Props Inflight
begin

text \<open>
  \<^verbatim>\<open>server::Connection\<close> and \<^verbatim>\<open>server::Server\<close> of \<^verbatim>\<open>madbfs-server/server.hpp\<close> and \<^verbatim>\<open>server.cpp\<close>. The
  connection reads requests, has them handled by one worker thread (a ping at once), and sends the
  responses in the order they are ready; its coroutines and the worker are a step relation.
\<close>

section \<open>State\<close>

record ('s, 'k) server_conn =
  sv_running :: bool
  sv_requests :: "(u32 \<times> procedure) list"
  sv_pool :: "(u32 \<times> request) list"
  sv_channel :: "(u32 \<times> fallible_response) list"
  sv_socket :: 's
  sv_handler :: handler
  sv_kernel :: 'k

definition mk_server_conn :: "'s \<Rightarrow> 'k \<Rightarrow> ('s, 'k) server_conn" where
  "mk_server_conn sock k = \<lparr>sv_running = False, sv_requests = [], sv_pool = [], sv_channel = [],
     sv_socket = sock, sv_handler = mk_handler, sv_kernel = k\<rparr>"

text \<open>Responses whose data lies in the buffer of the request.\<close>

definition in_buffer_of_request :: "fallible_response \<Rightarrow> bool" where
  "in_buffer_of_request r = (case r of OkResponse (RespListdir _) \<Rightarrow> True | OkResponse (RespReadlink _) \<Rightarrow> True
     | OkResponse (RespRead _) \<Rightarrow> True | _ \<Rightarrow> False)"

definition buffer_in_use :: "u32 \<Rightarrow> ('s, 'k) server_conn \<Rightarrow> bool" where
  "buffer_in_use i s = (i \<in> fst ` set (sv_pool s) \<or> (\<exists>(j, r) \<in> set (sv_channel s). j = i \<and> in_buffer_of_request r))"

section \<open>Operations\<close>

definition sv_extract :: "u32 \<Rightarrow> ('s, 'k) server_conn \<Rightarrow> procedure option \<times> ('s, 'k) server_conn" where
  "sv_extract i s = (map_of (sv_requests s) i, s\<lparr>sv_requests := filter (\<lambda>e. fst e \<noteq> i) (sv_requests s)\<rparr>)"

text \<open>\<^verbatim>\<open>handle_request\<close> and what becomes of its result: it is sent to the channel.\<close>

definition sv_handle :: "'k kernel \<Rightarrow> u32 \<Rightarrow> request \<Rightarrow> ('s, 'k) server_conn \<Rightarrow> unit expect \<times> ('s, 'k) server_conn" where
  "sv_handle sys i req s =
     (case handle_req sys req (sv_handler s) (sv_kernel s) of
        (r, h, k) \<Rightarrow>
          (let s = s\<lparr>sv_handler := h, sv_kernel := k\<rparr> in
           case r of Inl e \<Rightarrow> (Inl e, s) | Inr resp \<Rightarrow> (Inr (), s\<lparr>sv_channel := sv_channel s @ [(i, resp)]\<rparr>)))"

text \<open>
  One turn of the loop of \<^verbatim>\<open>run\<close>; an error code ends the loop. A request whose identifier is in use
  is read into the buffer of the request it clashes with and then ignored: when that one is still
  being handled, or its response still refers to the buffer, the execution is undefined.
\<close>

definition sv_receive :: "'s socket_ops \<Rightarrow> 'k kernel \<Rightarrow> bool \<Rightarrow> ('s, 'k) server_conn \<Rightarrow> unit expect \<times> ('s, 'k) server_conn" where
  "sv_receive ops sys big s =
     (case receive_request_header (sk_read ops) big (sv_socket s) of
        (Inl e, sock) \<Rightarrow> (Inl e, s\<lparr>sv_socket := sock\<rparr>)
      | (Inr h, sock) \<Rightarrow>
          (case receive_request (sk_read ops) big h sock of
             (r, sock) \<Rightarrow>
               (let i = qh_id h; s' = s\<lparr>sv_socket := sock\<rparr> in
                if i \<in> fst ` set (sv_requests s) then
                  (if buffer_in_use i s then (Inl UB, s') else (Inr (), s'))
                else case r of
                    Inl e \<Rightarrow> (Inl e, s')
                  | Inr req \<Rightarrow>
                      (let s' = s'\<lparr>sv_requests := sv_requests s @ [(i, qh_proc h)]\<rparr> in
                       if req_proc req = PPing then sv_handle sys i req s'
                       else (Inr (), s'\<lparr>sv_pool := sv_pool s @ [(i, req)]\<rparr>)))))"

text \<open>The worker thread takes the next request.\<close>

definition sv_work :: "'k kernel \<Rightarrow> ('s, 'k) server_conn \<Rightarrow> unit expect \<times> ('s, 'k) server_conn" where
  "sv_work sys s =
     (case sv_pool s of
        [] \<Rightarrow> (Inr (), s)
      | (i, req) # rest \<Rightarrow> sv_handle sys i req (s\<lparr>sv_pool := rest\<rparr>))"

text \<open>One turn of \<^verbatim>\<open>send_response\<close>; the result of the write is ignored.\<close>

definition sv_respond :: "'s socket_ops \<Rightarrow> bool \<Rightarrow> ('s, 'k) server_conn \<Rightarrow> ('s, 'k) server_conn" where
  "sv_respond ops big s =
     (case sv_channel s of
        [] \<Rightarrow> s
      | (i, resp) # rest \<Rightarrow>
          (case sv_extract i (s\<lparr>sv_channel := rest\<rparr>) of
             (None, s) \<Rightarrow> s
           | (Some _, s) \<Rightarrow>
               (case send_response (sk_write ops) big resp i (sv_socket s) of
                  (_, sock) \<Rightarrow> s\<lparr>sv_socket := sock\<rparr>)))"

definition sv_stop :: "'s socket_ops \<Rightarrow> ('s, 'k) server_conn \<Rightarrow> ('s, 'k) server_conn" where
  "sv_stop ops s =
     (if sv_running s then s\<lparr>sv_running := False, sv_pool := [], sv_channel := [], sv_socket := sk_close ops (sv_socket s)\<rparr>
      else s)"

section \<open>Steps\<close>

inductive sv_step :: "'s socket_ops \<Rightarrow> 'k kernel \<Rightarrow> bool \<Rightarrow> ('s, 'k) server_conn \<Rightarrow> ('s, 'k) server_conn \<Rightarrow> bool"
  for ops sys big where
  receive: "sv_running s \<Longrightarrow> sv_receive ops sys big s = (Inr (), s') \<Longrightarrow> sv_step ops sys big s s'"
| broken: "sv_running s \<Longrightarrow> sv_receive ops sys big s = (Unexpect e, s') \<Longrightarrow> sv_step ops sys big s s'"
| work: "sv_pool s \<noteq> [] \<Longrightarrow> sv_work sys s = (Inr (), s') \<Longrightarrow> sv_step ops sys big s s'"
| respond: "sv_channel s \<noteq> [] \<Longrightarrow> sv_step ops sys big s (sv_respond ops big s)"
| stop: "sv_step ops sys big s (sv_stop ops s)"

text \<open>
  Every request that was accepted and not answered is either waiting for the worker or its
  response is waiting for the socket, and in exactly one of these places.
\<close>

definition in_place :: "bool \<Rightarrow> u32 list \<Rightarrow> u32 list \<Rightarrow> u32 list \<Rightarrow> bool" where
  "in_place running requests pool channel =
     (distinct (pool @ channel) \<and> distinct requests \<and> set (pool @ channel) \<subseteq> set requests \<and>
      (running \<longrightarrow> set requests \<subseteq> set (pool @ channel)))"

definition sv_inv :: "('s, 'k) server_conn \<Rightarrow> bool" where
  "sv_inv s = in_place (sv_running s) (map fst (sv_requests s)) (map fst (sv_pool s)) (map fst (sv_channel s))"

lemma in_place_moves:
  "in_place r rs ps cs \<Longrightarrow> i \<notin> set rs \<Longrightarrow> in_place r (rs @ [i]) (ps @ [i]) cs"
  "in_place r rs ps cs \<Longrightarrow> i \<notin> set rs \<Longrightarrow> in_place r (rs @ [i]) ps (cs @ [i])"
  "in_place r rs (i # ps) cs \<Longrightarrow> in_place r rs ps (cs @ [i])"
  "in_place r rs ps (i # cs) \<Longrightarrow> in_place r (filter (\<lambda>j. j \<noteq> i) rs) ps cs"
  "in_place r rs ps cs \<Longrightarrow> in_place False rs [] []"
  by (auto simp: in_place_def)

lemma filter_ids: "map fst (filter (\<lambda>e. fst e \<noteq> i) xs) = filter (\<lambda>j. j \<noteq> i) (map fst xs)"
  by (simp add: filter_map comp_def)

lemma sv_handle_sel:
  assumes "sv_handle sys i req s = (r, s')"
  shows "sv_requests s' = sv_requests s" "sv_pool s' = sv_pool s" "sv_running s' = sv_running s" "sv_socket s' = sv_socket s"
    "r = Inr () \<Longrightarrow> \<exists>resp. fst (handle_req sys req (sv_handler s) (sv_kernel s)) = Inr resp \<and> sv_channel s' = sv_channel s @ [(i, resp)]"
    "r = Inl e \<Longrightarrow> e = Hang"
  using assms handle_req_answers [of req sys "sv_handler s" "sv_kernel s"]
  by (auto simp: sv_handle_def Let_def answers_def split: prod.splits sum.splits)

lemma sv_receive_cases:
  assumes "sv_receive ops sys big s = (r, s')"
  obtains (ignored) sock where "s' = s\<lparr>sv_socket := sock\<rparr>"
  | (accepted) sock and h :: request_header and req where "s' = s\<lparr>sv_socket := sock, sv_requests := sv_requests s @ [(qh_id h, qh_proc h)],
      sv_pool := sv_pool s @ [(qh_id h, req)]\<rparr>" "qh_id h \<notin> fst ` set (sv_requests s)" "r = Inr ()"
  | (handled) sock and h :: request_header and req where "sv_handle sys (qh_id h) req (s\<lparr>sv_socket := sock,
      sv_requests := sv_requests s @ [(qh_id h, qh_proc h)]\<rparr>) = (r, s')" "qh_id h \<notin> fst ` set (sv_requests s)"
proof -
  obtain hr sock where h: "receive_request_header (sk_read ops) big (sv_socket s) = (hr, sock)" by fastforce
  show thesis
  proof (cases hr)
    case (Inl f)
    with assms h show ?thesis by (intro ignored [of sock]) (simp add: sv_receive_def)
  next
    case (Inr hd)
    obtain q sock2 where q: "receive_request (sk_read ops) big hd sock = (q, sock2)" by fastforce
    note run = assms [unfolded sv_receive_def h Inr prod.case sum.case q Let_def]
    show ?thesis
    proof (cases "qh_id hd \<in> fst ` set (sv_requests s)")
      case True
      with run show ?thesis by (intro ignored [of sock2]) (auto split: if_splits)
    next
      case new: False
      show ?thesis
      proof (cases q)
        case (Inl f)
        with run new show ?thesis by (intro ignored [of sock2]) simp
      next
        case (Inr req)
        with run new show ?thesis
          by (cases "req_proc req = PPing") (auto intro: handled accepted)
      qed
    qed
  qed
qed

lemma sv_receive_inv:
  assumes run: "sv_receive ops sys big s = (r, s')" and r: "r = Inr () \<or> r = Unexpect e" and inv: "sv_inv s"
  shows "sv_inv s'"
proof (rule sv_receive_cases [OF run])
  fix sock assume "s' = s\<lparr>sv_socket := sock\<rparr>"
  with inv show ?thesis by (simp add: sv_inv_def)
next
  fix sock h req assume "s' = s\<lparr>sv_socket := sock, sv_requests := sv_requests s @ [(qh_id h, qh_proc h)],
      sv_pool := sv_pool s @ [(qh_id h, req)]\<rparr>" "qh_id h \<notin> fst ` set (sv_requests s)"
  with inv show ?thesis by (simp add: sv_inv_def in_place_moves(1))
next
  fix sock h req
  assume h: "sv_handle sys (qh_id h) req (s\<lparr>sv_socket := sock, sv_requests := sv_requests s @ [(qh_id h, qh_proc h)]\<rparr>) = (r, s')"
    and new: "qh_id h \<notin> fst ` set (sv_requests s)"
  have "r = Inr ()" using sv_handle_sel(6) [OF h] r by auto
  from sv_handle_sel(1-3) [OF h] sv_handle_sel(5) [OF h this] inv new show ?thesis
    by (elim exE conjE) (simp add: sv_inv_def in_place_moves(2))
qed

lemma sv_step_inv: "sv_step ops sys big s s' \<Longrightarrow> sv_inv s \<Longrightarrow> sv_inv s'"
proof (induction rule: sv_step.induct)
  case (work s s')
  then obtain i req rest where p: "sv_pool s = (i, req) # rest" by (cases "sv_pool s") auto
  then have run: "sv_handle sys i req (s\<lparr>sv_pool := rest\<rparr>) = (Inr (), s')" using work by (simp add: sv_work_def)
  from sv_handle_sel(1-3) [OF run] sv_handle_sel(5) [OF run] p work(3) show ?case
    by (auto simp: sv_inv_def intro: in_place_moves(3))
next
  case (respond s)
  then obtain i resp rest where c: "sv_channel s = (i, resp) # rest" by (cases "sv_channel s") auto
  have "sv_inv (s\<lparr>sv_channel := rest, sv_requests := filter (\<lambda>e. fst e \<noteq> i) (sv_requests s)\<rparr>)"
    using respond(2) c by (auto simp: sv_inv_def filter_ids intro: in_place_moves(4))
  moreover have "sv_inv (s'\<lparr>sv_socket := x\<rparr>) = sv_inv s'" for s' :: "('a, 'b) server_conn" and x by (simp add: sv_inv_def)
  ultimately show ?case by (auto simp: sv_respond_def c sv_extract_def split: prod.splits option.splits)
next
  case (stop s)
  then show ?case by (auto simp: sv_stop_def sv_inv_def intro: in_place_moves(5))
qed (auto intro: sv_receive_inv)

interpretation server_runs: step_invariant "sv_step ops sys big" sv_inv for ops sys big
  by unfold_locales (rule sv_step_inv)

end
