(* ===== verification/Proxy.thy ===== *)
theory Proxy
  imports Inflight
begin

text \<open>
  \<^verbatim>\<open>ProxyTransport\<close> of \<^verbatim>\<open>madbfs/transport/proxy_transport.hpp\<close> and \<^verbatim>\<open>proxy_transport.cpp\<close>: requests are
  numbered, queued in a channel, written to the socket by one coroutine, and answered by
  another that reads responses in whatever order they come. The interleavings of \<^verbatim>\<open>send\<close>, \<^verbatim>\<open>stop\<close>,
  the timers and the two coroutines are a step relation between their suspension points. The
  socket is a parameter.
\<close>

section \<open>State\<close>

text \<open>
  \<open>px_channel\<close>: the sends waiting in the channel (it has no buffer), in order. \<open>px_current\<close>: the
  promise \<^verbatim>\<open>response_receive\<close> has taken out of the table while it reads the payload.
\<close>

record 's proxy =
  px_table :: "request ptable"
  px_channel :: "(u32 \<times> request) list"
  px_current :: "(u32 \<times> request \<times> response_header) option"
  px_socket :: 's

definition mk_proxy :: "'s \<Rightarrow> 's proxy" where
  "mk_proxy sock = \<lparr>px_table = pt_init, px_channel = [], px_current = None, px_socket = sock\<rparr>"

definition px_start :: "'s proxy \<Rightarrow> 's proxy" where
  "px_start p = p\<lparr>px_table := (px_table p)\<lparr>pt_running := True\<rparr>\<rparr>"

section \<open>Operations\<close>

text \<open>\<^verbatim>\<open>send\<close> up to the point where it waits for the channel.\<close>

definition px_send :: "request \<Rightarrow> 's proxy \<Rightarrow> u32 expect \<times> 's proxy" where
  "px_send req p =
     (case pt_open req (px_table p) of
        (Inl e, t) \<Rightarrow> (Inl e, p\<lparr>px_table := t\<rparr>)
      | (Inr i, t) \<Rightarrow> (Inr i, p\<lparr>px_table := t, px_channel := px_channel p @ [(i, req)]\<rparr>))"

text \<open>The callback of \<^verbatim>\<open>async::timeout\<close> in \<^verbatim>\<open>send\<close>.\<close>

definition px_timeout :: "u32 \<Rightarrow> 's proxy \<Rightarrow> 's proxy" where
  "px_timeout i p = p\<lparr>px_table := pt_settle i (Unexpect timed_out) (px_table p)\<rparr>"

definition px_stop :: "'s socket_ops \<Rightarrow> errc \<Rightarrow> 's proxy \<Rightarrow> 's proxy" where
  "px_stop ops status p =
     p\<lparr>px_table := pt_stop status (px_table p),
       px_channel := (if pt_running (px_table p) then [] else px_channel p),
       px_socket := sk_close ops (px_socket p)\<rparr>"

text \<open>One turn of \<^verbatim>\<open>request_send\<close>, for the request at the head of the channel.\<close>

definition request_send :: "'s socket_ops \<Rightarrow> bool \<Rightarrow> 's proxy \<Rightarrow> 's proxy" where
  "request_send ops big p =
     (case px_channel p of
        [] \<Rightarrow> p
      | (i, req) # rest \<Rightarrow>
          (case send_request (sk_write ops) big req i (px_socket p) of
             (r, sock) \<Rightarrow>
               (let p = p\<lparr>px_channel := rest, px_socket := sock\<rparr> in
                case r of
                  Inr _ \<Rightarrow> p
                | Inl e \<Rightarrow> p\<lparr>px_table := pt_settle i (Inl e) (px_table p)\<rparr>)))"

text \<open>
  The first half of a turn of \<^verbatim>\<open>response_receive\<close>: the header. A response nobody waits for is to be
  discarded, but the coroutine of \<^verbatim>\<open>async::discard\<close> is created and dropped without being awaited:
  nothing is read. When the header cannot be read the coroutine ends.
\<close>

definition response_header_step :: "'s socket_ops \<Rightarrow> bool \<Rightarrow> 's proxy \<Rightarrow> unit expect \<times> 's proxy" where
  "response_header_step ops big p =
     (case receive_response_header (sk_read ops) big (px_socket p) of
        (Inl e, sock) \<Rightarrow> (Inl e, p\<lparr>px_socket := sock\<rparr>)
      | (Inr h, sock) \<Rightarrow>
          (case pt_extract (ph_id h) (px_table p) of
             (None, t) \<Rightarrow> (Inr (), p\<lparr>px_socket := sock\<rparr>)
           | (Some req, t) \<Rightarrow>
               (Inr (), p\<lparr>px_socket := sock, px_table := t, px_current := Some (ph_id h, req, h)\<rparr>)))"

text \<open>The second half: the payload, and the promise is set.\<close>

definition response_payload_step :: "'s socket_ops \<Rightarrow> bool \<Rightarrow> 's proxy \<Rightarrow> 's proxy" where
  "response_payload_step ops big p =
     (case px_current p of
        None \<Rightarrow> p
      | Some (i, req, h) \<Rightarrow>
          (case receive_response (sk_read ops) big h req (px_socket p) of
             (res, sock) \<Rightarrow>
               p\<lparr>px_socket := sock, px_current := None, px_table := set_value i req res (px_table p)\<rparr>))"

text \<open>The completion handler of \<^verbatim>\<open>response_receive\<close> in \<^verbatim>\<open>start\<close>.\<close>

definition response_receive_end :: "'s proxy \<Rightarrow> 's proxy" where
  "response_receive_end p =
     p\<lparr>px_table := pt_cancel operation_canceled (px_table p), px_channel := []\<rparr>"

text \<open>A full turn of \<^verbatim>\<open>response_receive\<close>.\<close>

definition response_receive :: "'s socket_ops \<Rightarrow> bool \<Rightarrow> 's proxy \<Rightarrow> unit expect \<times> 's proxy" where
  "response_receive ops big p =
     (case response_header_step ops big p of
        (Inl e, p) \<Rightarrow> (Inl e, p)
      | (Inr _, p) \<Rightarrow> (Inr (), response_payload_step ops big p))"

section \<open>Steps\<close>

inductive px_step :: "'s socket_ops \<Rightarrow> bool \<Rightarrow> 's proxy \<Rightarrow> 's proxy \<Rightarrow> bool" for ops big where
  start: "\<not> pt_running (px_table p) \<Longrightarrow> pt_requests (px_table p) = [] \<Longrightarrow> px_step ops big p (px_start p)"
| send: "pt_counter (px_table p) \<noteq> - 1 \<Longrightarrow> px_send req p = (Inr i, p') \<Longrightarrow> px_step ops big p p'"
| refuse: "px_send req p = (Unexpect e, p') \<Longrightarrow> px_step ops big p p'"
| expire: "px_step ops big p (px_timeout i p)"
| stop: "px_step ops big p (px_stop ops status p)"
| transmit: "px_channel p \<noteq> [] \<Longrightarrow> px_step ops big p (request_send ops big p)"
| header: "px_current p = None \<Longrightarrow> response_header_step ops big p = (Inr (), p') \<Longrightarrow> px_step ops big p p'"
| payload: "px_current p = Some c \<Longrightarrow> px_step ops big p (response_payload_step ops big p)"
| finish: "px_current p = None \<Longrightarrow> px_step ops big p (response_receive_end p)"

definition px_held :: "'s proxy \<Rightarrow> (u32 \<times> request) list" where
  "px_held p = (case px_current p of None \<Rightarrow> [] | Some (i, req, h) \<Rightarrow> [(i, req)])"

lemma px_step_moves: "px_step ops big p p' \<Longrightarrow> pt_move\<^sup>*\<^sup>* (px_table p, px_held p) (px_table p', px_held p')"
proof (induction rule: px_step.induct)
  case (start p)
  then show ?case by (auto simp: px_start_def px_held_def intro!: r_into_rtranclp pt_move.start)
next
  case (send p req i p')
  then show ?case
    by (auto simp: px_send_def px_held_def intro!: r_into_rtranclp pt_move.issue split: prod.splits sum.splits)
next
  case (refuse req p e p')
  then show ?case
    by (auto simp: px_send_def pt_open_def Let_def px_held_def split: if_splits)
next
  case (expire p i)
  then show ?case by (auto simp: px_timeout_def px_held_def intro!: r_into_rtranclp pt_move.settle)
next
  case (stop p status)
  then show ?case by (auto simp: px_stop_def pt_stop_def px_held_def intro!: r_into_rtranclp pt_move.cancel)
next
  case (transmit p)
  then show ?case
    by (auto simp: request_send_def Let_def px_held_def intro!: r_into_rtranclp pt_move.settle split: list.splits prod.splits sum.splits)
next
  case (header p p')
  then show ?case
    by (auto simp: response_header_step_def px_held_def intro!: r_into_rtranclp pt_move.take pt_move.idle
        split: list.splits prod.splits sum.splits option.splits)
next
  case (payload p c)
  then show ?case
    using pt_move.give [of "px_table p" "[]"]
    by (auto simp: response_payload_step_def px_held_def split: prod.splits)
next
  case (finish p)
  then show ?case by (auto simp: response_receive_end_def px_held_def intro!: r_into_rtranclp pt_move.cancel)
qed

interpretation proxy_runs: transport_runs "px_step ops big" px_table px_held for ops big
  by unfold_locales (rule px_step_moves)

section \<open>Matching responses to requests\<close>

text \<open>What the client makes of an answer: the status of a failure is narrowed to 8 bits.\<close>

definition client_view :: "fallible_response \<Rightarrow> response expect" where
  "client_view r = (case r of OkResponse resp \<Rightarrow> Inr resp | FailedResponse p st \<Rightarrow> Unexpect (ucast (ucast st :: u8)))"

definition answer_fits :: "bool \<Rightarrow> request \<Rightarrow> fallible_response \<Rightarrow> bool" where
  "answer_fits big req r = (case r of OkResponse resp \<Rightarrow> response_fits big req resp
     | FailedResponse p st \<Rightarrow> p = req_proc req \<and> (ucast st :: u8) \<noteq> 0)"

lemma ucast_nonzero: "(x :: u8) \<noteq> 0 \<Longrightarrow> (ucast x :: errc) \<noteq> 0"
proof
  assume "x \<noteq> 0" "(ucast x :: errc) = 0"
  then have "unat (ucast x :: errc) = 0" by simp
  moreover have "unat x < 2 ^ 8" using unsigned_less [of x, where ?'a = nat] by simp
  then have "unat (ucast x :: errc) = unat x" by (simp add: unsigned_ucast_eq take_bit_nat_eq_self)
  ultimately show False using \<open>x \<noteq> 0\<close> by (simp add: unsigned_eq_0_iff)
qed

lemma current_none: "px_current p = None \<Longrightarrow> p\<lparr>px_socket := s, px_current := None, px_table := t\<rparr> = p\<lparr>px_socket := s, px_table := t\<rparr>"
  by simp

lemma response_received:
  assumes "stream_ok (sk_read ops) pend" "px_current p = None" "map_of (pt_requests (px_table p)) i = Some req"
    "answer_fits big req r" "pend (px_socket p) = build_response big r i @ rest"
  shows "\<exists>sock. response_receive ops big' p =
      (Inr (), p\<lparr>px_socket := sock, px_table := pt_settle i (client_view r) (px_table p)\<rparr>) \<and> pend sock = rest"
proof (cases r)
  case (OkResponse resp)
  with assms(4) have "response_fits big req resp" by (simp add: answer_fits_def)
  from receive_response_at [OF assms(1) this, of "px_socket p" i rest big'] assms(5) OkResponse obtain h s1 s2 where
    "receive_response_header (sk_read ops) big' (px_socket p) = (Inr h, s1)" "ph_id h = i"
    "receive_response (sk_read ops) big' h req s1 = (Inr resp, s2)" "pend s2 = rest" by (auto simp del: build_response.simps)
  with assms(2,3) OkResponse show ?thesis
    by (auto simp: response_receive_def response_header_step_def response_payload_step_def pt_extract_def pt_settle_def
        set_value_def client_view_def current_none intro!: exI [of _ s2])
next
  case (FailedResponse q st)
  with assms(4) have st: "(ucast (ucast st :: u8) :: errc) \<noteq> 0" by (simp add: answer_fits_def ucast_nonzero)
  from receive_failure_at [OF assms(1), of "px_socket p" big q st i rest big'] assms(5) FailedResponse obtain h s1 where
    "receive_response_header (sk_read ops) big' (px_socket p) = (Inr h, s1)" "ph_id h = i"
    "ph_status h = ucast (ucast st :: u8)" "pend s1 = rest" by (auto simp del: build_response.simps)
  with assms(2,3) FailedResponse st show ?thesis
    by (auto simp: response_receive_def response_header_step_def response_payload_step_def pt_extract_def pt_settle_def
        set_value_def client_view_def receive_response_def current_none intro!: exI [of _ s1])
qed

primrec receive_turns :: "nat \<Rightarrow> 's socket_ops \<Rightarrow> bool \<Rightarrow> 's proxy \<Rightarrow> unit expect \<times> 's proxy" where
  "receive_turns 0 ops big p = (Inr (), p)"
| "receive_turns (Suc n) ops big p =
     (case response_receive ops big p of (Inl e, p') \<Rightarrow> (Inl e, p') | (Inr _, p') \<Rightarrow> receive_turns n ops big p')"

definition settle_all :: "(u32 \<times> fallible_response) list \<Rightarrow> request ptable \<Rightarrow> request ptable" where
  "settle_all rs t = fold (\<lambda>(i, r). pt_settle i (client_view r)) rs t"

lemma settle_sel:
  assumes "map_of (pt_requests t) i = Some q"
  shows "pt_done (pt_settle i res t) = pt_done t @ [(i, q, res)]"
    "pt_requests (pt_settle i res t) = filter (\<lambda>e. fst e \<noteq> i) (pt_requests t)"
    "j \<noteq> i \<Longrightarrow> map_of (pt_requests (pt_settle i res t)) j = map_of (pt_requests t) j"
proof -
  show "pt_requests (pt_settle i res t) = filter (\<lambda>e. fst e \<noteq> i) (pt_requests t)"
    using assms by (simp add: pt_settle_def pt_extract_def set_value_def)
  moreover have "j \<noteq> i \<Longrightarrow> map_of (filter (\<lambda>e. fst e \<noteq> i) xs) j = map_of xs j" for xs :: "(u32 \<times> 'a) list"
    by (induction xs) auto
  ultimately show "j \<noteq> i \<Longrightarrow> map_of (pt_requests (pt_settle i res t)) j = map_of (pt_requests t) j" by simp
qed (use assms in \<open>simp add: pt_settle_def pt_extract_def set_value_def\<close>)

lemma settle_all_sel:
  assumes "distinct (map fst rs)" "\<And>i r. (i, r) \<in> set rs \<Longrightarrow> map_of (pt_requests t) i \<noteq> None"
  shows "pt_done (settle_all rs t) = pt_done t @ map (\<lambda>(i, r). (i, the (map_of (pt_requests t) i), client_view r)) rs \<and>
    pt_requests (settle_all rs t) = filter (\<lambda>e. fst e \<notin> fst ` set rs) (pt_requests t)"
  using assms
proof (induction rs arbitrary: t)
  case (Cons e rs)
  obtain i r where e: "e = (i, r)" by fastforce
  from Cons.prems(2) [of i r] e obtain q where q: "map_of (pt_requests t) i = Some q" by auto
  note sel = settle_sel [OF q, where res = "client_view r"]
  have ne: "j \<noteq> i" if "(j, r') \<in> set rs" for j r' using Cons.prems(1) that e by force
  have ih: "pt_done (settle_all rs (pt_settle i (client_view r) t)) =
      pt_done (pt_settle i (client_view r) t) @
        map (\<lambda>(j, r'). (j, the (map_of (pt_requests (pt_settle i (client_view r) t)) j), client_view r')) rs \<and>
      pt_requests (settle_all rs (pt_settle i (client_view r) t)) =
        filter (\<lambda>e. fst e \<notin> fst ` set rs) (pt_requests (pt_settle i (client_view r) t))"
    using Cons.prems ne sel(3) by (intro Cons.IH) (auto simp: e)
  have "map (\<lambda>(j, r'). (j, the (map_of (pt_requests (pt_settle i (client_view r) t)) j), client_view r')) rs =
      map (\<lambda>(j, r'). (j, the (map_of (pt_requests t) j), client_view r')) rs"
    using ne sel(3) by (intro map_cong) auto
  with ih sel(1,2) q show ?case by (auto simp: settle_all_def e intro!: filter_cong)
qed (simp add: settle_all_def)

lemma responses_received:
  assumes "stream_ok (sk_read ops) pend" "px_current p = None" "distinct (map fst rs)"
    "\<And>i r. (i, r) \<in> set rs \<Longrightarrow> \<exists>req. map_of (pt_requests (px_table p)) i = Some req \<and> answer_fits big req r"
    "pend (px_socket p) = concat (map (\<lambda>(i, r). build_response big r i) rs) @ rest"
  shows "\<exists>sock. receive_turns (length rs) ops big' p =
      (Inr (), p\<lparr>px_socket := sock, px_table := settle_all rs (px_table p)\<rparr>) \<and> pend sock = rest"
  using assms(2-5)
proof (induction rs arbitrary: p)
  case (Cons e rs)
  obtain i r where e: "e = (i, r)" by fastforce
  from Cons.prems(3) [of i r] e obtain q where q: "map_of (pt_requests (px_table p)) i = Some q" "answer_fits big q r" by auto
  from response_received [OF assms(1) Cons.prems(1) q] Cons.prems(4) e obtain s1 where
    s1: "response_receive ops big' p = (Inr (), p\<lparr>px_socket := s1, px_table := pt_settle i (client_view r) (px_table p)\<rparr>)"
      "pend s1 = concat (map (\<lambda>(i, r). build_response big r i) rs) @ rest" by fastforce
  let ?p = "p\<lparr>px_socket := s1, px_table := pt_settle i (client_view r) (px_table p)\<rparr>"
  have ne: "j \<noteq> i" if "(j, r') \<in> set rs" for j r' using Cons.prems(2) that e by force
  have "\<exists>sock. receive_turns (length rs) ops big' ?p =
      (Inr (), ?p\<lparr>px_socket := sock, px_table := settle_all rs (px_table ?p)\<rparr>) \<and> pend sock = rest"
    using Cons.prems settle_sel(3) [OF q(1)] ne s1(2) by (intro Cons.IH) (auto simp: e)
  with s1(1) show ?case by (auto simp: settle_all_def e)
qed (simp add: settle_all_def, metis proxy.surjective proxy.update_convs(1,4) unit.exhaust)

section \<open>Properties\<close>

lemma init_accounted: "accounted (px_table (mk_proxy sock), px_held (mk_proxy sock))"
  by (auto simp: mk_proxy_def px_held_def accounted_def pt_init_def issued_def)

text \<open>C15: promises of the proxy transport. In every interleaving of sends, timers, \<^verbatim>\<open>stop\<close> and the two
  coroutines, over any socket and with fewer than \<open>2 ^ 32\<close> requests, every accepted request is in
  exactly one place: its promise is in the table, or its response is being read, or its promise was
  set, once. When the transport no longer runs the table is empty, so that nobody waits forever.\<close>

theorem proxy_promises:
  assumes "(px_step ops big)\<^sup>*\<^sup>* (mk_proxy sock) p"
  shows "distinct (map fst (pt_requests (px_table p)) @ map fst (px_held p) @ map fst (pt_done (px_table p))) \<and>
    fst ` set (pt_requests (px_table p)) \<union> fst ` set (px_held p) \<union> fst ` set (pt_done (px_table p)) =
      {i. i \<noteq> 0 \<and> i \<le> pt_counter (px_table p)} \<and>
    (\<not> pt_running (px_table p) \<longrightarrow> pt_requests (px_table p) = [])"
  using proxy_runs.run_accounted [OF assms init_accounted] by (simp add: accounted_def issued_def)

definition list_ops :: "(u8 list \<times> u8 list) socket_ops" where
  "list_ops = \<lparr>
     sk_read = (\<lambda>n (inp, out). case list_read n inp of (r, inp') \<Rightarrow> (r, inp', out)),
     sk_write = (\<lambda>bs (inp, out). (Inr (length bs), inp, out @ bs)),
     sk_close = (\<lambda>_. ([], []))\<rparr>"

lemma list_ops_ok: "stream_ok (sk_read list_ops) fst"
  by (auto simp: list_ops_def stream_ok_def list_read_def)

text \<open>A request that is sent, answered late and cancelled by \<^verbatim>\<open>stop\<close>.\<close>

theorem proxy_promises_witness:
  "fst ` set (pt_done (px_table (px_stop list_ops operation_canceled (snd (px_send (ReqPing 7) (px_start (mk_proxy ([], []))))))))
    = {1}"
proof -
  let ?p = "mk_proxy ([], []) :: (u8 list \<times> u8 list) proxy"
  let ?q = "snd (px_send (ReqPing 7) (px_start ?p))"
  have s1: "px_step list_ops False ?p (px_start ?p)"
    by (rule px_step.start) (simp_all add: mk_proxy_def pt_init_def)
  have o: "px_send (ReqPing 7) (px_start ?p) = (Inr 1, ?q)"
    by (simp add: px_send_def px_start_def mk_proxy_def pt_init_def pt_open_def next_id_def)
  have s2: "px_step list_ops False (px_start ?p) ?q"
    by (rule px_step.send [OF _ o]) (simp add: px_start_def mk_proxy_def pt_init_def)
  let ?e = "px_stop list_ops operation_canceled ?q"
  have run: "(px_step list_ops False)\<^sup>*\<^sup>* ?p ?e"
    by (rule converse_rtranclp_into_rtranclp [of "px_step list_ops False", OF s1],
        rule converse_rtranclp_into_rtranclp [of "px_step list_ops False", OF s2],
        rule r_into_rtranclp [of "px_step list_ops False", OF px_step.stop])
  have e: "\<not> pt_running (px_table ?e)" "px_held ?e = []" "pt_counter (px_table ?e) = 1"
    by (simp_all add: px_stop_def pt_stop_def pt_cancel_def px_send_def px_start_def mk_proxy_def pt_init_def pt_open_def
        next_id_def px_held_def)
  from proxy_promises [OF run] have
    "fst ` set (pt_requests (px_table ?e)) \<union> fst ` set (px_held ?e) \<union> fst ` set (pt_done (px_table ?e)) =
      {i. i \<noteq> 0 \<and> i \<le> pt_counter (px_table ?e)}" and r: "pt_requests (px_table ?e) = []"
    using e(1) by blast+
  from this(1) show ?thesis unfolding r e(2,3) first_id by simp
qed

text \<open>Responses in any order. When the next messages in the stream answer pending requests, whatever
  the order, receiving them sets exactly the promises of those requests, each with its own response
  or its status, in the order of arrival; other requests stay pending, and the stream is left behind
  the last message.\<close>

theorem responses_matched:
  assumes "stream_ok (sk_read ops) pend" "px_current p = None" "distinct (map fst rs)"
    "\<forall>(i, r) \<in> set rs. \<exists>req. map_of (pt_requests (px_table p)) i = Some req \<and> answer_fits big req r"
    "pend (px_socket p) = concat (map (\<lambda>(i, r). build_response big r i) rs) @ rest"
  shows "\<exists>p'. receive_turns (length rs) ops big' p = (Inr (), p') \<and> pend (px_socket p') = rest \<and>
    pt_done (px_table p') = pt_done (px_table p) @
      map (\<lambda>(i, r). (i, the (map_of (pt_requests (px_table p)) i), client_view r)) rs \<and>
    pt_requests (px_table p') = filter (\<lambda>e. fst e \<notin> fst ` set rs) (pt_requests (px_table p))"
proof -
  have fit: "\<exists>req. map_of (pt_requests (px_table p)) i = Some req \<and> answer_fits big req r" if "(i, r) \<in> set rs" for i r
    using assms(4) that by auto
  then have some: "map_of (pt_requests (px_table p)) i \<noteq> None" if "(i, r) \<in> set rs" for i r using that by fastforce
  from responses_received [OF assms(1-3) fit assms(5), of big'] settle_all_sel [OF assms(3) some]
  show ?thesis by auto
qed

text \<open>Two requests answered in the opposite order.\<close>

theorem responses_matched_witness:
  "\<exists>p'. receive_turns 2 list_ops True
      (mk_proxy (build_response False (OkResponse RespClose) 2 @ build_response False (OkResponse (RespPing 7)) 1, [])
        \<lparr>px_table := pt_init\<lparr>pt_requests := [(1, ReqPing 7), (2, ReqClose 3)]\<rparr>\<rparr>) = (Inr (), p') \<and>
    pt_done (px_table p') = [(2, ReqClose 3, Inr RespClose), (1, ReqPing 7, Inr (RespPing 7))] \<and>
    pt_requests (px_table p') = []"
proof -
  let ?rs = "[(2, OkResponse RespClose), (1, OkResponse (RespPing 7))]"
  let ?p = "mk_proxy (build_response False (OkResponse RespClose) 2 @ build_response False (OkResponse (RespPing 7)) 1, [])
        \<lparr>px_table := pt_init\<lparr>pt_requests := [(1, ReqPing 7), (2, ReqClose 3)]\<rparr>\<rparr>"
  have "answer_fits False (ReqPing 7) (OkResponse (RespPing 7))" "answer_fits False (ReqClose 3) (OkResponse RespClose)"
    by (simp_all add: answer_fits_def response_fits_def small_def wire_simps)
  then show ?thesis
    using responses_matched [OF list_ops_ok, of ?p ?rs False "[]" True]
    by (simp add: mk_proxy_def pt_init_def client_view_def eval_nat_numeral del: build_response.simps receive_turns.simps) blast
qed

text \<open>
  The payload of a response that comes after its request timed out stays in the stream: unless it is
  empty, the next header is read from the middle of it.
\<close>

lemma late_response_not_discarded:
  assumes "stream_ok (sk_read ops) pend" "px_current p = None" "map_of (pt_requests (px_table p)) i = None"
    "small (write_response big resp [])" "pend (px_socket p) = build_response big (OkResponse resp) i @ rest"
  shows "\<exists>sock. response_receive ops big' p = (Inr (), p\<lparr>px_socket := sock\<rparr>) \<and>
    pend sock = write_response big resp [] @ rest"
proof -
  let ?pl = "write_response big resp []"
  let ?sz = "word_of_nat (length ?pl) :: u64"
  let ?h = "to_net_bytes big i @ to_net_bytes big (proc_u8 (resp_proc resp)) @
    to_net_bytes big (0 :: errc) @ to_net_bytes big ?sz"
  have "pend (px_socket p) = ?h @ ?pl @ rest" using assms(5) by (simp add: build_response_eq del: build_response.simps)
  then obtain s1 where r1: "sk_read ops response_header_size (px_socket p) = (Inr ?h, s1)" and p1: "pend s1 = ?pl @ rest"
    by (rule stream_okD [OF assms(1)]) (simp_all add: response_header_size_def)
  have "receive_response_header (sk_read ops) big' (px_socket p) =
      (Inr \<lparr>ph_id = i, ph_proc = resp_proc resp, ph_status = 0, ph_size = ?sz\<rparr>, s1)"
    by (simp add: receive_response_header_def r1 handle_read_def parse_response_header_eq)
      (simp add: response_header_size_def)
  with assms(2,3) p1 show ?thesis
    by (auto simp: response_receive_def response_header_step_def response_payload_step_def pt_extract_def)
qed

end
