(* ===== verification/System.thy ===== *)
theory System
  imports Server Proxy "HOL-Library.Multiset"
begin

text \<open>
  The client's proxy transport and the server's connection composed over a socket: the bytes one
  side has written and the other has not read yet. Every interleaving of the client's coroutines,
  the server's coroutines and its worker is a run; the hosts may differ in endianness. The
  specification is that of a procedure call: a request is answered by the handler, once, and that
  answer is what the caller gets. Timers and closing are left out here.
\<close>

section \<open>The composed system\<close>

type_synonym wires = "u8 list \<times> u8 list"

text \<open>\<open>sy_log\<close> records which answer the handler gave to which request; no step depends on it.\<close>

record 'k system =
  sy_client :: "wires proxy"
  sy_server :: "(wires, 'k) server_conn"
  sy_log :: "(u32 \<times> request \<times> fallible_response) list"

definition mk_system :: "'k \<Rightarrow> 'k system" where
  "mk_system k = \<lparr>sy_client = px_start (mk_proxy ([], [])),
     sy_server = (mk_server_conn ([], []) k)\<lparr>sv_running := True\<rparr>, sy_log = []\<rparr>"

definition from_client :: "wires proxy \<Rightarrow> 'k system \<Rightarrow> 'k system" where
  "from_client c y = y\<lparr>sy_client := c, sy_server := (sy_server y)\<lparr>sv_socket := prod.swap (px_socket c)\<rparr>\<rparr>"

definition from_server :: "(wires, 'k) server_conn \<Rightarrow> 'k system \<Rightarrow> 'k system" where
  "from_server s y = y\<lparr>sy_server := s, sy_client := (sy_client y)\<lparr>px_socket := prod.swap (sv_socket s)\<rparr>\<rparr>"

text \<open>The answers in the channel that were not there before, as answers to a request.\<close>

definition note_answers :: "request \<Rightarrow> (wires, 'k) server_conn \<Rightarrow> 'k system \<Rightarrow> 'k system" where
  "note_answers req s y =
     y\<lparr>sy_log := sy_log y @ map (\<lambda>(i, r). (i, req, r)) (drop (length (sv_channel (sy_server y))) (sv_channel s))\<rparr>"

inductive sy_run :: "'k kernel \<Rightarrow> bool \<Rightarrow> bool \<Rightarrow> 'k system \<Rightarrow> 'k system \<Rightarrow> bool" for sys bc bs where
  transmit: "px_channel (sy_client y) \<noteq> [] \<Longrightarrow> sy_run sys bc bs y (from_client (request_send list_ops bc (sy_client y)) y)"
| accept: "receive_request_header (sk_read list_ops) bs (sv_socket (sy_server y)) = (Inr h, k1) \<Longrightarrow>
    receive_request (sk_read list_ops) bs h k1 = (Inr req, k2) \<Longrightarrow>
    sv_receive list_ops sys bs (sy_server y) = (Inr (), s) \<Longrightarrow>
    sy_run sys bc bs y (from_server s (note_answers req s y))"
| work: "sv_pool (sy_server y) = (i, req) # rest \<Longrightarrow> sv_work sys (sy_server y) = (Inr (), s) \<Longrightarrow>
    sy_run sys bc bs y (from_server s (note_answers req s y))"
| respond: "sv_channel (sy_server y) \<noteq> [] \<Longrightarrow> sy_run sys bc bs y (from_server (sv_respond list_ops bs (sy_server y)) y)"
| collect: "fst (px_socket (sy_client y)) \<noteq> [] \<Longrightarrow> response_receive list_ops bc (sy_client y) = (Inr (), c) \<Longrightarrow>
    sy_run sys bc bs y (from_client c y)"

inductive sy_step :: "'k kernel \<Rightarrow> bool \<Rightarrow> bool \<Rightarrow> 'k system \<Rightarrow> 'k system \<Rightarrow> bool" for sys bc bs where
  call: "pt_counter (px_table (sy_client y)) \<noteq> - 1 \<Longrightarrow> request_fits bc req \<Longrightarrow>
    px_send req (sy_client y) = (Inr i, c) \<Longrightarrow> sy_step sys bc bs y (from_client c y)"
| run: "sy_run sys bc bs y y' \<Longrightarrow> sy_step sys bc bs y y'"

section \<open>Where the requests are\<close>

text \<open>
  \<open>W\<close> are the requests on their way to the handler, \<open>A\<close> the answers on their way back; together
  they are the pending requests of the client.
\<close>

definition on_way :: "bool \<Rightarrow> (u32 \<times> request) list \<Rightarrow> u32 \<times> request \<Rightarrow> bool" where
  "on_way bc pending e = (map_of pending (fst e) = Some (snd e) \<and> request_fits bc (snd e))"

definition on_return :: "bool \<Rightarrow> (u32 \<times> request) list \<Rightarrow> (u32 \<times> request \<times> fallible_response) list \<Rightarrow> u32 \<times> fallible_response \<Rightarrow> bool" where
  "on_return bs pending lg e =
     (\<exists>q. map_of pending (fst e) = Some q \<and> (fst e, q, snd e) \<in> set lg \<and> answer_fits bs q (snd e))"

definition flow :: "bool \<Rightarrow> bool \<Rightarrow> (u32 \<times> request) list \<Rightarrow> (u32 \<times> request) list \<Rightarrow> (u32 \<times> fallible_response) list \<Rightarrow>
    (u32 \<times> request \<times> fallible_response) list \<Rightarrow> bool" where
  "flow bc bs pending W A lg =
     (distinct (map fst W @ map fst A) \<and> set (map fst W @ map fst A) = fst ` set pending \<and>
      list_all (on_way bc pending) W \<and> list_all (on_return bs pending lg) A)"

lemma on_way_mono: "on_way bc p e \<Longrightarrow> map_of p' (fst e) = map_of p (fst e) \<Longrightarrow> on_way bc p' e"
  by (simp add: on_way_def)

lemma on_return_mono:
  "on_return bs p lg e \<Longrightarrow> map_of p' (fst e) = map_of p (fst e) \<Longrightarrow> set lg \<subseteq> set lg' \<Longrightarrow> on_return bs p' lg' e"
  by (auto simp: on_return_def)

lemma way_keep:
  assumes "list_all (on_way bc p) W" "list_all (on_return bs p lg) A"
    "\<And>j. j \<in> fst ` set W \<union> fst ` set A \<Longrightarrow> map_of p' j = map_of p j"
  shows "list_all (on_way bc p') W" "list_all (on_return bs p' lg) A"
proof -
  have "map_of p' (fst e) = map_of p (fst e)" if "e \<in> set W" for e using assms(3) that by blast
  with assms(1) show "list_all (on_way bc p') W" by (elim list.pred_mono_strong) (blast intro: on_way_mono)
  have "map_of p' (fst e) = map_of p (fst e)" if "e \<in> set A" for e using assms(3) that by blast
  with assms(2) show "list_all (on_return bs p' lg) A" by (elim list.pred_mono_strong) (blast intro: on_return_mono)
qed

lemma flow_perm:
  assumes "flow bc bs pending W A lg" "mset W = mset W'" "mset A = mset A'"
  shows "flow bc bs pending W' A' lg"
proof -
  have "mset (map fst W @ map fst A) = mset (map fst W' @ map fst A')" using assms(2,3) by simp
  then have "distinct (map fst W @ map fst A) = distinct (map fst W' @ map fst A')"
    "set (map fst W @ map fst A) = set (map fst W' @ map fst A')"
    by (blast dest: mset_eq_imp_distinct_iff mset_eq_setD)+
  with assms(1) mset_eq_setD [OF assms(2)] mset_eq_setD [OF assms(3)] show ?thesis
    unfolding flow_def list_all_iff by simp
qed

lemma flow_call:
  assumes "flow bc bs pending W A lg" "i \<notin> fst ` set pending" "request_fits bc q"
  shows "flow bc bs (pending @ [(i, q)]) ((i, q) # W) A lg"
proof -
  have new: "map_of pending i = None" using assms(2) by (simp add: map_of_eq_None_iff)
  have ids: "distinct (map fst W @ map fst A)" "set (map fst W @ map fst A) = fst ` set pending"
    using assms(1) by (simp_all only: flow_def)
  have old: "map_of (pending @ [(i, q)]) j = map_of pending j" if "j \<in> fst ` set pending" for j
    using that assms(2) by (auto simp: map_add_def split: option.split)
  have prev: "list_all (on_way bc pending) W" "list_all (on_return bs pending lg) A" using assms(1) by (simp_all only: flow_def)
  have "j \<in> fst ` set W \<union> fst ` set A \<Longrightarrow> map_of (pending @ [(i, q)]) j = map_of pending j" for j
    using old ids(2) by (simp del: map_of_append) blast
  from way_keep [OF prev this] have "list_all (on_way bc (pending @ [(i, q)])) W" "list_all (on_return bs (pending @ [(i, q)]) lg) A"
    by blast+
  moreover have "on_way bc (pending @ [(i, q)]) (i, q)" using new assms(3) by (simp add: on_way_def map_add_def)
  moreover have "distinct (map fst ((i, q) # W) @ map fst A)"
    "set (map fst ((i, q) # W) @ map fst A) = fst ` set (pending @ [(i, q)])"
    using ids assms(2) by auto
  ultimately show ?thesis unfolding flow_def by simp
qed

lemma flow_answer:
  assumes "flow bc bs pending ((i, q) # W) A lg" "answer_fits bs q r"
  shows "flow bc bs pending W ((i, r) # A) (lg @ [(i, q, r)])"
proof -
  have "list_all (on_return bs pending (lg @ [(i, q, r)])) A"
    using assms(1) unfolding flow_def list_all_iff by (auto intro: on_return_mono)
  moreover have "on_return bs pending (lg @ [(i, q, r)]) (i, r)"
    using assms unfolding flow_def by (simp add: on_way_def on_return_def)
  ultimately show ?thesis using assms(1) unfolding flow_def by auto
qed

lemma filter_other: "j \<noteq> i \<Longrightarrow> map_of (filter (\<lambda>e. fst e \<noteq> i) xs) j = map_of xs j"
  by (induction xs) auto

lemma flow_return:
  assumes "flow bc bs pending W ((i, r) # A) lg"
  shows "\<exists>q. map_of pending i = Some q \<and> (i, q, r) \<in> set lg \<and> answer_fits bs q r"
    "flow bc bs (filter (\<lambda>e. fst e \<noteq> i) pending) W A lg"
proof -
  show "\<exists>q. map_of pending i = Some q \<and> (i, q, r) \<in> set lg \<and> answer_fits bs q r"
    using assms by (simp add: flow_def on_return_def)
  have ids: "distinct (map fst W @ map fst A)" "i \<notin> fst ` set W" "i \<notin> fst ` set A"
    "insert i (fst ` set W \<union> fst ` set A) = fst ` set pending"
    using assms by (auto simp: flow_def)
  then have nW: "fst e \<noteq> i" if "e \<in> set W" for e using that by force
  have nA: "fst e \<noteq> i" if "e \<in> set A" for e using that ids(3) by force
  have "fst ` set (filter (\<lambda>e. fst e \<noteq> i) pending) = fst ` set pending - {i}" by force
  with ids have "set (map fst W @ map fst A) = fst ` set (filter (\<lambda>e. fst e \<noteq> i) pending)" by auto
  moreover have prev: "list_all (on_way bc pending) W" "list_all (on_return bs pending lg) A"
    using assms by (simp_all add: flow_def)
  moreover have "list_all (on_way bc (filter (\<lambda>e. fst e \<noteq> i) pending)) W"
    "list_all (on_return bs (filter (\<lambda>e. fst e \<noteq> i) pending) lg) A"
    by (rule way_keep [OF prev]; use nW nA in \<open>auto simp: filter_other\<close>)+
  ultimately show "flow bc bs (filter (\<lambda>e. fst e \<noteq> i) pending) W A lg" using ids(1) unfolding flow_def by blast
qed

section \<open>The invariant\<close>

definition requests_bytes :: "bool \<Rightarrow> (u32 \<times> request) list \<Rightarrow> u8 list" where
  "requests_bytes bc Q = concat (map (\<lambda>(i, q). build_request bc q i) Q)"

definition responses_bytes :: "bool \<Rightarrow> (u32 \<times> fallible_response) list \<Rightarrow> u8 list" where
  "responses_bytes bs R = concat (map (\<lambda>(i, r). build_response bs r i) R)"

lemma bytes_simps [simp]:
  "requests_bytes bc [] = []" "requests_bytes bc ((i, q) # Q) = build_request bc q i @ requests_bytes bc Q"
  "requests_bytes bc (Q @ Q') = requests_bytes bc Q @ requests_bytes bc Q'"
  "responses_bytes bs [] = []" "responses_bytes bs ((i, r) # R) = build_response bs r i @ responses_bytes bs R"
  "responses_bytes bs (R @ R') = responses_bytes bs R @ responses_bytes bs R'"
  by (simp_all add: requests_bytes_def responses_bytes_def)

definition delivered :: "(u32 \<times> request \<times> fallible_response) list \<Rightarrow> (u32 \<times> request \<times> response expect) list \<Rightarrow> bool" where
  "delivered lg done = (\<forall>i q res. (i, q, res) \<in> set done \<longrightarrow> (\<exists>r. (i, q, r) \<in> set lg \<and> res = client_view r))"

text \<open>The handler has run once for each logged request, and not yet for those on their way.\<close>

definition once :: "u32 set \<Rightarrow> (u32 \<times> request \<times> fallible_response) list \<Rightarrow> u32 set \<Rightarrow> bool" where
  "once I lg S = (distinct (map fst lg) \<and> fst ` set lg \<subseteq> I \<and> fst ` set lg \<inter> S = {})"

lemma once_call: "once I lg S \<Longrightarrow> i \<notin> I \<Longrightarrow> once (insert i I) lg (insert i S)"
  by (auto simp: once_def)

lemma once_handle: "once I lg S \<Longrightarrow> i \<in> S \<Longrightarrow> i \<in> I \<Longrightarrow> once I (lg @ [(i, q, r)]) (S - {i})"
  by (auto simp: once_def)

definition to_handle :: "(u32 \<times> request) list \<Rightarrow> 'k system \<Rightarrow> u32 set" where
  "to_handle Q y = fst ` set (px_channel (sy_client y) @ Q @ sv_pool (sy_server y))"

text \<open>How far the requests in flight still have to go.\<close>

definition sy_weight :: "(u32 \<times> request) list \<Rightarrow> (u32 \<times> fallible_response) list \<Rightarrow> 'k system \<Rightarrow> nat" where
  "sy_weight Q R y = 5 * length (px_channel (sy_client y)) + 4 * length Q + 3 * length (sv_pool (sy_server y)) +
     2 * length (sv_channel (sy_server y)) + length R"

text \<open>\<open>Q\<close> and \<open>R\<close> are the messages on the wires, in order.\<close>

definition sy_ok :: "bool \<Rightarrow> bool \<Rightarrow> (u32 \<times> request) list \<Rightarrow> (u32 \<times> fallible_response) list \<Rightarrow> 'k system \<Rightarrow> bool" where
  "sy_ok bc bs Q R y =
     (let c = sy_client y; s = sy_server y; t = px_table c in
      px_socket c = (responses_bytes bs R, requests_bytes bc Q) \<and>
      sv_socket s = (requests_bytes bc Q, responses_bytes bs R) \<and>
      px_current c = None \<and> pt_running t \<and> sv_running s \<and> accounted (t, []) \<and>
      set (map fst (sv_requests s)) = set (map fst (sv_pool s) @ map fst (sv_channel s)) \<and>
      flow bc bs (pt_requests t) (px_channel c @ Q @ sv_pool s) (sv_channel s @ R) (sy_log y) \<and>
      delivered (sy_log y) (pt_done t) \<and> once (issued t) (sy_log y) (to_handle Q y))"

lemma sy_okD:
  assumes "sy_ok bc bs Q R y"
  shows "px_socket (sy_client y) = (responses_bytes bs R, requests_bytes bc Q)"
    "sv_socket (sy_server y) = (requests_bytes bc Q, responses_bytes bs R)"
    "px_current (sy_client y) = None" "pt_running (px_table (sy_client y))" "sv_running (sy_server y)"
    "accounted (px_table (sy_client y), [])"
    "set (map fst (sv_requests (sy_server y))) = set (map fst (sv_pool (sy_server y)) @ map fst (sv_channel (sy_server y)))"
    "flow bc bs (pt_requests (px_table (sy_client y))) (px_channel (sy_client y) @ Q @ sv_pool (sy_server y))
       (sv_channel (sy_server y) @ R) (sy_log y)"
    "delivered (sy_log y) (pt_done (px_table (sy_client y)))"
    "once (issued (px_table (sy_client y))) (sy_log y) (to_handle Q y)"
  using assms by (simp_all add: sy_ok_def Let_def)

lemma delivered_mono: "delivered lg done \<Longrightarrow> delivered (lg @ xs) done"
  unfolding delivered_def set_append by (intro allI impI) (elim allE impE, assumption, blast)

lemma sy_call:
  assumes ok: "sy_ok bc bs Q R y" and c: "pt_counter (px_table (sy_client y)) \<noteq> - 1" "request_fits bc req"
    "px_send req (sy_client y) = (Inr i, c)"
  shows "sy_ok bc bs Q R (from_client c y)"
proof -
  let ?t = "px_table (sy_client y)"
  note d = sy_okD [OF ok]
  note op = pt_open_ok [OF d(6) c(1) d(4), of req]
  have i: "i = next_id ?t" and c': "c = (sy_client y)\<lparr>px_table := snd (pt_open req ?t),
      px_channel := px_channel (sy_client y) @ [(i, req)]\<rparr>"
    using c(3) op by (auto simp: px_send_def)
  have acc: "accounted (snd (pt_open req ?t), [])" using accounted_open [OF d(6) c(1) op] op by simp
  have "i \<notin> issued ?t" using issued_next(1) [OF c(1)] i by simp
  then have new: "i \<notin> fst ` set (pt_requests ?t)" using d(6) by (auto simp: accounted_def)
  have "flow bc bs (pt_requests ?t @ [(i, req)]) ((px_channel (sy_client y) @ [(i, req)]) @ Q @ sv_pool (sy_server y))
      (sv_channel (sy_server y) @ R) (sy_log y)"
    by (rule flow_perm [OF flow_call [OF d(8) new c(2)]]) simp_all
  moreover have "once (issued (snd (pt_open req ?t))) (sy_log y) (insert i (to_handle Q y))"
    using once_call [OF d(10) issued_next(1) [OF c(1)]] issued_next(2) [OF c(1)] by (simp add: op i issued_def)
  ultimately show ?thesis
    using d acc by (simp add: sy_ok_def Let_def from_client_def c' op i to_handle_def)
qed

lemma sy_transmit:
  assumes ok: "sy_ok bc bs Q R y" and ne: "px_channel (sy_client y) \<noteq> []"
  shows "\<exists>Q'. sy_ok bc bs Q' R (from_client (request_send list_ops bc (sy_client y)) y) \<and>
    sy_weight Q' R (from_client (request_send list_ops bc (sy_client y)) y) < sy_weight Q R y"
proof -
  note d = sy_okD [OF ok]
  obtain i req rest where ch: "px_channel (sy_client y) = (i, req) # rest" using ne by (cases "px_channel (sy_client y)") auto
  have c: "request_send list_ops bc (sy_client y) = (sy_client y)\<lparr>px_channel := rest,
      px_socket := (responses_bytes bs R, requests_bytes bc Q @ build_request bc req i)\<rparr>"
    by (simp add: request_send_def ch send_request_def d(1) list_ops_def Let_def handle_write_def)
  have "flow bc bs (pt_requests (px_table (sy_client y))) (rest @ (Q @ [(i, req)]) @ sv_pool (sy_server y))
      (sv_channel (sy_server y) @ R) (sy_log y)"
    by (rule flow_perm [OF d(8)]) (simp_all add: ch)
  with d have "sy_ok bc bs (Q @ [(i, req)]) R (from_client (request_send list_ops bc (sy_client y)) y)"
    by (simp add: sy_ok_def Let_def from_client_def c to_handle_def ch)
  moreover have "sy_weight (Q @ [(i, req)]) R (from_client (request_send list_ops bc (sy_client y)) y) < sy_weight Q R y"
    by (simp add: sy_weight_def from_client_def c ch)
  ultimately show ?thesis by blast
qed

lemma sy_respond:
  assumes ok: "sy_ok bc bs Q R y" and ne: "sv_channel (sy_server y) \<noteq> []"
  shows "\<exists>R'. sy_ok bc bs Q R' (from_server (sv_respond list_ops bs (sy_server y)) y) \<and>
    sy_weight Q R' (from_server (sv_respond list_ops bs (sy_server y)) y) < sy_weight Q R y"
proof -
  let ?s = "sy_server y"
  note d = sy_okD [OF ok]
  obtain i r rest where ch: "sv_channel ?s = (i, r) # rest" using ne by (cases "sv_channel ?s") auto
  from d(7) ch have "i \<in> fst ` set (sv_requests ?s)" by simp
  then obtain pr where pr: "map_of (sv_requests ?s) i = Some pr" by (metis map_of_eq_None_iff not_None_eq)
  let ?rq = "filter (\<lambda>e. fst e \<noteq> i) (sv_requests ?s)"
  have s: "sv_respond list_ops bs ?s = ?s\<lparr>sv_channel := rest, sv_requests := ?rq,
      sv_socket := (requests_bytes bc Q, responses_bytes bs R @ build_response bs r i)\<rparr>"
    by (simp add: sv_respond_def ch sv_extract_def pr send_response_def d(2) list_ops_def Let_def del: build_response.simps)
  have "i \<notin> fst ` set (sv_pool ?s)" "i \<notin> fst ` set rest" using d(8) ch by (auto simp: flow_def)
  moreover have "fst ` set ?rq = fst ` set (sv_requests ?s) - {i}" by force
  moreover have "fst ` set (sv_requests ?s) = insert i (fst ` set (sv_pool ?s) \<union> fst ` set rest)" using d(7) ch by simp
  ultimately have "fst ` set ?rq = fst ` set (sv_pool ?s) \<union> fst ` set rest" by (metis Diff_insert_absorb Un_iff)
  moreover have "flow bc bs (pt_requests (px_table (sy_client y))) (px_channel (sy_client y) @ Q @ sv_pool ?s)
      (rest @ R @ [(i, r)]) (sy_log y)"
    by (rule flow_perm [OF d(8)]) (simp_all add: ch)
  ultimately have "sy_ok bc bs Q (R @ [(i, r)]) (from_server (sv_respond list_ops bs ?s) y)"
    using d by (simp add: sy_ok_def Let_def from_server_def s to_handle_def del: build_response.simps)
  moreover have "sy_weight Q (R @ [(i, r)]) (from_server (sv_respond list_ops bs ?s) y) < sy_weight Q R y"
    by (simp add: sy_weight_def from_server_def s ch)
  ultimately show ?thesis by blast
qed

section \<open>The server's and the client's steps\<close>

text \<open>
  The kernel answers every request that fits a message with an answer that fits one: no loop runs
  forever, no data is larger than a message can be, and an error number is not a multiple of 256.
\<close>

definition answers_all :: "'k kernel \<Rightarrow> bool \<Rightarrow> bool \<Rightarrow> bool" where
  "answers_all sys bc bs = (\<forall>req h k. request_fits bc req \<longrightarrow>
     (\<exists>resp. fst (handle_req sys req h k) = Inr resp \<and> answer_fits bs req resp))"

lemma sv_handle_ok:
  assumes "answers_all sys bc bs" "request_fits bc req"
  obtains resp s' where "sv_handle sys i req s = (Inr (), s')" "sv_channel s' = sv_channel s @ [(i, resp)]"
    "answer_fits bs req resp" "sv_requests s' = sv_requests s" "sv_pool s' = sv_pool s" "sv_running s' = sv_running s"
    "sv_socket s' = sv_socket s"
proof -
  from assms obtain resp where r: "fst (handle_req sys req (sv_handler s) (sv_kernel s)) = Inr resp" "answer_fits bs req resp"
    unfolding answers_all_def by blast
  obtain q s' where run: "sv_handle sys i req s = (q, s')" by fastforce
  from r(1) run have "q = Inr ()" by (auto simp: sv_handle_def Let_def split: prod.splits sum.splits)
  with sv_handle_sel [OF run] r run that show ?thesis by auto
qed

text \<open>Reading leaves the outgoing bytes alone.\<close>

lemma list_read_out: "sk_read list_ops n w = (r, w') \<Longrightarrow> snd w' = snd w"
  by (cases w) (auto simp: list_ops_def split: prod.splits)

lemma receive_out:
  "receive_request_header (sk_read list_ops) b w = (x1, w') \<Longrightarrow> snd w' = snd w"
  "receive_request (sk_read list_ops) b h w = (x2, w') \<Longrightarrow> snd w' = snd w"
  "receive_response_header (sk_read list_ops) b w = (x3, w') \<Longrightarrow> snd w' = snd w"
  "receive_response (sk_read list_ops) b h' q w = (x4, w') \<Longrightarrow> snd w' = snd w"
  by (auto simp: receive_request_header_def receive_request_def receive_response_header_def receive_response_def Let_def
      dest: list_read_out split: prod.splits if_splits)

lemma response_receive_out: "response_receive list_ops b c = (r, c') \<Longrightarrow> snd (px_socket c') = snd (px_socket c)"
  by (auto simp: response_receive_def response_header_step_def response_payload_step_def dest!: receive_out
      split: prod.splits sum.splits option.splits)

lemma flow_member: "flow bc bs p W A lg \<Longrightarrow> (i, q) \<in> set W \<Longrightarrow> request_fits bc q"
  by (auto simp: flow_def list_all_iff on_way_def)

lemma flow_handled:
  assumes "flow bc bs p W A lg" "mset W = mset ((i, q) # W')" "answer_fits bs q r" "mset A' = mset ((i, r) # A)"
  shows "flow bc bs p W' A' (lg @ [(i, q, r)])"
  by (rule flow_perm [OF flow_answer [OF flow_perm [OF assms(1,2) refl] assms(3)]]) (simp_all add: assms(4))

lemma sy_once:
  assumes ok: "sy_ok bc bs Q R y"
    and W: "mset (px_channel (sy_client y) @ Q @ sv_pool (sy_server y)) = mset ((i, q) # W')"
  shows "once (issued (px_table (sy_client y))) (sy_log y @ [(i, q, r)]) (fst ` set W')"
proof -
  note d = sy_okD [OF ok]
  have "flow bc bs (pt_requests (px_table (sy_client y))) ((i, q) # W') (sv_channel (sy_server y) @ R) (sy_log y)"
    by (rule flow_perm [OF d(8) W refl])
  then have "i \<notin> fst ` set W'" "i \<in> fst ` set (pt_requests (px_table (sy_client y)))" by (auto simp: flow_def)
  moreover from this(2) have "i \<in> issued (px_table (sy_client y))" using d(6) by (auto simp: accounted_def)
  moreover have "to_handle Q y = insert i (fst ` set W')" using mset_eq_setD [OF W] by (simp add: to_handle_def)
  ultimately show ?thesis using once_handle [OF d(10), of i q r] by simp
qed

lemma sy_work:
  assumes ok: "sy_ok bc bs Q R y" and all: "answers_all sys bc bs" and p: "sv_pool (sy_server y) = (i, req) # rest"
  shows "\<exists>s. sv_work sys (sy_server y) = (Inr (), s) \<and> sy_ok bc bs Q R (from_server s (note_answers req s y)) \<and>
    sy_weight Q R (from_server s (note_answers req s y)) < sy_weight Q R y"
proof -
  let ?s = "sy_server y"
  note d = sy_okD [OF ok]
  have fit: "request_fits bc req" by (rule flow_member [OF d(8), of i]) (simp add: p)
  obtain resp s' where s': "sv_handle sys i req (?s\<lparr>sv_pool := rest\<rparr>) = (Inr (), s')" "sv_channel s' = sv_channel ?s @ [(i, resp)]"
    "answer_fits bs req resp" "sv_requests s' = sv_requests ?s" "sv_pool s' = rest" "sv_running s' = sv_running ?s"
    "sv_socket s' = sv_socket ?s"
    by (rule sv_handle_ok [OF all fit, of i "?s\<lparr>sv_pool := rest\<rparr>"]) simp
  have "flow bc bs (pt_requests (px_table (sy_client y))) (px_channel (sy_client y) @ Q @ rest)
      ((sv_channel ?s @ [(i, resp)]) @ R) (sy_log y @ [(i, req, resp)])"
    by (rule flow_handled [OF d(8) _ s'(3)]) (simp_all add: p)
  moreover have "once (issued (px_table (sy_client y))) (sy_log y @ [(i, req, resp)]) (fst ` set (px_channel (sy_client y) @ Q @ rest))"
    by (rule sy_once [OF ok, of i]) (simp_all add: p)
  ultimately have "sy_ok bc bs Q R (from_server s' (note_answers req s' y))"
    using d s' p by (auto simp: sy_ok_def Let_def from_server_def note_answers_def delivered_mono to_handle_def)
  moreover have "sy_weight Q R (from_server s' (note_answers req s' y)) < sy_weight Q R y"
    using s' p by (simp add: sy_weight_def from_server_def note_answers_def)
  ultimately show ?thesis using s'(1) by (auto simp: sv_work_def p)
qed

lemma sy_accept:
  assumes ok: "sy_ok bc bs Q R y" and all: "answers_all sys bc bs" and Q: "Q = (i, req) # Q'"
  shows "\<exists>h k1 k2 s. receive_request_header (sk_read list_ops) bs (sv_socket (sy_server y)) = (Inr h, k1) \<and>
    receive_request (sk_read list_ops) bs h k1 = (Inr req, k2) \<and>
    sv_receive list_ops sys bs (sy_server y) = (Inr (), s) \<and> sy_ok bc bs Q' R (from_server s (note_answers req s y)) \<and>
    sy_weight Q' R (from_server s (note_answers req s y)) < sy_weight Q R y"
proof -
  let ?s = "sy_server y"
  note d = sy_okD [OF ok]
  have fit: "request_fits bc req" by (rule flow_member [OF d(8), of i]) (simp add: Q)
  have "fst (sv_socket ?s) = build_request bc req i @ requests_bytes bc Q'" by (simp add: d(2) Q)
  from receive_request_at [OF list_ops_ok fit this, of bs] obtain h k1 k2 where
    r: "receive_request_header (sk_read list_ops) bs (sv_socket ?s) = (Inr h, k1)" "qh_id h = i"
      "receive_request (sk_read list_ops) bs h k1 = (Inr req, k2)" "fst k2 = requests_bytes bc Q'" by blast
  have "snd k1 = snd (sv_socket ?s)" "snd k2 = snd k1" using receive_out r(1,3) by blast+
  then have k2: "k2 = (requests_bytes bc Q', responses_bytes bs R)" using r(4) d(2) by (metis prod.collapse snd_conv)
  have new: "i \<notin> fst ` set (sv_requests ?s)" using d(7,8) by (auto simp: flow_def Q)
  let ?s1 = "?s\<lparr>sv_socket := k2, sv_requests := sv_requests ?s @ [(i, qh_proc h)]\<rparr>"
  show ?thesis
  proof (cases "req_proc req = PPing")
    case True
    obtain resp s' where s': "sv_handle sys i req ?s1 = (Inr (), s')" "sv_channel s' = sv_channel ?s @ [(i, resp)]"
      "answer_fits bs req resp" "sv_requests s' = sv_requests ?s @ [(i, qh_proc h)]" "sv_pool s' = sv_pool ?s"
      "sv_running s' = sv_running ?s" "sv_socket s' = k2"
      by (rule sv_handle_ok [OF all fit, of i ?s1]) simp
    have run: "sv_receive list_ops sys bs ?s = (Inr (), s')" using r new True s'(1) by (simp add: sv_receive_def Let_def)
    have "flow bc bs (pt_requests (px_table (sy_client y))) (px_channel (sy_client y) @ Q' @ sv_pool ?s)
        ((sv_channel ?s @ [(i, resp)]) @ R) (sy_log y @ [(i, req, resp)])"
      by (rule flow_handled [OF d(8) _ s'(3)]) (simp_all add: Q)
    moreover have "once (issued (px_table (sy_client y))) (sy_log y @ [(i, req, resp)])
        (fst ` set (px_channel (sy_client y) @ Q' @ sv_pool ?s))"
      by (rule sy_once [OF ok, of i]) (simp_all add: Q)
    ultimately have "sy_ok bc bs Q' R (from_server s' (note_answers req s' y))"
      using d s' k2 by (auto simp: sy_ok_def Let_def from_server_def note_answers_def delivered_mono to_handle_def)
    moreover have "sy_weight Q' R (from_server s' (note_answers req s' y)) < sy_weight Q R y"
      using s' by (simp add: sy_weight_def from_server_def note_answers_def Q)
    ultimately show ?thesis using r(1,3) run by blast
  next
    case False
    let ?s2 = "?s1\<lparr>sv_pool := sv_pool ?s @ [(i, req)]\<rparr>"
    have run: "sv_receive list_ops sys bs ?s = (Inr (), ?s2)" using r new False by (simp add: sv_receive_def Let_def)
    have "flow bc bs (pt_requests (px_table (sy_client y))) (px_channel (sy_client y) @ Q' @ sv_pool ?s @ [(i, req)])
        (sv_channel ?s @ R) (sy_log y)"
      by (rule flow_perm [OF d(8)]) (simp_all add: Q)
    moreover have "fst ` set (px_channel (sy_client y) @ Q' @ sv_pool ?s @ [(i, req)]) = to_handle Q y"
      by (simp add: to_handle_def Q)
    ultimately have "sy_ok bc bs Q' R (from_server ?s2 (note_answers req ?s2 y))"
      using d k2 by (simp add: sy_ok_def Let_def from_server_def note_answers_def to_handle_def)
    moreover have "sy_weight Q' R (from_server ?s2 (note_answers req ?s2 y)) < sy_weight Q R y"
      by (simp add: sy_weight_def from_server_def note_answers_def Q)
    ultimately show ?thesis using r(1,3) run by blast
  qed
qed

lemma issued_settle: "issued (pt_settle i res t) = issued t"
  by (simp add: issued_def pt_settle_def pt_extract_def set_value_def split: option.split)

lemma sy_collect:
  assumes ok: "sy_ok bc bs Q R y" and R: "R = (i, r) # R'"
  shows "\<exists>c. response_receive list_ops bc (sy_client y) = (Inr (), c) \<and> sy_ok bc bs Q R' (from_client c y) \<and>
    sy_weight Q R' (from_client c y) < sy_weight Q R y"
proof -
  let ?c = "sy_client y" and ?t = "px_table (sy_client y)"
  note d = sy_okD [OF ok]
  have "flow bc bs (pt_requests ?t) (px_channel ?c @ Q @ sv_pool (sy_server y)) ((i, r) # sv_channel (sy_server y) @ R') (sy_log y)"
    by (rule flow_perm [OF d(8)]) (simp_all add: R)
  note ret = flow_return [OF this]
  from ret(1) obtain q where q: "map_of (pt_requests ?t) i = Some q" "(i, q, r) \<in> set (sy_log y)" "answer_fits bs q r" by blast
  have "fst (px_socket ?c) = build_response bs r i @ responses_bytes bs R'" by (simp add: d(1) R)
  from response_received [OF list_ops_ok d(3) q(1,3) this, of bc] obtain sock where
    sock: "response_receive list_ops bc ?c = (Inr (), ?c\<lparr>px_socket := sock, px_table := pt_settle i (client_view r) ?t\<rparr>)"
      "fst sock = responses_bytes bs R'" by blast
  have "snd sock = requests_bytes bc Q" using response_receive_out [OF sock(1)] d(1) by simp
  with sock(2) have "sock = (responses_bytes bs R', requests_bytes bc Q)" by (metis prod.collapse)
  moreover have "pt_running (pt_settle i (client_view r) ?t)" using d(4) q(1)
    by (simp add: pt_settle_def pt_extract_def set_value_def)
  moreover have "delivered (sy_log y) (pt_done (pt_settle i (client_view r) ?t))"
    using d(9) q(2) settle_sel(1) [OF q(1), where res = "client_view r"] by (auto simp: delivered_def)
  ultimately have "sy_ok bc bs Q R' (from_client (?c\<lparr>px_socket := sock, px_table := pt_settle i (client_view r) ?t\<rparr>) y)"
    using d ret(2) accounted_settle [OF d(6), of i "client_view r"] settle_sel(2) [OF q(1), where res = "client_view r"]
    by (simp add: sy_ok_def Let_def from_client_def to_handle_def issued_settle)
  moreover have "sy_weight Q R' (from_client (?c\<lparr>px_socket := sock, px_table := pt_settle i (client_view r) ?t\<rparr>) y) < sy_weight Q R y"
    by (simp add: sy_weight_def from_client_def R)
  ultimately show ?thesis using sock(1) by blast
qed

section \<open>Runs\<close>

lemma empty_header: "fst w = [] \<Longrightarrow> fst (receive_request_header (sk_read list_ops) b w) \<noteq> Inr h"
  by (cases w) (simp add: receive_request_header_def list_ops_def list_read_def request_header_size_def handle_read_def)

lemma sy_run_ok:
  assumes "sy_run sys bc bs y y'" "sy_ok bc bs Q R y" "answers_all sys bc bs"
  shows "\<exists>Q' R'. sy_ok bc bs Q' R' y' \<and> sy_weight Q' R' y' < sy_weight Q R y"
  using assms(1)
proof cases
  case transmit
  with sy_transmit [OF assms(2)] show ?thesis by blast
next
  case (accept h k1 req k2 s)
  have "Q \<noteq> []" using accept(2) empty_header [of "sv_socket (sy_server y)" bs h] sy_okD(2) [OF assms(2)] by auto
  then obtain i q Q' where "Q = (i, q) # Q'" by (cases Q) auto
  from sy_accept [OF assms(2,3) this] accept show ?thesis by fastforce
next
  case (work i req rest s)
  with sy_work [OF assms(2,3) work(2)] show ?thesis by auto
next
  case respond
  with sy_respond [OF assms(2)] show ?thesis by blast
next
  case (collect c)
  then have "R \<noteq> []" using sy_okD(1) [OF assms(2)] by auto
  then obtain i r R' where "R = (i, r) # R'" by (cases R) auto
  from sy_collect [OF assms(2) this] collect show ?thesis by auto
qed

lemma sy_progress:
  assumes ok: "sy_ok bc bs Q R y" and all: "answers_all sys bc bs" and p: "pt_requests (px_table (sy_client y)) \<noteq> []"
  shows "\<exists>y'. sy_run sys bc bs y y'"
proof -
  note d = sy_okD [OF ok]
  consider "px_channel (sy_client y) \<noteq> []" | "Q \<noteq> []" | "sv_pool (sy_server y) \<noteq> []" | "sv_channel (sy_server y) \<noteq> []" | "R \<noteq> []"
    using d(8) p unfolding flow_def by fastforce
  then show ?thesis
  proof cases
    case 2
    then obtain i q Q' where "Q = (i, q) # Q'" by (cases Q) auto
    from sy_accept [OF ok all this] show ?thesis by (blast intro: sy_run.accept)
  next
    case 3
    then obtain i q rest where "sv_pool (sy_server y) = (i, q) # rest" by (cases "sv_pool (sy_server y)") auto
    from sy_work [OF ok all this] this show ?thesis by (blast intro: sy_run.work)
  next
    case 5
    then obtain i r R' where R: "R = (i, r) # R'" by (cases R) auto
    have "0 < length (build_response bs r i)" by (cases r) (simp_all add: build_response_eq del: build_response.simps)
    then have "fst (px_socket (sy_client y)) \<noteq> []" by (simp add: d(1) R)
    with sy_collect [OF ok R] show ?thesis by (blast intro: sy_run.collect)
  qed (blast intro: sy_run.transmit sy_run.respond)+
qed

lemma sy_init: "sy_ok bc bs [] [] (mk_system k)"
  by (simp add: sy_ok_def mk_system_def px_start_def mk_proxy_def pt_init_def mk_server_conn_def Let_def accounted_def
      issued_def flow_def delivered_def once_def to_handle_def)

lemma sy_reach:
  assumes "(sy_step sys bc bs)\<^sup>*\<^sup>* (mk_system k) y" "answers_all sys bc bs"
  shows "\<exists>Q R. sy_ok bc bs Q R y"
  using assms(1)
proof (induction rule: rtranclp_induct)
  case (step y z)
  then obtain Q R where ok: "sy_ok bc bs Q R y" by blast
  from step(2) show ?case
  proof cases
    case (call req i c)
    with sy_call [OF ok] show ?thesis by blast
  next
    case run
    with sy_run_ok [OF _ ok assms(2)] show ?thesis by blast
  qed
qed (blast intro: sy_init)

lemma sy_run_keeps:
  assumes "(sy_run sys bc bs)\<^sup>*\<^sup>* y z" "sy_ok bc bs Q R y" "answers_all sys bc bs"
  shows "\<exists>Q R. sy_ok bc bs Q R z"
  using assms(1)
proof (induction rule: rtranclp_induct)
  case (step u v)
  with sy_run_ok [OF step(2) _ assms(3)] show ?case by blast
qed (use assms(2) in blast)

lemma sy_run_finite:
  assumes "answers_all sys bc bs"
  shows "sy_ok bc bs Q R (f 0) \<Longrightarrow> \<not> (\<forall>n. sy_run sys bc bs (f n) (f (Suc n)))"
proof (induction "sy_weight Q R (f 0)" arbitrary: f Q R rule: less_induct)
  case less
  show ?case
  proof
    assume run: "\<forall>n. sy_run sys bc bs (f n) (f (Suc n))"
    from sy_run_ok [OF run [THEN spec, of 0] less.prems assms] obtain Q' R' where
      "sy_ok bc bs Q' R' (f (Suc 0))" "sy_weight Q' R' (f (Suc 0)) < sy_weight Q R (f 0)" by blast
    with less.hyps [of Q' R' "\<lambda>n. f (Suc n)"] run show False by blast
  qed
qed

section \<open>A kernel where every call fails\<close>

definition void_kernel :: "unit kernel" where
  "void_kernel = \<lparr>
     k_opendir = (\<lambda>p k. (Inl no_such_file_or_directory, k)), k_readdir = (\<lambda>d k. (None, k)),
     k_closedir = (\<lambda>d k. (Inr (), k)), k_fstatat = (\<lambda>d n k. (Inl no_such_file_or_directory, k)),
     k_lstat = (\<lambda>p k. (Inl no_such_file_or_directory, k)), k_readlink = (\<lambda>p n k. (Inl no_such_file_or_directory, k)),
     k_mknod = (\<lambda>p m d k. (Inl permission_denied, k)), k_mkdir = (\<lambda>p m k. (Inl permission_denied, k)),
     k_unlink = (\<lambda>p k. (Inl no_such_file_or_directory, k)), k_rmdir = (\<lambda>p k. (Inl no_such_file_or_directory, k)),
     k_renameat2 = (\<lambda>p q f k. (Inl function_not_supported, k)), k_renameat = (\<lambda>p q k. (Inl no_such_file_or_directory, k)),
     k_truncate = (\<lambda>p s k. (Inl no_such_file_or_directory, k)), k_utimensat = (\<lambda>p a b k. (Inl no_such_file_or_directory, k)),
     k_open = (\<lambda>p f k. (Inl no_such_file_or_directory, k)), k_close = (\<lambda>fd k. (Inl bad_file_descriptor, k)),
     k_lseek = (\<lambda>fd i k. (Inl bad_file_descriptor, k)), k_read = (\<lambda>fd n k. (Inl bad_file_descriptor, k)),
     k_write = (\<lambda>fd bs k. (Inl bad_file_descriptor, k)),
     k_copy_file_range = (\<lambda>a i b j s k. (Inl bad_file_descriptor, k)), k_fuel = 0\<rparr>"

lemma void_answers: "answers_all void_kernel bc bs"
proof -
  have "small (write_response bs (RespPing n) [])" for n by (simp add: wire_simps small_def)
  then show ?thesis
    unfolding answers_all_def
  proof (intro allI impI, goal_cases)
    case (1 req h k)
    then show ?case
      by (cases req) (simp_all add: one_call_handlers handle_ping_def handle_open_def handle_read_req_def handle_write_req_def
          seek_then_def handle_listdir_def handle_rename_def handle_copy_file_range_def with_file_def Let_def one_call_def
          lift_handled_def failed_def void_kernel_def answer_fits_def response_fits_def)
  qed
qed

text \<open>The system after one call.\<close>

definition called :: "unit system" where
  "called = from_client (snd (px_send (ReqPing 7) (sy_client (mk_system ())))) (mk_system ())"

lemma called_step: "sy_step void_kernel bc bs (mk_system ()) called"
proof -
  have "px_send (ReqPing 7) (sy_client (mk_system ())) = (Inr 1, snd (px_send (ReqPing 7) (sy_client (mk_system ()))))"
    by (simp add: px_send_def mk_system_def px_start_def mk_proxy_def pt_init_def pt_open_def next_id_def)
  then show ?thesis
    unfolding called_def
    by (intro sy_step.call [of _ _ "ReqPing 7" 1])
      (simp_all add: mk_system_def px_start_def mk_proxy_def pt_init_def request_fits_def small_def wire_simps)
qed

section \<open>Properties\<close>

text \<open>C2: remote calls. In every run of client and server over the socket, whatever the interleaving and
  the hosts' endianness, each result the client has delivered is the answer the server's handler gave
  to that very request (a failure with its status modulo 256), the handler has run at most once per
  request, and every request the client accepted is pending or has exactly one result.\<close>

theorem remote_calls:
  assumes "answers_all sys bc bs" "(sy_step sys bc bs)\<^sup>*\<^sup>* (mk_system k) y"
  shows "(\<forall>i q res. (i, q, res) \<in> set (pt_done (px_table (sy_client y))) \<longrightarrow>
      (\<exists>r. (i, q, r) \<in> set (sy_log y) \<and> res = client_view r)) \<and>
    distinct (map fst (sy_log y)) \<and>
    distinct (map fst (pt_requests (px_table (sy_client y))) @ map fst (pt_done (px_table (sy_client y)))) \<and>
    fst ` set (pt_requests (px_table (sy_client y))) \<union> fst ` set (pt_done (px_table (sy_client y))) =
      {i. i \<noteq> 0 \<and> i \<le> pt_counter (px_table (sy_client y))}"
proof -
  from sy_reach [OF assms(2,1)] obtain Q R where "sy_ok bc bs Q R y" by blast
  note d = sy_okD [OF this]
  from d(6,9,10) show ?thesis by (simp add: delivered_def once_def accounted_def issued_def)
qed

theorem remote_calls_witness:
  "distinct (map fst (pt_requests (px_table (sy_client called))) @ map fst (pt_done (px_table (sy_client called))))"
  using remote_calls [OF void_answers, of False True "()" called] r_into_rtranclp [of "sy_step void_kernel False True", OF called_step]
  by blast

text \<open>C3: calls complete. Whatever the schedule, the steps that serve the calls made so far come to an
  end, and when no such step is possible any more every request has been answered: nothing
  gets stuck in a channel, on the wire, with the worker or in the table of promises.\<close>

theorem calls_complete:
  assumes "answers_all sys bc bs" "(sy_step sys bc bs)\<^sup>*\<^sup>* (mk_system k) y"
  shows "\<not> (\<exists>f. f 0 = y \<and> (\<forall>n. sy_run sys bc bs (f n) (f (Suc n)))) \<and>
    (\<forall>z. (sy_run sys bc bs)\<^sup>*\<^sup>* y z \<and> \<not> (\<exists>z'. sy_run sys bc bs z z') \<longrightarrow>
      pt_requests (px_table (sy_client z)) = [] \<and>
      fst ` set (pt_done (px_table (sy_client z))) = {i. i \<noteq> 0 \<and> i \<le> pt_counter (px_table (sy_client z))})"
proof -
  from sy_reach [OF assms(2,1)] obtain Q R where ok: "sy_ok bc bs Q R y" by blast
  have "pt_requests (px_table (sy_client z)) = [] \<and>
      fst ` set (pt_done (px_table (sy_client z))) = {i. i \<noteq> 0 \<and> i \<le> pt_counter (px_table (sy_client z))}"
    if z: "(sy_run sys bc bs)\<^sup>*\<^sup>* y z" "\<not> (\<exists>z'. sy_run sys bc bs z z')" for z
  proof -
    from sy_run_keeps [OF z(1) ok assms(1)] obtain Q' R' where ok': "sy_ok bc bs Q' R' z" by blast
    have "pt_requests (px_table (sy_client z)) = []" using sy_progress [OF ok' assms(1)] z(2) by blast
    with sy_okD(6) [OF ok'] show ?thesis by (simp add: accounted_def issued_def)
  qed
  moreover have "\<not> (\<exists>f. f 0 = y \<and> (\<forall>n. sy_run sys bc bs (f n) (f (Suc n))))"
    using sy_run_finite [OF assms(1)] ok by blast
  ultimately show ?thesis by blast
qed

theorem calls_complete_witness:
  "\<not> (\<exists>f. f 0 = called \<and> (\<forall>n. sy_run void_kernel False True (f n) (f (Suc n))))"
  using calls_complete [OF void_answers, of False True "()" called] r_into_rtranclp [of "sy_step void_kernel False True", OF called_step]
  by blast

end
