(* ===== verification/Adb_Cmd.thy ===== *)
theory Adb_Cmd
  imports Inflight Split "HOL-Library.Signed_Division"
begin

text \<open>
  Commands run on the device and what is made of their output: \<^verbatim>\<open>cmd.cpp\<close> (the errors adb prints become
  error codes), \<^verbatim>\<open>adb.cpp\<close> (devices) and the helper functions of \<^verbatim>\<open>adb_transport.cpp\<close> (numbers, dates and
  lines printed by \<^verbatim>\<open>stat\<close>). Running a process is a parameter: it yields the exit status and what
  was written to the two output streams.
\<close>

section \<open>Running commands\<close>

datatype adb_error = Unknown | NoDev | PermDenied | NoSuchFileOrDir | NotADir | Inaccessible | ReadOnly | TryAgain

definition adb_errc :: "adb_error \<Rightarrow> errc" where
  "adb_errc err =
     (case err of
        Unknown \<Rightarrow> io_error
      | NoDev \<Rightarrow> no_such_device
      | PermDenied \<Rightarrow> permission_denied
      | NoSuchFileOrDir \<Rightarrow> no_such_file_or_directory
      | NotADir \<Rightarrow> not_a_directory
      | Inaccessible \<Rightarrow> operation_not_supported
      | ReadOnly \<Rightarrow> read_only_file_system
      | TryAgain \<Rightarrow> resource_unavailable_try_again)"

definition no_dev_serial :: "str option \<Rightarrow> str" where
  "no_dev_serial serial =
     (case serial of
        Some s \<Rightarrow> ''adb: device '' @ [CHR 0x27] @ s @ [CHR 0x27] @ '' not found''
      | None \<Rightarrow> [])"

text \<open>The message behind the last colon of a line, compared with the known ones.\<close>

definition message_error :: "str \<Rightarrow> adb_error" where
  "message_error err =
     (if err = rev '' Permission denied'' then PermDenied
      else if err = rev '' No such file or directory'' then NoSuchFileOrDir
      else if err = rev '' Not a directory'' then NotADir
      else if err = rev '' inaccessible or not found'' then Inaccessible
      else if err = rev '' Read-only file system'' then ReadOnly
      else Unknown)"

fun stderr_lines :: "str option \<Rightarrow> str list \<Rightarrow> adb_error" where
  "stderr_lines serial [] = Unknown"
| "stderr_lines serial (line # lines) =
     (if line = ''adb: no devices/emulators found'' \<or> line = ''adb: device offline'' then NoDev
      else if line = no_dev_serial serial then TryAgain
      else (case fst (splitter_next (mk_splitter (strip (rev line) whitespace) (DelimChar CHR '':''))) of
              None \<Rightarrow> stderr_lines serial lines
            | Some err \<Rightarrow> message_error err))"

definition parse_stderr :: "str option \<Rightarrow> str \<Rightarrow> adb_error" where
  "parse_stderr serial s = stderr_lines serial (split s (DelimChar CHR 0x0A))"

text \<open>\<open>sh_local\<close>: a time in the local zone of the host in the form \<^verbatim>\<open>touch\<close> takes, if the zone is known.\<close>

record 'd shell =
  sh_run :: "str list \<Rightarrow> str \<Rightarrow> 'd \<Rightarrow> (int \<times> str \<times> str) expect \<times> 'd"
  sh_serial :: "str option"
  sh_local :: "(i64 \<Rightarrow> str) option"

definition cmd_exec :: "'d shell \<Rightarrow> str list \<Rightarrow> str \<Rightarrow> bool \<Rightarrow> bool \<Rightarrow> 'd \<Rightarrow> str expect \<times> 'd" where
  "cmd_exec sh cmd inp check merge_err d =
     (case sh_run sh cmd inp d of
        (Inl e, d) \<Rightarrow> (Inl e, d)
      | (Inr (ret, out, err), d) \<Rightarrow>
          (if check \<and> ret \<noteq> 0
           then Unexpect (adb_errc (parse_stderr (sh_serial sh) (strip (if err \<noteq> [] then err else out) whitespace)))
           else Inr (if merge_err then out @ err else out), d))"

text \<open>The defaults: no input, the status is checked, the error stream left out.\<close>

definition cmd_run :: "'d shell \<Rightarrow> str list \<Rightarrow> 'd \<Rightarrow> str expect \<times> 'd" where
  "cmd_run sh cmd = cmd_exec sh cmd [] True False"

section \<open>Devices\<close>

datatype device_status = Device | Emulator | Offline | Unauthorized | UnknownStatus

definition device_status_of :: "str \<Rightarrow> device_status" where
  "device_status_of s =
     (if s = ''offline'' then Offline
      else if s = ''unauthorized'' then Unauthorized
      else if s = ''emulator'' then Emulator
      else if s = ''device'' then Device
      else UnknownStatus)"

definition device_line :: "str \<Rightarrow> (str \<times> device_status) list" where
  "device_line line =
     (case split line (DelimStr [CHR '' '', CHR 0x09]) of
        serial # status # _ \<Rightarrow> [(serial, device_status_of status)]
      | _ \<Rightarrow> [])"

definition list_devices :: "'d shell \<Rightarrow> 'd \<Rightarrow> (str \<times> device_status) list expect \<times> 'd" where
  "list_devices sh d =
     (case cmd_run sh [''adb'', ''devices''] d of
        (Inl e, d) \<Rightarrow> (Inl e, d)
      | (Inr out, d) \<Rightarrow> (Inr (concat (map device_line (drop 1 (split out (DelimChar CHR 0x0A))))), d))"

definition start_server :: "'d shell \<Rightarrow> 'd \<Rightarrow> unit expect \<times> 'd" where
  "start_server sh d = (case cmd_run sh [''adb'', ''start-server''] d of (r, d) \<Rightarrow> (transform r (\<lambda>_. ()), d))"

datatype abi = Armeabi_v7a | Arm64_v8a | X86 | X86_64

abbreviation not_supported :: errc where "not_supported \<equiv> 95"

definition get_abi :: "'d shell \<Rightarrow> str \<Rightarrow> 'd \<Rightarrow> abi expect \<times> 'd" where
  "get_abi sh serial d =
     (case cmd_run sh [''adb'', ''-s'', serial, ''shell'', ''getprop'', ''ro.product.cpu.abi''] d of
        (Inl e, d) \<Rightarrow> (Inl e, d)
      | (Inr out, d) \<Rightarrow>
          (let s = strip out whitespace in
           if s = ''armeabi-v7a'' then Inr Armeabi_v7a
           else if s = ''arm64-v8a'' then Inr Arm64_v8a
           else if s = ''x86'' then Inr X86
           else if s = ''x86_64'' then Inr X86_64
           else Unexpect not_supported, d))"

definition check_connection :: "'d shell \<Rightarrow> 'd \<Rightarrow> unit expect \<times> 'd" where
  "check_connection sh d =
     (case sh_serial sh of
        None \<Rightarrow> (Unexpect not_connected, d)
      | Some serial \<Rightarrow>
          (case list_devices sh d of
             (Inl (Errc _), d) \<Rightarrow> (Unexpect not_connected, d)
           | (Inl f, d) \<Rightarrow> (Inl f, d)
           | (Inr devices, d) \<Rightarrow>
               (case map_of devices serial of
                  None \<Rightarrow> Unexpect not_connected
                | Some status \<Rightarrow> if status \<noteq> Device then Unexpect not_connected else Inr (), d)))"

section \<open>Numbers\<close>

text \<open>\<^verbatim>\<open>std::from_chars\<close> on the whole string: digits only, a sign for signed types, and in range.\<close>

definition digit_val :: "nat \<Rightarrow> char \<Rightarrow> nat option" where
  "digit_val base c =
     (let n = of_char c :: nat;
          v = (if 48 \<le> n \<and> n \<le> 57 then n - 48
               else if 97 \<le> n \<and> n \<le> 122 then n - 87
               else if 65 \<le> n \<and> n \<le> 90 then n - 55
               else 36)
      in if v < base then Some v else None)"

fun digits_val :: "nat \<Rightarrow> nat \<Rightarrow> str \<Rightarrow> nat option" where
  "digits_val base acc [] = Some acc"
| "digits_val base acc (c # cs) =
     (case digit_val base c of None \<Rightarrow> None | Some v \<Rightarrow> digits_val base (acc * base + v) cs)"

definition parse_unsigned :: "nat \<Rightarrow> nat \<Rightarrow> str \<Rightarrow> nat option" where
  "parse_unsigned width base s =
     (if s = [] then None
      else case digits_val base 0 s of
             Some n \<Rightarrow> (if n < 2 ^ width then Some n else None)
           | None \<Rightarrow> None)"

definition parse_signed :: "nat \<Rightarrow> nat \<Rightarrow> str \<Rightarrow> int option" where
  "parse_signed width base s =
     (let neg = (s \<noteq> [] \<and> hd s = CHR ''-''); ds = (if neg then tl s else s)
      in if ds = [] then None
         else case digits_val base 0 ds of
                None \<Rightarrow> None
              | Some n \<Rightarrow> (let v = (if neg then - int n else int n) in
                  if - (2 ^ (width - 1)) \<le> v \<and> v < 2 ^ (width - 1) then Some v else None))"

definition value_or :: "'a option \<Rightarrow> 'a \<Rightarrow> 'a" where
  "value_or opt v = (case opt of Some x \<Rightarrow> x | None \<Rightarrow> v)"

section \<open>Dates\<close>

text \<open>
  \<^verbatim>\<open>std::chrono::parse\<close> with \<^verbatim>\<open>%F %T %z\<close> on what \<^verbatim>\<open>stat\<close> prints: fields of limited width, blanks where the format has
  one, a fraction of up to nine digits, and an offset of hours and minutes. Anything else fails.
\<close>

record date =
  da_year :: nat
  da_month :: nat
  da_day :: nat
  da_hour :: nat
  da_min :: nat
  da_sec :: nat
  da_nsec :: nat
  da_west :: bool
  da_off_hour :: nat
  da_off_min :: nat

definition read_num :: "nat \<Rightarrow> str \<Rightarrow> (nat \<times> str) option" where
  "read_num k s =
     (let ds = takeWhile (\<lambda>c. digit_val 10 c \<noteq> None) (take k s)
      in if ds = [] then None
         else (case digits_val 10 0 ds of Some n \<Rightarrow> Some (n, drop (length ds) s) | None \<Rightarrow> None))"

definition read_char :: "char \<Rightarrow> str \<Rightarrow> str option" where
  "read_char c s = (case s of [] \<Rightarrow> None | x # xs \<Rightarrow> if x = c then Some xs else None)"

definition skip_blanks :: "str \<Rightarrow> str" where
  "skip_blanks s = dropWhile (\<lambda>c. c = CHR '' '') s"

text \<open>The fraction of a second: absent, or a point and digits, counted in nanoseconds.\<close>

definition read_fraction :: "str \<Rightarrow> (nat \<times> str) option" where
  "read_fraction s =
     (case read_char CHR ''.'' s of
        None \<Rightarrow> Some (0, s)
      | Some s \<Rightarrow> (case read_num 9 s of None \<Rightarrow> None | Some (n, s') \<Rightarrow> Some (n * 10 ^ (9 - (length s - length s')), s')))"

definition read_zone :: "str \<Rightarrow> (bool \<times> nat \<times> nat) option" where
  "read_zone s =
     (case s of
        [] \<Rightarrow> None
      | c # s \<Rightarrow>
          (if c \<noteq> CHR ''+'' \<and> c \<noteq> CHR ''-'' then None
           else Option.bind (read_num 2 s) (\<lambda>(h, s). Option.bind (read_num 2 s) (\<lambda>(m, s). Some (c = CHR ''-'', h, m)))))"

definition leap_year :: "nat \<Rightarrow> bool" where
  "leap_year y = (y mod 4 = 0 \<and> (y mod 100 \<noteq> 0 \<or> y mod 400 = 0))"

definition month_days :: "nat \<Rightarrow> nat list" where
  "month_days y = [31, if leap_year y then 29 else 28, 31, 30, 31, 30, 31, 31, 30, 31, 30, 31]"

definition date_ok :: "date \<Rightarrow> bool" where
  "date_ok t = (1 \<le> da_month t \<and> da_month t \<le> 12 \<and> 1 \<le> da_day t \<and> da_day t \<le> month_days (da_year t) ! (da_month t - 1) \<and>
     da_hour t < 24 \<and> da_min t < 60 \<and> da_sec t < 60 \<and> da_off_min t < 60)"

definition read_date :: "str \<Rightarrow> date option" where
  "read_date s =
     Option.bind (read_num 4 s) (\<lambda>(y, s). Option.bind (read_char CHR ''-'' s) (\<lambda>s.
     Option.bind (read_num 2 s) (\<lambda>(mo, s). Option.bind (read_char CHR ''-'' s) (\<lambda>s.
     Option.bind (read_num 2 s) (\<lambda>(d, s).
     Option.bind (read_num 2 (skip_blanks s)) (\<lambda>(h, s). Option.bind (read_char CHR '':'' s) (\<lambda>s.
     Option.bind (read_num 2 s) (\<lambda>(mi, s). Option.bind (read_char CHR '':'' s) (\<lambda>s.
     Option.bind (read_num 2 s) (\<lambda>(sec, s). Option.bind (read_fraction s) (\<lambda>(ns, s).
     Option.bind (read_zone (skip_blanks s)) (\<lambda>(west, oh, om).
       let t = \<lparr>da_year = y, da_month = mo, da_day = d, da_hour = h, da_min = mi, da_sec = sec, da_nsec = ns,
                da_west = west, da_off_hour = oh, da_off_min = om\<rparr>
       in if date_ok t then Some t else None))))))))))))"

text \<open>Days from 1970-01-01 in the Gregorian calendar.\<close>

definition days_of :: "date \<Rightarrow> int" where
  "days_of t =
     (let y = int (da_year t) - 1 in
      365 * y + y div 4 - y div 100 + y div 400 + int (sum_list (take (da_month t - 1) (month_days (da_year t)))) +
      int (da_day t) - 1 - 719162)"

definition date_ns :: "date \<Rightarrow> int" where
  "date_ns t =
     (let off = int (da_off_hour t * 60 + da_off_min t);
          mins = (days_of t * 24 + int (da_hour t)) * 60 + int (da_min t) - (if da_west t then - off else off)
      in (mins * 60 + int (da_sec t)) * 10 ^ 9 + int (da_nsec t))"

text \<open>\<^verbatim>\<open>time_point_cast\<close> and \<^verbatim>\<open>duration_cast\<close> truncate; a date that cannot be parsed is the epoch.\<close>

definition ns_timespec :: "int \<Rightarrow> timespec" where
  "ns_timespec ns = to_timespec (word_of_int (ns sdiv 10 ^ 9)) (word_of_int (ns - (ns sdiv 10 ^ 9) * 10 ^ 9))"

definition parse_date :: "str \<Rightarrow> timespec" where
  "parse_date s = (case read_date s of Some t \<Rightarrow> ns_timespec (date_ns t) | None \<Rightarrow> to_timespec 0 0)"

section \<open>Lines of stat\<close>

definition get_basename :: "str \<Rightarrow> str" where
  "get_basename path =
     (if path \<noteq> ''/'' \<and> CHR ''/'' \<in> set path then rev (takeWhile (\<lambda>c. c \<noteq> CHR ''/'') (rev path)) else path)"

definition parse_file_stat :: "str \<Rightarrow> (str \<times> rpc_stat) option" where
  "parse_file_stat s =
     (case split_n 8 s (DelimChar CHR ''|'') of
        Some ([mode_hex, hardlinks, sz, uid, gid, atime, mtime, ctime], remainder) \<Rightarrow>
          Some (get_basename remainder,
            \<lparr>rs_size = word_of_int (value_or (parse_signed 64 10 sz) 0),
             rs_links = word_of_nat (value_or (parse_unsigned 64 10 hardlinks) 0),
             rs_mtime = parse_date mtime, rs_atime = parse_date atime, rs_ctime = parse_date ctime,
             rs_mode = word_of_nat (value_or (parse_unsigned 32 16 mode_hex) 0),
             rs_uid = word_of_nat (value_or (parse_unsigned 32 10 uid) 0),
             rs_gid = word_of_nat (value_or (parse_unsigned 32 10 gid) 0)\<rparr>)
      | _ \<Rightarrow> None)"

definition quote :: "str \<Rightarrow> str" where
  "quote path = [CHR 0x22] @ path @ [CHR 0x22]"

section \<open>Printing and parsing\<close>

text \<open>What \<^verbatim>\<open>stat\<close> prints, as a reference: numbers without leading zeros, dates with fields of fixed width.\<close>

definition digit_char :: "nat \<Rightarrow> char" where
  "digit_char v = char_of (if v < 10 then v + 48 else v + 87)"

function show_num :: "nat \<Rightarrow> nat \<Rightarrow> str" where
  "show_num base n =
     (if n < base \<or> base < 2 then [digit_char n] else show_num base (n div base) @ [digit_char (n mod base)])"
  by pat_completeness auto
termination
  by (relation "measure snd") auto

declare show_num.simps [simp del]

definition show_int :: "int \<Rightarrow> str" where
  "show_int i = (if i < 0 then CHR ''-'' # show_num 10 (nat (- i)) else show_num 10 (nat i))"

definition pad :: "nat \<Rightarrow> nat \<Rightarrow> str" where
  "pad k n = (let s = show_num 10 n in replicate (k - length s) CHR ''0'' @ s)"

definition show_date :: "date \<Rightarrow> str" where
  "show_date t =
     pad 4 (da_year t) @ ''-'' @ pad 2 (da_month t) @ ''-'' @ pad 2 (da_day t) @ '' '' @
     pad 2 (da_hour t) @ '':'' @ pad 2 (da_min t) @ '':'' @ pad 2 (da_sec t) @ ''.'' @ pad 9 (da_nsec t) @ '' '' @
     (if da_west t then ''-'' else ''+'') @ pad 2 (da_off_hour t) @ pad 2 (da_off_min t)"

lemma digit_val_char: "v < base \<Longrightarrow> base \<le> 16 \<Longrightarrow> digit_val base (digit_char v) = Some v"
  by (auto simp: digit_val_def digit_char_def Let_def)

lemma digits_val_append:
  "digits_val base acc (xs @ ys) = (case digits_val base acc xs of None \<Rightarrow> None | Some n \<Rightarrow> digits_val base n ys)"
  by (induction xs arbitrary: acc) (auto split: option.splits)

lemma digits_val_show:
  "2 \<le> base \<Longrightarrow> base \<le> 16 \<Longrightarrow> digits_val base acc (show_num base n) = Some (acc * base ^ length (show_num base n) + n)"
proof (induction base n arbitrary: acc rule: show_num.induct)
  case (1 base n)
  show ?case
  proof (cases "n < base")
    case True
    then show ?thesis using 1(2,3) by (simp add: show_num.simps [of base n] digit_val_char)
  next
    case False
    with 1 have IH: "digits_val base acc (show_num base (n div base)) =
      Some (acc * base ^ length (show_num base (n div base)) + n div base)" by simp
    have "n mod base < base" using 1(2) by simp
    with False IH 1(2,3) show ?thesis
      by (simp add: show_num.simps [of base n] digits_val_append digit_val_char algebra_simps)
  qed
qed

lemma show_num_ne [simp]: "show_num base n \<noteq> []"
  by (simp add: show_num.simps [of base n])

lemma show_num_digits: "2 \<le> base \<Longrightarrow> base \<le> 16 \<Longrightarrow> c \<in> set (show_num base n) \<Longrightarrow> digit_val base c \<noteq> None"
proof (induction base n rule: show_num.induct)
  case (1 base n)
  have "n mod base < base" using 1(2) by simp
  with 1 show ?case
    by (cases "n < base") (auto simp: show_num.simps [of base n] digit_val_char)
qed

lemma digit_val_chars: "digit_val base CHR ''-'' = None" "digit_val base CHR ''|'' = None" "digit_val base CHR '':'' = None"
  "digit_val base CHR '' '' = None" "digit_val base CHR ''.'' = None" "digit_val base CHR ''+'' = None" if "base \<le> 16"
  using that by (simp_all add: digit_val_def)

lemma parse_unsigned_show: "2 \<le> base \<Longrightarrow> base \<le> 16 \<Longrightarrow> n < 2 ^ w \<Longrightarrow> parse_unsigned w base (show_num base n) = Some n"
  by (simp add: parse_unsigned_def digits_val_show)

lemma parse_signed_show:
  assumes "- (2 ^ 63) \<le> i" "i < 2 ^ 63"
  shows "parse_signed 64 10 (show_int i) = Some i"
proof (cases "i < 0")
  case True
  with assms show ?thesis by (simp add: parse_signed_def show_int_def digits_val_show Let_def)
next
  case False
  have "hd (show_num 10 (nat i)) \<noteq> CHR ''-''"
    using show_num_digits [of 10 "hd (show_num 10 (nat i))" "nat i"] digit_val_chars(1) [of 10] by auto
  with False assms show ?thesis by (simp add: parse_signed_def show_int_def digits_val_show Let_def)
qed

lemma length_show: "n < 10 ^ k \<Longrightarrow> 0 < k \<Longrightarrow> length (show_num 10 n) \<le> k"
proof (induction "10 :: nat" n arbitrary: k rule: show_num.induct)
  case (1 n)
  show ?case
  proof (cases "n < 10")
    case True
    with 1(3) show ?thesis by (simp add: show_num.simps [of 10 n])
  next
    case False
    from 1(3) obtain j where k: "k = Suc j" by (cases k) auto
    then have "0 < j" using 1(2) False by (cases j) auto
    moreover from k 1(2) have "n div 10 < 10 ^ j" by (simp add: less_mult_imp_div_less mult.commute)
    ultimately show ?thesis using 1(1) False k by (simp add: show_num.simps [of 10 n])
  qed
qed

lemma pad_facts:
  assumes "n < 10 ^ k" "0 < k"
  shows "length (pad k n) = k" "c \<in> set (pad k n) \<Longrightarrow> digit_val 10 c \<noteq> None" "digits_val 10 0 (pad k n) = Some n"
proof -
  show "length (pad k n) = k" using length_show [OF assms] by (simp add: pad_def Let_def)
  have z: "digit_val 10 CHR ''0'' = Some 0" by (simp add: digit_val_def)
  show "c \<in> set (pad k n) \<Longrightarrow> digit_val 10 c \<noteq> None"
    using show_num_digits [of 10 c n] z by (auto simp: pad_def Let_def split: if_splits)
  have "digits_val 10 0 (replicate j CHR ''0'') = Some 0" for j by (induction j) (simp_all add: z)
  then show "digits_val 10 0 (pad k n) = Some n" by (simp add: pad_def Let_def digits_val_append digits_val_show)
qed

lemma read_num_pad:
  assumes "n < 10 ^ k" "0 < k"
  shows "read_num k (pad k n @ rest) = Some (n, rest)"
proof -
  note p = pad_facts [OF assms]
  have tw: "takeWhile (\<lambda>c. digit_val 10 c \<noteq> None) (take k (pad k n @ rest)) = pad k n"
    using p(1,2) by (simp add: takeWhile_eq_all_conv)
  show ?thesis unfolding read_num_def Let_def tw using p(1,3) assms(2) by auto
qed

definition printable :: "date \<Rightarrow> bool" where
  "printable t = (date_ok t \<and> da_year t < 10 ^ 4 \<and> da_nsec t < 10 ^ 9 \<and> da_off_hour t < 100)"

lemma month_days_31: "m < 12 \<Longrightarrow> month_days y ! m \<le> 31"
  by (auto simp: month_days_def less_Suc_eq numeral_eq_Suc)

lemma read_date_show:
  assumes "printable t"
  shows "read_date (show_date t) = Some t"
proof -
  have ok: "date_ok t" using assms by (simp add: printable_def)
  then have "da_month t - 1 < 12" unfolding date_ok_def by linarith
  with ok have "da_day t \<le> 31" using month_days_31 [of "da_month t - 1" "da_year t"] by (simp add: date_ok_def)
  then have b: "da_year t < 10 ^ 4" "da_month t < 10 ^ 2" "da_day t < 10 ^ 2" "da_hour t < 10 ^ 2" "da_min t < 10 ^ 2"
    "da_sec t < 10 ^ 2" "da_nsec t < 10 ^ 9" "da_off_hour t < 10 ^ 2" "da_off_min t < 10 ^ 2"
    using assms by (auto simp: printable_def date_ok_def)
  note r = b [THEN read_num_pad]
  have z: "length (pad 9 (da_nsec t) @ s) - length s = 9" for s using pad_facts(1) [OF b(7)] by simp
  have o: "read_num 2 (pad 2 (da_off_min t)) = Some (da_off_min t, [])" using r(9) [of "[]"] by simp
  have s: "skip_blanks (CHR '' '' # pad 2 (da_hour t) @ s) = pad 2 (da_hour t) @ s" for s
  proof -
    obtain c cs where c: "pad 2 (da_hour t) = c # cs" using pad_facts(1) [OF b(4)] by (cases "pad 2 (da_hour t)") auto
    then have "c \<noteq> CHR '' ''" using pad_facts(2) [OF b(4), of c] digit_val_chars(4) [of 10] by auto
    with c show ?thesis by (simp add: skip_blanks_def)
  qed
  have w: "skip_blanks (CHR '' '' # (if da_west t then ''-'' else ''+'') @ s) = (if da_west t then ''-'' else ''+'') @ s" for s
    by (simp add: skip_blanks_def)
  have zone: "read_zone ((if da_west t then ''-'' else ''+'') @ pad 2 (da_off_hour t) @ pad 2 (da_off_min t)) =
      Some (da_west t, da_off_hour t, da_off_min t)"
    by (simp add: read_zone_def r o)
  have frac: "read_fraction (CHR ''.'' # pad 9 (da_nsec t) @ s) = Some (da_nsec t, s)" for s
    by (simp add: read_fraction_def read_char_def r z del: length_append)
  have eq: "\<lparr>da_year = da_year t, da_month = da_month t, da_day = da_day t, da_hour = da_hour t, da_min = da_min t, da_sec = da_sec t,
      da_nsec = da_nsec t, da_west = da_west t, da_off_hour = da_off_hour t, da_off_min = da_off_min t\<rparr> = t" by simp
  show ?thesis
    unfolding read_date_def show_date_def append_Cons append_Nil
    by (simp add: r read_char_def s w zone frac eq ok Let_def del: append_assoc if_split)
qed

lemma takeWhile_field: "\<forall>c\<in>set f. \<not> p c \<Longrightarrow> p d \<Longrightarrow> takeWhile (\<lambda>c. \<not> p c) (f @ d # post) = f"
  by (induction f) auto

lemma splitter_next_field:
  assumes "sp_str sp = pre @ f @ d # post" "sp_idx sp = length pre" "f \<noteq> []"
    "\<forall>c\<in>set f. \<not> is_delim (sp_delim sp) c" "is_delim (sp_delim sp) d"
  shows "splitter_next sp = (Some f, sp\<lparr>sp_idx := length pre + length f + 1\<rparr>)"
proof -
  let ?p = "is_delim (sp_delim sp)" and ?s = "sp_str sp" and ?i = "length pre"
  have dr: "drop ?i ?s = f @ d # post" using assms(1) by simp
  obtain c cs where f: "f = c # cs" using assms(3) by (cases f) auto
  then have "takeWhile ?p (f @ d # post) = []" using assms(4) by simp
  then have i: "skip_while ?p ?s ?i = ?i" by (simp add: skip_while_eq dr)
  have tw: "takeWhile (\<lambda>c. \<not> ?p c) (f @ d # post) = f" by (rule takeWhile_field [OF assms(4,5)])
  have "find_from ?p ?s ?i = Some (?i + length f)"
    using assms(1) by (simp add: find_from_def Let_def skip_while_eq dr tw)
  moreover have "Prelude.sublist ?i (length f) ?s = f" using dr by (simp add: Prelude.sublist_def)
  moreover have "\<not> is_end sp" using assms(1,2) f by (simp add: is_end_def)
  ultimately show ?thesis by (simp add: splitter_next_def assms(2) i Let_def)
qed

definition field_ok :: "split_delim \<Rightarrow> str \<Rightarrow> bool" where
  "field_ok d f = (f \<noteq> [] \<and> (\<forall>c\<in>set f. \<not> is_delim d c))"

lemma split_n_loop_fields:
  assumes "\<forall>f\<in>set fs. field_ok (DelimChar c) f"
    "sp_str sp = pre @ concat (map (\<lambda>f. f @ [c]) fs) @ rest" "sp_idx sp = length pre" "sp_delim sp = DelimChar c"
  shows "split_n_loop (length fs) sp res =
    Some (res @ fs, sp\<lparr>sp_idx := length pre + length (concat (map (\<lambda>f. f @ [c]) fs))\<rparr>)"
  using assms
proof (induction fs arbitrary: pre sp res)
  case (Cons f fs)
  let ?post = "concat (map (\<lambda>f. f @ [c]) fs) @ rest"
  have n: "splitter_next sp = (Some f, sp\<lparr>sp_idx := length pre + length f + 1\<rparr>)"
    by (rule splitter_next_field [of _ _ _ c ?post]) (use Cons.prems in \<open>auto simp: field_ok_def\<close>)
  have "split_n_loop (length fs) (sp\<lparr>sp_idx := length pre + length f + 1\<rparr>) (res @ [f]) =
      Some ((res @ [f]) @ fs, sp\<lparr>sp_idx := length pre + length f + 1\<rparr>\<lparr>sp_idx := length (pre @ f @ [c]) + length (concat (map (\<lambda>f. f @ [c]) fs))\<rparr>)"
    by (rule Cons.IH) (use Cons.prems in auto)
  then show ?case by (simp add: n add.assoc)
qed simp

lemma split_n_fields:
  assumes "\<forall>f\<in>set fs. field_ok (DelimChar c) f" "rest \<noteq> []" "hd rest \<noteq> c"
  shows "split_n (length fs) (concat (map (\<lambda>f. f @ [c]) fs) @ rest) (DelimChar c) = Some (fs, rest)"
proof -
  let ?s = "concat (map (\<lambda>f. f @ [c]) fs) @ rest" and ?k = "length (concat (map (\<lambda>f. f @ [c]) fs))"
  have "split_n_loop (length fs) (mk_splitter ?s (DelimChar c)) [] =
      Some (fs, (mk_splitter ?s (DelimChar c))\<lparr>sp_idx := ?k\<rparr>)"
    using split_n_loop_fields [of fs c "mk_splitter ?s (DelimChar c)" "[]" rest "[]"] assms(1) by (simp add: mk_splitter_def)
  moreover have "drop ?k ?s = rest" by (simp only: append_eq_conv_conj [symmetric] append_take_drop_id drop_append drop_all order_refl diff_self_eq_0 drop_0 append_Nil)
  moreover have "takeWhile (is_delim (DelimChar c)) rest = []" using assms(2,3) by (cases rest) auto
  ultimately show ?thesis by (simp add: split_n_def skip_while_eq mk_splitter_def)
qed

definition stat_line :: "rpc_stat \<Rightarrow> date \<Rightarrow> date \<Rightarrow> date \<Rightarrow> str \<Rightarrow> str" where
  "stat_line st ta tm tc path =
     concat (map (\<lambda>f. f @ ''|'') [show_num 16 (unat (rs_mode st)), show_num 10 (unat (rs_links st)), show_int (sint (rs_size st)),
       show_num 10 (unat (rs_uid st)), show_num 10 (unat (rs_gid st)), show_date ta, show_date tm, show_date tc]) @ path"

lemma show_num_field: "2 \<le> base \<Longrightarrow> base \<le> 16 \<Longrightarrow> field_ok (DelimChar CHR ''|'') (show_num base n)"
  using show_num_digits [of base "CHR ''|''" n] digit_val_chars(2) [of base] by (auto simp: field_ok_def)

lemma show_int_field: "field_ok (DelimChar CHR ''|'') (show_int i)"
  using show_num_field [of 10] by (auto simp: show_int_def field_ok_def)

lemma pad_no_bar: "CHR ''|'' \<notin> set (pad k n)"
  using show_num_digits [of 10 "CHR ''|''" n] digit_val_chars(2) [of 10] by (auto simp: pad_def Let_def)

lemma show_date_field: "field_ok (DelimChar CHR ''|'') (show_date t)"
  using pad_no_bar by (auto simp: field_ok_def show_date_def)

lemma parse_stat_line:
  assumes "printable ta" "printable tm" "printable tc" "path \<noteq> []" "hd path \<noteq> CHR ''|''"
  shows "parse_file_stat (stat_line st ta tm tc path) = Some (get_basename path,
    st\<lparr>rs_atime := ns_timespec (date_ns ta), rs_mtime := ns_timespec (date_ns tm), rs_ctime := ns_timespec (date_ns tc)\<rparr>)"
proof -
  let ?fs = "[show_num 16 (unat (rs_mode st)), show_num 10 (unat (rs_links st)), show_int (sint (rs_size st)),
       show_num 10 (unat (rs_uid st)), show_num 10 (unat (rs_gid st)), show_date ta, show_date tm, show_date tc]"
  have "\<forall>f\<in>set ?fs. field_ok (DelimChar CHR ''|'') f" by (simp add: show_num_field show_int_field show_date_field)
  from split_n_fields [OF this assms(4,5)] have s: "split_n 8 (stat_line st ta tm tc path) (DelimChar CHR ''|'') = Some (?fs, path)"
    by (simp add: stat_line_def eval_nat_numeral)
  have u32: "unat (w :: u32) < 2 ^ 32" and u64: "unat (v :: u64) < 2 ^ 64" for w v
    using unsigned_less [of w, where ?'a = nat] unsigned_less [of v, where ?'a = nat] by simp_all
  have i64: "- (2 ^ 63) \<le> sint (v :: i64)" "sint (v :: i64) < 2 ^ 63" for v
    using sint_greater_eq [of v] sint_less [of v] by simp_all
  show ?thesis
    using assms(1-3) by (simp add: parse_file_stat_def s value_or_def parse_unsigned_show [OF _ _ u32] parse_unsigned_show [OF _ _ u64]
        parse_signed_show [OF i64] parse_date_def read_date_show)
qed

section \<open>Error messages\<close>

definition known_messages :: "(str \<times> adb_error) list" where
  "known_messages = [('' Permission denied'', PermDenied), ('' No such file or directory'', NoSuchFileOrDir),
     ('' Not a directory'', NotADir), ('' inaccessible or not found'', Inaccessible), ('' Read-only file system'', ReadOnly)]"

lemma known_facts:
  assumes "(msg, e) \<in> set known_messages"
  shows "message_error (rev msg) = e" "msg \<noteq> []" "\<not> is_delim whitespace (last msg)" "CHR '':'' \<notin> set msg" "CHR 0x0A \<notin> set msg"
  using assms by (auto simp: known_messages_def message_error_def whitespace_def)

lemma rstrip_keeps:
  assumes "\<not> is_delim d c"
  shows "\<exists>ys'. rstrip (xs @ c # ys) d = xs @ c # ys'"
proof (induction ys rule: rev_induct)
  case Nil
  then show ?case using assms by (simp add: rstrip.simps)
next
  case (snoc y ys)
  show ?case
  proof (cases "is_delim d y")
    case True
    then have "rstrip (xs @ c # ys @ [y]) d = rstrip (xs @ c # ys) d"
      by (subst rstrip.simps) (simp add: butlast_append)
    with snoc show ?thesis by simp
  qed (simp add: rstrip.simps)
qed

lemma strip_message:
  assumes "msg \<noteq> []" "\<not> is_delim whitespace (last msg)"
  shows "\<exists>post. strip (rev msg @ CHR '':'' # rest) whitespace = rev msg @ CHR '':'' # post"
proof -
  obtain c cs where r: "rev msg = c # cs" using assms(1) by (cases "rev msg") auto
  then have "c = last msg" by (metis assms(1) hd_rev list.sel(1))
  then have "lstrip (rev msg @ CHR '':'' # rest) whitespace = rev msg @ CHR '':'' # rest"
    using assms(2) by (simp add: r lstrip_eq)
  moreover have "\<not> is_delim whitespace CHR '':''" by (simp add: whitespace_def)
  ultimately show ?thesis using rstrip_keeps [of whitespace "CHR '':''" "rev msg" rest] by (simp add: strip_def)
qed

lemma stderr_line:
  assumes "(msg, e) \<in> set known_messages" "pre @ '':'' @ msg \<notin> {''adb: no devices/emulators found'', ''adb: device offline'', no_dev_serial serial}"
  shows "stderr_lines serial ((pre @ '':'' @ msg) # lines) = e"
proof -
  note k = known_facts [OF assms(1)]
  obtain post where st: "strip (rev (pre @ '':'' @ msg)) whitespace = rev msg @ CHR '':'' # post"
    using strip_message [OF k(2,3), of "rev pre"] by auto
  have "splitter_next (mk_splitter (rev msg @ CHR '':'' # post) (DelimChar CHR '':'')) =
      (Some (rev msg), (mk_splitter (rev msg @ CHR '':'' # post) (DelimChar CHR '':''))\<lparr>sp_idx := length (rev msg) + 1\<rparr>)"
    using splitter_next_field [of "mk_splitter (rev msg @ CHR '':'' # post) (DelimChar CHR '':'')" "[]" "rev msg" "CHR '':''" post] k(2,4)
    by (auto simp: mk_splitter_def)
  then show ?thesis using assms(2) k(1) unfolding stderr_lines.simps st by simp
qed

text \<open>Error messages of adb. A failed command whose message ends, behind a colon, in one of the texts of
  the device's tools is reported with the error code of that text.\<close>

theorem command_error:
  assumes "sh_run sh cmd inp d = (Inr (ret, out, pre @ '':'' @ msg), d')" "ret \<noteq> 0" "(msg, e) \<in> set known_messages"
    "strip (pre @ '':'' @ msg) whitespace = pre @ '':'' @ msg" "CHR 0x0A \<notin> set pre"
    "pre @ '':'' @ msg \<notin> {''adb: no devices/emulators found'', ''adb: device offline'', no_dev_serial (sh_serial sh)}"
  shows "cmd_exec sh cmd inp True merge d = (Unexpect (adb_errc e), d')"
proof -
  note k = known_facts [OF assms(3)]
  have "tokens (is_delim (DelimChar CHR 0x0A)) (pre @ '':'' @ msg) = [pre @ '':'' @ msg]"
    using assms(5) k(5) by (intro tokens_single) auto
  then have "parse_stderr (sh_serial sh) (pre @ '':'' @ msg) = e"
    using stderr_line [OF assms(3,6)] by (simp add: parse_stderr_def split_eq_tokens)
  with assms(1,2,4) show ?thesis by (simp add: cmd_exec_def)
qed

theorem command_error_witness:
  "cmd_exec \<lparr>sh_run = (\<lambda>_ _ d. (Inr (1, [], ''stat: x: No such file or directory''), d)), sh_serial = None, sh_local = None\<rparr>
     [''adb''] [] True False () = (Unexpect no_such_file_or_directory, ())"
proof -
  let ?sh = "\<lparr>sh_run = (\<lambda>_ _ d. (Inr (1, [], ''stat: x: No such file or directory''), d)), sh_serial = None, sh_local = None\<rparr>"
  have "cmd_exec ?sh [''adb''] [] True False () = (Unexpect (adb_errc NoSuchFileOrDir), ())"
    by (rule command_error [of _ _ _ _ 1 "[]" "''stat: x''" "'' No such file or directory''"])
      (simp_all add: known_messages_def strip_def lstrip_eq rstrip.simps whitespace_def no_dev_serial_def)
  then show ?thesis by (simp add: adb_errc_def)
qed

end
