(* ===== verification/Adb.thy ===== *)
theory Adb
  imports Adb_Cmd
begin

text \<open>
  \<^verbatim>\<open>AdbTransport\<close> of \<^verbatim>\<open>adb_transport.cpp\<close>: the handler that serves requests by running commands on the device,
  and the transport around it, with its two channels, its pool and its table of promises, as a
  step relation between suspension points. It is the second implementation of the contract of a
  transport. \<^verbatim>\<open>NullTransport\<close> is here too.
\<close>

section \<open>The handler\<close>

record adb_handler =
  ah_counter :: u64
  ah_fds :: "(u64 \<times> str) list"

definition mk_adb_handler :: adb_handler where
  "mk_adb_handler = \<lparr>ah_counter = 0, ah_fds = []\<rparr>"

type_synonym 'd adb_op = "adb_handler \<Rightarrow> 'd \<Rightarrow> response expect \<times> adb_handler \<times> 'd"

text \<open>A command whose output becomes the response.\<close>

definition via :: "('d \<Rightarrow> str expect \<times> 'd) \<Rightarrow> (str \<Rightarrow> response expect) \<Rightarrow> 'd adb_op" where
  "via cmd f h d = (case cmd d of (r, d) \<Rightarrow> (and_then r f, h, d))"

definition stat_format :: str where
  "stat_format = [CHR 0x27] @ ''%f|%h|%s|%u|%g|%x|%y|%z|%n'' @ [CHR 0x27]"

text \<open>The first line is the directory itself; lines that cannot be parsed are left out.\<close>

definition listdir_entries :: "str \<Rightarrow> (str \<times> rpc_stat) list" where
  "listdir_entries out =
     concat (map (\<lambda>line. case parse_file_stat (strip line whitespace) of Some e \<Rightarrow> [e] | None \<Rightarrow> [])
       (drop 1 (split out (DelimChar CHR 0x0A))))"

definition adb_listdir :: "'d shell \<Rightarrow> str \<Rightarrow> 'd adb_op" where
  "adb_listdir sh path =
     via (cmd_exec sh [''adb'', ''shell'', ''find'', quote path, ''-maxdepth'', ''1'', ''-exec'', ''stat'', ''-c'', stat_format, ''{}'', ''+'']
            [] False False)
         (\<lambda>out. Inr (RespListdir (listdir_entries out)))"

definition adb_stat :: "'d shell \<Rightarrow> str \<Rightarrow> 'd adb_op" where
  "adb_stat sh path =
     via (cmd_run sh [''adb'', ''shell'', ''stat'', ''-c'', stat_format, quote path])
         (\<lambda>out. transform (ok_or (parse_file_stat (strip out whitespace)) io_error) (\<lambda>e. RespStat (snd e)))"

definition adb_readlink :: "'d shell \<Rightarrow> str \<Rightarrow> 'd adb_op" where
  "adb_readlink sh path =
     via (cmd_run sh [''adb'', ''shell'', ''readlink'', quote path]) (\<lambda>target. Inr (RespReadlink (strip target whitespace)))"

text \<open>Descriptors opened on a renamed file follow it.\<close>

definition rename_fds :: "str \<Rightarrow> str \<Rightarrow> adb_handler \<Rightarrow> adb_handler" where
  "rename_fds from to h = h\<lparr>ah_fds := map (\<lambda>(fd, p). (fd, if p = from then to else p)) (ah_fds h)\<rparr>"

definition adb_rename :: "'d shell \<Rightarrow> str \<Rightarrow> str \<Rightarrow> u32 \<Rightarrow> 'd adb_op" where
  "adb_rename sh from to flags h d =
     (if flags = 2 then (Unexpect invalid_argument, h, d)
      else
        (case cmd_run sh ((if flags = 1 then [''adb'', ''shell'', ''mv'', ''-n''] else [''adb'', ''shell'', ''mv'']) @ [quote from, quote to]) d of
           (Inl e, d) \<Rightarrow> (Inl e, h, d)
         | (Inr _, d) \<Rightarrow> (Inr RespRename, rename_fds from to h, d)))"

definition adb_truncate :: "'d shell \<Rightarrow> str \<Rightarrow> i64 \<Rightarrow> 'd adb_op" where
  "adb_truncate sh path sz =
     via (cmd_run sh [''adb'', ''shell'', ''truncate'', ''-s'', show_int (sint sz), quote path]) (\<lambda>_. Inr RespTruncate)"

abbreviation UTIME_NOW :: i64 where "UTIME_NOW \<equiv> 0x3FFFFFFF"
abbreviation UTIME_OMIT :: i64 where "UTIME_OMIT \<equiv> 0x3FFFFFFE"

definition touch_command :: "(i64 \<Rightarrow> str) \<Rightarrow> str \<Rightarrow> timespec \<times> str \<Rightarrow> str list option" where
  "touch_command local path tf =
     (case tf of (time, flag) \<Rightarrow>
        if tv_nsec time = UTIME_OMIT then None
        else if tv_nsec time = UTIME_NOW then Some [''adb'', ''shell'', ''touch'', ''-c'', flag, quote path]
        else Some [''adb'', ''shell'', ''touch'', ''-c'', flag, ''-t'', local (tv_sec time) @ show_int (sint (tv_nsec time)), quote path])"

fun touch_all :: "'d shell \<Rightarrow> (i64 \<Rightarrow> str) \<Rightarrow> str \<Rightarrow> (timespec \<times> str) list \<Rightarrow> 'd \<Rightarrow> unit expect \<times> 'd" where
  "touch_all sh local path [] d = (Inr (), d)"
| "touch_all sh local path (tf # tfs) d =
     (case touch_command local path tf of
        None \<Rightarrow> touch_all sh local path tfs d
      | Some cmd \<Rightarrow> (case cmd_run sh cmd d of (Inl e, d) \<Rightarrow> (Inl e, d) | (Inr _, d) \<Rightarrow> touch_all sh local path tfs d))"

definition adb_utimens :: "'d shell \<Rightarrow> str \<Rightarrow> timespec \<Rightarrow> timespec \<Rightarrow> 'd adb_op" where
  "adb_utimens sh path atime mtime h d =
     (case sh_local sh of
        None \<Rightarrow> (Unexpect resource_unavailable_try_again, h, d)
      | Some local \<Rightarrow>
          (case touch_all sh local path [(atime, ''-a''), (mtime, ''-m'')] d of
             (r, d) \<Rightarrow> (transform r (\<lambda>_. RespUtimens), h, d)))"

text \<open>The count is the first word of the fourth line \<^verbatim>\<open>dd\<close> prints, or zero.\<close>

definition copied_size :: "str \<Rightarrow> nat" where
  "copied_size out =
     value_or (Option.bind (split_n 4 out (DelimChar CHR 0x0A)) (\<lambda>(lines, _).
       Option.bind (split_n 1 (lines ! 3) (DelimChar CHR '' '')) (\<lambda>(words, _). parse_unsigned 64 10 (words ! 0)))) 0"

definition assign :: "str \<Rightarrow> str \<Rightarrow> str" where
  "assign key v = key @ ''='' @ v"

definition adb_copy_file_range :: "'d shell \<Rightarrow> str \<Rightarrow> i64 \<Rightarrow> str \<Rightarrow> i64 \<Rightarrow> u64 \<Rightarrow> 'd adb_op" where
  "adb_copy_file_range sh in_path in_off out_path out_off sz =
     via (cmd_exec sh [''adb'', ''shell'', ''dd'', ''iflag=skip_bytes,count_bytes'', assign ''skip'' (show_int (sint in_off)),
            assign ''count'' (show_num 10 (unat sz)), assign ''if'' (quote in_path), ''oflag=seek_bytes'', ''conv=notrunc'',
            assign ''seek'' (show_int (sint out_off)), assign ''of'' (quote out_path)] [] True True)
         (\<lambda>out. Inr (RespCopyFileRange (word_of_nat (copied_size out))))"

definition adb_open :: "str \<Rightarrow> 'd adb_op" where
  "adb_open path h d =
     (let fd = ah_counter h + 1 in
      (Inr (RespOpen fd),
       h\<lparr>ah_counter := fd, ah_fds := (if fd \<in> fst ` set (ah_fds h) then ah_fds h else ah_fds h @ [(fd, path)])\<rparr>, d))"

definition adb_close :: "u64 \<Rightarrow> 'd adb_op" where
  "adb_close fd h d =
     (case map_of (ah_fds h) fd of
        None \<Rightarrow> (Unexpect bad_file_descriptor, h, d)
      | Some _ \<Rightarrow> (Inr RespClose, h\<lparr>ah_fds := filter (\<lambda>e. fst e \<noteq> fd) (ah_fds h)\<rparr>, d))"

text \<open>\<open>out\<close> is the caller's buffer before the request; the response is the whole buffer afterwards.\<close>

definition adb_read :: "'d shell \<Rightarrow> u64 \<Rightarrow> i64 \<Rightarrow> u8 list \<Rightarrow> 'd adb_op" where
  "adb_read sh fd off out h d =
     (case map_of (ah_fds h) fd of
        None \<Rightarrow> (Unexpect bad_file_descriptor, h, d)
      | Some path \<Rightarrow>
          via (cmd_run sh [''adb'', ''shell'', ''dd'', ''iflag=skip_bytes,count_bytes'', assign ''skip'' (show_int (sint off)),
                 assign ''count'' (show_num 10 (length out)), assign ''if'' (quote path)])
              (\<lambda>s. let size = min (length s) (length out) in Inr (RespRead (bytes_of (take size s) @ drop size out))) h d)"

definition adb_write :: "'d shell \<Rightarrow> u64 \<Rightarrow> i64 \<Rightarrow> u8 list \<Rightarrow> 'd adb_op" where
  "adb_write sh fd off bs h d =
     (case map_of (ah_fds h) fd of
        None \<Rightarrow> (Unexpect bad_file_descriptor, h, d)
      | Some path \<Rightarrow>
          via (cmd_exec sh [''adb'', ''shell'', ''dd'', ''oflag=seek_bytes'', ''conv=notrunc'', assign ''seek'' (show_int (sint off)),
                 assign ''of'' (quote path)] (str_of bs) True False)
              (\<lambda>_. Inr (RespWrite (word_of_nat (length bs)))) h d)"

definition adb_ping :: "'d shell \<Rightarrow> u64 \<Rightarrow> 'd adb_op" where
  "adb_ping sh num h d = (case check_connection sh d of (r, d) \<Rightarrow> (transform r (\<lambda>_. RespPing num), h, d))"

definition path_command :: "'d shell \<Rightarrow> str \<Rightarrow> str \<Rightarrow> response \<Rightarrow> 'd adb_op" where
  "path_command sh tool path resp = via (cmd_run sh [''adb'', ''shell'', tool, quote path]) (\<lambda>_. Inr resp)"

text \<open>\<open>buf\<close> gives the contents of the buffer a read request points to.\<close>

definition adb_handle_req :: "'d shell \<Rightarrow> (u64 \<Rightarrow> u8 list) \<Rightarrow> request \<Rightarrow> 'd adb_op" where
  "adb_handle_req sh buf req =
     (case req of
        ReqListdir path \<Rightarrow> adb_listdir sh path
      | ReqStat path \<Rightarrow> adb_stat sh path
      | ReqReadlink path \<Rightarrow> adb_readlink sh path
      | ReqMknod path mode dev \<Rightarrow> path_command sh ''touch'' path RespMknod
      | ReqMkdir path mode \<Rightarrow> path_command sh ''mkdir'' path RespMkdir
      | ReqUnlink path \<Rightarrow> path_command sh ''rm'' path RespUnlink
      | ReqRmdir path \<Rightarrow> path_command sh ''rmdir'' path RespRmdir
      | ReqRename from to flags \<Rightarrow> adb_rename sh from to flags
      | ReqTruncate path sz \<Rightarrow> adb_truncate sh path sz
      | ReqUtimens path atime mtime \<Rightarrow> adb_utimens sh path atime mtime
      | ReqCopyFileRange in_path in_off out_path out_off sz \<Rightarrow> adb_copy_file_range sh in_path in_off out_path out_off sz
      | ReqOpen path mode \<Rightarrow> adb_open path
      | ReqClose fd \<Rightarrow> adb_close fd
      | ReqRead fd off sz \<Rightarrow> adb_read sh fd off (buf sz)
      | ReqWrite fd off bs \<Rightarrow> adb_write sh fd off bs
      | ReqPing num \<Rightarrow> adb_ping sh num)"

section \<open>The transport\<close>

text \<open>
  \<open>ad_in\<close> and \<open>ad_out\<close> are the sends waiting in the two channels. \<open>ad_jobs\<close> are the requests handed to the pool;
  each is a coroutine of its own, so they may finish in any order.
\<close>

record 'd adb =
  ad_table :: "procedure ptable"
  ad_in :: "(u32 \<times> request) list"
  ad_jobs :: "(u32 \<times> request) list"
  ad_out :: "(u32 \<times> response expect) list"
  ad_handler :: adb_handler
  ad_dev :: 'd

definition mk_adb :: "'d \<Rightarrow> 'd adb" where
  "mk_adb d = \<lparr>ad_table = pt_init, ad_in = [], ad_jobs = [], ad_out = [], ad_handler = mk_adb_handler, ad_dev = d\<rparr>"

text \<open>\<^verbatim>\<open>create\<close> succeeds only when the device is there.\<close>

definition adb_create :: "'d shell \<Rightarrow> 'd \<Rightarrow> 'd adb expect \<times> 'd" where
  "adb_create sh d = (case check_connection sh d of (r, d) \<Rightarrow> (transform r (\<lambda>_. mk_adb d), d))"

definition ad_start :: "'d adb \<Rightarrow> 'd adb" where
  "ad_start a = a\<lparr>ad_table := (ad_table a)\<lparr>pt_running := True\<rparr>\<rparr>"

definition ad_send :: "request \<Rightarrow> 'd adb \<Rightarrow> u32 expect \<times> 'd adb" where
  "ad_send req a =
     (case pt_open (req_proc req) (ad_table a) of
        (Inl e, t) \<Rightarrow> (Inl e, a\<lparr>ad_table := t\<rparr>)
      | (Inr i, t) \<Rightarrow> (Inr i, a\<lparr>ad_table := t, ad_in := ad_in a @ [(i, req)]\<rparr>))"

definition ad_timeout :: "u32 \<Rightarrow> 'd adb \<Rightarrow> 'd adb" where
  "ad_timeout i a = a\<lparr>ad_table := pt_settle i (Unexpect timed_out) (ad_table a)\<rparr>"

definition ad_stop :: "errc \<Rightarrow> 'd adb \<Rightarrow> 'd adb" where
  "ad_stop status a =
     (let r = pt_running (ad_table a) in
      a\<lparr>ad_table := pt_stop status (ad_table a), ad_in := (if r then [] else ad_in a), ad_out := (if r then [] else ad_out a),
        ad_jobs := []\<rparr>)"

text \<open>One turn of \<^verbatim>\<open>request_dispatch\<close>.\<close>

definition request_dispatch :: "'d adb \<Rightarrow> 'd adb" where
  "request_dispatch a =
     (case ad_in a of
        [] \<Rightarrow> a
      | (i, req) # rest \<Rightarrow>
          (if map_of (pt_requests (ad_table a)) i = None then a\<lparr>ad_in := rest\<rparr>
           else a\<lparr>ad_in := rest, ad_jobs := ad_jobs a @ [(i, req)]\<rparr>))"

text \<open>A job of the pool that runs to its end; the completion handler sends the result.\<close>

definition run_job :: "'d shell \<Rightarrow> (u64 \<Rightarrow> u8 list) \<Rightarrow> u32 \<times> request \<Rightarrow> 'd adb \<Rightarrow> 'd adb" where
  "run_job sh buf job a =
     (case adb_handle_req sh buf (snd job) (ad_handler a) (ad_dev a) of
        (r, h, d) \<Rightarrow> a\<lparr>ad_jobs := remove1 job (ad_jobs a), ad_out := ad_out a @ [(fst job, r)], ad_handler := h, ad_dev := d\<rparr>)"

text \<open>One turn of \<^verbatim>\<open>response_receive\<close>.\<close>

definition adb_response_receive :: "'d adb \<Rightarrow> 'd adb" where
  "adb_response_receive a =
     (case ad_out a of
        [] \<Rightarrow> a
      | (i, r) # rest \<Rightarrow> a\<lparr>ad_out := rest, ad_table := pt_settle i r (ad_table a)\<rparr>)"

text \<open>The completion handler of \<^verbatim>\<open>response_receive\<close> in \<^verbatim>\<open>start\<close>.\<close>

definition adb_receive_end :: "errc \<Rightarrow> 'd adb \<Rightarrow> 'd adb" where
  "adb_receive_end status a = a\<lparr>ad_table := pt_cancel status (ad_table a), ad_in := [], ad_out := []\<rparr>"

definition null_send :: "errc \<Rightarrow> request \<Rightarrow> response expect" where
  "null_send err req = Unexpect err"

section \<open>Steps\<close>

inductive ad_step :: "'d shell \<Rightarrow> (u64 \<Rightarrow> u8 list) \<Rightarrow> 'd adb \<Rightarrow> 'd adb \<Rightarrow> bool" for sh buf where
  start: "\<not> pt_running (ad_table a) \<Longrightarrow> pt_requests (ad_table a) = [] \<Longrightarrow> ad_step sh buf a (ad_start a)"
| send: "pt_counter (ad_table a) \<noteq> - 1 \<Longrightarrow> ad_send req a = (Inr i, a') \<Longrightarrow> ad_step sh buf a a'"
| refuse: "ad_send req a = (Unexpect e, a') \<Longrightarrow> ad_step sh buf a a'"
| expire: "ad_step sh buf a (ad_timeout i a)"
| stop: "ad_step sh buf a (ad_stop status a)"
| dispatch: "ad_in a \<noteq> [] \<Longrightarrow> ad_step sh buf a (request_dispatch a)"
| work: "job \<in> set (ad_jobs a) \<Longrightarrow> ad_step sh buf a (run_job sh buf job a)"
| receive: "ad_out a \<noteq> [] \<Longrightarrow> ad_step sh buf a (adb_response_receive a)"
| finish: "ad_step sh buf a (adb_receive_end status a)"

lemma ad_step_moves: "ad_step sh buf a a' \<Longrightarrow> pt_move\<^sup>*\<^sup>* (ad_table a, []) (ad_table a', [])"
proof (induction rule: ad_step.induct)
  case (start a)
  then show ?case by (auto simp: ad_start_def intro!: r_into_rtranclp pt_move.start)
next
  case (send a req i a')
  then show ?case by (auto simp: ad_send_def intro!: r_into_rtranclp pt_move.issue split: prod.splits sum.splits)
next
  case (refuse req a e a')
  then show ?case by (auto simp: ad_send_def pt_open_def Let_def split: if_splits)
next
  case (expire a i)
  then show ?case by (auto simp: ad_timeout_def intro!: r_into_rtranclp pt_move.settle)
next
  case (stop a status)
  then show ?case by (auto simp: ad_stop_def pt_stop_def Let_def intro!: r_into_rtranclp pt_move.cancel)
next
  case (dispatch a)
  then show ?case by (auto simp: request_dispatch_def split: list.splits)
next
  case (work job a)
  then show ?case by (auto simp: run_job_def split: prod.splits)
next
  case (receive a)
  then show ?case
    by (auto simp: adb_response_receive_def intro!: r_into_rtranclp pt_move.settle split: list.splits)
next
  case (finish a status)
  then show ?case by (auto simp: adb_receive_end_def intro!: r_into_rtranclp pt_move.cancel)
qed

interpretation adb_runs: transport_runs "ad_step sh buf" ad_table "\<lambda>_. []" for sh buf
  by unfold_locales (rule ad_step_moves)

section \<open>Answers\<close>

lemma via_Inr: "via cmd f h d = (Inr resp, h', d') \<Longrightarrow> \<exists>out. f out = Inr resp"
  by (auto simp: via_def and_then_Inr_iff split: prod.splits)

lemma adb_handler_typed:
  assumes "adb_handle_req sh buf req h d = (Inr resp, h', d')"
  shows "resp_proc resp = req_proc req"
  using assms
  by (cases req) (auto simp: adb_handle_req_def adb_listdir_def adb_stat_def adb_readlink_def path_command_def adb_rename_def adb_truncate_def
      adb_utimens_def adb_copy_file_range_def adb_open_def adb_close_def adb_read_def adb_write_def adb_ping_def Let_def
      transform_Inr_iff dest!: via_Inr split: if_splits prod.splits sum.splits option.splits)

definition job_ok :: "procedure ptable \<Rightarrow> u32 \<times> request \<Rightarrow> bool" where
  "job_ok t e = (fst e \<in> issued t \<and> (\<forall>q. (fst e, q) \<in> set (pt_requests t) \<longrightarrow> q = req_proc (snd e)))"

definition res_ok :: "procedure ptable \<Rightarrow> u32 \<times> response expect \<Rightarrow> bool" where
  "res_ok t e = (fst e \<in> issued t \<and>
     (\<forall>q resp. snd e = Inr resp \<longrightarrow> (fst e, q) \<in> set (pt_requests t) \<longrightarrow> resp_proc resp = q))"

definition ad_typed :: "'d adb \<Rightarrow> bool" where
  "ad_typed a =
     ((\<forall>e\<in>set (ad_in a) \<union> set (ad_jobs a). job_ok (ad_table a) e) \<and> (\<forall>e\<in>set (ad_out a). res_ok (ad_table a) e) \<and>
      (\<forall>i q resp. (i, q, Inr resp) \<in> set (pt_done (ad_table a)) \<longrightarrow> resp_proc resp = q))"

lemma ok_fewer:
  assumes "set (pt_requests t') \<subseteq> set (pt_requests t)" "pt_counter t' = pt_counter t"
  shows "job_ok t e \<Longrightarrow> job_ok t' e" "res_ok t x \<Longrightarrow> res_ok t' x"
  using assms by (auto simp: job_ok_def res_ok_def issued_def)

lemma settle_facts:
  "set (pt_requests (pt_settle i r t)) \<subseteq> set (pt_requests t)" "pt_counter (pt_settle i r t) = pt_counter t"
  "(j, q, x) \<in> set (pt_done (pt_settle i r t)) \<Longrightarrow> (j, q, x) \<in> set (pt_done t) \<or> (j = i \<and> x = r \<and> (i, q) \<in> set (pt_requests t))"
  by (auto simp: pt_settle_def pt_extract_def set_value_def split: option.splits dest: map_of_SomeD)

lemma cancel_facts:
  "set (pt_requests (pt_cancel st t)) \<subseteq> set (pt_requests t)" "pt_counter (pt_cancel st t) = pt_counter t"
  "(j, q, Inr x) \<in> set (pt_done (pt_cancel st t)) \<Longrightarrow> (j, q, Inr x) \<in> set (pt_done t)"
  by (auto simp: pt_cancel_def)

lemma typed_table:
  assumes "ad_typed a" "set (pt_requests t') \<subseteq> set (pt_requests (ad_table a))" "pt_counter t' = pt_counter (ad_table a)"
    "\<And>i q resp. (i, q, Inr resp) \<in> set (pt_done t') \<Longrightarrow> resp_proc resp = q"
  shows "ad_typed (a\<lparr>ad_table := t'\<rparr>)"
proof -
  note k = ok_fewer [OF assms(2,3)]
  have "\<forall>e\<in>set (ad_in a) \<union> set (ad_jobs a). job_ok t' e" using assms(1) k(1) unfolding ad_typed_def by blast
  moreover have "\<forall>e\<in>set (ad_out a). res_ok t' e" using assms(1) k(2) unfolding ad_typed_def by blast
  ultimately show ?thesis using assms(4) by (simp add: ad_typed_def)
qed

lemma typed_done: "ad_typed a \<Longrightarrow> (i, q, Inr resp) \<in> set (pt_done (ad_table a)) \<Longrightarrow> resp_proc resp = q"
  unfolding ad_typed_def by blast

lemma typed_settle:
  assumes "ad_typed a" "\<And>q resp. r = Inr resp \<Longrightarrow> (i, q) \<in> set (pt_requests (ad_table a)) \<Longrightarrow> resp_proc resp = q"
  shows "ad_typed (a\<lparr>ad_table := pt_settle i r (ad_table a)\<rparr>)"
  using assms(2) typed_done [OF assms(1)] settle_facts(3) [of _ _ _ i r "ad_table a"]
  by (intro typed_table [OF assms(1) settle_facts(1,2)]) blast

lemma typed_cancel:
  assumes "ad_typed a"
  shows "ad_typed (a\<lparr>ad_table := pt_cancel st (ad_table a)\<rparr>)"
  using typed_done [OF assms] cancel_facts(3) [of _ _ _ st "ad_table a"]
  by (intro typed_table [OF assms cancel_facts(1,2)]) blast

lemma typed_less:
  assumes "ad_typed a" "set (ad_in a') \<union> set (ad_jobs a') \<subseteq> set (ad_in a) \<union> set (ad_jobs a)" "set (ad_out a') \<subseteq> set (ad_out a)"
    "ad_table a' = ad_table a"
  shows "ad_typed a'"
  using assms(1-3) unfolding ad_typed_def assms(4) by blast

lemma ok_open:
  assumes "next_id t \<notin> issued t" "issued t' = insert (next_id t) (issued t)" "pt_requests t' = pt_requests t @ [(next_id t, p)]"
  shows "job_ok t e \<Longrightarrow> job_ok t' e" "res_ok t x \<Longrightarrow> res_ok t' x"
  using assms by (auto simp: job_ok_def res_ok_def)

lemma typed_send:
  assumes "ad_typed a" "accounted (ad_table a, [])" "pt_counter (ad_table a) \<noteq> - 1" "ad_send req a = (Inr i, a')"
  shows "ad_typed a'"
proof -
  let ?t = "ad_table a"
  let ?t' = "?t\<lparr>pt_counter := next_id ?t, pt_requests := pt_requests ?t @ [(next_id ?t, req_proc req)]\<rparr>"
  have "pt_running ?t" using assms(4) by (auto simp: ad_send_def pt_open_def split: if_splits)
  from pt_open_ok [OF assms(2,3) this, of "req_proc req"] assms(4)
  have a': "a' = a\<lparr>ad_table := ?t', ad_in := ad_in a @ [(next_id ?t, req)]\<rparr>" by (auto simp: ad_send_def)
  have old: "next_id ?t \<notin> fst ` set (pt_requests ?t)"
    using assms(2) issued_next(1) [OF assms(3)] by (auto simp: accounted_def)
  have iss: "issued ?t' = insert (next_id ?t) (issued ?t)" using issued_next(2) [OF assms(3)] by (simp add: issued_def)
  note k = ok_open [OF issued_next(1) [OF assms(3)] iss, of "req_proc req"]
  have "job_ok ?t' (next_id ?t, req)" using old iss by (force simp: job_ok_def)
  with assms(1) k show ?thesis by (auto simp: ad_typed_def a')
qed

lemma typed_work:
  assumes "ad_typed a" "job \<in> set (ad_jobs a)"
  shows "ad_typed (run_job sh buf job a)"
proof -
  obtain r h d where r: "adb_handle_req sh buf (snd job) (ad_handler a) (ad_dev a) = (r, h, d)" by (metis prod_cases3)
  have "job_ok (ad_table a) job" using assms by (auto simp: ad_typed_def)
  then have "res_ok (ad_table a) (fst job, r)" using adb_handler_typed [of sh buf "snd job"] r by (fastforce simp: job_ok_def res_ok_def)
  with assms(1) show ?thesis by (auto simp: run_job_def r ad_typed_def dest: subsetD [OF set_remove1_subset])
qed

lemma ad_step_typed: "ad_step sh buf a a' \<Longrightarrow> accounted (ad_table a, []) \<Longrightarrow> ad_typed a \<Longrightarrow> ad_typed a'"
proof (induction rule: ad_step.induct)
  case (start a)
  then show ?case by (auto simp: ad_start_def ad_typed_def job_ok_def res_ok_def issued_def)
next
  case (send a req i a')
  then show ?case using typed_send by blast
next
  case (refuse req a e a')
  then show ?case by (auto simp: ad_send_def pt_open_def Let_def split: if_splits)
next
  case (expire a i)
  show ?case unfolding ad_timeout_def by (rule typed_settle [OF expire(2)]) simp
next
  case (stop a status)
  let ?b = "a\<lparr>ad_table := pt_stop status (ad_table a)\<rparr>"
  have "ad_typed ?b" using stop typed_cancel [OF stop(2), of status] by (simp add: pt_stop_def)
  then show ?case by (rule typed_less) (simp_all add: ad_stop_def Let_def)
next
  case (dispatch a)
  show ?case by (rule typed_less [OF dispatch(3)]) (auto simp: request_dispatch_def split: list.splits)
next
  case (work job a)
  then show ?case by (intro typed_work)
next
  case (receive a)
  then obtain i r rest where o: "ad_out a = (i, r) # rest" by (cases "ad_out a") auto
  have "res_ok (ad_table a) (i, r)" using receive(3) o by (simp add: ad_typed_def)
  then have "ad_typed (a\<lparr>ad_table := pt_settle i r (ad_table a)\<rparr>)" by (intro typed_settle [OF receive(3)]) (simp add: res_ok_def)
  then show ?case by (rule typed_less) (auto simp: adb_response_receive_def o)
next
  case (finish a status)
  from typed_cancel [OF finish(2), of status] show ?case by (rule typed_less) (simp_all add: adb_receive_end_def)
qed

lemma ad_reach:
  assumes "(ad_step sh buf)\<^sup>*\<^sup>* (mk_adb d) a"
  shows "accounted (ad_table a, []) \<and> ad_typed a"
  using assms
proof (induction rule: rtranclp_induct)
  case base
  show ?case by (auto simp: mk_adb_def pt_init_def accounted_def issued_def ad_typed_def)
next
  case (step y z)
  then show ?case using adb_runs.step_accounted [OF step(2)] ad_step_typed [OF step(2)] by simp
qed

section \<open>Listings\<close>

text \<open>An entry as \<^verbatim>\<open>stat\<close> prints it for \<^verbatim>\<open>find\<close>: its status, its three times, what stands before the last slash of its path, and
  its name behind it.\<close>

type_synonym printed = "rpc_stat \<times> date \<times> date \<times> date \<times> str \<times> str"

definition printed_line :: "printed \<Rightarrow> str" where
  "printed_line e = (case e of (st, ta, tm, tc, parent, name) \<Rightarrow> stat_line st ta tm tc (parent @ ''/'' @ name))"

definition printed_ok :: "printed \<Rightarrow> bool" where
  "printed_ok e = (case e of (st, ta, tm, tc, parent, name) \<Rightarrow>
     printable ta \<and> printable tm \<and> printable tc \<and> hd (parent @ ''/'') \<noteq> CHR ''|'' \<and> CHR 0x0A \<notin> set parent \<and>
     name \<noteq> [] \<and> CHR ''/'' \<notin> set name \<and> CHR 0x0A \<notin> set name \<and> \<not> is_delim whitespace (last name))"

definition printed_entry :: "printed \<Rightarrow> str \<times> rpc_stat" where
  "printed_entry e = (case e of (st, ta, tm, tc, parent, name) \<Rightarrow> (name,
     st\<lparr>rs_atime := ns_timespec (date_ns ta), rs_mtime := ns_timespec (date_ns tm), rs_ctime := ns_timespec (date_ns tc)\<rparr>))"

lemma strip_id:
  assumes "s \<noteq> []" "\<not> is_delim d (hd s)" "\<not> is_delim d (last s)"
  shows "strip s d = s"
  using assms by (cases s) (auto simp: strip_def lstrip_eq rstrip.simps)

lemma digit_not_blank: "digit_val base c \<noteq> None \<Longrightarrow> base \<le> 16 \<Longrightarrow> \<not> is_delim whitespace c \<and> c \<noteq> CHR 0x0A"
  by (auto simp: whitespace_def digit_val_def)

lemma stat_line_hd: "\<not> is_delim whitespace (hd (stat_line st ta tm tc path))"
proof -
  have "hd (stat_line st ta tm tc path) = hd (show_num 16 (unat (rs_mode st)))" by (simp add: stat_line_def)
  then show ?thesis
    using show_num_digits [of 16 "hd (show_num 16 (unat (rs_mode st)))" "unat (rs_mode st)"] digit_not_blank [of 16] by auto
qed

lemma show_num_line: "2 \<le> base \<Longrightarrow> base \<le> 16 \<Longrightarrow> CHR 0x0A \<notin> set (show_num base n)"
  using show_num_digits [of base "CHR 0x0A" n] digit_not_blank [of base "CHR 0x0A"] by auto

lemma show_date_line: "CHR 0x0A \<notin> set (show_date t)"
  using show_num_line [of 10] by (auto simp: show_date_def pad_def Let_def)

lemma stat_line_one: "CHR 0x0A \<notin> set path \<Longrightarrow> CHR 0x0A \<notin> set (stat_line st ta tm tc path)"
  using show_num_line [of 16] show_num_line [of 10] show_date_line by (auto simp: stat_line_def show_int_def)

lemma basename_of: "name \<noteq> [] \<Longrightarrow> CHR ''/'' \<notin> set name \<Longrightarrow> get_basename (parent @ ''/'' @ name) = name"
proof -
  assume n: "name \<noteq> []" "CHR ''/'' \<notin> set name"
  have "takeWhile (\<lambda>c. c \<noteq> CHR ''/'') (rev name @ CHR ''/'' # rev parent) = rev name"
    using n(2) by (subst takeWhile_append2) auto
  moreover have "parent @ ''/'' @ name \<noteq> ''/''" using n(1) by (cases parent) auto
  ultimately show ?thesis by (simp add: get_basename_def)
qed

lemma printed_line_facts:
  assumes "printed_ok e"
  shows "strip (printed_line e) whitespace = printed_line e" "printed_line e \<noteq> []" "CHR 0x0A \<notin> set (printed_line e)"
    "parse_file_stat (printed_line e) = Some (printed_entry e)"
proof -
  obtain st ta tm tc parent name where e: "e = (st, ta, tm, tc, parent, name)" by (metis prod_cases6)
  let ?path = "parent @ ''/'' @ name"
  have ok: "printable ta" "printable tm" "printable tc" "?path \<noteq> []" "hd ?path \<noteq> CHR ''|''" "CHR 0x0A \<notin> set ?path"
    "\<not> is_delim whitespace (last ?path)" "get_basename ?path = name"
    using assms basename_of by (auto simp: e printed_ok_def hd_append)
  show ne: "printed_line e \<noteq> []" using ok(4) by (simp add: e printed_line_def stat_line_def)
  have "last (printed_line e) = last ?path" using ok(4) by (simp add: e printed_line_def stat_line_def)
  with ne ok(7) stat_line_hd show "strip (printed_line e) whitespace = printed_line e"
    by (intro strip_id) (simp_all add: e printed_line_def)
  show "CHR 0x0A \<notin> set (printed_line e)" using stat_line_one [OF ok(6)] by (simp add: e printed_line_def)
  show "parse_file_stat (printed_line e) = Some (printed_entry e)"
    using parse_stat_line [OF ok(1-5)] ok(8) by (simp add: e printed_line_def printed_entry_def)
qed

lemma tokens_lines:
  assumes "p c" "\<forall>l\<in>set ls. l \<noteq> [] \<and> (\<forall>x\<in>set l. \<not> p x)"
  shows "tokens p (concat (map (\<lambda>l. l @ [c]) ls)) = ls"
  using assms(2)
proof (induction ls)
  case (Cons l ls)
  have "tokens p (l @ c # concat (map (\<lambda>l. l @ [c]) ls)) = tokens p l @ tokens p (concat (map (\<lambda>l. l @ [c]) ls))"
    using assms(1) by (rule tokens_append_delim)
  with Cons show ?case by (simp add: tokens_single)
qed simp

section \<open>Properties\<close>

text \<open>C17: listings through adb. When the device prints a line for the directory and a line for each entry, in the form of
  \<^verbatim>\<open>stat\<close>, the response has exactly these entries, in order, each with its name, all numbers and the three
  times. Names are those a file can have, but for names with a line break and names that end in a blank.\<close>

theorem adb_listing:
  assumes "sh_run sh [''adb'', ''shell'', ''find'', quote dir, ''-maxdepth'', ''1'', ''-exec'', ''stat'', ''-c'', stat_format, ''{}'', ''+''] [] d =
      (Inr (ret, concat (map (\<lambda>l. l @ [CHR 0x0A]) (self # map printed_line es)), err), d')"
    "self \<noteq> []" "CHR 0x0A \<notin> set self" "\<forall>e\<in>set es. printed_ok e"
  shows "adb_handle_req sh buf (ReqListdir dir) h d = (Inr (RespListdir (map printed_entry es)), h, d')"
proof -
  let ?out = "concat (map (\<lambda>l. l @ [CHR 0x0A]) (self # map printed_line es))"
  have "split ?out (DelimChar CHR 0x0A) = self # map printed_line es"
    unfolding split_eq_tokens
    by (rule tokens_lines) (use assms(2-4) printed_line_facts(2,3) in \<open>auto simp: image_iff\<close>)
  moreover have "concat (map (\<lambda>line. case parse_file_stat (strip line whitespace) of Some e \<Rightarrow> [e] | None \<Rightarrow> []) (map printed_line es)) =
      map printed_entry es"
    using assms(4) by (induction es) (auto simp: printed_line_facts)
  ultimately have "listdir_entries ?out = map printed_entry es" by (simp add: listdir_entries_def)
  then show ?thesis using assms(1) by (simp add: adb_handle_req_def adb_listdir_def via_def cmd_exec_def)
qed

text \<open>C16: requests through adb. In every interleaving of sends, timers, stop, the pool and the two coroutines, each
  accepted request is in exactly one place, waiting or answered once, and a successful answer is of
  the kind that was asked for; when the transport has stopped every request has been answered.\<close>

theorem adb_promises:
  assumes "(ad_step sh buf)\<^sup>*\<^sup>* (mk_adb d) a"
  shows "distinct (map fst (pt_requests (ad_table a)) @ map fst (pt_done (ad_table a))) \<and>
    fst ` set (pt_requests (ad_table a)) \<union> fst ` set (pt_done (ad_table a)) = {i. i \<noteq> 0 \<and> i \<le> pt_counter (ad_table a)} \<and>
    (\<forall>i q resp. (i, q, Inr resp) \<in> set (pt_done (ad_table a)) \<longrightarrow> resp_proc resp = q) \<and>
    (\<not> pt_running (ad_table a) \<longrightarrow> pt_requests (ad_table a) = [])"
  using ad_reach [OF assms] typed_done [of a] by (auto simp: accounted_def issued_def)

text \<open>A read that gets fewer bytes than the buffer holds is answered with the whole buffer: the bytes behind
  those that were read are what the buffer held before.\<close>

theorem adb_read_pads:
  assumes "map_of (ah_fds h) fd = Some path" "sh_run sh [''adb'', ''shell'', ''dd'', ''iflag=skip_bytes,count_bytes'', assign ''skip'' (show_int (sint off)),
      assign ''count'' (show_num 10 (length (buf sz))), assign ''if'' (quote path)] [] d = (Inr (0, out, err), d')" "length out < length (buf sz)"
  shows "adb_handle_req sh buf (ReqRead fd off sz) h d = (Inr (RespRead (bytes_of out @ drop (length out) (buf sz))), h, d')"
  using assms by (simp add: adb_handle_req_def adb_read_def via_def cmd_run_def cmd_exec_def Let_def)

section \<open>Concrete runs\<close>

definition some_date :: date where
  "some_date = \<lparr>da_year = 2025, da_month = 6, da_day = 4, da_hour = 12, da_min = 9, da_sec = 5, da_nsec = 450071907,
     da_west = False, da_off_hour = 7, da_off_min = 0\<rparr>"

definition some_stat :: rpc_stat where
  "some_stat = \<lparr>rs_size = 12, rs_links = 1, rs_mtime = to_timespec 0 0, rs_atime = to_timespec 0 0, rs_ctime = to_timespec 0 0,
     rs_mode = 0x81A4, rs_uid = 1000, rs_gid = 1000\<rparr>"

text \<open>2025-06-04 12:09:05.450071907 +0700.\<close>

lemma some_date_ns: "date_ns some_date = 1749013745 * 10 ^ 9 + 450071907"
  by (simp add: date_ns_def days_of_def some_date_def month_days_def leap_year_def Let_def)

definition listing_shell :: "unit shell" where
  "listing_shell = \<lparr>sh_run = (\<lambda>_ _ d. (Inr (0, concat (map (\<lambda>l. l @ [CHR 0x0A])
       [''/d'', printed_line (some_stat, some_date, some_date, some_date, ''/d'', ''a.txt'')]), []), d)),
     sh_serial = None, sh_local = None\<rparr>"

theorem adb_listing_witness:
  "\<exists>st. adb_handle_req listing_shell (\<lambda>_. []) (ReqListdir ''/d'') mk_adb_handler () = (Inr (RespListdir [(''a.txt'', st)]), mk_adb_handler, ()) \<and>
     rs_size st = 12 \<and> rs_mtime st = to_timespec 1749013745 450071907"
proof -
  let ?e = "(some_stat, some_date, some_date, some_date, ''/d'', ''a.txt'')"
  have "printable some_date" by (simp add: printable_def date_ok_def some_date_def month_days_def)
  then have ok: "\<forall>e\<in>set [?e]. printed_ok e" by (simp add: printed_ok_def whitespace_def)
  have "adb_handle_req listing_shell (\<lambda>_. []) (ReqListdir ''/d'') mk_adb_handler () = (Inr (RespListdir (map printed_entry [?e])), mk_adb_handler, ())"
    by (rule adb_listing [OF _ _ _ ok, of _ _ _ 0 "''/d''" "[]"]) (simp_all add: listing_shell_def)
  moreover have "ns_timespec (date_ns some_date) = to_timespec 1749013745 450071907"
    unfolding some_date_ns by (simp add: ns_timespec_def signed_divide_int_def)
  ultimately show ?thesis by (simp add: printed_entry_def some_stat_def)
qed

text \<open>A ping that times out before it is dispatched.\<close>

theorem adb_promises_witness:
  "fst ` set (pt_requests (ad_table (ad_timeout 1 (snd (ad_send (ReqPing 7) (ad_start (mk_adb ())))))))
     \<union> fst ` set (pt_done (ad_table (ad_timeout 1 (snd (ad_send (ReqPing 7) (ad_start (mk_adb ()))))))) = {1}"
proof -
  let ?a = "mk_adb ()"
  let ?b = "snd (ad_send (ReqPing 7) (ad_start ?a))"
  have s1: "ad_step listing_shell (\<lambda>_. []) ?a (ad_start ?a)"
    by (rule ad_step.start) (simp_all add: mk_adb_def pt_init_def)
  have o: "ad_send (ReqPing 7) (ad_start ?a) = (Inr 1, ?b)"
    by (simp add: ad_send_def ad_start_def mk_adb_def pt_init_def pt_open_def next_id_def)
  have s2: "ad_step listing_shell (\<lambda>_. []) (ad_start ?a) ?b"
    by (rule ad_step.send [OF _ o]) (simp add: ad_start_def mk_adb_def pt_init_def)
  have "(ad_step listing_shell (\<lambda>_. []))\<^sup>*\<^sup>* ?a (ad_timeout 1 ?b)"
    by (rule converse_rtranclp_into_rtranclp [of "ad_step listing_shell (\<lambda>_. [])", OF s1],
        rule converse_rtranclp_into_rtranclp [of "ad_step listing_shell (\<lambda>_. [])", OF s2],
        rule r_into_rtranclp [of "ad_step listing_shell (\<lambda>_. [])", OF ad_step.expire])
  moreover have "pt_counter (ad_table (ad_timeout 1 ?b)) = 1"
    by (simp add: ad_timeout_def pt_settle_def pt_extract_def set_value_def ad_send_def ad_start_def mk_adb_def pt_init_def pt_open_def next_id_def)
  ultimately show ?thesis using adb_promises [of listing_shell "\<lambda>_. []" "()" "ad_timeout 1 ?b"] by (simp add: first_id)
qed

end
