(* ===== verification/Callbacks.thy ===== *)
theory Callbacks
  imports Fs_Props "HOL-Library.Signed_Division"
begin

text \<open>
  The object behind a mounted file system (\<^verbatim>\<open>Madbfs\<close> of \<^verbatim>\<open>madbfs.cpp\<close>: paths below the custom root,
  construction and destruction) and the callbacks of \<^verbatim>\<open>operations.cpp\<close> that libfuse calls. A callback
  returns a status (zero or a negated error number, or a count) together with what it stores through
  its pointer arguments. Exceptions other than the one of a failed \<^verbatim>\<open>value()\<close>, which counts as
  undefined behaviour, are not modelled, so the handlers of \<^verbatim>\<open>invoke_fs\<close> have no counterpart.
\<close>

section \<open>The object\<close>

record 'd madbfs =
  mb_fs :: "'d fs"
  mb_root :: path
  mb_mountpoint :: str
  mb_timeout :: "int option"
  mb_level :: nat
  mb_exit :: bool

definition create_path :: "path \<Rightarrow> str \<Rightarrow> path expect" where
  "create_path root p =
     (if is_root root then ok_or (create_with p) invalid_argument
      else (let string = m_path root;
                string = (if string \<noteq> [] \<and> last string = slash then string else string @ [slash])
            in ok_or (create_with (string @ p)) invalid_argument))"

definition create_path2 :: "path \<Rightarrow> str \<Rightarrow> str \<Rightarrow> (path \<times> path) expect" where
  "create_path2 root p1 p2 = and_then (create_path root p1) (\<lambda>q1. and_then (create_path root p2) (\<lambda>q2. Inr (q1, q2)))"

definition mk_madbfs :: "'d env \<Rightarrow> (nat \<times> nat) option \<Rightarrow> path \<Rightarrow> str \<Rightarrow> int option \<Rightarrow> int option \<Rightarrow> nat \<Rightarrow> 'd \<Rightarrow> unit expect \<times> 'd madbfs" where
  "mk_madbfs env caching root mount ttl timeout level d =
     (case initialize_root env (mk_fs caching ttl d) of
        (r, fs) \<Rightarrow> (case r of Inl (Errc _) \<Rightarrow> Inr () | _ \<Rightarrow> r,
          \<lparr>mb_fs = fs, mb_root = root, mb_mountpoint = mount, mb_timeout = timeout, mb_level = level, mb_exit = False\<rparr>))"

definition invoke_fs :: "('a, 'd) fs_op \<Rightarrow> 'd madbfs \<Rightarrow> 'a expect \<times> 'd madbfs" where
  "invoke_fs f m = (case f (mb_fs m) of (r, fs) \<Rightarrow> (r, m\<lparr>mb_fs := fs\<rparr>))"

section \<open>Results of callbacks\<close>

type_synonym ('a, 'd) callback = "'d madbfs \<Rightarrow> (i32 \<times> 'a) expect \<times> 'd madbfs"

definition fuse_err :: "errc \<Rightarrow> i32" where
  "fuse_err err = (if err = 0 then 0 else - err)"

text \<open>The status of an outcome; \<open>dflt\<close> is what the pointer arguments hold when nothing is stored.\<close>

definition fuse_result :: "'b \<Rightarrow> ('a \<Rightarrow> i32 \<times> 'b) \<Rightarrow> 'a expect \<times> 'd madbfs \<Rightarrow> (i32 \<times> 'b) expect \<times> 'd madbfs" where
  "fuse_result dflt f rm =
     (case rm of
        (Inr v, m) \<Rightarrow> (Inr (f v), m)
      | (Inl (Errc e), m) \<Rightarrow> (Inr (fuse_err e, dflt), m)
      | (Inl x, m) \<Rightarrow> (Inl x, m))"

definition fuse_status :: "'a expect \<times> 'd madbfs \<Rightarrow> (i32 \<times> unit) expect \<times> 'd madbfs" where
  "fuse_status = fuse_result () (\<lambda>_. (0, ()))"

definition with_path :: "str \<Rightarrow> (path \<Rightarrow> ('a, 'd) fs_op) \<Rightarrow> 'd madbfs \<Rightarrow> 'a expect \<times> 'd madbfs" where
  "with_path path f m =
     (case create_path (mb_root m) path of Inl e \<Rightarrow> (Inl e, m) | Inr p \<Rightarrow> invoke_fs (f p) m)"

definition with_path2 :: "str \<Rightarrow> str \<Rightarrow> (path \<times> path \<Rightarrow> ('a, 'd) fs_op) \<Rightarrow> 'd madbfs \<Rightarrow> 'a expect \<times> 'd madbfs" where
  "with_path2 path1 path2 f m =
     (case create_path2 (mb_root m) path1 path2 of Inl e \<Rightarrow> (Inl e, m) | Inr ps \<Rightarrow> invoke_fs (f ps) m)"

section \<open>The callbacks\<close>

text \<open>\<^verbatim>\<open>struct stat\<close>: the fields that are set; the others are zeroed.\<close>

record fuse_stat =
  sb_ino :: u64
  sb_mode :: u32
  sb_nlink :: u64
  sb_uid :: u32
  sb_gid :: u32
  sb_size :: i64
  sb_blksize :: nat
  sb_blocks :: i64
  sb_atim :: timespec
  sb_mtim :: timespec
  sb_ctim :: timespec

definition default_page_size :: nat where
  "default_page_size = 64 * 1024"

text \<open>Signed arithmetic: \<^verbatim>\<open>st_size + 511\<close> must not overflow, and the division truncates.\<close>

definition st_blocks_of :: "i64 \<Rightarrow> i64 expect" where
  "st_blocks_of sz = (if sint sz + 511 \<ge> 2 ^ 63 then Inl UB else Inr (word_of_int ((sint sz + 511) sdiv 512)))"

definition fill_stat :: "nat \<Rightarrow> nat \<times> stat \<Rightarrow> fuse_stat expect" where
  "fill_stat page_size is =
     (case is of (a, st) \<Rightarrow> transform (st_blocks_of (st_size st)) (\<lambda>blocks.
        \<lparr>sb_ino = word_of_nat a, sb_mode = st_mode st, sb_nlink = st_links st, sb_uid = st_uid st, sb_gid = st_gid st,
         sb_size = st_size st, sb_blksize = page_size, sb_blocks = blocks,
         sb_atim = st_atime st, sb_mtim = st_mtime st, sb_ctim = st_ctime st\<rparr>))"

definition cb_getattr :: "'d env \<Rightarrow> str \<Rightarrow> (fuse_stat option, 'd) callback" where
  "cb_getattr env path m =
     (case with_path path (getattr env) m of (r, m) \<Rightarrow>
        fuse_result None (\<lambda>st. (0, Some st))
          (and_then r (fill_stat (case f_cache (mb_fs m) of Some c \<Rightarrow> m_page_size c | None \<Rightarrow> default_page_size)), m))"

definition resolve_symlink :: "str \<Rightarrow> str \<Rightarrow> str \<Rightarrow> str expect" where
  "resolve_symlink mount buf target =
     (if length target < 1 then Unexpect invalid_argument
      else if target ! 0 = slash then
        (if length mount + length target + 1 > length buf then Unexpect filename_too_long
         else (let buf = overwrite buf 0 mount;
                   buf = overwrite buf (length mount) target
               in Inr (buf[length mount + length target := CHR 0x00])))
      else
        (if length target + 1 > length buf then Unexpect filename_too_long
         else (let buf = overwrite buf 0 target in Inr (buf[length target := CHR 0x00]))))"

definition cb_readlink :: "'d env \<Rightarrow> str \<Rightarrow> str \<Rightarrow> (str, 'd) callback" where
  "cb_readlink env path buf m =
     (case with_path path (readlink env) m of (r, m) \<Rightarrow>
        fuse_result buf (\<lambda>b. (0, b)) (and_then r (resolve_symlink (mb_mountpoint m) buf), m))"

definition cb_mknod :: "'d env \<Rightarrow> str \<Rightarrow> u32 \<Rightarrow> u64 \<Rightarrow> (unit, 'd) callback" where
  "cb_mknod env path mode dev m = fuse_status (with_path path (\<lambda>p. mknod env p mode dev) m)"

definition cb_mkdir :: "'d env \<Rightarrow> str \<Rightarrow> u32 \<Rightarrow> (unit, 'd) callback" where
  "cb_mkdir env path mode m = fuse_status (with_path path (\<lambda>p. mkdir env p (or mode S_IFDIR)) m)"

definition cb_unlink :: "'d env \<Rightarrow> str \<Rightarrow> (unit, 'd) callback" where
  "cb_unlink env path m = fuse_status (with_path path (unlink env) m)"

definition cb_rmdir :: "'d env \<Rightarrow> str \<Rightarrow> (unit, 'd) callback" where
  "cb_rmdir env path m = fuse_status (with_path path (rmdir env) m)"

definition cb_rename :: "'d env \<Rightarrow> str \<Rightarrow> str \<Rightarrow> u32 \<Rightarrow> (unit, 'd) callback" where
  "cb_rename env from to flags m = fuse_status (with_path2 from to (\<lambda>(p, q). rename env p q flags) m)"

definition cb_truncate :: "'d env \<Rightarrow> str \<Rightarrow> i64 \<Rightarrow> (unit, 'd) callback" where
  "cb_truncate env path sz m = fuse_status (with_path path (\<lambda>p. fs_truncate env p sz) m)"

text \<open>The descriptor stored into \<^verbatim>\<open>fi->fh\<close>.\<close>

definition cb_open :: "'d env \<Rightarrow> str \<Rightarrow> u32 \<Rightarrow> (nat option, 'd) callback" where
  "cb_open env path flags m = fuse_result None (\<lambda>fd. (0, Some fd)) (with_path path (\<lambda>p. fs_open env p flags) m)"

definition cb_read :: "'d env \<Rightarrow> nat \<Rightarrow> u8 list \<Rightarrow> i64 \<Rightarrow> (u8 list, 'd) callback" where
  "cb_read env fh buf offset m =
     fuse_result buf (\<lambda>(n, buf). (word_of_nat n, buf)) (invoke_fs (fs_read env fh buf offset) m)"

definition cb_write :: "'d env \<Rightarrow> nat \<Rightarrow> u8 list \<Rightarrow> i64 \<Rightarrow> (unit, 'd) callback" where
  "cb_write env fh buf offset m =
     fuse_result () (\<lambda>n. (word_of_nat n, ())) (invoke_fs (fs_write env fh buf offset) m)"

definition cb_flush :: "'d env \<Rightarrow> nat \<Rightarrow> (unit, 'd) callback" where
  "cb_flush env fh m = fuse_status (invoke_fs (fs_flush env fh) m)"

definition cb_release :: "'d env \<Rightarrow> nat \<Rightarrow> (unit, 'd) callback" where
  "cb_release env fh m = fuse_status (invoke_fs (release env fh) m)"

text \<open>The names the filler is called with.\<close>

definition cb_readdir :: "'d env \<Rightarrow> str \<Rightarrow> (str list, 'd) callback" where
  "cb_readdir env path m = fuse_result [] (\<lambda>names. (0, names)) (with_path path (readdir env) m)"

definition cb_access :: "str \<Rightarrow> i32 \<Rightarrow> (unit, 'd) callback" where
  "cb_access path msk m = (Inr (0, ()), m)"

definition cb_utimens :: "'d env \<Rightarrow> str \<Rightarrow> timespec \<Rightarrow> timespec \<Rightarrow> (unit, 'd) callback" where
  "cb_utimens env path atime mtime m = fuse_status (with_path path (\<lambda>p. utimens env p atime mtime) m)"

text \<open>The status of \<^verbatim>\<open>copy_file_range\<close> is an \<^verbatim>\<open>isize\<close>.\<close>

definition cb_copy_file_range ::
    "'d env \<Rightarrow> str \<Rightarrow> nat \<Rightarrow> i64 \<Rightarrow> str \<Rightarrow> nat \<Rightarrow> i64 \<Rightarrow> u64 \<Rightarrow> 'd madbfs \<Rightarrow> i64 expect \<times> 'd madbfs" where
  "cb_copy_file_range env in_path in_fh in_off out_path out_fh out_off sz m =
     (case with_path2 in_path out_path (\<lambda>(p, q). fs_copy_file_range env p in_fh in_off q out_fh out_off sz) m of
        (Inr n, m) \<Rightarrow> (Inr n, m)
      | (Inl (Errc e), m) \<Rightarrow> (Inr (scast (fuse_err e)), m)
      | (Inl x, m) \<Rightarrow> (Inl x, m))"

text \<open>
  \<^verbatim>\<open>init\<close>: the options of the command line become the arguments of the constructor, and the capability
  to truncate on opening, which the file system lacks, is cleared.
\<close>

record parsed_opt =
  po_caching :: "(nat \<times> nat) option"
  po_root :: path
  po_mount :: str
  po_ttl :: int
  po_timeout :: int
  po_level :: nat

abbreviation FUSE_CAP_ATOMIC_O_TRUNC :: u32 where "FUSE_CAP_ATOMIC_O_TRUNC \<equiv> 8"

definition caching_of :: "nat \<times> nat \<Rightarrow> (nat \<times> nat) expect" where
  "caching_of c =
     (case c of (cachesize, pagesize) \<Rightarrow>
        let page_size = mul64 pagesize 1024
        in if page_size = 0 then Inl UB else Inr (page_size, mul64 (mul64 cachesize 1024) 1024 div page_size))"

definition positive_seconds :: "int \<Rightarrow> int option" where
  "positive_seconds n = (if n < 1 then None else Some n)"

definition cb_init :: "'d env \<Rightarrow> u32 \<Rightarrow> parsed_opt \<Rightarrow> 'd \<Rightarrow> (u32 \<times> 'd madbfs) expect" where
  "cb_init env want args d =
     and_then (case po_caching args of None \<Rightarrow> Inr None | Some c \<Rightarrow> transform (caching_of c) Some) (\<lambda>caching.
       case mk_madbfs env caching (po_root args) (po_mount args) (positive_seconds (po_ttl args))
              (positive_seconds (po_timeout args)) (po_level args) d of
         (r, m) \<Rightarrow> transform r (\<lambda>_. (and want (not FUSE_CAP_ATOMIC_O_TRUNC), m)))"

text \<open>\<^verbatim>\<open>destroy\<close> deletes the object: the file system is shut down, then the connection cancelled. That the signals, the
  control socket, the timers and the executor end is left to the steps of the whole program.\<close>

definition cb_destroy :: "'d env \<Rightarrow> 't conn \<Rightarrow> 'd madbfs \<Rightarrow> unit expect \<times> 't conn \<times> 'd madbfs" where
  "cb_destroy env c m = (case invoke_fs (fs_shutdown env) m of (r, m) \<Rightarrow> (r, conn_cancel c, m))"

section \<open>Paths below the root\<close>

text \<open>The kernel resolves dot components itself; paths it passes have none.\<close>

definition kernel_path :: "str \<Rightarrow> bool" where
  "kernel_path p = (\<forall>x\<in>set (tokens is_slash p). x \<noteq> ''.'' \<and> x \<noteq> ''..'')"

lemma tokens_not_bad: "x \<in> set (tokens is_slash p) \<Longrightarrow> x \<noteq> ''.'' \<Longrightarrow> x \<noteq> ''..'' \<Longrightarrow> \<not> bad_name x"
  using tokens_nonempty [of x is_slash p] tokens_no_delim [of x is_slash p] by (auto simp: bad_name_def)

lemma path_ok_absolute: "path_ok p \<Longrightarrow> m_path p \<noteq> [] \<and> hd (m_path p) = slash"
proof (cases "m_components p")
  case (Cons c cs)
  assume "path_ok p"
  with Cons have c: "0 < sl_offset c" "sl_offset c + sl_size c \<le> length (m_path p)"
    "set (Prelude.sublist 0 (sl_offset c) (m_path p)) \<subseteq> {slash}" by (auto simp: path_ok_def)
  then have ne: "m_path p \<noteq> []" by auto
  with c(1) have "hd (m_path p) \<in> set (Prelude.sublist 0 (sl_offset c) (m_path p))"
    by (cases "m_path p"; cases "sl_offset c") (auto simp: Prelude.sublist_def)
  with c(3) ne show ?thesis by blast
qed (simp add: path_ok_def)

lemma create_path_eq:
  assumes "path_ok root"
  shows "create_path root p =
    (if is_root root then ok_or (create p) invalid_argument
     else ok_or (create ((if last (m_path root) = slash then m_path root else m_path root @ [slash]) @ p)) invalid_argument)"
  using path_ok_absolute [OF assms] by (simp add: create_path_def create_with_eq Let_def)

lemma tokens_below:
  "s \<noteq> [] \<Longrightarrow> tokens is_slash ((if last s = slash then s else s @ [slash]) @ p) = tokens is_slash s @ tokens is_slash p"
proof (cases "last s = slash")
  case True
  assume "s \<noteq> []"
  with True have s: "s = butlast s @ [slash]" by (metis append_butlast_last_id)
  have "tokens is_slash (butlast s @ slash # p) = tokens is_slash (butlast s) @ tokens is_slash p"
    "tokens is_slash (butlast s @ slash # []) = tokens is_slash (butlast s) @ tokens is_slash []"
    by (rule tokens_append_delim, simp)+
  with s True show ?thesis by (metis append_Cons append_Nil append_Nil2 append_assoc tokens_at.simps(1))
qed (simp add: tokens_append_delim)

lemma create_path_at:
  assumes "path_ok root"
  shows "create_path root p = Unexpect invalid_argument \<and> is_root root \<and> (p = [] \<or> hd p \<noteq> slash) \<or>
    (\<exists>q. create_path root p = Inr q \<and> path_ok q \<and> iter q = iter root @ tokens is_slash p)"
proof (cases "is_root root")
  case True
  then have "iter root = []" by (simp add: is_root_def iter_def)
  with True show ?thesis
    using create_None_iff [of p] create_SomeD [of p] by (cases "create p") (auto simp: create_path_eq [OF assms])
next
  case False
  note abs = path_ok_absolute [OF assms]
  let ?s = "(if last (m_path root) = slash then m_path root else m_path root @ [slash]) @ p"
  have "create ?s \<noteq> None" using abs by (simp add: create_None_iff)
  then obtain q where q: "create ?s = Some q" by blast
  from create_SomeD [OF this] False q abs show ?thesis
    by (simp add: create_path_eq [OF assms] tokens_below path_ok_iter [OF assms])
qed

lemma create_path_good:
  assumes "good_path root" "kernel_path p" "create_path root p = Inr q"
  shows "good_path q \<and> iter q = iter root @ tokens is_slash p"
  using create_path_at [of root p] assms by (auto simp: good_path_def kernel_path_def dest: tokens_not_bad)

section \<open>Callbacks run operations\<close>

text \<open>The kernel does not ask to rename something to the mount point or to a place above or below itself.\<close>

definition kernel_rename :: "str \<Rightarrow> str \<Rightarrow> bool" where
  "kernel_rename from to = (kernel_path from \<and> kernel_path to \<and> tokens is_slash to \<noteq> [] \<and>
     \<not> strict_prefix (tokens is_slash from) (tokens is_slash to) \<and> \<not> strict_prefix (tokens is_slash to) (tokens is_slash from))"

inductive cb_step :: "'d env \<Rightarrow> 'd madbfs \<Rightarrow> 'd madbfs \<Rightarrow> bool" for env where
  getattr: "kernel_path p \<Longrightarrow> cb_getattr env p m = (Inr r, m') \<Longrightarrow> cb_step env m m'"
| readlink: "kernel_path p \<Longrightarrow> cb_readlink env p buf m = (Inr r, m') \<Longrightarrow> cb_step env m m'"
| mknod: "kernel_path p \<Longrightarrow> cb_mknod env p mode dev m = (Inr r, m') \<Longrightarrow> cb_step env m m'"
| mkdir: "kernel_path p \<Longrightarrow> cb_mkdir env p mode m = (Inr r, m') \<Longrightarrow> cb_step env m m'"
| unlink: "kernel_path p \<Longrightarrow> cb_unlink env p m = (Inr r, m') \<Longrightarrow> cb_step env m m'"
| rmdir: "kernel_path p \<Longrightarrow> cb_rmdir env p m = (Inr r, m') \<Longrightarrow> cb_step env m m'"
| rename: "kernel_rename p q \<Longrightarrow> cb_rename env p q flags m = (Inr r, m') \<Longrightarrow> cb_step env m m'"
| truncate: "kernel_path p \<Longrightarrow> cb_truncate env p sz m = (Inr r, m') \<Longrightarrow> cb_step env m m'"
| open': "kernel_path p \<Longrightarrow> cb_open env p fl m = (Inr r, m') \<Longrightarrow> cb_step env m m'"
| read': "cb_read env fh out off m = (Inr r, m') \<Longrightarrow> cb_step env m m'"
| write': "cb_write env fh bs off m = (Inr r, m') \<Longrightarrow> cb_step env m m'"
| flush': "cb_flush env fh m = (Inr r, m') \<Longrightarrow> cb_step env m m'"
| release: "cb_release env fh m = (Inr r, m') \<Longrightarrow> cb_step env m m'"
| readdir: "kernel_path p \<Longrightarrow> cb_readdir env p m = (Inr r, m') \<Longrightarrow> cb_step env m m'"
| access': "cb_access p msk m = (Inr r, m') \<Longrightarrow> cb_step env m m'"
| utimens: "kernel_path p \<Longrightarrow> cb_utimens env p at' mt m = (Inr r, m') \<Longrightarrow> cb_step env m m'"
| copy_file_range: "kernel_path p \<Longrightarrow> kernel_path q \<Longrightarrow> cb_copy_file_range env p i j q k l sz m = (Inr r', m') \<Longrightarrow> cb_step env m m'"

text \<open>A callback changes the file system by at most one operation and nothing else.\<close>

definition runs_op :: "'d env \<Rightarrow> 'd madbfs \<Rightarrow> 'd madbfs \<Rightarrow> bool" where
  "runs_op env m m' = (m' = m\<lparr>mb_fs := mb_fs m'\<rparr> \<and> (mb_fs m' = mb_fs m \<or> fs_step env (mb_fs m) (mb_fs m')))"

lemma fuse_result_Inr: "fuse_result dflt f (r, m) = (Inr x, m') \<Longrightarrow> m' = m \<and> returned r"
  by (auto simp: fuse_result_def returned_def split: sum.splits fault.splits)

lemma fuse_status_Inr: "fuse_status (r, m) = (Inr x, m') \<Longrightarrow> m' = m \<and> returned r"
  unfolding fuse_status_def by (rule fuse_result_Inr)

lemma returned_and_then: "returned (and_then r f) \<Longrightarrow> returned r"
  by (auto simp: and_then_def returned_def split: sum.splits fault.splits)

lemma runs_invoke:
  assumes "invoke_fs f m = (r, m')" "returned r" "\<And>fs'. f (mb_fs m) = (r, fs') \<Longrightarrow> fs_step env (mb_fs m) fs'"
  shows "runs_op env m m'"
  using assms by (auto simp: invoke_fs_def runs_op_def split: prod.splits)

lemma runs_with_path:
  assumes "with_path p f m = (r, m')" "returned r" "good_path (mb_root m)" "kernel_path p"
    "\<And>q fs'. good_path q \<Longrightarrow> f q (mb_fs m) = (r, fs') \<Longrightarrow> fs_step env (mb_fs m) fs'"
  shows "runs_op env m m'"
proof (cases "create_path (mb_root m) p")
  case (Inr q)
  with assms show ?thesis
    by (intro runs_invoke [of "f q"]) (auto simp: with_path_def dest: create_path_good)
qed (use assms(1) in \<open>simp add: with_path_def runs_op_def\<close>)

lemma runs_with_path2:
  assumes "with_path2 p p' f m = (r, m')" "returned r" "good_path (mb_root m)" "kernel_path p" "kernel_path p'"
    "\<And>q q' fs'. good_path q \<Longrightarrow> iter q = iter (mb_root m) @ tokens is_slash p \<Longrightarrow> good_path q' \<Longrightarrow>
       iter q' = iter (mb_root m) @ tokens is_slash p' \<Longrightarrow> f (q, q') (mb_fs m) = (r, fs') \<Longrightarrow> fs_step env (mb_fs m) fs'"
  shows "runs_op env m m'"
proof (cases "create_path2 (mb_root m) p p'")
  case (Inr qs)
  then obtain q q' where q: "create_path (mb_root m) p = Inr q" "create_path (mb_root m) p' = Inr q'" "qs = (q, q')"
    by (auto simp: create_path2_def and_then_Inr_iff)
  with assms Inr create_path_good [OF assms(3,4) q(1)] create_path_good [OF assms(3,5) q(2)] show ?thesis
    by (intro runs_invoke [of "f qs"]) (auto simp: with_path2_def)
qed (use assms(1) in \<open>simp add: with_path2_def runs_op_def\<close>)

lemma separate_below:
  assumes "iter q = r @ xs" "iter q' = r @ ys" "\<not> strict_prefix xs ys" "\<not> strict_prefix ys xs"
  shows "separate q q'"
  using assms by (auto simp: separate_def strict_prefix_def)

lemma runs_rename:
  assumes "with_path2 p p' (\<lambda>(p, q). rename env p q flags) m = (r, m')" "returned r" "good_path (mb_root m)" "kernel_rename p p'"
  shows "runs_op env m m'"
proof (rule runs_with_path2 [OF assms(1-3)])
  fix q q' fs'
  assume q: "good_path q" "iter q = iter (mb_root m) @ tokens is_slash p" "good_path q'"
    "iter q' = iter (mb_root m) @ tokens is_slash p'" and f: "(case (q, q') of (p, q) \<Rightarrow> rename env p q flags) (mb_fs m) = (r, fs')"
  have "separate q q'" using separate_below [OF q(2,4)] assms(4) by (simp add: kernel_rename_def)
  moreover have "\<not> is_root q'" using q(4) assms(4) by (auto simp: kernel_rename_def is_root_def iter_def)
  ultimately show "fs_step env (mb_fs m) fs'"
    using q(1,3) f assms(2) by (auto intro: fs_step.rename)
qed (use assms(4) in \<open>simp_all add: kernel_rename_def\<close>)

lemma runs_status: "fuse_status rm = (Inr x, m') \<Longrightarrow> (\<And>r. rm = (r, m') \<Longrightarrow> returned r \<Longrightarrow> P) \<Longrightarrow> P"
  by (cases rm) (auto dest: fuse_status_Inr)

lemma runs_result: "fuse_result dflt f rm = (Inr x, m') \<Longrightarrow> (\<And>r. rm = (r, m') \<Longrightarrow> returned r \<Longrightarrow> P) \<Longrightarrow> P"
  by (cases rm) (auto dest: fuse_result_Inr)

lemma cb_step_runs: "cb_step env m m' \<Longrightarrow> good_path (mb_root m) \<Longrightarrow> runs_op env m m'"
proof (induction rule: cb_step.induct)
  case (getattr p m r m')
  then show ?case
    by (auto simp: cb_getattr_def split: prod.splits elim!: runs_result intro: fs_step.getattr dest: returned_and_then
        intro!: runs_with_path [of p "getattr env"])
next
  case (readlink p buf m r m')
  then show ?case
    by (auto simp: cb_readlink_def split: prod.splits elim!: runs_result intro: fs_step.readlink dest: returned_and_then
        intro!: runs_with_path [of p "readlink env"])
next
  case (mknod p mode dev m r m')
  then show ?case
    by (auto simp: cb_mknod_def elim!: runs_status intro: fs_step.mknod intro!: runs_with_path [of p "\<lambda>p. mknod env p mode dev"])
next
  case (mkdir p mode m r m')
  then show ?case
    by (auto simp: cb_mkdir_def elim!: runs_status intro: fs_step.mkdir intro!: runs_with_path [of p "\<lambda>p. mkdir env p (or mode S_IFDIR)"])
next
  case (unlink p m r m')
  then show ?case
    by (auto simp: cb_unlink_def elim!: runs_status intro: fs_step.unlink intro!: runs_with_path [of p "unlink env"])
next
  case (rmdir p m r m')
  then show ?case
    by (auto simp: cb_rmdir_def elim!: runs_status intro: fs_step.rmdir intro!: runs_with_path [of p "rmdir env"])
next
  case (rename p q flags m r m')
  then show ?case by (auto simp: cb_rename_def elim!: runs_status intro: runs_rename)
next
  case (truncate p sz m r m')
  then show ?case
    by (auto simp: cb_truncate_def elim!: runs_status intro: fs_step.truncate intro!: runs_with_path [of p "\<lambda>p. fs_truncate env p sz"])
next
  case (open' p fl m r m')
  then show ?case
    by (auto simp: cb_open_def elim!: runs_result intro: fs_step.open' intro!: runs_with_path [of p "\<lambda>p. fs_open env p fl"])
next
  case (read' fh out off m r m')
  then show ?case
    by (auto simp: cb_read_def elim!: runs_result intro: fs_step.read' intro!: runs_invoke [of "fs_read env fh out off"])
next
  case (write' fh bs off m r m')
  then show ?case
    by (auto simp: cb_write_def elim!: runs_result intro: fs_step.write' intro!: runs_invoke [of "fs_write env fh bs off"])
next
  case (flush' fh m r m')
  then show ?case by (auto simp: cb_flush_def elim!: runs_status intro: fs_step.flush' intro!: runs_invoke [of "fs_flush env fh"])
next
  case (release fh m r m')
  then show ?case by (auto simp: cb_release_def elim!: runs_status intro: fs_step.release intro!: runs_invoke [of "release env fh"])
next
  case (readdir p m r m')
  then show ?case
    by (auto simp: cb_readdir_def elim!: runs_result intro: fs_step.readdir intro!: runs_with_path [of p "readdir env"])
next
  case (access' p msk m r m')
  then show ?case by (simp add: cb_access_def runs_op_def)
next
  case (utimens p at' mt m r m')
  then show ?case
    by (auto simp: cb_utimens_def elim!: runs_status intro: fs_step.utimens intro!: runs_with_path [of p "\<lambda>p. utimens env p at' mt"])
next
  case (copy_file_range p q i j k l sz m r' m')
  then obtain r where "with_path2 p q (\<lambda>(p, q). fs_copy_file_range env p i j q k l sz) m = (r, m')" "returned r"
    by (auto simp: cb_copy_file_range_def returned_def split: prod.splits sum.splits fault.splits)
  then show ?case
    by (rule runs_with_path2) (use copy_file_range \<open>returned r\<close> in \<open>auto intro: fs_step.copy_file_range\<close>)
qed

lemma cb_destroy_runs:
  "cb_destroy env c m = (r, c', m') \<Longrightarrow> returned r \<Longrightarrow> runs_op env m m' \<and> c' = conn_cancel c"
  by (auto simp: cb_destroy_def intro: fs_step.shutdown intro!: runs_invoke [of "fs_shutdown env" m] split: prod.splits)

section \<open>Properties\<close>

text \<open>C7: callbacks stay below the custom root. The path a callback hands to the file system has the
  components of the root followed by those the kernel asked for, without dot components; only with
  the device's root mounted can a (relative or empty) path be refused.\<close>

theorem paths_confined:
  assumes "good_path root" "kernel_path p"
  shows "create_path root p = Unexpect invalid_argument \<and> is_root root \<and> (p = [] \<or> hd p \<noteq> slash) \<or>
    (\<exists>q. create_path root p = Inr q \<and> good_path q \<and> iter q = iter root @ tokens is_slash p)"
  using create_path_at [of root p] create_path_good [OF assms] assms(1) by (auto simp: good_path_def)

theorem paths_confined_witness:
  "\<exists>root q. create ''/sdcard'' = Some root \<and> create_path root ''/DCIM/a.jpg'' = Inr q \<and> iter q = [''sdcard'', ''DCIM'', ''a.jpg'']"
proof -
  have "create ''/sdcard'' \<noteq> None" by (simp add: create_None_iff)
  then obtain root where r: "create ''/sdcard'' = Some root" by blast
  have i: "path_ok root" "iter root = [''sdcard'']" using create_SomeD [OF r] by simp_all
  then have "good_path root" "\<not> is_root root" by (auto simp: good_path_def bad_name_def is_root_def iter_def)
  moreover have "kernel_path ''/DCIM/a.jpg''" by (simp add: kernel_path_def)
  ultimately show ?thesis using paths_confined [of root "''/DCIM/a.jpg''"] r i(2) by auto
qed

definition link_text :: "str \<Rightarrow> str \<Rightarrow> str" where
  "link_text mount target = (if hd target = slash then mount @ target else target)"

lemma overwrite_at_start: "length ys \<le> length xs \<Longrightarrow> overwrite xs 0 ys = ys @ drop (length ys) xs"
  by (simp add: overwrite_def)

lemma overwrite_after: "overwrite (ys @ zs) (length ys) ws = ys @ ws @ drop (length ws) zs"
  by (simp add: overwrite_def)

lemma update_after: "n = length ys \<Longrightarrow> n < length xs \<Longrightarrow> (ys @ drop n xs)[n := c] = ys @ [c] @ drop (Suc n) xs"
  by (simp add: list_update_append Cons_nth_drop_Suc [symmetric])

lemma resolve_symlink_eq:
  "resolve_symlink mount buf target =
     (if target = [] then Unexpect invalid_argument
      else if length (link_text mount target) < length buf
      then Inr (link_text mount target @ [CHR 0x00] @ drop (Suc (length (link_text mount target))) buf)
      else Unexpect filename_too_long)"
proof (cases "target \<noteq> [] \<and> hd target = slash \<and> length mount + length target < length buf")
  case True
  then have "overwrite (overwrite buf 0 mount) (length mount) target = (mount @ target) @ drop (length mount + length target) buf"
    by (simp add: overwrite_at_start overwrite_after add.commute)
  moreover have "target ! 0 = slash" using True by (metis hd_conv_nth)
  ultimately show ?thesis
    using True update_after [of "length mount + length target" "mount @ target" buf "CHR 0x00"]
    by (simp add: resolve_symlink_def link_text_def)
next
  case False
  then show ?thesis
    using update_after [of "length target" target buf "CHR 0x00"]
    by (auto simp: resolve_symlink_def link_text_def hd_conv_nth overwrite_at_start Suc_le_eq)
qed

lemma with_path_keeps: "with_path p f m = (r, m') \<Longrightarrow> mb_mountpoint m' = mb_mountpoint m"
  by (auto simp: with_path_def invoke_fs_def split: sum.splits prod.splits)

text \<open>C14: \<^verbatim>\<open>readlink\<close> keeps to the caller's buffer. The target, behind the mount point when it is absolute, is stored
  with a terminating null when it fits, and nothing else of the buffer changes; otherwise the
  status is \<^verbatim>\<open>-ENAMETOOLONG\<close>, and \<^verbatim>\<open>-EINVAL\<close> for an empty target.\<close>

theorem readlink_in_bounds:
  "cb_readlink env path buf m =
     (case with_path path (readlink env) m of
        (Inr target, m') \<Rightarrow>
          (let text = link_text (mb_mountpoint m) target in
           (Inr (if target = [] then (- invalid_argument, buf)
              else if length text < length buf then (0, text @ [CHR 0x00] @ drop (Suc (length text)) buf)
              else (- filename_too_long, buf)), m'))
      | (Inl (Errc e), m') \<Rightarrow> (Inr (- e, buf), m')
      | (Inl f, m') \<Rightarrow> (Inl f, m'))"
  by (auto simp: cb_readlink_def resolve_symlink_eq fuse_result_def fuse_err_def Let_def with_path_keeps
      split: prod.splits sum.splits fault.splits)

end
