(* ===== verification/Lv.thy ===== *)
theory Lv
  imports Server Proxy
begin

text \<open>
  Messages with a length prefix (\<^verbatim>\<open>read_lv\<close>, \<^verbatim>\<open>write_lv\<close>, \<^verbatim>\<open>discard\<close> of \<^verbatim>\<open>madbfs-common/async/async.hpp\<close>), the
  handshake of \<^verbatim>\<open>rpc.cpp\<close> that uses them, and the listener of \<^verbatim>\<open>server.cpp\<close> that performs it. The version
  string is generated by the build and a parameter here.
\<close>

section \<open>Length and value\<close>

abbreviation message_size :: errc where "message_size \<equiv> 90"

text \<open>\<^verbatim>\<open>discard\<close>: portions of at most 1024 bytes; each turn reads at least one byte, so \<open>n\<close> turns are enough for \<open>n\<close> bytes.\<close>

fun discard :: "nat \<Rightarrow> 's sock_read \<Rightarrow> nat \<Rightarrow> 's \<Rightarrow> (net_error + unit) expect \<times> 's" where
  "discard fuel rd n s =
     (if n = 0 then (Inr (Inr ()), s)
      else case fuel of
             0 \<Rightarrow> (Inl Hang, s)
           | Suc fuel' \<Rightarrow>
               (case rd (min 1024 n) s of
                  (Inl e, s') \<Rightarrow> (Inr (Inl e), s')
                | (Inr bs, s') \<Rightarrow> discard fuel' rd (n - length bs) s'))"

declare discard.simps [simp del]

definition read_exact :: "'s sock_read \<Rightarrow> nat \<Rightarrow> 's \<Rightarrow> (net_error + u8 list) expect \<times> 's" where
  "read_exact rd n s = (case rd n s of (r, s') \<Rightarrow> (Inr r, s'))"

text \<open>\<^verbatim>\<open>read_lv\<close>: a length beyond \<open>max\<close> makes the function discard the message and return \<^verbatim>\<open>EMSGSIZE\<close>.\<close>

definition read_lv :: "'s sock_read \<Rightarrow> bool \<Rightarrow> nat \<Rightarrow> 's \<Rightarrow> (net_error + u8 list) expect \<times> 's" where
  "read_lv rd big maxi s =
     (case rd 4 s of
        (Inl e, s) \<Rightarrow> (Inr (Inl e), s)
      | (Inr hdr, s) \<Rightarrow>
          (let len = unat (from_net_bytes big hdr :: u32) in
           if len > maxi then
             (case discard len rd len s of
                (Inl f, s) \<Rightarrow> (Inl f, s)
              | (Inr (Inl e), s) \<Rightarrow> (Inr (Inl e), s)
              | (Inr (Inr _), s) \<Rightarrow> (Inr (Inl (SystemError message_size)), s))
           else read_exact rd len s))"

definition write_lv :: "'s sock_write \<Rightarrow> bool \<Rightarrow> u8 list \<Rightarrow> 's \<Rightarrow> (net_error + nat) \<times> 's" where
  "write_lv wr big bs s =
     (case wr (to_net_bytes big (word_of_nat (length bs) :: u32)) s of
        (Inl e, s) \<Rightarrow> (Inl e, s)
      | (Inr _, s) \<Rightarrow> wr bs s)"

definition lv :: "bool \<Rightarrow> u8 list \<Rightarrow> u8 list" where
  "lv big bs = to_net_bytes big (word_of_nat (length bs) :: u32) @ bs"

lemma discard_all:
  assumes "stream_ok rd pend" "length bs \<le> fuel" "pend s = bs @ rest"
  shows "\<exists>s'. discard fuel rd (length bs) s = (Inr (Inr ()), s') \<and> pend s' = rest"
  using assms(2,3)
proof (induction fuel arbitrary: bs s)
  case (Suc fuel)
  show ?case
  proof (cases "bs = []")
    case False
    let ?m = "min 1024 (length bs)"
    have m: "length (take ?m bs) = ?m" "0 < ?m" using False by auto
    have p: "pend s = take ?m bs @ drop ?m bs @ rest" using Suc.prems(2) by (simp only: append_assoc [symmetric] append_take_drop_id)
    obtain s1 where s1: "rd ?m s = (Inr (take ?m bs), s1)" "pend s1 = drop ?m bs @ rest"
      by (rule stream_okD [OF assms(1) p m(1) [symmetric]])
    have "length (drop ?m bs) \<le> fuel" using Suc.prems(1) m(2) False by simp
    from Suc.IH [OF this s1(2)] s1(1) show ?thesis
      using False m(1) by (subst discard.simps) simp
  qed (use Suc.prems in \<open>simp add: discard.simps\<close>)
qed (simp add: discard.simps)

lemma read_lv_at:
  assumes "stream_ok rd pend" "pend s = lv big bs @ rest" "length bs < 2 ^ 32"
  shows "\<exists>s'. read_lv rd big' maxi s =
      (Inr (if length bs \<le> maxi then Inr bs else Inl (SystemError message_size)), s') \<and> pend s' = rest"
proof -
  let ?h = "to_net_bytes big (word_of_nat (length bs) :: u32)"
  have p: "pend s = ?h @ bs @ rest" using assms(2) by (simp add: lv_def)
  obtain s1 where s1: "rd 4 s = (Inr ?h, s1)" "pend s1 = bs @ rest"
    by (rule stream_okD [OF assms(1) p]) simp_all
  have len: "unat (from_net_bytes big' ?h :: u32) = length bs"
    using assms(3) by (simp add: net_bytes_roundtrip unat_of_nat)
  show ?thesis
  proof (cases "length bs \<le> maxi")
    case True
    obtain s2 where "rd (length bs) s1 = (Inr bs, s2)" "pend s2 = rest" by (rule stream_okD [OF assms(1) s1(2) refl])
    with True s1 len show ?thesis by (simp add: read_lv_def read_exact_def)
  next
    case False
    from discard_all [OF assms(1) _ s1(2), of "length bs"] False s1 len show ?thesis
      by (auto simp: read_lv_def)
  qed
qed

section \<open>The handshake\<close>

definition server_ready_string :: str where
  "server_ready_string = ''SERVER_IS_READY''"

definition handshake_message :: "str \<Rightarrow> str" where
  "handshake_message version = server_ready_string @ '':'' @ version @ [CHR 0x0A]"

definition handshake :: "'s socket_ops \<Rightarrow> bool \<Rightarrow> str \<Rightarrow> 's \<Rightarrow> unit expect \<times> 's" where
  "handshake ops big version s =
     (let message = bytes_of (handshake_message version) in
      case write_lv (sk_write ops) big message s of
        (n, s) \<Rightarrow>
          (case handle_write n (length message) of
             Inl e \<Rightarrow> (Inl e, s)
           | Inr _ \<Rightarrow>
               (case read_lv (sk_read ops) big (length message) s of
                  (Inl f, s) \<Rightarrow> (Inl f, s)
                | (Inr n1, s) \<Rightarrow>
                    (case handle_read n1 (length message) of
                       Inl e \<Rightarrow> (Inl e, s)
                     | Inr buffer \<Rightarrow> (if buffer \<noteq> message then Unexpect bad_message else Inr (), s)))))"

text \<open>What the code relies on of \<^verbatim>\<open>async_write\<close>: it delivers all bytes and does not touch the incoming ones.\<close>

definition writes_ok :: "'s sock_write \<Rightarrow> ('s \<Rightarrow> u8 list) \<Rightarrow> bool" where
  "writes_ok wr pend = (\<forall>bs s. \<exists>s'. wr bs s = (Inr (length bs), s') \<and> pend s' = pend s)"

lemma write_lv_at:
  assumes "writes_ok wr pend"
  obtains s' where "write_lv wr big bs s = (Inr (length bs), s')" "pend s' = pend s"
proof -
  let ?h = "to_net_bytes big (word_of_nat (length bs) :: u32)"
  from assms obtain s1 where s1: "wr ?h s = (Inr (length ?h), s1)" "pend s1 = pend s" unfolding writes_ok_def by blast
  from assms obtain s2 where "wr bs s1 = (Inr (length bs), s2)" "pend s2 = pend s1" unfolding writes_ok_def by blast
  with s1 that show ?thesis by (simp add: write_lv_def)
qed

lemma handshake_at:
  assumes "stream_ok (sk_read ops) pend" "writes_ok (sk_write ops) pend"
    "pend s = lv big' peer @ rest" "length peer < 2 ^ 32"
  shows "\<exists>s'. handshake ops big version s =
      (if peer = bytes_of (handshake_message version) then Inr ()
       else if length peer \<le> length (handshake_message version) then Unexpect bad_message
       else Unexpect message_size, s') \<and> pend s' = rest"
proof -
  let ?m = "bytes_of (handshake_message version)"
  obtain s1 where s1: "write_lv (sk_write ops) big ?m s = (Inr (length ?m), s1)" "pend s1 = pend s"
    by (rule write_lv_at [OF assms(2)])
  have "pend s1 = lv big' peer @ rest" using s1(2) assms(3) by simp
  from read_lv_at [OF assms(1) this assms(4), of big "length ?m"] obtain s2 where
    s2: "read_lv (sk_read ops) big (length ?m) s1 =
      (Inr (if length peer \<le> length ?m then Inr peer else Inl (SystemError message_size)), s2)" "pend s2 = rest" by blast
  with s1 show ?thesis
    by (auto simp: handshake_def Let_def handle_write_def handle_read_def to_generic_err_def)
qed

section \<open>The listener\<close>

text \<open>
  One turn of the loop of \<^verbatim>\<open>Server::run\<close> for an accepted socket: the first client gets a connection
  after a successful handshake; a failed handshake ends the listener; while there is a connection
  another client is told \<^verbatim>\<open>BUSY\<close>.
\<close>

datatype 's turn = Serve 's | Reject 's | Quit errc | Stuck fault

definition accept_turn :: "'s socket_ops \<Rightarrow> bool \<Rightarrow> str \<Rightarrow> bool \<Rightarrow> 's \<Rightarrow> 's turn" where
  "accept_turn ops big version connected sock =
     (if \<not> connected then
        (case handshake ops big version sock of
           (Inr _, sock) \<Rightarrow> Serve sock
         | (Inl (Errc e), sock) \<Rightarrow> Quit e
         | (Inl f, sock) \<Rightarrow> Stuck f)
      else Reject (snd (write_lv (sk_write ops) big (bytes_of ''BUSY'') sock)))"

record ('s, 'k) listener =
  ls_running :: bool
  ls_connection :: "('s, 'k) server_conn option"

definition server_turn :: "'s socket_ops \<Rightarrow> bool \<Rightarrow> str \<Rightarrow> 'k \<Rightarrow> (net_error + 's) \<Rightarrow> ('s, 'k) listener \<Rightarrow> unit expect \<times> ('s, 'k) listener" where
  "server_turn ops big version k accepted ls =
     (case accepted of
        Inl e \<Rightarrow> (Inr (), ls\<lparr>ls_running := False\<rparr>)
      | Inr sock \<Rightarrow>
          (case accept_turn ops big version (ls_connection ls \<noteq> None) sock of
             Serve sock \<Rightarrow> (Inr (), ls\<lparr>ls_connection := Some ((mk_server_conn sock k)\<lparr>sv_running := True\<rparr>)\<rparr>)
           | Reject _ \<Rightarrow> (Inr (), ls)
           | Quit e \<Rightarrow> (Unexpect e, ls\<lparr>ls_running := False\<rparr>)
           | Stuck f \<Rightarrow> (Inl f, ls)))"

definition server_stop :: "'s socket_ops \<Rightarrow> ('s, 'k) listener \<Rightarrow> ('s, 'k) listener" where
  "server_stop ops ls =
     (if ls_running ls then \<lparr>ls_running = False, ls_connection = map_option (sv_stop ops) (ls_connection ls)\<rparr> else ls)"

section \<open>Properties\<close>

text \<open>Length-prefixed messages. A message written by a host of any endianness is read back whole when
  it does not exceed the reader's maximum; otherwise \<^verbatim>\<open>EMSGSIZE\<close> is returned and the message is
  discarded; in both cases the stream is left at the next message.\<close>

theorem lv_framing:
  assumes "stream_ok rd pend" "pend s = lv big bs @ rest" "length bs < 2 ^ 32"
  shows "\<exists>s'. read_lv rd big' maxi s =
      (Inr (if length bs \<le> maxi then Inr bs else Inl (SystemError message_size)), s') \<and> pend s' = rest"
  by (rule read_lv_at [OF assms])

theorem lv_framing_witness:
  "\<exists>s'. read_lv list_read True 2 (lv False [1, 2, 3] @ lv True [9]) = (Inr (Inl (SystemError message_size)), s') \<and> s' = lv True [9]"
  using lv_framing [OF list_read_ok, of "lv False [1, 2, 3] @ lv True [9]" False "[1, 2, 3]" "lv True [9]" True 2] by simp

text \<open>The handshake. A server without a connection serves exactly the clients whose handshake message
  is its own, version included; any other message ends the listener with an error, and the bytes
  of the message are consumed in every case.\<close>

theorem handshake_checks_version:
  assumes "stream_ok (sk_read ops) pend" "writes_ok (sk_write ops) pend"
    "pend s = lv big' (bytes_of (handshake_message v)) @ rest" "length (handshake_message v) < 2 ^ 32"
    "ls_connection ls = None"
  shows "if v = version then \<exists>c. server_turn ops big version k (Inr s) ls = (Inr (), ls\<lparr>ls_connection := Some c\<rparr>) \<and>
      sv_running c \<and> pend (sv_socket c) = rest
    else \<exists>e. server_turn ops big version k (Inr s) ls = (Unexpect e, ls\<lparr>ls_running := False\<rparr>)"
proof -
  have inj: "bytes_of (handshake_message v) = bytes_of (handshake_message version) \<longleftrightarrow> v = version"
    by (metis append_same_eq handshake_message_def same_append_eq str_of_bytes_of)
  from handshake_at [OF assms(1-3), of big version] assms(4) obtain s' where
    "handshake ops big version s = (if v = version then Inr ()
       else if length (handshake_message v) \<le> length (handshake_message version) then Unexpect bad_message
       else Unexpect message_size, s')" "pend s' = rest" by (auto simp: inj)
  with assms(5) show ?thesis
    by (auto simp: server_turn_def accept_turn_def mk_server_conn_def)
qed

lemma list_ops_writes: "writes_ok (sk_write list_ops) fst"
  by (auto simp: writes_ok_def list_ops_def)

theorem handshake_checks_version_witness:
  "(\<exists>c. server_turn list_ops False ''1.0'' () (Inr (lv True (bytes_of (handshake_message ''1.0'')), []))
      \<lparr>ls_running = True, ls_connection = None\<rparr> = (Inr (), \<lparr>ls_running = True, ls_connection = Some c\<rparr>) \<and> sv_running c) \<and>
   (\<exists>e. server_turn list_ops False ''1.0'' () (Inr (lv True (bytes_of (handshake_message ''0.9'')), []))
      \<lparr>ls_running = True, ls_connection = None\<rparr> = (Unexpect e, \<lparr>ls_running = False, ls_connection = None\<rparr>))"
  using handshake_checks_version [OF list_ops_ok list_ops_writes, of "(lv True (bytes_of (handshake_message ''1.0'')), [])" True "''1.0''" "[]"
      "\<lparr>ls_running = True, ls_connection = None\<rparr>" "''1.0''" False "()"]
    handshake_checks_version [OF list_ops_ok list_ops_writes, of "(lv True (bytes_of (handshake_message ''0.9'')), [])" True "''0.9''" "[]"
      "\<lparr>ls_running = True, ls_connection = None\<rparr>" "''1.0''" False "()"]
  by (auto simp: handshake_message_def server_ready_string_def)

end
