(* ===== verification/Ipc.thy ===== *)
theory Ipc
  imports Lv
begin

text \<open>
  The control interface of \<^verbatim>\<open>madbfs-common/ipc.hpp\<close> and \<^verbatim>\<open>ipc.cpp\<close>: operations as JSON messages over a local
  socket, the client, the server that answers one peer at a time, and the log messages it forwards
  to subscribers. Boost.JSON is a parameter: its parser and printer, and the texts of its errors;
  so are the names of the log levels, the version string and the texts of error codes.
\<close>

section \<open>JSON values\<close>

datatype json = JNull | JBool bool | JInt int | JStr str | JArr "json list" | JObj "(str \<times> json) list"

record json_lib =
  js_parse :: "str \<Rightarrow> str + json"
  js_serialize :: "json \<Rightarrow> str"
  js_not_found :: str
  js_mismatch :: "json \<Rightarrow> str"
  js_errc :: "errc \<Rightarrow> str"
  js_levels :: "str list"
  js_version :: str

text \<open>\<^verbatim>\<open>value::at\<close> and \<^verbatim>\<open>value_to\<close>; they throw what \<open>Inl\<close> carries. Integers must be in the range of the type.\<close>

definition json_at :: "json_lib \<Rightarrow> json \<Rightarrow> str \<Rightarrow> str + json" where
  "json_at lib j key =
     (case j of
        JObj kvs \<Rightarrow> (case map_of kvs key of Some v \<Rightarrow> Inr v | None \<Rightarrow> Inl (js_not_found lib))
      | _ \<Rightarrow> Inl (js_mismatch lib j))"

definition to_string :: "json_lib \<Rightarrow> json \<Rightarrow> str + str" where
  "to_string lib j = (case j of JStr s \<Rightarrow> Inr s | _ \<Rightarrow> Inl (js_mismatch lib j))"

definition to_u32 :: "json_lib \<Rightarrow> json \<Rightarrow> str + nat" where
  "to_u32 lib j =
     (case j of
        JInt i \<Rightarrow> (if 0 \<le> i \<and> i < 2 ^ 32 then Inr (nat i) else Inl (js_mismatch lib j))
      | _ \<Rightarrow> Inl (js_mismatch lib j))"

definition to_bool :: "json_lib \<Rightarrow> json \<Rightarrow> str + bool" where
  "to_bool lib j = (case j of JBool b \<Rightarrow> Inr b | _ \<Rightarrow> Inl (js_mismatch lib j))"

definition throwing :: "str + 'a \<Rightarrow> ('a \<Rightarrow> str + 'b) \<Rightarrow> str + 'b" where
  "throwing r f = (case r of Inl e \<Rightarrow> Inl e | Inr v \<Rightarrow> f v)"

section \<open>Operations\<close>

datatype ipc_fs_op =
    Info | InvalidateCache | ExpireStat | SetPageSize nat | SetCacheSize nat | SetTTL nat | SetTimeout nat
  | SetLogLevel str | Unmount

datatype ipc_op = FsOp ipc_fs_op | Help | Version | Logcat bool

definition op_names :: "str list" where
  "op_names = [''help'', ''version'', ''info'', ''invalidate_cache'', ''expire_stat'', ''set_page_size'',
     ''set_cache_size'', ''set_ttl'', ''set_timeout'', ''set_log_level'', ''logcat'', ''unmount'']"

text \<open>\<^verbatim>\<open>level_from_str\<close> of \<^verbatim>\<open>log.hpp\<close>: the first level with the name.\<close>

fun index_of :: "nat \<Rightarrow> str \<Rightarrow> str list \<Rightarrow> nat option" where
  "index_of i x [] = None"
| "index_of i x (y # ys) = (if x = y then Some i else index_of (Suc i) x ys)"

definition level_from_str :: "json_lib \<Rightarrow> str \<Rightarrow> nat option" where
  "level_from_str lib level = index_of 0 level (js_levels lib)"

fun comma_list :: "str list \<Rightarrow> str" where
  "comma_list [] = []"
| "comma_list [x] = x"
| "comma_list (x # xs) = x @ '', '' @ comma_list xs"

definition bad_level_text :: "json_lib \<Rightarrow> str \<Rightarrow> str" where
  "bad_level_text lib level =
     [CHR 0x27] @ level @ [CHR 0x27] @ '' is not a valid log level ['' @ comma_list (js_levels lib) @ '']''"

definition bad_op_text :: "str \<Rightarrow> str" where
  "bad_op_text op = [CHR 0x27] @ op @ [CHR 0x27] @ '' is not a valid operation, try '' @ [CHR 0x27] @ ''help'' @ [CHR 0x27]"

definition parse_op :: "json_lib \<Rightarrow> str \<Rightarrow> str + ipc_op" where
  "parse_op lib msg =
     throwing (js_parse lib msg) (\<lambda>json.
     throwing (throwing (json_at lib json ''op'') (to_string lib)) (\<lambda>op.
     let number = (\<lambda>f. throwing (throwing (json_at lib json ''value'') (to_u32 lib)) (\<lambda>n. Inr (FsOp (f n)))) in
     if op = ''help'' then Inr Help
     else if op = ''version'' then Inr Version
     else if op = ''info'' then Inr (FsOp Info)
     else if op = ''invalidate_cache'' then Inr (FsOp InvalidateCache)
     else if op = ''expire_stat'' then Inr (FsOp ExpireStat)
     else if op = ''set_page_size'' then number SetPageSize
     else if op = ''set_cache_size'' then number SetCacheSize
     else if op = ''set_ttl'' then number SetTTL
     else if op = ''set_timeout'' then number SetTimeout
     else if op = ''set_log_level'' then
       throwing (throwing (json_at lib json ''value'') (to_string lib)) (\<lambda>level.
         if level_from_str lib level = None then Inl (bad_level_text lib level) else Inr (FsOp (SetLogLevel level)))
     else if op = ''logcat'' then throwing (throwing (json_at lib json ''value'') (to_bool lib)) (\<lambda>b. Inr (Logcat b))
     else if op = ''unmount'' then Inr (FsOp Unmount)
     else Inl (bad_op_text op)))"

section \<open>Messages\<close>

definition max_msg_len :: nat where
  "max_msg_len = 4 * 1024"

definition receive_message :: "'s socket_ops \<Rightarrow> bool \<Rightarrow> 's \<Rightarrow> str expect \<times> 's" where
  "receive_message ops big s =
     (case read_lv (sk_read ops) big max_msg_len s of
        (Inl f, s) \<Rightarrow> (Inl f, s)
      | (Inr (Inl e), s) \<Rightarrow> (Unexpect (to_generic_err e io_error), s)
      | (Inr (Inr bs), s) \<Rightarrow> (Inr (str_of bs), s))"

definition send_message :: "'s socket_ops \<Rightarrow> bool \<Rightarrow> str \<Rightarrow> 's \<Rightarrow> unit expect \<times> 's" where
  "send_message ops big msg s =
     (case write_lv (sk_write ops) big (bytes_of msg) s of
        (Inl e, s) \<Rightarrow> (Unexpect (to_generic_err e not_connected), s)
      | (Inr _, s) \<Rightarrow> (Inr (), s))"

section \<open>The client\<close>

definition fs_op_json :: "ipc_fs_op \<Rightarrow> json" where
  "fs_op_json op =
     (case op of
        Info \<Rightarrow> JObj [(''op'', JStr ''info'')]
      | InvalidateCache \<Rightarrow> JObj [(''op'', JStr ''invalidate_cache'')]
      | ExpireStat \<Rightarrow> JObj [(''op'', JStr ''expire_stat'')]
      | SetPageSize kib \<Rightarrow> JObj [(''op'', JStr ''set_page_size''), (''value'', JInt (int kib))]
      | SetCacheSize mib \<Rightarrow> JObj [(''op'', JStr ''set_cache_size''), (''value'', JInt (int mib))]
      | SetTTL sec \<Rightarrow> JObj [(''op'', JStr ''set_ttl''), (''value'', JInt (int sec))]
      | SetTimeout sec \<Rightarrow> JObj [(''op'', JStr ''set_timeout''), (''value'', JInt (int sec))]
      | SetLogLevel lvl \<Rightarrow> JObj [(''op'', JStr ''set_log_level''), (''value'', JStr lvl)]
      | Unmount \<Rightarrow> JObj [(''op'', JStr ''unmount'')])"

text \<open>\<^verbatim>\<open>send\<close>, \<^verbatim>\<open>help\<close> and \<^verbatim>\<open>version\<close> differ in the message only.\<close>

definition client_exchange :: "json_lib \<Rightarrow> 's socket_ops \<Rightarrow> bool \<Rightarrow> json \<Rightarrow> 's \<Rightarrow> json expect \<times> 's" where
  "client_exchange lib ops big op_json s =
     (case send_message ops big (js_serialize lib op_json) s of
        (Inl e, s) \<Rightarrow> (Inl e, s)
      | (Inr _, s) \<Rightarrow>
          (case receive_message ops big s of
             (Inl e, s) \<Rightarrow> (Inl e, s)
           | (Inr response_str, s) \<Rightarrow>
               (case js_parse lib response_str of Inr v \<Rightarrow> Inr v | Inl _ \<Rightarrow> Unexpect bad_message, s)))"

definition client_send :: "json_lib \<Rightarrow> 's socket_ops \<Rightarrow> bool \<Rightarrow> ipc_fs_op \<Rightarrow> 's \<Rightarrow> json expect \<times> 's" where
  "client_send lib ops big op s = client_exchange lib ops big (fs_op_json op) s"

definition client_help :: "json_lib \<Rightarrow> 's socket_ops \<Rightarrow> bool \<Rightarrow> 's \<Rightarrow> json expect \<times> 's" where
  "client_help lib ops big s = client_exchange lib ops big (JObj [(''op'', JStr ''help'')]) s"

definition client_version :: "json_lib \<Rightarrow> 's socket_ops \<Rightarrow> bool \<Rightarrow> 's \<Rightarrow> json expect \<times> 's" where
  "client_version lib ops big s = client_exchange lib ops big (JObj [(''op'', JStr ''version'')]) s"

text \<open>The messages that follow are read one by one with \<^verbatim>\<open>receive_message\<close>.\<close>

definition client_logcat :: "json_lib \<Rightarrow> 's socket_ops \<Rightarrow> bool \<Rightarrow> bool \<Rightarrow> 's \<Rightarrow> unit expect \<times> 's" where
  "client_logcat lib ops big color s =
     send_message ops big (js_serialize lib (JObj [(''op'', JStr ''logcat''), (''value'', JBool color)])) s"

section \<open>Log messages for subscribers\<close>

record log_entry =
  lg_text :: str
  lg_start :: nat
  lg_end :: nat
  lg_level :: nat

record sink =
  sn_queues :: "log_entry list \<times> log_entry list"
  sn_second :: bool
  sn_max :: nat
  sn_on :: bool

definition sn_queue :: "bool \<Rightarrow> sink \<Rightarrow> log_entry list" where
  "sn_queue second k = (if second then snd (sn_queues k) else fst (sn_queues k))"

definition set_queue :: "bool \<Rightarrow> log_entry list \<Rightarrow> sink \<Rightarrow> sink" where
  "set_queue second q k = k\<lparr>sn_queues := (if second then (fst (sn_queues k), q) else (q, snd (sn_queues k)))\<rparr>"

text \<open>\<^verbatim>\<open>swap\<close>: the queue in front so far, while the other one takes its place.\<close>

definition sn_swap :: "sink \<Rightarrow> bool \<times> sink" where
  "sn_swap k = (sn_second k, k\<lparr>sn_second := \<not> sn_second k\<rparr>)"

text \<open>\<^verbatim>\<open>pop_front\<close> of an empty queue is undefined.\<close>

fun make_room :: "nat \<Rightarrow> log_entry list \<Rightarrow> log_entry list expect" where
  "make_room mx [] = (if mx = 0 then Inl UB else Inr [])"
| "make_room mx (x # xs) = (if length (x # xs) \<ge> mx then make_room mx xs else Inr (x # xs))"

definition sink_it :: "log_entry \<Rightarrow> sink \<Rightarrow> sink expect" where
  "sink_it msg k =
     transform (make_room (sn_max k) (sn_queue (sn_second k) k)) (\<lambda>q. set_queue (sn_second k) (q @ [msg]) k)"

section \<open>The server\<close>

record ('s, 'm) ipc_server =
  ip_running :: bool
  ip_sink :: "sink option"
  ip_subs :: "('s \<times> bool) list"
  ip_prev_empty :: bool
  ip_app :: 'm

text \<open>\<^verbatim>\<open>launch\<close>; \<open>logger\<close> tells whether the logger is registered. A new sink is switched off.\<close>

definition ip_launch :: "bool \<Rightarrow> ('s, 'm) ipc_server \<Rightarrow> ('s, 'm) ipc_server" where
  "ip_launch logger p =
     (let p = p\<lparr>ip_running := True\<rparr> in
      if \<not> logger then p
      else p\<lparr>ip_prev_empty := (ip_subs p = []),
             ip_sink := (case ip_sink p of Some k \<Rightarrow> Some k
                         | None \<Rightarrow> Some \<lparr>sn_queues = ([], []), sn_second = False, sn_max = 1024, sn_on = False\<rparr>)\<rparr>)"

definition ip_stop :: "('s, 'm) ipc_server \<Rightarrow> ('s, 'm) ipc_server" where
  "ip_stop p = p\<lparr>ip_running := False\<rparr>"

text \<open>What is answered to an operation: \<open>None\<close> for a subscription, which gets no answer.\<close>

definition answer :: "json_lib \<Rightarrow> (ipc_fs_op \<Rightarrow> 'm \<Rightarrow> json expect \<times> 'm) \<Rightarrow> str + ipc_op \<Rightarrow> 'm \<Rightarrow>
    ((str \<times> json) + bool) expect \<times> 'm" where
  "answer lib on_op op m =
     (case op of
        Inl text \<Rightarrow> (Inr (Inl (''error'', JStr text)), m)
      | Inr (FsOp op) \<Rightarrow>
          (case on_op op m of
             (Inr v, m) \<Rightarrow> (Inr (Inl (''success'', v)), m)
           | (Inl (Errc e), m) \<Rightarrow> (Inr (Inl (''error'', JStr (js_errc lib e))), m)
           | (Inl f, m) \<Rightarrow> (Inl f, m))
      | Inr Help \<Rightarrow> (Inr (Inl (''success'', JObj [(''operations'', JArr (map JStr op_names))])), m)
      | Inr Version \<Rightarrow> (Inr (Inl (''success'', JObj [(''version'', JStr (js_version lib))])), m)
      | Inr (Logcat color) \<Rightarrow> (Inr (Inr color), m))"

definition response_json :: "str \<times> json \<Rightarrow> json" where
  "response_json sv = JObj [(''status'', JStr (fst sv)), (''value'', snd sv)]"

text \<open>The result is the peer's socket when it has been answered; a failed answer is only logged.\<close>

definition handle_peer :: "json_lib \<Rightarrow> (ipc_fs_op \<Rightarrow> 'm \<Rightarrow> json expect \<times> 'm) \<Rightarrow> 's socket_ops \<Rightarrow> bool \<Rightarrow> 's \<Rightarrow>
    ('s, 'm) ipc_server \<Rightarrow> 's option expect \<times> ('s, 'm) ipc_server" where
  "handle_peer lib on_op ops big sock p =
     (case receive_message ops big sock of
        (Inl (Errc e), sock) \<Rightarrow> (Inr (Some sock), p)
      | (Inl f, sock) \<Rightarrow> (Inl f, p)
      | (Inr op_str, sock) \<Rightarrow>
          (case answer lib on_op (parse_op lib op_str) (ip_app p) of
             (Inl f, m) \<Rightarrow> (Inl f, p\<lparr>ip_app := m\<rparr>)
           | (Inr (Inr color), m) \<Rightarrow> (Inr None, p\<lparr>ip_app := m, ip_subs := ip_subs p @ [(sock, color)]\<rparr>)
           | (Inr (Inl sv), m) \<Rightarrow>
               (Inr (Some (snd (send_message ops big (js_serialize lib (response_json sv)) sock))), p\<lparr>ip_app := m\<rparr>)))"

text \<open>One turn of \<^verbatim>\<open>run\<close>: peers are served one after the other; a failed \<^verbatim>\<open>accept\<close> is only logged.\<close>

definition ip_run_turn :: "json_lib \<Rightarrow> (ipc_fs_op \<Rightarrow> 'm \<Rightarrow> json expect \<times> 'm) \<Rightarrow> 's socket_ops \<Rightarrow> bool \<Rightarrow> net_error + 's \<Rightarrow>
    ('s, 'm) ipc_server \<Rightarrow> 's option expect \<times> ('s, 'm) ipc_server" where
  "ip_run_turn lib on_op ops big accepted p =
     (case accepted of Inl _ \<Rightarrow> (Inr None, p) | Inr sock \<Rightarrow> handle_peer lib on_op ops big sock p)"

section \<open>Forwarding log messages\<close>

definition log_colors :: "str list" where
  "log_colors = [CHR 0x1B # ''[37m'', CHR 0x1B # ''[36m'', CHR 0x1B # ''[32m'',
     CHR 0x1B # ''[33m'' @ CHR 0x1B # ''[1m'', CHR 0x1B # ''[31m'' @ CHR 0x1B # ''[1m'',
     CHR 0x1B # ''[1m'' @ CHR 0x1B # ''[41m'', CHR 0x1B # ''[m'']"

text \<open>The ranges come from the formatter of the log library; outside the text they are undefined.\<close>

definition colored :: "log_entry \<Rightarrow> str expect" where
  "colored e =
     (if lg_start e \<le> lg_end e \<and> lg_end e \<le> length (lg_text e) \<and> lg_level e < length log_colors then
        Inr (take (lg_start e) (lg_text e) @ log_colors ! lg_level e @
             Prelude.sublist (lg_start e) (lg_end e - lg_start e) (lg_text e) @ last log_colors @ drop (lg_end e) (lg_text e))
      else Inl UB)"

definition log_line :: "bool \<Rightarrow> log_entry \<Rightarrow> str expect" where
  "log_line color e = (if color then colored e else Inr (lg_text e))"

text \<open>The messages for one subscriber, up to the first that cannot be sent; the flag tells that all were.\<close>

fun forward_to :: "'s socket_ops \<Rightarrow> bool \<Rightarrow> bool \<Rightarrow> log_entry list \<Rightarrow> 's \<Rightarrow> bool expect \<times> 's" where
  "forward_to ops big color [] sock = (Inr True, sock)"
| "forward_to ops big color (e # es) sock =
     (case log_line color e of
        Inl f \<Rightarrow> (Inl f, sock)
      | Inr text \<Rightarrow>
          (case send_message ops big text sock of
             (Inr _, sock) \<Rightarrow> forward_to ops big color es sock
           | (Inl (Errc _), sock) \<Rightarrow> (Inr False, sock)
           | (Inl f, sock) \<Rightarrow> (Inl f, sock)))"

text \<open>All subscribers in turn; the indices of those that failed are collected.\<close>

fun forward_all :: "'s socket_ops \<Rightarrow> bool \<Rightarrow> log_entry list \<Rightarrow> nat \<Rightarrow> ('s \<times> bool) list \<Rightarrow>
    (nat list \<times> ('s \<times> bool) list) expect" where
  "forward_all ops big es i [] = Inr ([], [])"
| "forward_all ops big es i ((sock, color) # subs) =
     (case forward_to ops big color es sock of
        (Inl f, _) \<Rightarrow> Inl f
      | (Inr ok, sock) \<Rightarrow>
          transform (forward_all ops big es (Suc i) subs) (\<lambda>(idx, rest). (if ok then idx else i # idx, (sock, color) # rest)))"

definition erase_at :: "nat \<Rightarrow> 'a list \<Rightarrow> 'a list" where
  "erase_at i xs = take i xs @ drop (Suc i) xs"

text \<open>One turn of \<^verbatim>\<open>logcat_handler\<close> after its timer.\<close>

definition logcat_turn :: "'s socket_ops \<Rightarrow> bool \<Rightarrow> sink \<Rightarrow> ('s, 'm) ipc_server \<Rightarrow> ('s, 'm) ipc_server expect" where
  "logcat_turn ops big k p =
     (if ip_subs p = [] then
        (let k = (if ip_prev_empty p then k else k\<lparr>sn_on := False, sn_queues := ([], [])\<rparr>)
         in Inr (p\<lparr>ip_prev_empty := True, ip_sink := Some k\<rparr>))
      else
        (let k = (if ip_prev_empty p then k\<lparr>sn_on := True\<rparr> else k);
             (front, k) = sn_swap k
         in transform (forward_all ops big (sn_queue front k) 0 (ip_subs p)) (\<lambda>(inactive, subs).
              p\<lparr>ip_prev_empty := False, ip_subs := fold erase_at (rev inactive) subs,
                ip_sink := Some (set_queue front [] k)\<rparr>)))"

text \<open>After the loop the sockets are closed.\<close>

definition logcat_end :: "('s, 'm) ipc_server \<Rightarrow> ('s, 'm) ipc_server" where
  "logcat_end p = p\<lparr>ip_subs := []\<rparr>"

section \<open>Exchanges\<close>

text \<open>What is relied on of a connected socket: bytes that have arrived are read, written bytes are delivered.\<close>

definition duplex_ok :: "'s socket_ops \<Rightarrow> ('s \<Rightarrow> u8 list) \<Rightarrow> ('s \<Rightarrow> u8 list) \<Rightarrow> bool" where
  "duplex_ok ops pend sent =
     ((\<forall>s bs rest. pend s = bs @ rest \<longrightarrow> (\<exists>s'. sk_read ops (length bs) s = (Inr bs, s') \<and> pend s' = rest \<and> sent s' = sent s)) \<and>
      (\<forall>s bs. \<exists>s'. sk_write ops bs s = (Inr (length bs), s') \<and> pend s' = pend s \<and> sent s' = sent s @ bs))"

lemma duplex_read:
  assumes "duplex_ok ops pend sent" "pend s = bs @ rest" "n = length bs"
  obtains s' where "sk_read ops n s = (Inr bs, s')" "pend s' = rest" "sent s' = sent s"
  using assms unfolding duplex_ok_def by blast

lemma duplex_write:
  assumes "duplex_ok ops pend sent"
  obtains s' where "sk_write ops bs s = (Inr (length bs), s')" "pend s' = pend s" "sent s' = sent s @ bs"
  using assms unfolding duplex_ok_def by blast

lemma receive_message_at:
  assumes "duplex_ok ops pend sent" "pend s = lv big' (bytes_of msg) @ rest" "length msg \<le> max_msg_len"
  obtains s' where "receive_message ops big s = (Inr msg, s')" "pend s' = rest" "sent s' = sent s"
proof -
  let ?h = "to_net_bytes big' (word_of_nat (length msg) :: u32)"
  have p: "pend s = ?h @ bytes_of msg @ rest" using assms(2) by (simp add: lv_def)
  obtain s1 where s1: "sk_read ops 4 s = (Inr ?h, s1)" "pend s1 = bytes_of msg @ rest" "sent s1 = sent s"
    by (rule duplex_read [OF assms(1) p]) simp_all
  have "unat (from_net_bytes big ?h :: u32) = length msg"
    using assms(3) by (simp add: net_bytes_roundtrip unat_of_nat max_msg_len_def)
  moreover obtain s2 where "sk_read ops (length msg) s1 = (Inr (bytes_of msg), s2)" "pend s2 = rest" "sent s2 = sent s1"
    by (rule duplex_read [OF assms(1) s1(2)]) simp_all
  ultimately show ?thesis
    using that s1 assms(3) by (simp add: receive_message_def read_lv_def read_exact_def)
qed

lemma send_message_at:
  assumes "duplex_ok ops pend sent"
  obtains s' where "send_message ops big msg s = (Inr (), s')" "pend s' = pend s" "sent s' = sent s @ lv big (bytes_of msg)"
proof -
  let ?h = "to_net_bytes big (word_of_nat (length (bytes_of msg)) :: u32)"
  obtain s1 where s1: "sk_write ops ?h s = (Inr (length ?h), s1)" "pend s1 = pend s" "sent s1 = sent s @ ?h"
    by (rule duplex_write [OF assms])
  obtain s2 where "sk_write ops (bytes_of msg) s1 = (Inr (length (bytes_of msg)), s2)" "pend s2 = pend s1"
    "sent s2 = sent s1 @ bytes_of msg" by (rule duplex_write [OF assms])
  with s1 show ?thesis using that by (simp add: send_message_def write_lv_def lv_def)
qed

text \<open>What the parser makes of a message of the client: numbers must fit 32 bits, levels must exist.\<close>

definition op_error :: "json_lib \<Rightarrow> ipc_fs_op \<Rightarrow> str option" where
  "op_error lib op =
     (case op of
        SetLogLevel lvl \<Rightarrow> (if level_from_str lib lvl = None then Some (bad_level_text lib lvl) else None)
      | SetPageSize n \<Rightarrow> (if n < 2 ^ 32 then None else Some (js_mismatch lib (JInt (int n))))
      | SetCacheSize n \<Rightarrow> (if n < 2 ^ 32 then None else Some (js_mismatch lib (JInt (int n))))
      | SetTTL n \<Rightarrow> (if n < 2 ^ 32 then None else Some (js_mismatch lib (JInt (int n))))
      | SetTimeout n \<Rightarrow> (if n < 2 ^ 32 then None else Some (js_mismatch lib (JInt (int n))))
      | _ \<Rightarrow> None)"

lemma to_u32_int: "to_u32 lib (JInt (int n)) = (if n < 2 ^ 32 then Inr n else Inl (js_mismatch lib (JInt (int n))))"
  by (simp add: to_u32_def)

lemma parse_op_send:
  assumes "js_parse lib msg = Inr (fs_op_json op)"
  shows "parse_op lib msg = (case op_error lib op of None \<Rightarrow> Inr (FsOp op) | Some text \<Rightarrow> Inl text)"
  using assms by (cases op) (simp_all add: parse_op_def fs_op_json_def json_at_def to_string_def throwing_def Let_def to_u32_int op_error_def)

definition reply_of :: "json_lib \<Rightarrow> (ipc_fs_op \<Rightarrow> 'm \<Rightarrow> json expect \<times> 'm) \<Rightarrow> ipc_fs_op \<Rightarrow> 'm \<Rightarrow> (json \<times> 'm) expect" where
  "reply_of lib on_op op m =
     (case op_error lib op of
        Some text \<Rightarrow> Inr (response_json (''error'', JStr text), m)
      | None \<Rightarrow>
          (case on_op op m of
             (Inr v, m') \<Rightarrow> Inr (response_json (''success'', v), m')
           | (Inl (Errc e), m') \<Rightarrow> Inr (response_json (''error'', JStr (js_errc lib e)), m')
           | (Inl f, m') \<Rightarrow> Inl f))"

lemma answer_reply:
  assumes "js_parse lib msg = Inr (fs_op_json op)" "reply_of lib on_op op m = Inr (v, m')"
  shows "\<exists>sv. answer lib on_op (parse_op lib msg) m = (Inr (Inl sv), m') \<and> v = response_json sv"
  using assms(2) by (auto simp: parse_op_send [OF assms(1)] answer_def reply_of_def split: option.splits prod.splits sum.splits fault.splits)

section \<open>Log messages\<close>

lemma make_room_eq: "0 < mx \<Longrightarrow> make_room mx q = Inr (drop (Suc (length q) - mx) q)"
  by (induction mx q rule: make_room.induct) (auto simp: Suc_diff_le not_le)

text \<open>The subscribers that took all messages.\<close>

definition still_subscribed :: "'s socket_ops \<Rightarrow> bool \<Rightarrow> log_entry list \<Rightarrow> ('s \<times> bool) list \<Rightarrow> ('s \<times> bool) list" where
  "still_subscribed ops big es subs =
     concat (map (\<lambda>(sock, color). case forward_to ops big color es sock of (Inr True, sock') \<Rightarrow> [(sock', color)] | _ \<Rightarrow> []) subs)"

lemma erase_at_after [simp]: "erase_at (length pre) (pre @ x # ys) = pre @ ys"
  by (simp add: erase_at_def)

lemma forward_all_erase:
  assumes "forward_all ops big es (length pre) subs = Inr (idx, subs')"
  shows "fold erase_at (rev idx) (pre @ subs') = pre @ still_subscribed ops big es subs"
  using assms
proof (induction subs arbitrary: pre idx subs')
  case (Cons x subs)
  obtain sock color where x: "x = (sock, color)" by fastforce
  with Cons.prems obtain ok sock' idx' rest where f: "forward_to ops big color es sock = (Inr ok, sock')"
    "forward_all ops big es (Suc (length pre)) subs = Inr (idx', rest)"
    "idx = (if ok then idx' else length pre # idx')" "subs' = (sock', color) # rest"
    by (auto simp: transform_Inr_iff split: prod.splits sum.splits)
  from Cons.IH [of "pre @ [(sock', color)]"] f(2)
  have "fold erase_at (rev idx') (pre @ (sock', color) # rest) = pre @ (sock', color) # still_subscribed ops big es subs" by simp
  with f x show ?case by (simp add: still_subscribed_def)
qed (simp add: still_subscribed_def)

lemma forward_to_sent:
  assumes "duplex_ok ops pend sent" "list_all2 (\<lambda>e line. log_line color e = Inr line) es lines"
  shows "\<exists>s'. forward_to ops big color es s = (Inr True, s') \<and> pend s' = pend s \<and>
    sent s' = sent s @ concat (map (\<lambda>line. lv big (bytes_of line)) lines)"
  using assms(2)
proof (induction es lines arbitrary: s rule: list_all2_induct)
  case (Cons e es line lines)
  obtain s1 where s1: "send_message ops big line s = (Inr (), s1)" "pend s1 = pend s" "sent s1 = sent s @ lv big (bytes_of line)"
    by (rule send_message_at [OF assms(1)])
  from Cons.IH [of s1] obtain s' where "forward_to ops big color es s1 = (Inr True, s')" "pend s' = pend s1"
    "sent s' = sent s1 @ concat (map (\<lambda>line. lv big (bytes_of line)) lines)" by blast
  with s1 Cons.hyps(1) show ?case by auto
qed simp

section \<open>Properties\<close>

text \<open>A control operation. Over a connected socket, with a JSON library that reads back the two messages that
  are exchanged, the server runs the operation the client sent exactly once and the client gets
  its result; an operation with a number of more than 32 bits or an unknown log level is answered
  with an error and does not reach the file system.\<close>

theorem ipc_call:
  assumes "duplex_ok ops pend sent"
    and req: "js_parse lib (js_serialize lib (fs_op_json op)) = Inr (fs_op_json op)"
      "length (js_serialize lib (fs_op_json op)) \<le> max_msg_len"
    and reply: "reply_of lib on_op op (ip_app p) = Inr (v, m')"
    and resp: "js_parse lib (js_serialize lib v) = Inr v" "length (js_serialize lib v) \<le> max_msg_len"
    and peer: "pend sock = lv big (bytes_of (js_serialize lib (fs_op_json op)))"
    and cli: "pend c = lv big' (bytes_of (js_serialize lib v))"
  shows "(\<exists>c'. client_send lib ops big op c = (Inr v, c') \<and> sent c' = sent c @ pend sock) \<and>
    (\<exists>sock'. handle_peer lib on_op ops big' sock p = (Inr (Some sock'), p\<lparr>ip_app := m'\<rparr>) \<and> sent sock' = sent sock @ pend c)"
proof (rule conjI)
  let ?req = "js_serialize lib (fs_op_json op)" and ?resp = "js_serialize lib v"
  obtain c1 where c1: "send_message ops big ?req c = (Inr (), c1)" "pend c1 = pend c" "sent c1 = sent c @ lv big (bytes_of ?req)"
    by (rule send_message_at [OF assms(1)])
  have "pend c1 = lv big' (bytes_of ?resp) @ []" using c1(2) cli by simp
  from receive_message_at [OF assms(1) this resp(2), of big] obtain c2 where
    "receive_message ops big c1 = (Inr ?resp, c2)" "sent c2 = sent c1" by metis
  with c1 resp(1) show "\<exists>c'. client_send lib ops big op c = (Inr v, c') \<and> sent c' = sent c @ pend sock"
    by (simp add: client_send_def client_exchange_def peer)
  have "pend sock = lv big (bytes_of ?req) @ []" using peer by simp
  from receive_message_at [OF assms(1) this req(2), of big'] obtain s1 where
    s1: "receive_message ops big' sock = (Inr ?req, s1)" "sent s1 = sent sock" by metis
  obtain s2 where s2: "send_message ops big' ?resp s1 = (Inr (), s2)" "sent s2 = sent s1 @ lv big' (bytes_of ?resp)"
    by (rule send_message_at [OF assms(1)])
  from answer_reply [OF req(1) reply] s1 s2 show "\<exists>sock'. handle_peer lib on_op ops big' sock p = (Inr (Some sock'), p\<lparr>ip_app := m'\<rparr>) \<and>
      sent sock' = sent sock @ pend c"
    by (auto simp: handle_peer_def cli)
qed

text \<open>Log messages. In a turn with subscribers, exactly those that could take every queued message stay
  subscribed, a working socket has then received all of them in order, and the queue that was
  forwarded is empty while new messages go to the other one, whose contents are untouched.\<close>

theorem logcat_forwards:
  assumes "logcat_turn ops big k p = Inr p'" "ip_subs p \<noteq> []"
  shows "ip_subs p' = still_subscribed ops big (sn_queue (sn_second k) k) (ip_subs p) \<and>
    (\<exists>k'. ip_sink p' = Some k' \<and> sn_second k' = (\<not> sn_second k) \<and> sn_queue (sn_second k) k' = [] \<and>
      sn_queue (sn_second k') k' = sn_queue (\<not> sn_second k) k) \<and>
    (duplex_ok ops pend sent \<and> list_all2 (\<lambda>e line. log_line color e = Inr line) (sn_queue (sn_second k) k) lines \<and>
       (sock, color) \<in> set (ip_subs p) \<longrightarrow>
     (\<exists>sock'. (sock', color) \<in> set (ip_subs p') \<and> sent sock' = sent sock @ concat (map (\<lambda>line. lv big (bytes_of line)) lines)))"
proof (intro conjI impI)
  let ?es = "sn_queue (sn_second k) k"
  obtain idx subs' where f: "forward_all ops big ?es 0 (ip_subs p) = Inr (idx, subs')"
    and p': "ip_subs p' = fold erase_at (rev idx) subs'"
      "ip_sink p' = Some (set_queue (sn_second k) [] ((if ip_prev_empty p then k\<lparr>sn_on := True\<rparr> else k)\<lparr>sn_second := \<not> sn_second k\<rparr>))"
    using assms by (auto simp: logcat_turn_def sn_swap_def Let_def transform_Inr_iff sn_queue_def split: if_splits)
  from forward_all_erase [of ops big ?es "[]"] f p'(1)
  show subs: "ip_subs p' = still_subscribed ops big ?es (ip_subs p)" by simp
  show "\<exists>k'. ip_sink p' = Some k' \<and> sn_second k' = (\<not> sn_second k) \<and> sn_queue (sn_second k) k' = [] \<and>
      sn_queue (sn_second k') k' = sn_queue (\<not> sn_second k) k"
    using p'(2) by (auto simp: set_queue_def sn_queue_def)
  assume a: "duplex_ok ops pend sent \<and> list_all2 (\<lambda>e line. log_line color e = Inr line) ?es lines \<and> (sock, color) \<in> set (ip_subs p)"
  with forward_to_sent [of ops pend sent color ?es lines big sock] obtain sock' where
    s: "forward_to ops big color ?es sock = (Inr True, sock')" "sent sock' = sent sock @ concat (map (\<lambda>line. lv big (bytes_of line)) lines)"
    by blast
  with a show "\<exists>sock'. (sock', color) \<in> set (ip_subs p') \<and> sent sock' = sent sock @ concat (map (\<lambda>line. lv big (bytes_of line)) lines)"
    by (intro exI [of _ sock']) (force simp: subs still_subscribed_def)
qed

definition tiny_json :: json_lib where
  "tiny_json = \<lparr>
     js_parse = (\<lambda>s. if s = ''q'' then Inr (fs_op_json (SetTTL 5)) else Inr (response_json (''success'', JInt 3))),
     js_serialize = (\<lambda>v. if v = fs_op_json (SetTTL 5) then ''q'' else ''r''),
     js_not_found = ''not found'', js_mismatch = (\<lambda>_. ''mismatch''), js_errc = (\<lambda>_. ''error''),
     js_levels = [''trace'', ''debug'', ''info'', ''warning'', ''error'', ''critical'', ''off''], js_version = ''1.0''\<rparr>"

lemma list_ops_duplex: "duplex_ok list_ops fst snd"
  by (auto simp: duplex_ok_def list_ops_def list_read_def)

text \<open>A client that changes the time to live from three seconds to five.\<close>

theorem ipc_call_witness:
  "\<exists>c' sock'. client_send tiny_json list_ops True (SetTTL 5) (lv False (bytes_of ''r''), []) =
       (Inr (response_json (''success'', JInt 3)), c') \<and>
     handle_peer tiny_json (\<lambda>op ttl. case op of SetTTL n \<Rightarrow> (Inr (JInt (int ttl)), n) | _ \<Rightarrow> (Inl UB, ttl)) list_ops False
       (snd c', []) \<lparr>ip_running = True, ip_sink = None, ip_subs = [], ip_prev_empty = True, ip_app = 3\<rparr> =
       (Inr (Some sock'), \<lparr>ip_running = True, ip_sink = None, ip_subs = [], ip_prev_empty = True, ip_app = 5\<rparr>)"
proof -
  let ?on = "\<lambda>op ttl. case op of SetTTL n \<Rightarrow> (Inr (JInt (int ttl)), n) | _ \<Rightarrow> (Inl UB, ttl)"
  let ?p = "\<lparr>ip_running = True, ip_sink = None, ip_subs = [], ip_prev_empty = True, ip_app = 3 :: nat\<rparr>"
  let ?req = "js_serialize tiny_json (fs_op_json (SetTTL 5))" and ?v = "response_json (''success'', JInt 3)"
  have s: "?req = ''q''" "js_serialize tiny_json ?v = ''r''"
    by (simp_all add: tiny_json_def response_json_def fs_op_json_def)
  have p: "js_parse tiny_json ?req = Inr (fs_op_json (SetTTL 5))" "js_parse tiny_json (js_serialize tiny_json ?v) = Inr ?v"
    unfolding s by (simp_all add: tiny_json_def)
  have r: "reply_of tiny_json ?on (SetTTL 5) (ip_app ?p) = Inr (?v, 5)" by (simp add: reply_of_def op_error_def)
  have l: "length ?req \<le> max_msg_len" "length (js_serialize tiny_json ?v) \<le> max_msg_len"
    unfolding s by (simp_all add: max_msg_len_def)
  have s1: "fst (lv True (bytes_of ''q''), []) = lv True (bytes_of ?req)"
    "fst (lv False (bytes_of ''r''), []) = lv False (bytes_of (js_serialize tiny_json ?v))" unfolding s by simp_all
  from ipc_call [OF list_ops_duplex p(1) l(1) r p(2) l(2) s1] show ?thesis
    by (auto simp: prod_eq_iff)
qed

theorem logcat_forwards_witness:
  "\<exists>p' sock'. logcat_turn list_ops False \<lparr>sn_queues = ([\<lparr>lg_text = ''hi'', lg_start = 0, lg_end = 1, lg_level = 2\<rparr>], []),
       sn_second = False, sn_max = 1024, sn_on = True\<rparr>
     \<lparr>ip_running = True, ip_sink = None, ip_subs = [(([], []), False)], ip_prev_empty = False, ip_app = ()\<rparr> = Inr p' \<and>
     (sock', False) \<in> set (ip_subs p') \<and> snd sock' = lv False (bytes_of ''hi'')"
proof -
  let ?e = "\<lparr>lg_text = ''hi'', lg_start = 0, lg_end = 1, lg_level = 2\<rparr>"
  let ?k = "\<lparr>sn_queues = ([?e], []), sn_second = False, sn_max = 1024, sn_on = True\<rparr>"
  let ?p = "\<lparr>ip_running = True, ip_sink = None, ip_subs = [(([], []), False)], ip_prev_empty = False, ip_app = ()\<rparr>"
  have "\<exists>p'. logcat_turn list_ops False ?k ?p = Inr p'"
    by (simp add: logcat_turn_def sn_swap_def sn_queue_def log_line_def send_message_def write_lv_def list_ops_def)
  then obtain p' where p: "logcat_turn list_ops False ?k ?p = Inr p'" by blast
  have "duplex_ok list_ops fst snd \<and> list_all2 (\<lambda>e line. log_line False e = Inr line) (sn_queue (sn_second ?k) ?k) [''hi''] \<and>
    (([], []), False) \<in> set (ip_subs ?p)" by (simp add: list_ops_duplex log_line_def sn_queue_def)
  with logcat_forwards [OF p, of fst snd False "[''hi'']" "([], [])"] p show ?thesis by auto
qed

end
