(* ===== verification/Madbfs.thy ===== *)
theory Madbfs
  imports Callbacks Ipc
begin

text \<open>
  The rest of \<^verbatim>\<open>madbfs.cpp\<close>: the handlers of the control operations (\<^verbatim>\<open>Madbfs::IpcHandler\<close>), the choice of the
  connection strategy, and the two background coroutines, \<^verbatim>\<open>watchdog\<close> and \<^verbatim>\<open>reaper\<close>, as the turn they make
  when their timer fires.
\<close>

section \<open>Control operations\<close>

definition lowest_page_size :: nat where
  "lowest_page_size = 64 * 1024"

definition highest_page_size :: nat where
  "highest_page_size = 4 * 1024 * 1024"

definition lowest_max_pages :: nat where
  "lowest_max_pages = 128"

text \<open>\<^verbatim>\<open>std::bit_ceil\<close> is undefined when the result is not representable.\<close>

definition bit_ceil64 :: "nat \<Rightarrow> nat expect" where
  "bit_ceil64 n = (if n > 2 ^ 63 then Inl UB else Inr (bit_ceil n))"

definition mib_of :: "nat \<Rightarrow> nat \<Rightarrow> json" where
  "mib_of page_size pages = JInt (int (mul64 page_size pages div 1024 div 1024))"

definition seconds_json :: "int option \<Rightarrow> json" where
  "seconds_json t = JInt (case t of Some n \<Rightarrow> n | None \<Rightarrow> 0)"

definition old_new :: "json \<Rightarrow> json \<Rightarrow> json" where
  "old_new x y = JObj [(''old'', x), (''new'', y)]"

definition level_to_str :: "json_lib \<Rightarrow> nat \<Rightarrow> str" where
  "level_to_str lib level = js_levels lib ! level"

definition handle_info :: "json_lib \<Rightarrow> str \<Rightarrow> str \<Rightarrow> 'd madbfs \<Rightarrow> json" where
  "handle_info lib serial transport m =
     JObj [(''serial'', JStr serial), (''transport'', JStr transport), (''root'', JStr (m_path (mb_root m))),
       (''log_level'', JStr (level_to_str lib (mb_level m))), (''ttl'', seconds_json (f_ttl (mb_fs m))),
       (''timeout'', seconds_json (mb_timeout m)),
       (''cache'', case f_cache (mb_fs m) of
          Some c \<Rightarrow> JObj [(''page_size'', JInt (int (m_page_size c div 1024))),
            (''cache_size'', JObj [(''max'', mib_of (m_page_size c) (m_max_pages c)),
               (''current'', mib_of (m_page_size c) (length (m_lru c)))])]
        | None \<Rightarrow> JNull)]"

text \<open>The handlers that need the cache fail without it; what the cache returns is only waited for.\<close>

definition with_cache :: "(cache \<Rightarrow> 'd \<Rightarrow> json expect \<times> cache \<times> 'd) \<Rightarrow> (json, 'd) fs_op" where
  "with_cache f = on_cache f (fail_fs (Errc operation_not_supported))"

definition waited :: "unit expect \<Rightarrow> unit expect" where
  "waited r = (case r of Inl (Errc _) \<Rightarrow> Inr () | _ \<Rightarrow> r)"

definition handle_invalidate_cache :: "'d env \<Rightarrow> (json, 'd) fs_op" where
  "handle_invalidate_cache env = with_cache (\<lambda>c d.
     let size = mib_of (m_page_size c) (length (m_lru c)) in
     case invalidate_all env c d of (r, c, d) \<Rightarrow> (transform (waited r) (\<lambda>_. JObj [(''size'', size)]), c, d))"

definition handle_expire_stat :: "'d env \<Rightarrow> (json, 'd) fs_op" where
  "handle_expire_stat env = bind_fs (expires_all env) (\<lambda>n. return_fs (JObj [(''count'', JInt (int n))]))"

definition new_page_size :: "nat \<Rightarrow> nat expect" where
  "new_page_size kib =
     transform (bit_ceil64 (mul64 kib 1024)) (\<lambda>n. max lowest_page_size (min highest_page_size n))"

definition new_max_pages :: "nat \<Rightarrow> nat \<Rightarrow> nat expect" where
  "new_max_pages bytes page_size = transform (bit_ceil64 (bytes div page_size)) (\<lambda>n. max n lowest_max_pages)"

definition handle_set_page_size :: "'d env \<Rightarrow> nat \<Rightarrow> (json, 'd) fs_op" where
  "handle_set_page_size env kib = with_cache (\<lambda>c d.
     let old_size = m_page_size c; old_max = m_max_pages c in
     case new_page_size kib of Inl e \<Rightarrow> (Inl e, c, d) | Inr new_size \<Rightarrow>
     case new_max_pages (mul64 old_max old_size) new_size of Inl e \<Rightarrow> (Inl e, c, d) | Inr new_max \<Rightarrow>
     case set_page_size env new_size c d of (r, c, d) \<Rightarrow>
     case waited r of Inl e \<Rightarrow> (Inl e, c, d) | Inr _ \<Rightarrow>
     case set_max_pages env new_max c d of (r, c, d) \<Rightarrow>
     (transform (waited r) (\<lambda>_. JObj [
        (''page_size'', old_new (JInt (int (old_size div 1024))) (JInt (int (new_size div 1024)))),
        (''cache_size'', old_new (mib_of old_max old_size) (mib_of new_max new_size))]), c, d))"

definition handle_set_cache_size :: "'d env \<Rightarrow> nat \<Rightarrow> (json, 'd) fs_op" where
  "handle_set_cache_size env mib = with_cache (\<lambda>c d.
     let page = m_page_size c; old_max = m_max_pages c in
     case new_max_pages (mul64 (mul64 mib 1024) 1024) (max page 1) of Inl e \<Rightarrow> (Inl e, c, d) | Inr new_max \<Rightarrow>
     case set_max_pages env new_max c d of (r, c, d) \<Rightarrow>
     (transform (waited r) (\<lambda>_. JObj [(''cache_size'', old_new (mib_of old_max page) (mib_of new_max page))]), c, d))"

definition handle_set_ttl :: "'d env \<Rightarrow> nat \<Rightarrow> (json, 'd) fs_op" where
  "handle_set_ttl env sec =
     (let new_ttl = positive_seconds (int sec) in
      bind_fs (set_ttl env new_ttl) (\<lambda>old_ttl.
      return_fs (JObj [(''ttl'', old_new (seconds_json old_ttl) (seconds_json new_ttl))])))"

definition handle_set_timeout :: "nat \<Rightarrow> 'd madbfs \<Rightarrow> json expect \<times> 'd madbfs" where
  "handle_set_timeout sec m =
     (let new = positive_seconds (int sec) in
      (Inr (JObj [(''timeout'', old_new (seconds_json (mb_timeout m)) (seconds_json new))]), m\<lparr>mb_timeout := new\<rparr>))"

definition handle_set_log_level :: "json_lib \<Rightarrow> str \<Rightarrow> 'd madbfs \<Rightarrow> json expect \<times> 'd madbfs" where
  "handle_set_log_level lib lvl m =
     (let prev = mb_level m; new = (case level_from_str lib lvl of Some l \<Rightarrow> l | None \<Rightarrow> prev) in
      (Inr (JObj [(''log_level'', old_new (JStr (level_to_str lib prev)) (JStr (level_to_str lib new)))]), m\<lparr>mb_level := new\<rparr>))"

definition handle_unmount :: "'d madbfs \<Rightarrow> json expect \<times> 'd madbfs" where
  "handle_unmount m = (Inr JNull, m\<lparr>mb_exit := True\<rparr>)"

definition ipc_handler :: "json_lib \<Rightarrow> 'd env \<Rightarrow> str \<Rightarrow> str \<Rightarrow> ipc_fs_op \<Rightarrow> 'd madbfs \<Rightarrow> json expect \<times> 'd madbfs" where
  "ipc_handler lib env serial transport op m =
     (case op of
        Info \<Rightarrow> (Inr (handle_info lib serial transport m), m)
      | InvalidateCache \<Rightarrow> invoke_fs (handle_invalidate_cache env) m
      | ExpireStat \<Rightarrow> invoke_fs (handle_expire_stat env) m
      | SetPageSize kib \<Rightarrow> invoke_fs (handle_set_page_size env kib) m
      | SetCacheSize mib \<Rightarrow> invoke_fs (handle_set_cache_size env mib) m
      | SetTTL sec \<Rightarrow> invoke_fs (handle_set_ttl env sec) m
      | SetTimeout sec \<Rightarrow> handle_set_timeout sec m
      | SetLogLevel lvl \<Rightarrow> handle_set_log_level lib lvl m
      | Unmount \<Rightarrow> handle_unmount m)"

section \<open>Background coroutines\<close>

datatype arg_connection = AdbOnly | NoServer u16 | Server str u16

definition prepare_connection :: "arg_connection \<Rightarrow> strategy" where
  "prepare_connection c =
     (case c of
        AdbOnly \<Rightarrow> strategy.Adb
      | NoServer port \<Rightarrow> strategy.Proxy None port
      | Server abi port \<Rightarrow> strategy.Proxy (Some abi) port)"

text \<open>\<^verbatim>\<open>reconnect\<close> and \<^verbatim>\<open>optimize\<close> without anything in between.\<close>

definition reconnect :: "('t, 'd) factory \<Rightarrow> 't conn \<Rightarrow> 'd \<Rightarrow> unit expect \<times> 't conn \<times> 'd" where
  "reconnect fa c d =
     (case reconnect_start c of
        (Inl e, c) \<Rightarrow> (Inl e, c, d)
      | (Inr _, c) \<Rightarrow> (case create_transport fa (cn_strategy c) d of (t, d) \<Rightarrow> (Inr (), reconnect_finish t c, d)))"

definition optimize :: "('t, 'd) factory \<Rightarrow> 't conn \<Rightarrow> 'd \<Rightarrow> unit expect \<times> 't conn \<times> 'd" where
  "optimize fa c d =
     (case optimize_start fa c of
        (Inl e, c) \<Rightarrow> (Inl e, c, d)
      | (Inr _, c) \<Rightarrow>
          (case create_optimized_transport fa (cn_strategy c) d of
             (res, d) \<Rightarrow> (case optimize_finish fa res c of (r, c) \<Rightarrow> (r, c, d))))"

definition forget_fds :: "'d env \<Rightarrow> 'd fs \<Rightarrow> 'd fs" where
  "forget_fds env s =
     (case f_cache s of
        None \<Rightarrow> s
      | Some c \<Rightarrow> (case invalidate_fds env False c (f_dev s) of (c, d) \<Rightarrow> s\<lparr>f_cache := Some c, f_dev := d\<rparr>))"

text \<open>One turn; \<open>start\<close> is the effect of \<^verbatim>\<open>Transport::start\<close> outside the process. The ping carries the number \<open>num\<close>.\<close>

definition watchdog_turn :: "'d env \<Rightarrow> ('t, 'd) factory \<Rightarrow> ('t \<Rightarrow> 'd \<Rightarrow> 'd) \<Rightarrow> u64 \<Rightarrow> 't conn \<Rightarrow> 'd fs \<Rightarrow> 't conn \<times> 'd fs" where
  "watchdog_turn env fa start num c s =
     (case conn_ping env num (f_dev s) of (pong, d) \<Rightarrow>
        let s = s\<lparr>f_dev := d\<rparr>;
            renewed = (\<lambda>(r, c, d). let s = s\<lparr>f_dev := d\<rparr> in
              if is_ok r then (let s = forget_fds env s in (conn_start c, s\<lparr>f_dev := start (cn_transport c) (f_dev s)\<rparr>)) else (c, s))
        in if \<not> is_ok pong then renewed (reconnect fa c d)
           else if \<not> is_optimal fa c then renewed (optimize fa c d)
           else (c, s))"

definition reaper_turn :: "'d env \<Rightarrow> 'd fs \<Rightarrow> 'd fs" where
  "reaper_turn env s =
     (case f_cache s of
        None \<Rightarrow> s
      | Some c \<Rightarrow> (case clean_stale_fds env c (f_dev s) of (c, d) \<Rightarrow> s\<lparr>f_cache := Some c, f_dev := d\<rparr>))"

section \<open>Sizes\<close>

lemma bit_ceil_power: "\<exists>k\<le>63. bit_ceil n = 2 ^ k"
  using bit_ceil_from_power [of 63 1 n] by (simp add: bit_ceil_def)

lemma bit_ceil_bounds: "n \<le> 2 ^ 63 \<Longrightarrow> n \<le> bit_ceil n \<and> (1 < n \<longrightarrow> bit_ceil n < 2 * n)"
  using bit_ceil_from_bounds [of 1 n 63] by (simp add: bit_ceil_def)

lemma bit_ceil_of_power: "k \<le> 63 \<Longrightarrow> bit_ceil (2 ^ k) = 2 ^ k"
proof (cases "k = 0")
  case False
  assume "k \<le> 63"
  then have "(2 :: nat) ^ k \<le> 2 ^ 63" by (rule power_increasing) simp
  moreover have "(1 :: nat) < 2 ^ k" using False by (intro one_less_power) simp_all
  ultimately have b: "2 ^ k \<le> bit_ceil (2 ^ k)" "bit_ceil (2 ^ k) < 2 * 2 ^ k"
    using bit_ceil_bounds by blast+
  obtain j where j: "bit_ceil (2 ^ k) = 2 ^ j" using bit_ceil_power by blast
  with b have "2 ^ k \<le> (2 :: nat) ^ j" "(2 :: nat) ^ j < 2 ^ Suc k" by simp_all
  then have "k \<le> j" "j < Suc k" by (simp_all only: power_increasing_iff power_strict_increasing_iff one_less_numeral_iff semiring_norm)
  with j show ?thesis by simp
qed (simp add: bit_ceil_def bit_ceil_from_start)

lemma bit_ceil_zero: "bit_ceil 0 = 1"
  by (simp add: bit_ceil_def bit_ceil_from_start)

lemma max_power: "max ((2 :: nat) ^ a) (2 ^ b) = 2 ^ max a b"
  by (auto simp: max_def)

lemma min_power: "min ((2 :: nat) ^ a) (2 ^ b) = 2 ^ min a b"
  by (auto simp: min_def)

lemma sizes: "lowest_page_size = 2 ^ 16" "highest_page_size = 2 ^ 22" "lowest_max_pages = 2 ^ 7"
  by (simp_all add: lowest_page_size_def highest_page_size_def lowest_max_pages_def)

lemma new_page_size_at:
  assumes "kib < 2 ^ 32"
  obtains i where "new_page_size kib = Inr (2 ^ i)" "16 \<le> i" "i \<le> 22"
    "2 ^ i = max (64 * 1024) (min (4 * 1024 * 1024) (bit_ceil (kib * 1024)))"
proof -
  obtain k where k: "bit_ceil (kib * 1024) = 2 ^ k" using bit_ceil_power by blast
  have "kib * 1024 \<le> 2 ^ 63" "mul64 kib 1024 = kib * 1024" using assms by simp_all
  then have "new_page_size kib = Inr (max lowest_page_size (min highest_page_size (2 ^ k)))"
    by (simp add: new_page_size_def bit_ceil64_def k)
  then have "new_page_size kib = Inr (2 ^ max 16 (min 22 k))" by (simp only: sizes min_power max_power)
  moreover have "(2 :: nat) ^ max 16 (min 22 k) = max (64 * 1024) (min (4 * 1024 * 1024) (bit_ceil (kib * 1024)))"
    using sizes by (simp only: k min_power max_power lowest_page_size_def highest_page_size_def)
  ultimately show ?thesis by (intro that [of "max 16 (min 22 k)"]) simp_all
qed

lemma new_max_pages_at:
  assumes "bytes \<le> 2 ^ 52" "16 \<le> i" "i \<le> 22"
  obtains j where "new_max_pages bytes (2 ^ i) = Inr (2 ^ j)" "i + j \<le> 52" "7 \<le> j"
    "2 ^ j = max (bit_ceil (bytes div 2 ^ i)) 128" "bytes < 2 ^ j * 2 ^ i + 2 ^ i" "j = 7 \<or> 2 ^ j * 2 ^ i < 2 * bytes"
proof -
  let ?n = "bytes div 2 ^ i"
  have "bytes \<le> 2 ^ (52 - i) * 2 ^ i" using assms by (simp add: power_add [symmetric])
  then have n: "?n \<le> 2 ^ (52 - i)" by (metis div_le_mono nonzero_mult_div_cancel_right power_not_zero zero_neq_numeral)
  also have le: "(2 :: nat) ^ (52 - i) \<le> 2 ^ 63" by (rule power_increasing) simp_all
  finally have b: "?n \<le> bit_ceil ?n" "1 < ?n \<longrightarrow> bit_ceil ?n < 2 * ?n" "\<not> ?n > 2 ^ 63"
    using bit_ceil_bounds [of ?n] by simp_all
  obtain k where k: "bit_ceil ?n = 2 ^ k" using bit_ceil_power by blast
  have "k \<le> 52 - i"
  proof (cases "1 < ?n")
    case True
    with b(2) n k have "(2 :: nat) ^ k < 2 ^ Suc (52 - i)" by simp
    then have "k < Suc (52 - i)" by (rule power_less_imp_less_exp [rotated]) simp
    then show ?thesis by simp
  next
    case False
    then have "bit_ceil ?n = 1" by (auto simp: bit_ceil_def bit_ceil_from_start)
    with k show ?thesis by (cases k) simp_all
  qed
  then have s: "i + max k 7 \<le> 52" using assms(3) by simp
  have e: "new_max_pages bytes (2 ^ i) = Inr (2 ^ max k 7)" "(2 :: nat) ^ max k 7 = max (bit_ceil ?n) 128"
    using b(3) max_power [of k 7] by (simp_all add: new_max_pages_def bit_ceil64_def k lowest_max_pages_def)
  have "bytes < (?n + 1) * 2 ^ i" by (metis Suc_eq_plus1 dividend_less_div_times mult.commute zero_less_numeral zero_less_power mult_Suc add.commute)
  also have "\<dots> \<le> (2 ^ max k 7 + 1) * 2 ^ i" using b(1) e(2) by (intro mult_right_mono) simp_all
  finally have u: "bytes < 2 ^ max k 7 * 2 ^ i + 2 ^ i" by (simp add: algebra_simps)
  have "max k 7 = 7 \<or> 2 ^ max k 7 * 2 ^ i < 2 * bytes"
  proof (cases "k \<le> 7")
    case False
    then have m: "max k 7 = k" and "(1 :: nat) < 2 ^ k" by (simp, intro one_less_power, simp_all)
    then have "1 < ?n" using k by (metis bit_ceil_def bit_ceil_from_start leI less_irrefl)
    with b(2) k have "2 ^ k * 2 ^ i < 2 * ?n * 2 ^ i" by simp
    also have "\<dots> \<le> 2 * bytes" by (simp add: mult.assoc)
    finally show ?thesis using m by simp
  qed simp
  with that e s u show ?thesis by simp
qed

lemma flush_ids_result: "flush_ids env is c d = (r, c', d') \<Longrightarrow> r \<noteq> Unexpect e"
  by (induction env "is" c d rule: flush_ids.induct) (auto split: prod.splits if_splits)

lemma shutdown_result: "shutdown env c d = (r, c', d') \<Longrightarrow> waited r = Inr () \<Longrightarrow> r = Inr ()"
  by (auto simp: shutdown_def waited_def Let_def dest!: flush_ids_result split: prod.splits sum.splits fault.splits)

lemma set_page_size_at:
  assumes "set_page_size env n c d = (r, c', d')" "waited r = Inr ()" "bounded c" "0 < n" "n < 2 ^ 32"
  shows "bounded c' \<and> m_page_size c' = n \<and> m_max_pages c' = m_max_pages c \<and> m_lru c' = []"
proof -
  obtain r1 c1 d1 where s: "shutdown env c d = (r1, c1, d1)" by (metis prod_cases3)
  have "waited r1 = Inr ()" using assms(1,2) s by (cases r1) (simp_all add: set_page_size_def)
  then have r: "r1 = Inr ()" using shutdown_result [OF s] by blast
  then have "c' = c1\<lparr>m_page_size := n\<rparr>" using assms(1) s by (simp add: set_page_size_def)
  moreover have "keeps c c1" "m_lru c1 = []" using shutdown_cases [OF s assms(3)] r by simp_all
  ultimately show ?thesis using bounded_set(1) [OF s [unfolded r] assms(3)] assms(4-) by (simp add: keeps_def)
qed

lemma set_max_pages_at:
  assumes "set_max_pages env n c d = (r, c', d')" "waited r = Inr ()" "bounded c" "0 < n"
  shows "bounded c' \<and> m_page_size c' = m_page_size c \<and> m_max_pages c' = n \<and> m_lru c' = []"
proof -
  obtain r1 c1 d1 where s: "shutdown env c d = (r1, c1, d1)" by (metis prod_cases3)
  have "waited r1 = Inr ()" using assms(1,2) s by (cases r1) (simp_all add: set_max_pages_def)
  then have r: "r1 = Inr ()" using shutdown_result [OF s] by blast
  then have "c' = c1\<lparr>m_max_pages := n\<rparr>" using assms(1) s by (simp add: set_max_pages_def)
  moreover have "keeps c c1" "m_lru c1 = []" using shutdown_cases [OF s assms(3)] r by simp_all
  ultimately show ?thesis using bounded_set(2) [OF s [unfolded r] assms(3)] assms(4-) by (simp add: keeps_def)
qed

definition sized :: "cache \<Rightarrow> bool" where
  "sized c = (\<exists>i j. m_page_size c = 2 ^ i \<and> 16 \<le> i \<and> i \<le> 22 \<and> m_max_pages c = 2 ^ j \<and> i + j \<le> 52)"

definition capacity :: "cache \<Rightarrow> nat" where
  "capacity c = m_page_size c * m_max_pages c"

lemma with_cache_at:
  assumes "with_cache f s = (Inr v, s')" "f_cache s = Some c"
  obtains c' d' where "f c (f_dev s) = (Inr v, c', d')" "f_cache s' = Some c'"
  using assms by (auto simp: with_cache_def on_cache_def split: prod.splits)

lemma set_page_size_sizes:
  assumes "handle_set_page_size env kib s = (Inr v, s')" "f_cache s = Some c" "bounded c" "sized c" "kib < 2 ^ 32"
  shows "\<exists>c'. f_cache s' = Some c' \<and> bounded c' \<and> sized c' \<and> m_lru c' = [] \<and>
    m_page_size c' = max (64 * 1024) (min (4 * 1024 * 1024) (bit_ceil (kib * 1024))) \<and>
    capacity c' = max (capacity c) (128 * m_page_size c')"
proof -
  obtain i j where ij: "m_page_size c = 2 ^ i" "16 \<le> i" "i \<le> 22" "m_max_pages c = 2 ^ j" "i + j \<le> 52"
    using assms(4) by (auto simp: sized_def)
  obtain i' where i': "new_page_size kib = Inr (2 ^ i')" "16 \<le> i'" "i' \<le> 22"
    "2 ^ i' = max (64 * 1024) (min (4 * 1024 * 1024) (bit_ceil (kib * 1024)))" using new_page_size_at [OF assms(5)] by blast
  have cap: "m_max_pages c * m_page_size c = 2 ^ (i + j)" "(2 :: nat) ^ (i + j) \<le> 2 ^ 52"
    using ij by (simp add: power_add mult.commute) (rule power_increasing, use ij in simp_all)
  then have m: "mul64 (m_max_pages c) (m_page_size c) = 2 ^ (i + j)" by simp
  obtain j' where j': "new_max_pages (2 ^ (i + j)) (2 ^ i') = Inr (2 ^ j')" "i' + j' \<le> 52" "7 \<le> j'"
    "2 ^ j' = max (bit_ceil (2 ^ (i + j) div 2 ^ i')) 128"
    using new_max_pages_at [OF cap(2) i'(2,3)] by metis
  have total: "2 ^ i' * 2 ^ j' = max (2 ^ (i + j)) (128 * (2 :: nat) ^ i')"
  proof (cases "i' \<le> i + j")
    case True
    then have "bit_ceil (2 ^ (i + j) div 2 ^ i') = 2 ^ (i + j - i')"
      using bit_ceil_of_power [of "i + j - i'"] ij(5) by (simp add: power_diff)
    with j'(4) True have "2 ^ i' * 2 ^ j' = max (2 ^ i' * 2 ^ (i + j - i')) (2 ^ i' * (128 :: nat))"
      by (simp add: nat_mult_max_right)
    with True show ?thesis by (simp add: power_add [symmetric] mult.commute)
  next
    case False
    then have "(2 :: nat) ^ (i + j) < 2 ^ i'" by (intro power_strict_increasing) simp_all
    with j'(4) have "(2 :: nat) ^ j' = 128" "(2 :: nat) ^ (i + j) \<le> 2 ^ i' * 128" by (simp_all add: bit_ceil_zero del: power_strict_increasing_iff)
    then show ?thesis by (simp add: mult.commute)
  qed
  obtain c1 d1 r1 where s1: "set_page_size env (2 ^ i') c (f_dev s) = (r1, c1, d1)" by (metis prod_cases3)
  obtain c2 d2 r2 where s2: "set_max_pages env (2 ^ j') c1 d1 = (r2, c2, d2)" by (metis prod_cases3)
  have w: "waited r1 = Inr () \<and> waited r2 = Inr () \<and> f_cache s' = Some c2"
    using assms(1,2) by (auto simp: handle_set_page_size_def Let_def i'(1) m j'(1) s1 s2 transform_Inr_iff
        elim!: with_cache_at split: sum.splits)
  have "(2 :: nat) ^ i' \<le> 2 ^ 22" using i'(3) by (intro power_increasing) simp_all
  then have c1: "bounded c1 \<and> m_page_size c1 = 2 ^ i'" using set_page_size_at [OF s1 _ assms(3)] w by simp
  then have c2: "bounded c2 \<and> m_page_size c2 = 2 ^ i' \<and> m_max_pages c2 = 2 ^ j' \<and> m_lru c2 = []"
    using set_max_pages_at [OF s2] w by simp
  then have "sized c2" using i'(2,3) j'(2) by (auto simp: sized_def)
  with c2 w total i'(4) cap(1) show ?thesis
    by (intro exI [of _ c2]) (simp add: capacity_def mult.commute)
qed

lemma set_cache_size_sizes:
  assumes "handle_set_cache_size env mib s = (Inr v, s')" "f_cache s = Some c" "bounded c" "sized c" "mib < 2 ^ 32"
  shows "\<exists>c'. f_cache s' = Some c' \<and> bounded c' \<and> sized c' \<and> m_lru c' = [] \<and> m_page_size c' = m_page_size c \<and>
    mib * 1024 * 1024 < capacity c' + m_page_size c \<and> 128 \<le> m_max_pages c' \<and>
    (m_max_pages c' = 128 \<or> capacity c' < 2 * (mib * 1024 * 1024))"
proof -
  obtain i j where ij: "m_page_size c = 2 ^ i" "16 \<le> i" "i \<le> 22" using assms(4) by (auto simp: sized_def)
  have b: "mul64 (mul64 mib 1024) 1024 = mib * 1024 * 1024" "mib * 1024 * 1024 \<le> 2 ^ 52" using assms(5) by simp_all
  obtain j' where j': "new_max_pages (mib * 1024 * 1024) (2 ^ i) = Inr (2 ^ j')" "i + j' \<le> 52" "7 \<le> j'"
    "mib * 1024 * 1024 < 2 ^ j' * 2 ^ i + 2 ^ i" "j' = 7 \<or> 2 ^ j' * 2 ^ i < 2 * (mib * 1024 * 1024)"
    using new_max_pages_at [OF b(2) ij(2,3)] by metis
  obtain c1 d1 r1 where s1: "set_max_pages env (2 ^ j') c (f_dev s) = (r1, c1, d1)" by (metis prod_cases3)
  have p: "max (m_page_size c) 1 = 2 ^ i" unfolding ij(1) by (rule max_absorb1) (rule one_le_power, simp)
  have j1: "new_max_pages (1048576 * mib) (2 ^ i) = Inr (2 ^ j')" using j'(1) by (simp add: mult.commute)
  have w: "waited r1 = Inr () \<and> f_cache s' = Some c1"
    using assms(1,2) by (auto simp: handle_set_cache_size_def Let_def b(1) p j1 s1 transform_Inr_iff
        simp del: One_nat_def elim!: with_cache_at)
  then have c1: "bounded c1 \<and> m_page_size c1 = 2 ^ i \<and> m_max_pages c1 = 2 ^ j' \<and> m_lru c1 = []"
    using set_max_pages_at [OF s1 _ assms(3)] ij(1) by simp
  have "(2 :: nat) ^ 7 \<le> 2 ^ j'" using j'(3) by (intro power_increasing) simp_all
  with c1 w j' ij show ?thesis by (intro exI [of _ c1]) (auto simp: sized_def capacity_def mult.commute)
qed

section \<open>What a mounted file system does\<close>

text \<open>The caching options of \<^verbatim>\<open>args.cpp\<close>: sizes as powers of two within limits, in MiB and KiB, or the exit status.\<close>

definition caching_option :: "int \<Rightarrow> int \<Rightarrow> bool \<Rightarrow> nat + (nat \<times> nat) option" where
  "caching_option cache_size page_size no_cache =
     (if cache_size \<le> 0 \<or> page_size \<le> 0 then Inl 1
      else Inr (if no_cache then None
        else Some (max (bit_ceil (nat cache_size)) 128, max 64 (min 4096 (bit_ceil (nat page_size))))))"

text \<open>
  The whole program. The constructor leaves \<^verbatim>\<open>m_connection.start()\<close> to the executor; callbacks, control operations
  and turns of the background coroutines happen until the destructor, after which nothing runs.
\<close>

datatype mb_phase = Starting | Mounted | Destroyed

inductive mb_step :: "json_lib \<Rightarrow> 'd env \<Rightarrow> ('t, 'd) factory \<Rightarrow> ('t \<Rightarrow> 'd \<Rightarrow> 'd) \<Rightarrow>
    mb_phase \<times> 't conn \<times> 'd madbfs \<Rightarrow> mb_phase \<times> 't conn \<times> 'd madbfs \<Rightarrow> bool" for lib env fa start where
  started: "mb_step lib env fa start (Starting, c, m)
     (Mounted, conn_start c, m\<lparr>mb_fs := (mb_fs m)\<lparr>f_dev := start (cn_transport c) (f_dev (mb_fs m))\<rparr>\<rparr>)"
| callback: "ph \<noteq> Destroyed \<Longrightarrow> cb_step env m m' \<Longrightarrow> mb_step lib env fa start (ph, c, m) (ph, c, m')"
| control: "ph \<noteq> Destroyed \<Longrightarrow> ipc_handler lib env serial (fa_name fa (cn_transport c)) op m = (r, m') \<Longrightarrow> returned r \<Longrightarrow>
     mb_step lib env fa start (ph, c, m) (ph, c, m')"
| watchdog: "ph \<noteq> Destroyed \<Longrightarrow> watchdog_turn env fa start num c (mb_fs m) = (c', s') \<Longrightarrow>
     mb_step lib env fa start (ph, c, m) (ph, c', m\<lparr>mb_fs := s'\<rparr>)"
| reaper: "ph \<noteq> Destroyed \<Longrightarrow> mb_step lib env fa start (ph, c, m) (ph, c, m\<lparr>mb_fs := reaper_turn env (mb_fs m)\<rparr>)"
| destroy: "ph \<noteq> Destroyed \<Longrightarrow> cb_destroy env c m = (r'', c', m') \<Longrightarrow> returned r'' \<Longrightarrow>
     mb_step lib env fa start (ph, c, m) (Destroyed, c', m')"

lemma forget_fds_tree [simp]: "f_tree (forget_fds env s) = f_tree s"
  by (simp add: forget_fds_def split: option.splits prod.splits)

lemma watchdog_tree: "watchdog_turn env fa start num c s = (c', s') \<Longrightarrow> f_tree s' = f_tree s"
  by (auto simp: watchdog_turn_def Let_def split: prod.splits if_splits)

lemma reaper_tree [simp]: "f_tree (reaper_turn env s) = f_tree s"
  by (simp add: reaper_turn_def split: option.splits prod.splits)

lemma with_cache_tree: "f_tree (snd (with_cache f s)) = f_tree s"
  by (simp add: with_cache_def on_cache_def fail_fs_def split: option.splits prod.splits)

lemma keeps_with_cache: "keeps_tree (with_cache f)"
  unfolding with_cache_def by (intro keeps_tree_intros)

lemma keeps_handlers:
  "keeps_tree (handle_invalidate_cache env)" "keeps_tree (handle_set_page_size env n)" "keeps_tree (handle_set_cache_size env n)"
  "keeps_tree (handle_expire_stat env)" "keeps_tree (handle_set_ttl env n)"
  unfolding handle_invalidate_cache_def handle_set_page_size_def handle_set_cache_size_def handle_expire_stat_def
    handle_set_ttl_def Let_def
  by (intro keeps_with_cache keeps_tree_intros fs_keeps)+

lemma keeps_invoke: "keeps_tree f \<Longrightarrow> invoke_fs f m = (r, m') \<Longrightarrow> returned r \<Longrightarrow> tree_inv (f_tree (mb_fs m)) \<Longrightarrow>
    tree_inv (f_tree (mb_fs m')) \<and> mb_root m' = mb_root m \<and> mb_mountpoint m' = mb_mountpoint m"
  by (auto simp: invoke_fs_def dest: keeps_step split: prod.splits)

definition mounted :: "path \<Rightarrow> str \<Rightarrow> 'd madbfs \<Rightarrow> bool" where
  "mounted root mount m = (tree_inv (f_tree (mb_fs m)) \<and> mb_root m = root \<and> mb_mountpoint m = mount)"

lemma mounted_control:
  assumes "ipc_handler lib env serial transport op m = (r, m')" "returned r" "mounted root mount m"
  shows "mounted root mount m'"
  using assms keeps_invoke [OF keeps_handlers(1), of env m r m'] keeps_invoke [OF keeps_handlers(2), of env _ m r m']
    keeps_invoke [OF keeps_handlers(3), of env _ m r m'] keeps_invoke [OF keeps_handlers(4), of env m r m']
    keeps_invoke [OF keeps_handlers(5), of env _ m r m']
  by (cases op) (auto simp: ipc_handler_def mounted_def handle_set_timeout_def handle_set_log_level_def handle_unmount_def Let_def)

lemma mounted_runs:
  assumes "runs_op env m m'" "mounted root mount m"
  shows "mounted root mount m'"
proof -
  obtain s where m': "m' = m\<lparr>mb_fs := s\<rparr>" and s: "s = mb_fs m \<or> fs_step env (mb_fs m) s"
    using assms(1) unfolding runs_op_def by blast
  from s have "tree_inv (f_tree s)" using assms(2) fs_step_inv by (auto simp: mounted_def)
  with assms(2) m' show ?thesis by (simp add: mounted_def)
qed

lemma mounted_callback: "cb_step env m m' \<Longrightarrow> good_path root \<Longrightarrow> mounted root mount m \<Longrightarrow> mounted root mount m'"
  using cb_step_runs mounted_runs by (metis mounted_def)

text \<open>Run without anything in between, \<^verbatim>\<open>reconnect\<close> is refused or ends with a new, stopped transport; \<^verbatim>\<open>optimize\<close>, when it
  fails, changes nothing.\<close>

lemma reconnect_cases:
  assumes "reconnect fa c d = (r, c', d')"
  shows "if cn_reconnection c then r = Unexpect operation_in_progress \<and> c' = c
    else r = Inr () \<and> cn_strategy c' = cn_strategy c \<and> \<not> cn_reconnection c' \<and> \<not> cn_started c' \<and>
      (cn_transport c', d') = create_transport fa (cn_strategy c) d"
  using assms by (auto simp: reconnect_def reconnect_start_def reconnect_finish_def conn_cancel_def split: prod.splits if_splits)

lemma optimize_cases:
  assumes "optimize fa c d = (r, c', d')"
  shows "(\<not> is_ok r \<longrightarrow> c' = c) \<and> cn_strategy c' = cn_strategy c \<and> (\<not> cn_reconnection c \<longrightarrow> \<not> cn_reconnection c')"
  using assms by (auto simp: optimize_def optimize_start_def optimize_finish_def conn_cancel_def Let_def split: prod.splits if_splits sum.splits)

text \<open>A turn of the watchdog leaves the connection alone, reconnects or optimizes.\<close>

lemma watchdog_cases:
  assumes "watchdog_turn env fa start num c s = (c', s')" "conn_ping env num (f_dev s) = (pong, d)"
  obtains (idle) "is_ok pong" "is_optimal fa c" "c' = c" "s' = s\<lparr>f_dev := d\<rparr>"
  | (failed) r d1 where "reconnect fa c d = (r, c', d1) \<or> is_ok pong \<and> optimize fa c d = (r, c', d1)" "\<not> is_ok r" "s' = s\<lparr>f_dev := d1\<rparr>"
  | (reconnected) c1 d1 where "\<not> is_ok pong" "reconnect fa c d = (Inr (), c1, d1)" "c' = conn_start c1"
      "s' = (forget_fds env (s\<lparr>f_dev := d1\<rparr>))\<lparr>f_dev := start (cn_transport c1) (f_dev (forget_fds env (s\<lparr>f_dev := d1\<rparr>)))\<rparr>"
  | (optimized) c1 d1 where "is_ok pong" "optimize fa c d = (Inr (), c1, d1)" "c' = conn_start c1"
      "s' = (forget_fds env (s\<lparr>f_dev := d1\<rparr>))\<lparr>f_dev := start (cn_transport c1) (f_dev (forget_fds env (s\<lparr>f_dev := d1\<rparr>)))\<rparr>"
proof -
  obtain r1 c1 d1 where r: "reconnect fa c d = (r1, c1, d1)" by (metis prod_cases3)
  obtain r2 c2 d2 where o: "optimize fa c d = (r2, c2, d2)" by (metis prod_cases3)
  have ok: "is_ok x \<longleftrightarrow> x = Inr ()" for x :: "unit expect" by (cases x) simp_all
  show ?thesis
  proof (cases "is_ok pong")
    case True
    with assms o idle failed [of r2 d2] optimized [of c2 d2] show ?thesis
      by (auto simp: watchdog_turn_def Let_def ok split: if_splits)
  next
    case False
    with assms r failed [of r1 d1] reconnected [of c1 d1] show ?thesis
      by (auto simp: watchdog_turn_def Let_def ok split: if_splits)
  qed
qed

lemma conn_start_sel [simp]:
  "cn_started (conn_start c)" "cn_transport (conn_start c) = cn_transport c" "cn_strategy (conn_start c) = cn_strategy c"
  "cn_reconnection (conn_start c) = cn_reconnection c"
  by (simp_all add: conn_start_def)

definition between_turns :: "strategy \<Rightarrow> mb_phase \<Rightarrow> 't conn \<Rightarrow> bool" where
  "between_turns strat ph c = (cn_strategy c = strat \<and> \<not> cn_reconnection c \<and>
     (ph = Mounted \<longrightarrow> cn_started c) \<and> (ph = Destroyed \<longrightarrow> \<not> cn_started c))"

lemma watchdog_conn:
  assumes "watchdog_turn env fa start num c s = (c', s')" "between_turns strat ph c" "ph \<noteq> Destroyed"
  shows "between_turns strat ph c'"
proof -
  obtain pong d where "conn_ping env num (f_dev s) = (pong, d)" by fastforce
  with assms(1) show ?thesis
  proof (cases rule: watchdog_cases)
    case (failed r d1)
    then have "c' = c" using reconnect_cases [of fa c d r c' d1] optimize_cases [of fa c d r c' d1] by (auto split: if_splits)
    with assms(2) show ?thesis by simp
  next
    case (reconnected c1 d1)
    with reconnect_cases [OF reconnected(2)] assms(2,3) show ?thesis by (auto simp: between_turns_def)
  next
    case (optimized c1 d1)
    with optimize_cases [OF optimized(2)] assms(2,3) show ?thesis by (auto simp: between_turns_def)
  qed (use assms(2) in simp)
qed

lemma mounted_same_tree: "mounted root mount m \<Longrightarrow> f_tree s' = f_tree (mb_fs m) \<Longrightarrow> mounted root mount (m\<lparr>mb_fs := s'\<rparr>)"
  by (simp add: mounted_def)

definition mb_inv :: "strategy \<Rightarrow> path \<Rightarrow> str \<Rightarrow> mb_phase \<times> 't conn \<times> 'd madbfs \<Rightarrow> bool" where
  "mb_inv strat root mount x = (case x of (ph, c, m) \<Rightarrow> good_path root \<and> mounted root mount m \<and> between_turns strat ph c)"

lemma mb_step_inv: "mb_step lib env fa start x x' \<Longrightarrow> mb_inv strat root mount x \<Longrightarrow> mb_inv strat root mount x'"
proof (induction rule: mb_step.induct)
  case (started c m)
  then show ?case by (auto simp: mb_inv_def between_turns_def intro: mounted_same_tree)
next
  case (destroy ph c m r'' c' m')
  then show ?case
    using cb_destroy_runs [OF destroy(2,3)] by (auto simp: mb_inv_def between_turns_def conn_cancel_def intro: mounted_runs)
qed (auto simp: mb_inv_def intro: mounted_callback mounted_control watchdog_conn watchdog_tree mounted_same_tree)

interpretation mount_runs: step_invariant "mb_step lib env fa start" "mb_inv strat root mount"
  by unfold_locales (rule mb_step_inv)

section \<open>Properties\<close>

lemma mk_madbfs_mounted:
  assumes "mk_madbfs env caching root mount ttl timeout level d = (r, m)" "returned r"
  shows "mounted root mount m"
proof -
  obtain r0 fs where i: "initialize_root env (mk_fs caching ttl d) = (r0, fs)" by fastforce
  with assms have "returned r0" by (auto simp: mk_madbfs_def returned_def split: sum.splits fault.splits)
  with keeps_step [OF fs_keeps_initialize_root i] init_tree_inv have "tree_inv (f_tree fs)" by (simp add: mk_fs_def)
  with assms(1) i show ?thesis by (auto simp: mk_madbfs_def mounted_def)
qed

lemma cb_init_mounted:
  assumes "cb_init env want args d = Inr (w, m)"
  shows "mounted (po_root args) (po_mount args) m"
proof -
  obtain caching where c: "(case po_caching args of None \<Rightarrow> Inr None | Some c \<Rightarrow> transform (caching_of c) Some) = Inr caching"
    using assms by (auto simp: cb_init_def and_then_Inr_iff)
  obtain r m1 where r: "mk_madbfs env caching (po_root args) (po_mount args) (positive_seconds (po_ttl args))
      (positive_seconds (po_timeout args)) (po_level args) d = (r, m1)" by fastforce
  with assms c have "returned r" "m1 = m" by (auto simp: cb_init_def transform_Inr_iff returned_def)
  with mk_madbfs_mounted [OF r] show ?thesis by simp
qed

text \<open>C6: a mounted file system. Whatever callbacks the kernel makes, whatever control operations clients send,
  and whenever the watchdog and the reaper take their turns, the nodes form a tree, the root and the mount
  point are those of the command line, the strategy of the connection stays, and no turn leaves a
  reconnection pending. From the moment the start that the constructor spawns has run until the
  destruction, the connection is started, on whichever transport it then has; after the destruction it is not.\<close>

theorem mounted_safe:
  assumes "cb_init env want args d = Inr (w, m0)" "good_path (po_root args)"
    and "(mb_step lib env fa start)\<^sup>*\<^sup>* (Starting, conn_init strat t, m0) (ph, c, m)"
  shows "tree_inv (f_tree (mb_fs m)) \<and> mb_root m = po_root args \<and> mb_mountpoint m = po_mount args \<and>
    cn_strategy c = strat \<and> \<not> cn_reconnection c \<and> (ph = Mounted \<longrightarrow> cn_started c) \<and> (ph = Destroyed \<longrightarrow> \<not> cn_started c)"
proof -
  have "mb_inv strat (po_root args) (po_mount args) (Starting, conn_init strat t, m0)"
    using cb_init_mounted [OF assms(1)] assms(2) by (simp add: mb_inv_def between_turns_def conn_init_def)
  from mount_runs.reach_inv [OF assms(3) this] show ?thesis by (simp add: mb_inv_def between_turns_def mounted_def)
qed

lemma expire_cache: "f_cache (snd (expire_nodes env t s)) = f_cache s"
  by (simp add: expire_nodes_def bind_fs_def from_tree_def on_tree_def split: prod.splits sum.splits)

lemma expire_stat_cache: "handle_expire_stat env s = (Inr v, s') \<Longrightarrow> f_cache s' = f_cache s"
  using expire_cache [of env "Some 0" s] by (auto simp: handle_expire_stat_def expires_all_def bind_fs_def return_fs_def split: prod.splits sum.splits)

lemma set_ttl_cache: "handle_set_ttl env n s = (Inr v, s') \<Longrightarrow> f_cache s' = f_cache s"
  using expire_cache [of env "positive_seconds (int n)" "s\<lparr>f_ttl := positive_seconds (int n)\<rparr>"]
  by (auto simp: handle_set_ttl_def set_ttl_def Let_def then_fs_def bind_fs_def return_fs_def split: prod.splits sum.splits if_splits)

lemma invalidate_sizes:
  assumes "handle_invalidate_cache env s = (Inr v, s')" "f_cache s = Some c" "bounded c"
  shows "\<exists>c'. f_cache s' = Some c' \<and> keeps c c'"
proof -
  obtain r c' d' where s: "shutdown env c (f_dev s) = (r, c', d')" by (metis prod_cases3)
  with assms(1,2) have "f_cache s' = Some c'"
    by (auto simp: handle_invalidate_cache_def invalidate_all_def Let_def elim!: with_cache_at)
  with shutdown_cases(1) [OF s assms(3)] show ?thesis by blast
qed

text \<open>C8: cache settings. A control operation that succeeds leaves a page size that is a power of two from 64 KiB to
  4 MiB and a consistent cache. A change of the page size keeps the capacity unless 128 pages
  need more. A change of the cache size leaves at least 128 pages and a capacity that may fall short of the request by
  less than a page; unless it is the 128 pages, it is less than twice the request. The other operations do not
  touch the sizes. No computation overflows.\<close>

theorem cache_settings:
  assumes "ipc_handler lib env serial transport op m = (Inr v, m')" "op_error lib op = None"
    "f_cache (mb_fs m) = Some c" "bounded c" "sized c"
  shows "\<exists>c'. f_cache (mb_fs m') = Some c' \<and> bounded c' \<and> sized c' \<and>
    (case op of
       SetPageSize kib \<Rightarrow> m_page_size c' = max (64 * 1024) (min (4 * 1024 * 1024) (bit_ceil (kib * 1024))) \<and>
         capacity c' = max (capacity c) (128 * m_page_size c')
     | SetCacheSize mib \<Rightarrow> m_page_size c' = m_page_size c \<and> mib * 1024 * 1024 < capacity c' + m_page_size c \<and>
         128 \<le> m_max_pages c' \<and> (m_max_pages c' = 128 \<or> capacity c' < 2 * (mib * 1024 * 1024))
     | _ \<Rightarrow> m_page_size c' = m_page_size c \<and> m_max_pages c' = m_max_pages c)"
proof (cases op)
  case (SetPageSize kib)
  with assms set_page_size_sizes [of env kib "mb_fs m" v "mb_fs m'" c] show ?thesis
    by (auto simp: ipc_handler_def invoke_fs_def op_error_def split: prod.splits if_splits)
next
  case (SetCacheSize mib)
  with assms set_cache_size_sizes [of env mib "mb_fs m" v "mb_fs m'" c] show ?thesis
    by (auto simp: ipc_handler_def invoke_fs_def op_error_def split: prod.splits if_splits)
next
  case InvalidateCache
  with assms invalidate_sizes [of env "mb_fs m" v "mb_fs m'" c] show ?thesis
    by (auto simp: ipc_handler_def invoke_fs_def keeps_def sized_def split: prod.splits)
qed (use assms in \<open>auto simp: ipc_handler_def invoke_fs_def handle_set_timeout_def handle_set_log_level_def handle_unmount_def Let_def
    dest: expire_stat_cache set_ttl_cache split: prod.splits\<close>)

text \<open>C9: replaced transports. A turn of the watchdog that changes the connection leaves it started, and no entry of the
  cache keeps a descriptor of the old transport; the cached pages stay. After a failed ping a connection that
  is not already being renewed has the transport its strategy yields, which was started last, and is started.\<close>

theorem watchdog_renews:
  assumes "watchdog_turn env fa start num c s = (c', s')" "conn_ping env num (f_dev s) = (pong, d)"
  shows "(c' = c \<or> cn_started c' \<and> (\<forall>k k' i e. f_cache s = Some k \<and> f_cache s' = Some k' \<longrightarrow> m_lru k' = m_lru k \<and>
      ((i, e) \<in> set (m_table k') \<longrightarrow> e_read_fd e = None \<and> e_write_fd e = None))) \<and>
    (\<not> is_ok pong \<and> \<not> cn_reconnection c \<longrightarrow>
      cn_started c' \<and> \<not> cn_reconnection c' \<and> cn_transport c' = fst (create_transport fa (cn_strategy c) d) \<and>
      f_dev s' = start (cn_transport c') (snd (create_transport fa (cn_strategy c) d)))"
proof -
  have dev: "f_dev (forget_fds env s0) = f_dev s0" for s0
    by (auto simp: forget_fds_def invalidate_fds_def Let_def split: option.splits)
  have forgot: "m_lru k' = m_lru k \<and> ((i, e) \<in> set (m_table k') \<longrightarrow> e_read_fd e = None \<and> e_write_fd e = None)"
    if "f_cache s = Some k" "f_cache s' = Some k'" "s' = forget_fds env (s\<lparr>f_dev := d1\<rparr>)\<lparr>f_dev := d2\<rparr>" for k k' i e d1 d2
    using that by (auto simp: forget_fds_def invalidate_fds_def Let_def)
  from assms show ?thesis
  proof (cases rule: watchdog_cases)
    case (failed r d1)
    then show ?thesis using reconnect_cases [of fa c d r c' d1] optimize_cases [of fa c d r c' d1] by (auto split: if_splits)
  next
    case (reconnected c1 d1)
    have "\<not> cn_reconnection c" using reconnect_cases [OF reconnected(2)] by (auto split: if_splits)
    with reconnect_cases [OF reconnected(2)] have c1: "\<not> cn_reconnection c1" "create_transport fa (cn_strategy c) d = (cn_transport c1, d1)"
      by simp_all
    then have "cn_started c' \<and> \<not> cn_reconnection c' \<and> cn_transport c' = fst (create_transport fa (cn_strategy c) d) \<and>
        f_dev s' = start (cn_transport c') (snd (create_transport fa (cn_strategy c) d))"
      using reconnected(3,4) by (simp add: dev)
    then show ?thesis using forgot [OF _ _ reconnected(4)] by blast
  next
    case (optimized c1 d1)
    then have "cn_started c'" by simp
    with optimized(1) show ?thesis using forgot [OF _ _ optimized(4)] by blast
  qed simp
qed

section \<open>Concrete runs\<close>

text \<open>The sizes of the command line are within the limits, though 128 MiB of 4 MiB pages are fewer than 128 pages.\<close>

lemma option_sized:
  assumes "caching_option cache_size page_size False = Inr (Some x)" "cache_size < 2 ^ 31"
  shows "\<exists>ps mx. caching_of x = Inr (ps, mx) \<and> sized (mk_cache ps mx) \<and> bounded (mk_cache ps mx)"
proof -
  obtain a b where ab: "bit_ceil (nat cache_size) = 2 ^ a" "bit_ceil (nat page_size) = 2 ^ b" using bit_ceil_power by metis
  have "nat cache_size \<le> 2 ^ 31" using assms(2) by simp
  from bit_ceil_small(2) [OF this] ab have "(2 :: nat) ^ a < 2 ^ 32" by simp
  then have a: "a < 32" by (rule power_less_imp_less_exp [rotated]) simp
  let ?i = "max 6 (min 12 b)" and ?j = "max a 7"
  have sz: "max (64 :: nat) (min 4096 (2 ^ b)) = 2 ^ ?i" "max ((2 :: nat) ^ a) 128 = 2 ^ ?j"
    using max_power [of 6 "min 12 b"] min_power [of 12 b] max_power [of a 7] by simp_all
  have x: "x = (2 ^ ?j, 2 ^ ?i)" using assms(1) by (auto simp: caching_option_def ab sz split: if_splits)
  have p: "(2 :: nat) ^ ?i * 1024 = 2 ^ (?i + 10)" "(2 :: nat) ^ ?j * 1024 = 2 ^ (?j + 10)" "(2 :: nat) ^ (?j + 10) * 1024 = 2 ^ (?j + 20)"
    by (simp_all add: power_add)
  have l: "(2 :: nat) ^ (?i + 10) \<le> 2 ^ 22" "(2 :: nat) ^ (?j + 10) \<le> 2 ^ 42" "(2 :: nat) ^ (?j + 20) \<le> 2 ^ 52"
    using a by (intro power_increasing; simp)+
  have "mul64 (2 ^ ?i) 1024 = 2 ^ (?i + 10)" "mul64 (mul64 (2 ^ ?j) 1024) 1024 = 2 ^ (?j + 20)"
    using p l by simp_all
  moreover have "(2 :: nat) ^ (?j + 20) div 2 ^ (?i + 10) = 2 ^ (?j + 20 - (?i + 10))"
    by (rule power_diff [symmetric]) simp_all
  ultimately have c: "caching_of x = Inr (2 ^ (?i + 10), 2 ^ (?j + 20 - (?i + 10)))"
    by (simp only: caching_of_def x Let_def prod.case) simp
  have "sized (mk_cache (2 ^ (?i + 10)) (2 ^ (?j + 20 - (?i + 10))))"
    unfolding sized_def mk_cache_def using bit_ceil_of_power [of "?i + 10"] a
    by (intro exI [of _ "?i + 10"] exI [of _ "?j + 20 - (?i + 10)"]) simp
  moreover have "bounded (mk_cache (2 ^ (?i + 10)) (2 ^ (?j + 20 - (?i + 10))))"
    using l(1) by (intro bounded_mk_cache) simp_all
  ultimately show ?thesis using c by blast
qed

definition small_pages :: cache where
  "small_pages = mk_cache (2 ^ 16) (2 ^ 7)"

definition small_mount :: "unit madbfs" where
  "small_mount = \<lparr>mb_fs = mk_fs (Some (2 ^ 16, 2 ^ 7)) None (), mb_root = root_path, mb_mountpoint = ''/mnt'',
     mb_timeout = Some 10, mb_level = 0, mb_exit = False\<rparr>"

lemma small_cache: "f_cache (mb_fs small_mount) = Some small_pages"
  "m_page_size small_pages = 65536" "m_max_pages small_pages = 128" "m_table small_pages = []"
  using bit_ceil_of_power [of 16] by (simp_all add: small_pages_def small_mount_def mk_fs_def mk_cache_def)

theorem cache_settings_witness:
  "\<exists>v m' c'. ipc_handler tiny_json (flat_env []) ''s'' ''adb'' (SetPageSize 64) small_mount = (Inr v, m') \<and>
     f_cache (mb_fs m') = Some c' \<and> capacity c' = 2 ^ 23"
proof -
  have s: "shutdown env c d = (Inr (), c\<lparr>m_read_queue := [], m_table := [], m_lru := []\<rparr>, d)" if "m_table c = []" for c d and env :: "unit env"
    using that by (simp add: shutdown_def invalidate_fds_def)
  obtain i where i: "new_page_size 64 = Inr (2 ^ i)" "2 ^ i = max (64 * 1024) (min (4 * 1024 * 1024) (bit_ceil (64 * 1024)))"
    using new_page_size_at [of 64] by auto
  have i16: "(2 :: nat) ^ i = 65536" using i(2) bit_ceil_of_power [of 16] by simp
  have n: "new_max_pages (mul64 128 65536) (2 ^ i) = Inr 128"
    using bit_ceil_of_power [of 7] by (simp add: i16 new_max_pages_def bit_ceil64_def lowest_max_pages_def)
  have "\<exists>v m'. ipc_handler tiny_json (flat_env []) ''s'' ''adb'' (SetPageSize 64) small_mount = (Inr v, m')"
    by (simp add: ipc_handler_def invoke_fs_def handle_set_page_size_def with_cache_def on_cache_def small_cache i(1) n [simplified]
                set_page_size_def set_max_pages_def s waited_def Let_def split: prod.splits)
  then obtain v m' where h: "ipc_handler tiny_json (flat_env []) ''s'' ''adb'' (SetPageSize 64) small_mount = (Inr v, m')" by blast
  have e: "op_error tiny_json (SetPageSize 64) = None" by (simp add: op_error_def)
  have b: "bounded small_pages" unfolding small_pages_def by (rule bounded_mk_cache) simp_all
  have z: "sized small_pages" unfolding sized_def small_cache by (intro exI [of _ 16] exI [of _ 7]) simp
  from cache_settings [OF h e small_cache(1) b z] obtain c' where "f_cache (mb_fs m') = Some c'"
    "m_page_size c' = max (64 * 1024) (min (4 * 1024 * 1024) (bit_ceil (64 * 1024)))"
    "capacity c' = max (capacity small_pages) (128 * m_page_size c')" by auto
  with h show ?thesis using i(2) i16 by (auto simp: capacity_def small_cache)
qed

theorem mounted_safe_witness:
  "\<exists>w m0 c m. cb_init (flat_env []) 0 \<lparr>po_caching = None, po_root = root_path, po_mount = ''/mnt'', po_ttl = 30, po_timeout = 10, po_level = 0\<rparr> () =
       Inr (w, m0) \<and>
     (mb_step tiny_json (flat_env []) unit_factory (\<lambda>_ d. d))\<^sup>*\<^sup>* (Starting, conn_init strategy.Adb 1, m0) (Mounted, c, m) \<and>
     cn_started c \<and> mb_mountpoint m = ''/mnt'' \<and> mb_timeout m = Some 5"
proof -
  let ?a = "\<lparr>po_caching = None, po_root = root_path, po_mount = ''/mnt'', po_ttl = 30, po_timeout = 10, po_level = 0\<rparr>"
  have "\<exists>e d. conn_stat (flat_env []) root_path () = (Unexpect e, d)"
    by (simp add: conn_stat_def get_resp_def send_req_def max_attempts_def eval_nat_numeral transport_send_req_def flat_env_def)
  then have "\<exists>w m0. cb_init (flat_env []) 0 ?a () = Inr (w, m0)"
    by (auto simp: cb_init_def mk_madbfs_def initialize_root_def mk_fs_def bind_fs_def on_dev_def split: prod.splits)
  then obtain w m0 where i: "cb_init (flat_env []) 0 ?a () = Inr (w, m0)" by blast
  have g: "good_path (po_root ?a)" using path_ok_root by (simp add: good_path_def)
  let ?step = "mb_step tiny_json (flat_env []) unit_factory (\<lambda>_ d. d)" and ?c = "conn_start (conn_init strategy.Adb (1 :: nat))"
  let ?m1 = "m0\<lparr>mb_fs := (mb_fs m0)\<lparr>f_dev := f_dev (mb_fs m0)\<rparr>\<rparr>"
  let ?m = "snd (handle_set_timeout 5 ?m1)"
  have "?step (Starting, conn_init strategy.Adb 1, m0) (Mounted, ?c, ?m1)"
    using mb_step.started [of tiny_json "flat_env []" unit_factory "\<lambda>_ d. d" "conn_init strategy.Adb 1" m0] by simp
  moreover have "?step (Mounted, ?c, ?m1) (Mounted, ?c, ?m)"
    by (rule mb_step.control [of _ _ _ _ _ _ "SetTimeout 5"]) (auto simp: ipc_handler_def handle_set_timeout_def Let_def returned_def)
  ultimately have run: "?step\<^sup>*\<^sup>* (Starting, conn_init strategy.Adb 1, m0) (Mounted, ?c, ?m)"
    by (meson rtranclp.rtrancl_into_rtrancl r_into_rtranclp)
  have "mb_timeout ?m = Some 5" by (simp add: handle_set_timeout_def Let_def positive_seconds_def)
  with mounted_safe [OF i g run] i run show ?thesis by (intro exI [of _ w] exI [of _ m0] exI [of _ ?c] exI [of _ ?m]) simp
qed

theorem watchdog_renews_witness:
  "cn_transport (fst (watchdog_turn (flat_env []) unit_factory (\<lambda>_ d. d) 7 (conn_start (conn_init strategy.Adb 0)) (mb_fs small_mount))) = 1 \<and>
   cn_started (fst (watchdog_turn (flat_env []) unit_factory (\<lambda>_ d. d) 7 (conn_start (conn_init strategy.Adb 0)) (mb_fs small_mount)))"
proof -
  obtain c' s' where w: "watchdog_turn (flat_env []) unit_factory (\<lambda>_ d. d) 7 (conn_start (conn_init strategy.Adb 0)) (mb_fs small_mount) = (c', s')"
    by fastforce
  have p: "conn_ping (flat_env []) 7 (f_dev (mb_fs small_mount)) = (Unexpect function_not_supported, ())"
    by (simp add: conn_ping_def get_resp_def transport_send_req_def flat_env_def)
  from watchdog_renews [OF w p] have "cn_started c' \<and> cn_transport c' = fst (create_transport unit_factory strategy.Adb ())"
    by (simp add: conn_init_def)
  then have "cn_transport c' = 1 \<and> cn_started c'" by (simp add: create_transport_def create_adb_or_null_def unit_factory_def)
  then show ?thesis by (simp only: w fst_conv)
qed

end
