(* ===== verification/Startup.thy ===== *)
theory Startup
  imports Madbfs Adb_Cmd
begin

text \<open>
  From the command line to a running connection: the options of \<^verbatim>\<open>madbfs\<close> (\<^verbatim>\<open>args.hpp\<close>, \<^verbatim>\<open>args.cpp\<close>), the launch of the
  server on the device (\<^verbatim>\<open>launch_and_connect\<close> of \<^verbatim>\<open>proxy_transport.cpp\<close>) and the options of the server
  (\<^verbatim>\<open>parse_args\<close> of \<^verbatim>\<open>madbfs-server/src/main.cpp\<close>). What libfuse makes of the command line, the commands behind adb, the
  answers of the user and the embedded server binaries are parameters.
\<close>

section \<open>Options\<close>

text \<open>\<^verbatim>\<open>MadbfsOpt\<close> with its defaults; a string that is not given is a null pointer, but for the level and the file
  of the log.\<close>

record madbfs_opt =
  mo_serial :: "str option"
  mo_root :: "str option"
  mo_log_level :: str
  mo_log_file :: str
  mo_cache_size :: int
  mo_page_size :: int
  mo_ttl :: int
  mo_timeout :: int
  mo_port :: int
  mo_no_server :: bool
  mo_adb_only :: bool
  mo_no_cache :: bool

definition default_opt :: madbfs_opt where
  "default_opt = \<lparr>mo_serial = None, mo_root = None, mo_log_level = ''warning'', mo_log_file = ''-'', mo_cache_size = 256,
     mo_page_size = 128, mo_ttl = 60, mo_timeout = 2, mo_port = 23237, mo_no_server = False, mo_adb_only = False,
     mo_no_cache = False\<rparr>"

text \<open>\<^verbatim>\<open>fuse_cmdline_opts\<close>, and what \<^verbatim>\<open>fuse_parse_cmdline\<close> and \<^verbatim>\<open>fuse_opt_parse\<close> deliver, if they do not fail.\<close>

record cmdline =
  cl_show_help :: bool
  cl_show_version :: bool
  cl_mountpoint :: "str option"
  cl_foreground :: bool

record fuse_parsed =
  fp_cmdline :: "cmdline option"
  fp_opt :: "madbfs_opt option"

text \<open>\<^verbatim>\<open>ParsedOpt\<close>, with the fields the file system is constructed from first.\<close>

record launch_opt = parsed_opt +
  lo_serial :: str
  lo_connection :: arg_connection
  lo_log_file :: str

section \<open>Devices\<close>

definition check_serial :: "'d shell \<Rightarrow> str \<Rightarrow> 'd \<Rightarrow> device_status \<times> 'd" where
  "check_serial sh serial d =
     (case list_devices sh d of
        (Inr devices, d) \<Rightarrow> (case map_of devices serial of Some status \<Rightarrow> status | None \<Rightarrow> UnknownStatus, d)
      | (Inl _, d) \<Rightarrow> (UnknownStatus, d))"

text \<open>What \<^verbatim>\<open>linr::read<usize>\<close> returns for a line of the user: a number, an error in the line, or the end of the stream.
  The loop ends with a valid choice or, with the stream, in \<^verbatim>\<open>std::exit(1)\<close>.\<close>

datatype user_line = Number nat | Unreadable | Closed

fun pick_device :: "nat \<Rightarrow> user_line list \<Rightarrow> nat option" where
  "pick_device n [] = None"
| "pick_device n (Number k # ls) = (if 0 < k \<and> k \<le> n then Some k else pick_device n ls)"
| "pick_device n (Unreadable # ls) = pick_device n ls"
| "pick_device n (Closed # ls) = None"

definition get_serial :: "'d shell \<Rightarrow> user_line list \<Rightarrow> 'd \<Rightarrow> (nat + str) \<times> 'd" where
  "get_serial sh lines d =
     (case list_devices sh d of
        (Inl _, d) \<Rightarrow> (Inr [], d)
      | (Inr maybe, d) \<Rightarrow>
          (let devices = filter (\<lambda>x. snd x = Device) maybe in
           if devices = [] then (Inr [], d)
           else if length devices = 1 then (Inr (fst (devices ! 0)), d)
           else case pick_device (length devices) lines of
                  None \<Rightarrow> (Inl 1, d)
                | Some choice \<Rightarrow> (Inr (fst (devices ! (choice - 1))), d)))"

section \<open>Parsing the command line\<close>

definition abi_name :: "abi \<Rightarrow> str" where
  "abi_name a = (case a of Armeabi_v7a \<Rightarrow> ''armeabi-v7a'' | Arm64_v8a \<Rightarrow> ''arm64-v8a'' | X86 \<Rightarrow> ''x86'' | X86_64 \<Rightarrow> ''x86_64'')"

text \<open>\<open>Inr (Inl n)\<close> is the exit status \<open>n\<close>. An exception that leaves \<^verbatim>\<open>parse\<close> ends the program, as \<^verbatim>\<open>once\<close> is \<^verbatim>\<open>noexcept\<close>.\<close>

definition resolve_serial :: "'d shell \<Rightarrow> str option \<Rightarrow> user_line list \<Rightarrow> str option \<Rightarrow> 'd \<Rightarrow> (nat + str) \<times> 'd" where
  "resolve_serial sh getenv lines serial d =
     (case serial of
        Some s \<Rightarrow> (Inr s, d)
      | None \<Rightarrow>
          (case getenv of
             Some s \<Rightarrow> (Inr s, d)
           | None \<Rightarrow>
               (case get_serial sh lines d of
                  (Inl n, d) \<Rightarrow> (Inl n, d)
                | (Inr s, d) \<Rightarrow> (if s \<noteq> [] then Inr s else Inl 1, d))))"

definition resolve_root :: "'d shell \<Rightarrow> str \<Rightarrow> str option \<Rightarrow> 'd \<Rightarrow> (nat + path) expect \<times> 'd" where
  "resolve_root sh serial root d =
     (case root of
        None \<Rightarrow> (Inr (Inr root_path), d)
      | Some p \<Rightarrow>
          if p = [] \<or> hd p \<noteq> slash then (Inr (Inl 1), d)
          else
            (case cmd_run sh [''adb'', ''-s'', serial, ''shell'', ''test'', ''-d'', quote p] d of
               (Inl _, d) \<Rightarrow> (Inr (Inl 1), d)
             | (Inr _, d) \<Rightarrow>
                 (case cmd_run sh [''adb'', ''-s'', serial, ''shell'', ''realpath'', quote p] d of
                    (Inl _, d) \<Rightarrow> (Inr (Inl 1), d)
                  | (Inr real, d) \<Rightarrow>
                      (case create_buf (strip real whitespace) of
                         Inl f \<Rightarrow> Inl f
                       | Inr None \<Rightarrow> Inl UB
                       | Inr (Some r) \<Rightarrow> Inr (Inr r), d))))"

definition choose_connection :: "'d shell \<Rightarrow> str \<Rightarrow> madbfs_opt \<Rightarrow> 'd \<Rightarrow> arg_connection \<times> 'd" where
  "choose_connection sh serial opt d =
     (let port = word_of_int (mo_port opt) in
      if mo_adb_only opt then (AdbOnly, d)
      else if mo_no_server opt then (NoServer port, d)
      else case get_abi sh serial d of
             (Inl _, d) \<Rightarrow> (AdbOnly, d)
           | (Inr a, d) \<Rightarrow> (Server (abi_name a) port, d))"

definition parse_cmdline :: "fuse_parsed \<Rightarrow> nat + (str \<times> bool \<times> madbfs_opt)" where
  "parse_cmdline fp =
     (case fp_cmdline fp of
        None \<Rightarrow> Inl 1
      | Some cl \<Rightarrow>
          if cl_show_help cl then Inl 0
          else if cl_show_version cl then Inl 0
          else case cl_mountpoint cl of
                 None \<Rightarrow> Inl 2
               | Some mountpoint \<Rightarrow>
                   (case fp_opt fp of
                      None \<Rightarrow> Inl 1
                    | Some opt \<Rightarrow>
                        if mo_cache_size opt \<le> 0 then Inl 1
                        else if mo_page_size opt \<le> 0 then Inl 1
                        else if mo_port opt > 65535 \<or> mo_port opt \<le> 0 then Inl 1
                        else Inr (mountpoint, cl_foreground cl, opt)))"

definition parse_args :: "json_lib \<Rightarrow> 'd shell \<Rightarrow> str option \<Rightarrow> user_line list \<Rightarrow> fuse_parsed \<Rightarrow> 'd \<Rightarrow> (nat + launch_opt) expect \<times> 'd" where
  "parse_args lib sh getenv lines fp d =
     (case parse_cmdline fp of
        Inl n \<Rightarrow> (Inr (Inl n), d)
      | Inr (mountpoint, foreground, opt) \<Rightarrow>
     (case start_server sh d of
        (Inl _, d) \<Rightarrow> (Inr (Inl 1), d)
      | (Inr _, d) \<Rightarrow>
     (case level_from_str lib (mo_log_level opt) of
        None \<Rightarrow> (Inr (Inl 1), d)
      | Some log_level \<Rightarrow>
     (case resolve_serial sh getenv lines (mo_serial opt) d of
        (Inl n, d) \<Rightarrow> (Inr (Inl n), d)
      | (Inr serial, d) \<Rightarrow>
     (case check_serial sh serial d of
        (status, d) \<Rightarrow>
          if status \<noteq> Device then (Inr (Inl 1), d)
          else
     (case resolve_root sh serial (mo_root opt) d of
        (Inl f, d) \<Rightarrow> (Inl f, d)
      | (Inr (Inl n), d) \<Rightarrow> (Inr (Inl n), d)
      | (Inr (Inr root), d) \<Rightarrow>
     (case choose_connection sh serial opt d of
        (connection, d) \<Rightarrow>
          (Inr (case caching_option (mo_cache_size opt) (mo_page_size opt) (mo_no_cache opt) of
                  Inl n \<Rightarrow> Inl n
                | Inr caching \<Rightarrow> Inr
                    \<lparr>po_caching = caching, po_root = root, po_mount = mountpoint, po_ttl = mo_ttl opt, po_timeout = mo_timeout opt,
                     po_level = log_level, lo_serial = serial, lo_connection = connection,
                     lo_log_file = (if mo_log_file opt = ''-'' \<and> \<not> foreground then [] else mo_log_file opt)\<rparr>), d))))))))"

text \<open>\<^verbatim>\<open>main\<close> up to \<^verbatim>\<open>fuse_main\<close>: the log is opened and the serial exported, so that every later command of adb addresses that
  device. The result is an exit status or the arguments of \<^verbatim>\<open>fuse_main\<close> and the shell it runs with.\<close>

definition client_main :: "json_lib \<Rightarrow> (nat \<Rightarrow> str \<Rightarrow> bool) \<Rightarrow> (str \<Rightarrow> bool) \<Rightarrow> 'd shell \<Rightarrow> user_line list \<Rightarrow> fuse_parsed \<Rightarrow> 'd \<Rightarrow>
    (nat + (launch_opt \<times> 'd shell)) expect \<times> 'd" where
  "client_main lib log_init setenv sh lines fp d =
     (case parse_args lib sh (sh_serial sh) lines fp d of
        (Inl f, d) \<Rightarrow> (Inl f, d)
      | (Inr (Inl n), d) \<Rightarrow> (Inr (Inl n), d)
      | (Inr (Inr po), d) \<Rightarrow>
          (Inr (if \<not> log_init (po_level po) (lo_log_file po) then Inl 1
                else if \<not> setenv (lo_serial po) then Inl 1
                else Inr (po, sh\<lparr>sh_serial := Some (lo_serial po)\<rparr>)), d))"

section \<open>The options of the server\<close>

record server_args =
  sa_level :: nat
  sa_port :: u16

definition mk_server_args :: server_args where
  "mk_server_args = \<lparr>sa_level = 3, sa_port = 23237\<rparr>"

fun server_args_loop :: "str list \<Rightarrow> server_args \<Rightarrow> nat + server_args" where
  "server_args_loop [] a = Inr a"
| "server_args_loop (arg # rest) a =
     (if arg = ''--help'' \<or> arg = ''-h'' then Inl 0
      else if arg = ''--debug'' then server_args_loop rest (a\<lparr>sa_level := 1\<rparr>)
      else if arg = ''--verbose'' then server_args_loop rest (a\<lparr>sa_level := 2\<rparr>)
      else if arg = ''--port'' then
        (case rest of
           [] \<Rightarrow> Inl 1
         | p # rest' \<Rightarrow>
             (case parse_unsigned 16 10 p of
                None \<Rightarrow> Inl 1
              | Some n \<Rightarrow> server_args_loop rest' (a\<lparr>sa_port := word_of_nat n\<rparr>)))
      else Inl 1)"

definition parse_server_args :: "str list \<Rightarrow> nat + server_args" where
  "parse_server_args argv = server_args_loop (tl argv) mk_server_args"

text \<open>\<^verbatim>\<open>main\<close> of the server up to its first wait: the listener is made, or its constructor throws, and the line the
  launcher waits for is written.\<close>

datatype server_start = Exited nat | Listening u16 nat str

definition server_main :: "(u16 \<Rightarrow> bool) \<Rightarrow> str list \<Rightarrow> server_start" where
  "server_main bindable argv =
     (case parse_server_args argv of
        Inl n \<Rightarrow> Exited n
      | Inr a \<Rightarrow> if bindable (sa_port a) then Listening (sa_port a) (sa_level a) (server_ready_string @ [CHR 0x0A]) else Exited 1)"

section \<open>Launching the server\<close>

text \<open>\<open>la_spawn\<close>: starting adb and reading as many bytes of its output as the ready string has, within five seconds.\<close>

datatype first_output = Late | Broken net_error | Output str

record ('s, 'd) launcher =
  la_connect :: "u16 \<Rightarrow> 'd \<Rightarrow> (net_error + 's) \<times> 'd"
  la_late :: "'d \<Rightarrow> bool"
  la_spawn :: "str list \<Rightarrow> 'd \<Rightarrow> first_output \<times> 'd"
  la_embed :: "abi \<Rightarrow> str"

definition serv_file :: str where
  "serv_file = ''/data/local/tmp/madbfs-server''"

definition write_server :: "('s, 'd) launcher \<Rightarrow> 'd shell \<Rightarrow> abi \<Rightarrow> str \<Rightarrow> 'd \<Rightarrow> str expect \<times> 'd" where
  "write_server la sh a target = cmd_exec sh [''adb'', ''shell'', ''dd'', ''of='' @ target] (la_embed la a) True False"

definition connect_to_server :: "('s, 'd) launcher \<Rightarrow> 's socket_ops \<Rightarrow> bool \<Rightarrow> str \<Rightarrow> u16 \<Rightarrow> 'd \<Rightarrow> 's expect \<times> 'd" where
  "connect_to_server la ops big version port d =
     (case la_connect la port d of
        (Inl e, d) \<Rightarrow> (Unexpect (to_generic_err e not_connected), d)
      | (Inr s, d) \<Rightarrow> (case handshake ops big version s of (Inl f, s) \<Rightarrow> (Inl f, d) | (Inr _, s) \<Rightarrow> (Inr s, d)))"

definition launch_args :: "u16 \<Rightarrow> str list" where
  "launch_args port = [''shell'', serv_file, ''--port'', show_num 10 (unat port)]"

definition run_server :: "('s, 'd) launcher \<Rightarrow> 's socket_ops \<Rightarrow> bool \<Rightarrow> str \<Rightarrow> u16 \<Rightarrow> 'd \<Rightarrow> (bool \<times> 's) expect \<times> 'd" where
  "run_server la ops big version port d =
     (case la_spawn la (launch_args port) d of
        (Late, d) \<Rightarrow> (Unexpect timed_out, d)
      | (Broken e, d) \<Rightarrow> (Unexpect (to_generic_err e not_connected), d)
      | (Output buf, d) \<Rightarrow>
          if length buf \<noteq> length server_ready_string then (Unexpect broken_pipe, d)
          else if buf \<noteq> server_ready_string then (Unexpect broken_pipe, d)
          else case connect_to_server la ops big version port d of (r, d) \<Rightarrow> (transform r (\<lambda>s. (True, s)), d))"

text \<open>The result says whether a process was started.\<close>

definition launch_and_connect :: "('s, 'd) launcher \<Rightarrow> 'd shell \<Rightarrow> 's socket_ops \<Rightarrow> bool \<Rightarrow> str \<Rightarrow> abi option \<Rightarrow> u16 \<Rightarrow> 'd \<Rightarrow>
    (bool \<times> 's) expect \<times> 'd" where
  "launch_and_connect la sh ops big version abi port d =
     (let forward = ''tcp:'' @ show_num 10 (unat port) in
      case cmd_run sh [''adb'', ''forward'', forward, forward] d of
        (Inl f, d) \<Rightarrow> (Inl f, d)
      | (Inr _, d) \<Rightarrow>
          (case abi of
             None \<Rightarrow>
               (case connect_to_server la ops big version port d of
                  (r, d') \<Rightarrow> (if la_late la d then Unexpect timed_out else transform r (\<lambda>s. (False, s)), d'))
           | Some a \<Rightarrow>
               (case write_server la sh a serv_file d of
                  (Inl f, d) \<Rightarrow> (Inl f, d)
                | (Inr _, d) \<Rightarrow>
                    (case cmd_run sh [''adb'', ''shell'', ''chmod'', ''+x'', serv_file] d of
                       (Inl f, d) \<Rightarrow> (Inl f, d)
                     | (Inr _, d) \<Rightarrow> run_server la ops big version port d))))"


text \<open>\<^verbatim>\<open>create\<close> and the destructor of the transport. The process of the server is terminated when it is found running, and
  kept only when that cannot be found out.\<close>

definition px_create :: "('s, 'd) launcher \<Rightarrow> 'd shell \<Rightarrow> 's socket_ops \<Rightarrow> bool \<Rightarrow> str \<Rightarrow> abi option \<Rightarrow> u16 \<Rightarrow> 'd \<Rightarrow>
    (bool \<times> 's proxy) expect \<times> 'd" where
  "px_create la sh ops big version abi port d =
     (case launch_and_connect la sh ops big version abi port d of
        (Inl f, d) \<Rightarrow> (Inl f, d)
      | (Inr (proc, sock), d) \<Rightarrow> (Inr (proc, mk_proxy sock), d))"

definition stop_process :: "bool \<Rightarrow> net_error + bool \<Rightarrow> bool \<times> bool" where
  "stop_process process running =
     (if process then (case running of Inl ec \<Rightarrow> (False, True) | Inr r \<Rightarrow> (r, False)) else (False, False))"

lemma stop_process_kept: "snd (stop_process process running) \<longleftrightarrow> process \<and> isl running"
  by (cases running) (simp_all add: stop_process_def)

section \<open>What an accepted command line gives\<close>

lemma index_of_Some: "index_of i x ys = Some k \<Longrightarrow> i \<le> k \<and> k - i < length ys \<and> ys ! (k - i) = x"
proof (induction i x ys arbitrary: k rule: index_of.induct)
  case (2 i x y ys)
  show ?case
  proof (cases "x = y")
    case False
    with 2 have "Suc i \<le> k \<and> k - Suc i < length ys \<and> ys ! (k - Suc i) = x" by simp
    moreover from this have "k - i = Suc (k - Suc i)" by arith
    ultimately show ?thesis by simp
  qed (use 2 in auto)
qed simp

lemma resolve_root_ok: "resolve_root sh serial root d = (Inr (Inr p), d') \<Longrightarrow> path_ok p"
  by (auto simp: resolve_root_def create_buf_eq create_SomeD split: option.splits if_splits prod.splits sum.splits)

lemma check_serial_Device:
  "check_serial sh serial d = (Device, d') \<Longrightarrow> \<exists>ds. list_devices sh d = (Inr ds, d') \<and> map_of ds serial = Some Device"
  by (auto simp: check_serial_def split: prod.splits sum.splits option.splits)

lemma choose_connection_port: "choose_connection sh serial opt d = (c, d') \<Longrightarrow> 0 < mo_port opt \<Longrightarrow> mo_port opt \<le> 65535 \<Longrightarrow>
    (case c of AdbOnly \<Rightarrow> True | NoServer p \<Rightarrow> mo_no_server opt \<and> uint p = mo_port opt | Server a p \<Rightarrow> \<not> mo_no_server opt \<and> uint p = mo_port opt)"
  by (auto simp: choose_connection_def Let_def uint_word_of_int split: if_splits prod.splits sum.splits)

lemma parse_cmdline_Inr:
  assumes "parse_cmdline fp = Inr (mountpoint, foreground, opt)"
  shows "fp_opt fp = Some opt" "0 < mo_cache_size opt" "0 < mo_page_size opt" "0 < mo_port opt" "mo_port opt \<le> 65535"
  using assms by (auto simp: parse_cmdline_def split: option.splits if_splits)

lemma parse_args_Inr:
  assumes "parse_args lib sh getenv lines fp d = (Inr (Inr po), d')"
  obtains mountpoint foreground opt d1 d2 d3 d4 d5 caching where
    "parse_cmdline fp = Inr (mountpoint, foreground, opt)"
    "level_from_str lib (mo_log_level opt) = Some (po_level po)"
    "resolve_serial sh getenv lines (mo_serial opt) d1 = (Inr (lo_serial po), d2)"
    "check_serial sh (lo_serial po) d2 = (Device, d3)"
    "resolve_root sh (lo_serial po) (mo_root opt) d3 = (Inr (Inr (po_root po)), d4)"
    "choose_connection sh (lo_serial po) opt d4 = (lo_connection po, d5)"
    "caching_option (mo_cache_size opt) (mo_page_size opt) (mo_no_cache opt) = Inr (po_caching po)"
    "po_mount po = mountpoint"
  using assms
  by (fastforce simp: parse_args_def split: sum.splits prod.splits option.splits if_splits)

lemma client_main_Inr:
  assumes "client_main lib log_init setenv sh lines fp d = (Inr (Inr (po, sh')), d')"
  shows "parse_args lib sh (sh_serial sh) lines fp d = (Inr (Inr po), d')" "sh_serial sh' = Some (lo_serial po)"
  using assms by (auto simp: client_main_def split: prod.splits sum.splits if_splits)

text \<open>C11: whatever the command line, the environment, the devices and the answers of the user, the options \<^verbatim>\<open>parse\<close> accepts
  are usable when the file system is mounted: the root is a well-formed absolute path, the log level is the named one, the port is a valid port and the
  connection uses it unchanged, the device every later command addresses is listed as ready, and the cache built from the sizes is
  within its bounds.\<close>

theorem accepted_options:
  assumes "client_main lib log_init setenv sh lines fp d = (Inr (Inr (po, sh')), d')" "fp_opt fp = Some opt" "mo_cache_size opt < 2 ^ 31"
  shows "path_ok (po_root po) \<and>
    po_level po < length (js_levels lib) \<and> js_levels lib ! po_level po = mo_log_level opt \<and>
    0 < mo_port opt \<and> mo_port opt < 2 ^ 16 \<and>
    (case lo_connection po of AdbOnly \<Rightarrow> True | NoServer p \<Rightarrow> mo_no_server opt \<and> uint p = mo_port opt
       | Server a p \<Rightarrow> \<not> mo_no_server opt \<and> uint p = mo_port opt) \<and>
    (\<exists>d1 d2 ds. list_devices sh d1 = (Inr ds, d2) \<and> sh_serial sh' = Some (lo_serial po) \<and> map_of ds (lo_serial po) = Some Device) \<and>
    (case po_caching po of None \<Rightarrow> mo_no_cache opt
       | Some x \<Rightarrow> \<exists>ps mx. caching_of x = Inr (ps, mx) \<and> sized (mk_cache ps mx) \<and> bounded (mk_cache ps mx))"
  using client_main_Inr(1) [OF assms(1)]
proof (rule parse_args_Inr)
  fix mountpoint foreground opt' d1 d2 d3 d4 d5 caching
  assume a: "parse_cmdline fp = Inr (mountpoint, foreground, opt')"
    "level_from_str lib (mo_log_level opt') = Some (po_level po)"
    "check_serial sh (lo_serial po) d2 = (Device, d3)"
    "resolve_root sh (lo_serial po) (mo_root opt') d3 = (Inr (Inr (po_root po)), d4)"
    "choose_connection sh (lo_serial po) opt' d4 = (lo_connection po, d5)"
    "caching_option (mo_cache_size opt') (mo_page_size opt') (mo_no_cache opt') = Inr (po_caching po)"
  note p = parse_cmdline_Inr [OF a(1)]
  have o: "opt' = opt" using p(1) assms(2) by simp
  have c: "case po_caching po of None \<Rightarrow> mo_no_cache opt
       | Some x \<Rightarrow> \<exists>ps mx. caching_of x = Inr (ps, mx) \<and> sized (mk_cache ps mx) \<and> bounded (mk_cache ps mx)"
  proof (cases "mo_no_cache opt")
    case True
    with a(6) o p show ?thesis by (auto simp: caching_option_def)
  next
    case False
    with a(6) o p have "po_caching po \<noteq> None" by (cases "po_caching po") (auto simp: caching_option_def)
    then obtain x where "po_caching po = Some x" by blast
    with False a(6) o option_sized [of "mo_cache_size opt" "mo_page_size opt" x] assms(3) show ?thesis by simp
  qed
  show ?thesis
    using resolve_root_ok [OF a(4)] index_of_Some [OF a(2) [unfolded level_from_str_def]] p(4,5) c
      choose_connection_port [OF a(5) p(4,5)] check_serial_Device [OF a(3)] client_main_Inr(2) [OF assms(1)]
    unfolding o by auto
qed

definition two_devices :: "unit shell" where
  "two_devices = \<lparr>sh_run = \<lambda>_ _ d. (Inr (0, ''List of devices attached'' @ [CHR 0x0A] @ ''A1'' @ [CHR 0x09] @ ''offline'' @ [CHR 0x0A] @
     ''B2'' @ [CHR 0x09] @ ''device'' @ [CHR 0x0A], []), d), sh_serial = None, sh_local = None\<rparr>"

definition plain_cmdline :: fuse_parsed where
  "plain_cmdline = \<lparr>fp_cmdline = Some \<lparr>cl_show_help = False, cl_show_version = False, cl_mountpoint = Some ''/mnt'', cl_foreground = False\<rparr>,
     fp_opt = Some (default_opt\<lparr>mo_no_server := True\<rparr>)\<rparr>"

lemma two_devices_list: "list_devices two_devices d = (Inr [(''A1'', Offline), (''B2'', Device)], d)"
proof -
  have "list_devices two_devices () = (Inr [(''A1'', Offline), (''B2'', Device)], ())" by code_simp
  then show ?thesis by simp
qed

theorem accepted_options_witness:
  "\<exists>po sh'. client_main tiny_json (\<lambda>_ _. True) (\<lambda>_. True) two_devices [] plain_cmdline () = (Inr (Inr (po, sh')), ()) \<and>
     sh_serial sh' = Some ''B2'' \<and> path_ok (po_root po) \<and> po_level po = 3 \<and> (\<exists>p. lo_connection po = NoServer p \<and> uint p = 23237) \<and>
     (\<exists>x ps mx. po_caching po = Some x \<and> caching_of x = Inr (ps, mx) \<and> bounded (mk_cache ps mx))"
proof -
  have "cmd_run two_devices c () = (Inr (fst (snd (case_sum undefined id (fst (sh_run two_devices c [] ()))))), ())" for c
    by (simp add: cmd_run_def cmd_exec_def two_devices_def)
  then obtain o1 where r: "start_server two_devices () = (Inr o1, ())" by (simp add: start_server_def)
  have n: "sh_serial two_devices = None" by (simp add: two_devices_def)
  obtain po sh' where p: "client_main tiny_json (\<lambda>_ _. True) (\<lambda>_. True) two_devices [] plain_cmdline () = (Inr (Inr (po, sh')), ())"
    "lo_serial po = ''B2''" "po_level po = 3" "lo_connection po = NoServer 23237" "po_caching po \<noteq> None"
    by (auto simp: client_main_def parse_args_def parse_cmdline_def plain_cmdline_def default_opt_def r n resolve_serial_def get_serial_def
        two_devices_list check_serial_def resolve_root_def choose_connection_def level_from_str_def tiny_json_def caching_option_def)
  show ?thesis using accepted_options [OF p(1)] p client_main_Inr(2) [OF p(1)] by (auto simp: plain_cmdline_def default_opt_def)
qed

section \<open>Starting the server and connecting to it\<close>

lemma server_args_launched:
  "parse_server_args (tl (launch_args port)) = Inr \<lparr>sa_level = 3, sa_port = port\<rparr>"
proof -
  have "unat port < 2 ^ 16" using unsigned_less [of port] by simp
  then show ?thesis by (simp add: parse_server_args_def launch_args_def mk_server_args_def parse_unsigned_show)
qed

lemma connect_to_server_Inr:
  "connect_to_server la ops big version port d = (Inr s', d') \<longleftrightarrow>
     (\<exists>s. la_connect la port d = (Inr s, d') \<and> handshake ops big version s = (Inr (), s'))"
  by (auto simp: connect_to_server_def split: prod.splits sum.splits)

lemma run_server_Inr:
  "run_server la ops big version port d = (Inr (proc, s'), d') \<longleftrightarrow>
     proc \<and> (\<exists>d1. la_spawn la (launch_args port) d = (Output server_ready_string, d1) \<and>
       connect_to_server la ops big version port d1 = (Inr s', d'))"
  by (auto simp: run_server_def transform_Inr_iff simp del: split_paired_Ex split: first_output.splits prod.split_asm if_splits)

text \<open>C12: the launcher and the server agree. Started with the arguments the launcher passes, the server listens on the
  launcher's port and writes the line the launcher waits for; and a transport with a server of its own is created exactly
  when the port is forwarded, the server pushed and made executable, its first output is that line, and the connection to
  the same port passes the handshake.\<close>

theorem server_launch:
  "server_main bindable (tl (launch_args port)) =
     (if bindable port then Listening port 3 (server_ready_string @ [CHR 0x0A]) else Exited 1) \<and>
   (px_create la sh ops big version (Some a) port d = (Inr (proc, p), d') \<longleftrightarrow>
     proc \<and> (\<exists>x y z d1 d2 d3 d4 s s'.
       cmd_run sh [''adb'', ''forward'', ''tcp:'' @ show_num 10 (unat port), ''tcp:'' @ show_num 10 (unat port)] d = (Inr x, d1) \<and>
       write_server la sh a serv_file d1 = (Inr y, d2) \<and>
       cmd_run sh [''adb'', ''shell'', ''chmod'', ''+x'', serv_file] d2 = (Inr z, d3) \<and>
       la_spawn la (launch_args port) d3 = (Output server_ready_string, d4) \<and>
       la_connect la port d4 = (Inr s, d') \<and> handshake ops big version s = (Inr (), s') \<and> p = mk_proxy s'))"
proof
  show "server_main bindable (tl (launch_args port)) =
     (if bindable port then Listening port 3 (server_ready_string @ [CHR 0x0A]) else Exited 1)"
    by (simp only: server_main_def server_args_launched) simp
  have "px_create la sh ops big version (Some a) port d = (Inr (proc, p), d') \<longleftrightarrow>
    (\<exists>s'. launch_and_connect la sh ops big version (Some a) port d = (Inr (proc, s'), d') \<and> p = mk_proxy s')"
    by (auto simp: px_create_def split: prod.splits sum.splits)
  then show "px_create la sh ops big version (Some a) port d = (Inr (proc, p), d') \<longleftrightarrow>
     proc \<and> (\<exists>x y z d1 d2 d3 d4 s s'.
       cmd_run sh [''adb'', ''forward'', ''tcp:'' @ show_num 10 (unat port), ''tcp:'' @ show_num 10 (unat port)] d = (Inr x, d1) \<and>
       write_server la sh a serv_file d1 = (Inr y, d2) \<and>
       cmd_run sh [''adb'', ''shell'', ''chmod'', ''+x'', serv_file] d2 = (Inr z, d3) \<and>
       la_spawn la (launch_args port) d3 = (Output server_ready_string, d4) \<and>
       la_connect la port d4 = (Inr s, d') \<and> handshake ops big version s = (Inr (), s') \<and> p = mk_proxy s')"
    by (force simp: launch_and_connect_def Let_def run_server_Inr connect_to_server_Inr split: prod.splits sum.splits)
qed

end
