(* ===== verification/Msg.thy ===== *)
theory Msg
  imports Ipc Adb_Cmd "HOL-Library.Char_ord" "HOL-Library.List_Lexorder"
begin

text \<open>
  The control client (\<^verbatim>\<open>madbfs-msg/src/main.cpp\<close>) and the socket it finds a mounted file system by (\<^verbatim>\<open>create_ipc\<close> of
  \<^verbatim>\<open>madbfs.cpp\<close>). What Boost.Program_options makes of the command line, the directory that is searched and the connection
  to a socket are parameters; the exchange over the socket is that of \<open>Ipc\<close>.
\<close>

section \<open>Sockets\<close>

abbreviation newline :: str where "newline \<equiv> [CHR 0x0A]"

definition sock_prefix :: str where "sock_prefix = ''madbfs@''"
definition sock_suffix :: str where "sock_suffix = ''.sock''"

text \<open>\<^verbatim>\<open>create_ipc\<close>: the path of the socket, if the serial is known.\<close>

definition create_ipc :: "str option \<Rightarrow> str option \<Rightarrow> str option" where
  "create_ipc runtime_dir android_serial =
     (let socket_path = (case runtime_dir of Some res \<Rightarrow> res | None \<Rightarrow> ''/tmp'') in
      case android_serial of
        None \<Rightarrow> None
      | Some serial \<Rightarrow> Some (((((socket_path @ ''/'') @ ''madbfs@'') @ serial) @ ''.sock'')))"

text \<open>The whole name against \<^verbatim>\<open>madbfs@(.*?)\.sock\<close>, where a dot stands for any character but a line end. As the whole name must match
  and both ends are fixed, the group is what is between them.\<close>

definition sock_match :: "str \<Rightarrow> str option" where
  "sock_match name =
     (let n = length name - length sock_suffix;
          group = Prelude.sublist (length sock_prefix) (n - length sock_prefix) name
      in if length sock_prefix + length sock_suffix \<le> length name \<and> take (length sock_prefix) name = sock_prefix \<and>
            drop n name = sock_suffix \<and> (\<forall>c\<in>set group. c \<noteq> CHR 0x0A \<and> c \<noteq> CHR 0x0D)
         then Some group else None)"

text \<open>An entry of a directory: its name, and whether it is a socket. \<open>entry_path\<close> is \<^verbatim>\<open>operator/\<close> of \<^verbatim>\<open>fs::path\<close> for a relative name.\<close>

record socket_entry =
  so_serial :: str
  so_path :: str

definition entry_path :: "str \<Rightarrow> str \<Rightarrow> str" where
  "entry_path dir name = (if dir = [] \<or> last dir = CHR ''/'' then dir @ name else dir @ CHR ''/'' # name)"

fun get_socket_list :: "str \<Rightarrow> (str \<times> bool) list \<Rightarrow> socket_entry list" where
  "get_socket_list search_path [] = []"
| "get_socket_list search_path ((name, is_socket) # entries) =
     (if \<not> is_socket then get_socket_list search_path entries
      else case sock_match name of
             None \<Rightarrow> get_socket_list search_path entries
           | Some serial \<Rightarrow> \<lparr>so_serial = serial, so_path = entry_path search_path name\<rparr> # get_socket_list search_path entries)"

text \<open>\<^verbatim>\<open>perform_list\<close>: paths in one directory are ordered by their text.\<close>

definition pad_right :: "nat \<Rightarrow> str \<Rightarrow> str" where
  "pad_right n s = s @ replicate (n - length s) CHR '' ''"

definition perform_list :: "str \<Rightarrow> (str \<times> bool) list \<Rightarrow> nat \<times> str" where
  "perform_list search_path entries =
     (let sockets = get_socket_list search_path entries in
      if sockets = [] then (0, ''no active sockets at the moment'' @ newline)
      else
        (let sockets = sort_key so_path sockets;
             max_serial_len = foldl (\<lambda>m x. max m (length (so_serial x))) 0 sockets
         in (0, ''active sockets:'' @ newline @
               concat (map (\<lambda>x. ''    - '' @ pad_right max_serial_len (so_serial x) @ '' -> '' @ so_path x @ newline) sockets))))"

section \<open>Command lines\<close>

datatype color_mode = Never | Always | Auto

definition color_of :: "str \<Rightarrow> color_mode option" where
  "color_of s = (if s = ''never'' then Some Never else if s = ''always'' then Some Always else if s = ''auto'' then Some Auto else None)"

text \<open>What the options library delivers: the options that were given; it fails for an unknown option or a wrong color.\<close>

record msg_given =
  mg_help :: bool
  mg_version :: bool
  mg_color :: "str option"
  mg_list :: bool
  mg_search_dir :: "str option"
  mg_serial :: "str option"
  mg_message :: "str list"

record 's msg_host =
  mh_serial :: "str option"
  mh_runtime_dir :: "str option"
  mh_exists :: "str \<Rightarrow> bool"
  mh_is_directory :: "str \<Rightarrow> bool"
  mh_entries :: "str \<Rightarrow> (str \<times> bool) list"
  mh_tty :: bool
  mh_connect :: "str \<Rightarrow> net_error + 's"

datatype msg_mode = ListMode | MessageMode

record msg_args =
  ma_mode :: msg_mode
  ma_serial :: str
  ma_search_path :: str
  ma_message :: "str list"
  ma_color :: bool

text \<open>\<^verbatim>\<open>Inl\<close> is an exit status. The environment gives the defaults; a default counts as given.\<close>

definition msg_parse_args :: "'s msg_host \<Rightarrow> nat \<Rightarrow> msg_given option \<Rightarrow> nat + msg_args" where
  "msg_parse_args host argc parsed =
     (let default_search_path = (case mh_runtime_dir host of Some d \<Rightarrow> d | None \<Rightarrow> ''/tmp'') in
      if argc = 1 then Inl 1
      else case parsed of
        None \<Rightarrow> Inl 2
      | Some vm \<Rightarrow>
     (case (case mg_color vm of None \<Rightarrow> Some Auto | Some s \<Rightarrow> color_of s) of
        None \<Rightarrow> Inl 2
      | Some color \<Rightarrow>
     (let search_path = (case mg_search_dir vm of Some d \<Rightarrow> d | None \<Rightarrow> default_search_path);
          given_serial = (case mg_serial vm of Some s \<Rightarrow> Some s | None \<Rightarrow> mh_serial host)
      in if mg_help vm then Inl 1
         else if mg_version vm then Inl 0
         else if \<not> mh_exists host search_path then Inl 1
         else if \<not> mh_is_directory host search_path then Inl 1
         else if mg_list vm then
           Inr \<lparr>ma_mode = ListMode, ma_serial = [], ma_search_path = search_path, ma_message = [], ma_color = False\<rparr>
         else
           case (case given_serial of
                   Some s \<Rightarrow> Some s
                 | None \<Rightarrow> (case get_socket_list search_path (mh_entries host search_path) of
                              [] \<Rightarrow> None
                            | [socket] \<Rightarrow> Some (so_serial socket)
                            | _ \<Rightarrow> None)) of
             None \<Rightarrow> Inl 1
           | Some serial \<Rightarrow>
               if mg_message vm = [] then Inl 1
               else Inr \<lparr>ma_mode = MessageMode, ma_serial = serial, ma_search_path = search_path, ma_message = mg_message vm,
                         ma_color = (case color of Always \<Rightarrow> True | Auto \<Rightarrow> mh_tty host | Never \<Rightarrow> False)\<rparr>)))"

section \<open>Commands\<close>

text \<open>The instances of \<^verbatim>\<open>parse_cmd\<close>: no argument, a number of 64 bits, a string.\<close>

definition parse_cmd :: "ipc_op \<Rightarrow> str list \<Rightarrow> ipc_op option" where
  "parse_cmd op args = (if length args \<noteq> 0 then None else Some op)"

definition parse_cmd_number :: "(nat \<Rightarrow> ipc_fs_op) \<Rightarrow> str list \<Rightarrow> ipc_op option" where
  "parse_cmd_number f args =
     (if length args \<noteq> 1 then None
      else case parse_unsigned 64 10 (args ! 0) of None \<Rightarrow> None | Some n \<Rightarrow> Some (FsOp (f n)))"

definition parse_cmd_string :: "(str \<Rightarrow> ipc_fs_op) \<Rightarrow> str list \<Rightarrow> ipc_op option" where
  "parse_cmd_string f args = (if length args \<noteq> 1 then None else Some (FsOp (f (args ! 0))))"

definition parsers :: "(str \<times> (str list \<Rightarrow> ipc_op option)) list" where
  "parsers =
     [(''help'', parse_cmd Help),
      (''version'', parse_cmd Version),
      (''info'', parse_cmd (FsOp Info)),
      (''invalidate_cache'', parse_cmd (FsOp InvalidateCache)),
      (''expire_stat'', parse_cmd (FsOp ExpireStat)),
      (''set_page_size'', parse_cmd_number SetPageSize),
      (''set_cache_size'', parse_cmd_number SetCacheSize),
      (''set_ttl'', parse_cmd_number SetTTL),
      (''set_timeout'', parse_cmd_number SetTimeout),
      (''set_log_level'', parse_cmd_string SetLogLevel),
      (''logcat'', parse_cmd (Logcat False)),
      (''unmount'', parse_cmd (FsOp Unmount))]"

definition parse_message :: "str list \<Rightarrow> ipc_op option expect" where
  "parse_message message =
     (case message of
        [] \<Rightarrow> Inl UB
      | cmd # args \<Rightarrow> Inr (case map_of parsers cmd of None \<Rightarrow> None | Some parser \<Rightarrow> parser args))"

section \<open>Printing a response\<close>

text \<open>\<^verbatim>\<open>pretty_print\<close> with the string for the indentation that all calls share, and the text that is written.\<close>

fun pretty_print :: "json_lib \<Rightarrow> json \<Rightarrow> str \<Rightarrow> str \<times> str"
  and print_members :: "json_lib \<Rightarrow> (str \<times> json) list \<Rightarrow> str \<Rightarrow> str \<times> str"
  and print_elements :: "json_lib \<Rightarrow> json list \<Rightarrow> str \<Rightarrow> str \<times> str" where
  "pretty_print lib json indent =
     (let (out, indent) =
        (case json of
           JObj obj \<Rightarrow>
             (let indent = indent @ replicate 4 CHR '' '';
                  (body, indent) = (if obj \<noteq> [] then print_members lib obj indent else ([], indent));
                  indent = take (length indent - 4) indent
              in (''{'' @ newline @ body @ newline @ indent @ ''}'', indent))
         | JArr arr \<Rightarrow>
             (let indent = indent @ replicate 4 CHR '' '';
                  (body, indent) = (if arr \<noteq> [] then print_elements lib arr indent else ([], indent));
                  indent = take (length indent - 4) indent
              in (''['' @ newline @ body @ newline @ indent @ '']'', indent))
         | JStr s \<Rightarrow> (js_serialize lib (JStr s), indent)
         | JInt i \<Rightarrow> (js_serialize lib (JInt i), indent)
         | JBool b \<Rightarrow> (if b then ''true'' else ''false'', indent)
         | JNull \<Rightarrow> (''null'', indent))
      in (out @ (if indent = [] then newline else []), indent))"
| "print_members lib [] indent = ([], indent)"
| "print_members lib ((key, value) # rest) indent =
     (let (out, indent') = pretty_print lib value indent;
          (outs, indent'') = print_members lib rest indent'
      in (indent @ js_serialize lib (JStr key) @ '': '' @ out @ (if rest \<noteq> [] then '','' @ newline else []) @ outs, indent''))"
| "print_elements lib [] indent = ([], indent)"
| "print_elements lib (value # rest) indent =
     (let (out, indent') = pretty_print lib value indent;
          (outs, indent'') = print_elements lib rest indent'
      in (indent @ out @ (if rest \<noteq> [] then '','' @ newline else []) @ outs, indent''))"

section \<open>Sending a message\<close>

text \<open>\<^verbatim>\<open>once\<close> runs the context until nothing is pending. The wait for a signal is pending until the coroutine cancels it or a
  signal arrives.\<close>

definition run_once :: "bool \<Rightarrow> bool \<Rightarrow> 'a \<Rightarrow> 'a expect" where
  "run_once signalled cancelled r = (if cancelled \<or> signalled then Inr r else Inl Hang)"

definition show_response :: "json_lib \<Rightarrow> bool \<Rightarrow> json expect \<times> 's \<Rightarrow> (nat \<times> str) expect \<times> 's option" where
  "show_response lib signalled rs =
     (case rs of
        (Inl (Errc e), s) \<Rightarrow> (run_once signalled False (1, []), Some s)
      | (Inl f, s) \<Rightarrow> (Inl f, Some s)
      | (Inr response, s) \<Rightarrow> (run_once signalled True (0, fst (pretty_print lib response [])), Some s))"

text \<open>The loop over the log messages: it ends with the first that cannot be received.\<close>

partial_function (option) print_log :: "'s socket_ops \<Rightarrow> bool \<Rightarrow> 's \<Rightarrow> (str expect \<times> 's) option" where
  "print_log ops big s =
     (case receive_message ops big s of
        (Inl (Errc e), s) \<Rightarrow> Some (Inr [], s)
      | (Inl f, s) \<Rightarrow> Some (Inl f, s)
      | (Inr message, s) \<Rightarrow>
          Option.bind (print_log ops big s) (\<lambda>(r, s). Some (transform r (\<lambda>out. message @ newline @ out), s)))"

definition centered :: "nat \<Rightarrow> char \<Rightarrow> str \<Rightarrow> str" where
  "centered n fill s = replicate ((n - length s) div 2) fill @ s @ replicate (n - length s - (n - length s) div 2) fill"

definition show_log :: "bool \<Rightarrow> 's socket_ops \<Rightarrow> bool \<Rightarrow> unit expect \<times> 's \<Rightarrow> (nat \<times> str) expect \<times> 's option" where
  "show_log signalled ops big rs =
     (case rs of
        (Inl (Errc e), s) \<Rightarrow> (run_once signalled False (1, []), Some s)
      | (Inl f, s) \<Rightarrow> (Inl f, Some s)
      | (Inr _, s) \<Rightarrow>
          (case print_log ops big s of
             None \<Rightarrow> (Inl Hang, Some s)
           | Some (Inl f, s) \<Rightarrow> (Inl f, Some s)
           | Some (Inr out, s) \<Rightarrow>
               (run_once signalled True (0, centered 80 CHR ''-'' ''[ LOGCAT START ]'' @ newline @ out @
                  centered 80 CHR ''-'' ''[ LOGCAT END ]'' @ newline), Some s)))"

text \<open>The exit status and what is written to the standard output, and the socket afterwards, if there is a connection.\<close>

definition msg_send :: "json_lib \<Rightarrow> 's socket_ops \<Rightarrow> bool \<Rightarrow> 's msg_host \<Rightarrow> bool \<Rightarrow> str list \<Rightarrow> str \<Rightarrow> bool \<Rightarrow>
    (nat \<times> str) expect \<times> 's option" where
  "msg_send lib ops big host signalled message socket_path color =
     (case parse_message message of
        Inl f \<Rightarrow> (Inl f, None)
      | Inr None \<Rightarrow> (Inr (1, []), None)
      | Inr (Some op) \<Rightarrow>
          (case mh_connect host socket_path of
             Inl _ \<Rightarrow> (Inr (1, []), None)
           | Inr s \<Rightarrow>
               (case op of
                  FsOp op \<Rightarrow> show_response lib signalled (client_send lib ops big op s)
                | Help \<Rightarrow> show_response lib signalled (client_help lib ops big s)
                | Version \<Rightarrow> show_response lib signalled (client_version lib ops big s)
                | Logcat _ \<Rightarrow> show_log signalled ops big (client_logcat lib ops big color s))))"

definition msg_main :: "json_lib \<Rightarrow> 's socket_ops \<Rightarrow> bool \<Rightarrow> 's msg_host \<Rightarrow> bool \<Rightarrow> nat \<Rightarrow> msg_given option \<Rightarrow>
    (nat \<times> str) expect \<times> 's option" where
  "msg_main lib ops big host signalled argc parsed =
     (case msg_parse_args host argc parsed of
        Inl ret \<Rightarrow> (Inr (ret, []), None)
      | Inr args \<Rightarrow>
          (let search_path = ma_search_path args; entries = mh_entries host search_path in
           case ma_mode args of
             ListMode \<Rightarrow> (Inr (perform_list search_path entries), None)
           | MessageMode \<Rightarrow>
               (case find (\<lambda>x. so_serial x = ma_serial args) (get_socket_list search_path entries) of
                  None \<Rightarrow> (Inr (1, []), None)
                | Some socket \<Rightarrow> msg_send lib ops big host signalled (ma_message args) (so_path socket) (ma_color args))))"

section \<open>The layout of a response\<close>

text \<open>The text \<^verbatim>\<open>pretty_print\<close> is meant to write: members and elements on lines of their own, indented by their depth.\<close>

fun join_with :: "str \<Rightarrow> str list \<Rightarrow> str" where
  "join_with sep [] = []"
| "join_with sep [x] = x"
| "join_with sep (x # y # ys) = x @ sep @ join_with sep (y # ys)"

abbreviation margin :: "nat \<Rightarrow> str" where "margin d \<equiv> replicate (4 * d) CHR '' ''"

function layout :: "json_lib \<Rightarrow> nat \<Rightarrow> json \<Rightarrow> str" where
  "layout lib d (JObj obj) = ''{'' @ newline @
     join_with ('','' @ newline) (map (\<lambda>kv. margin (Suc d) @ js_serialize lib (JStr (fst kv)) @ '': '' @ layout lib (Suc d) (snd kv)) obj) @
     newline @ margin d @ ''}''"
| "layout lib d (JArr arr) = ''['' @ newline @
     join_with ('','' @ newline) (map (\<lambda>v. margin (Suc d) @ layout lib (Suc d) v) arr) @ newline @ margin d @ '']''"
| "layout lib d (JStr s) = js_serialize lib (JStr s)"
| "layout lib d (JInt i) = js_serialize lib (JInt i)"
| "layout lib d (JBool b) = (if b then ''true'' else ''false'')"
| "layout lib d JNull = ''null''"
  by pat_completeness auto
termination
proof (relation "measure (\<lambda>(_, _, j). size j)")
  fix obj kv and lib :: json_lib and d :: nat
  assume "kv \<in> set (obj :: (str \<times> json) list)"
  then show "((lib, Suc d, snd kv), (lib, d, JObj obj)) \<in> measure (\<lambda>(_, _, j). size j)"
    by (induction obj) (auto split: prod.splits)
next
  fix arr v and lib :: json_lib and d :: nat
  assume "v \<in> set (arr :: json list)"
  then show "((lib, Suc d, v), (lib, d, JArr arr)) \<in> measure (\<lambda>(_, _, j). size j)" by (induction arr) auto
qed simp

lemma print_members_layout:
  assumes "\<forall>kv\<in>set obj. pretty_print lib (snd kv) indent = (f (snd kv), indent)"
  shows "print_members lib obj indent =
    (join_with ('','' @ newline) (map (\<lambda>kv. indent @ js_serialize lib (JStr (fst kv)) @ '': '' @ f (snd kv)) obj), indent)"
  using assms
proof (induction obj)
  case (Cons kv obj)
  then show ?case by (cases kv; cases obj) (auto simp: Let_def simp del: pretty_print.simps)
qed simp

lemma print_elements_layout:
  assumes "\<forall>v\<in>set arr. pretty_print lib v indent = (f v, indent)"
  shows "print_elements lib arr indent = (join_with ('','' @ newline) (map (\<lambda>v. indent @ f v) arr), indent)"
  using assms
proof (induction arr)
  case (Cons v arr)
  then show ?case by (cases arr) (auto simp: Let_def simp del: pretty_print.simps)
qed simp

lemma margin_Suc: "margin d @ replicate 4 CHR '' '' = margin (Suc d)"
  by (simp add: replicate_add [symmetric] add.commute)

text \<open>One object and one list, given what is written for what they hold.\<close>

lemma pretty_print_obj:
  assumes "print_members lib obj (indent @ replicate 4 CHR '' '') = (body, indent @ replicate 4 CHR '' '')"
  shows "pretty_print lib (JObj obj) indent = (''{'' @ newline @ body @ newline @ indent @ ''}'' @ (if indent = [] then newline else []), indent)"
proof (cases "obj = []")
  case True
  with assms show ?thesis by (simp add: Let_def)
qed (use assms in \<open>simp add: Let_def\<close>)

lemma pretty_print_arr:
  assumes "print_elements lib arr (indent @ replicate 4 CHR '' '') = (body, indent @ replicate 4 CHR '' '')"
  shows "pretty_print lib (JArr arr) indent = (''['' @ newline @ body @ newline @ indent @ '']'' @ (if indent = [] then newline else []), indent)"
proof (cases "arr = []")
  case True
  with assms show ?thesis by (simp add: Let_def)
qed (use assms in \<open>simp add: Let_def\<close>)

lemma pretty_print_at: "pretty_print lib json (margin d) = (layout lib d json @ (if d = 0 then newline else []), margin d)"
proof (induction json arbitrary: d)
  case (JObj obj)
  have "\<forall>kv\<in>set obj. pretty_print lib (snd kv) (margin (Suc d)) = (layout lib (Suc d) (snd kv), margin (Suc d))"
  proof
    fix kv assume "kv \<in> set obj"
    with JObj [of kv "snd kv" "Suc d"] show "pretty_print lib (snd kv) (margin (Suc d)) = (layout lib (Suc d) (snd kv), margin (Suc d))"
      by (cases kv) (simp del: pretty_print.simps)
  qed
  from pretty_print_obj [of lib obj "margin d", unfolded margin_Suc, OF print_members_layout [OF this]] show ?case
    by (simp del: pretty_print.simps)
next
  case (JArr arr)
  have "\<forall>v\<in>set arr. pretty_print lib v (margin (Suc d)) = (layout lib (Suc d) v, margin (Suc d))"
    using JArr [of _ "Suc d"] by (simp del: pretty_print.simps)
  from pretty_print_arr [of lib arr "margin d", unfolded margin_Suc, OF print_elements_layout [OF this]] show ?case
    by (simp del: pretty_print.simps)
qed simp_all

text \<open>\<^verbatim>\<open>pretty_print\<close>, which changes one shared string for the indentation, writes each value with the indentation of its
  depth, with the separators between members and elements only, and leaves the string as it found it; a line end
  follows the outermost value alone.\<close>

theorem pretty_print_layout:
  "pretty_print lib json (margin d) = (layout lib d json @ (if d = 0 then newline else []), margin d)"
  by (rule pretty_print_at)

section \<open>Finding the socket of a mounted file system\<close>

abbreviation ipc_dir :: "str option \<Rightarrow> str" where
  "ipc_dir runtime_dir \<equiv> (case runtime_dir of Some d \<Rightarrow> d | None \<Rightarrow> ''/tmp'')"

definition sock_name :: "str \<Rightarrow> str" where
  "sock_name serial = sock_prefix @ serial @ sock_suffix"

definition one_line :: "str \<Rightarrow> bool" where
  "one_line s = (\<forall>c\<in>set s. c \<noteq> CHR 0x0A \<and> c \<noteq> CHR 0x0D)"

lemma create_ipc_path:
  assumes "ipc_dir r \<noteq> []" "last (ipc_dir r) \<noteq> CHR ''/''"
  shows "create_ipc r (Some serial) = Some (entry_path (ipc_dir r) (sock_name serial))"
  using assms by (simp add: create_ipc_def Let_def entry_path_def sock_name_def sock_prefix_def sock_suffix_def)

lemma sock_match_iff: "sock_match name = Some serial \<longleftrightarrow> name = sock_name serial \<and> one_line serial"
proof
  assume "sock_match name = Some serial"
  then have *: "length sock_prefix + length sock_suffix \<le> length name" "take (length sock_prefix) name = sock_prefix"
    "drop (length name - length sock_suffix) name = sock_suffix" "one_line serial"
    "serial = Prelude.sublist (length sock_prefix) (length name - length sock_suffix - length sock_prefix) name"
    by (auto simp: sock_match_def Let_def one_line_def split: if_splits)
  let ?p = "length sock_prefix" and ?n = "length name - length sock_suffix"
  have "name = take ?p name @ take (?n - ?p) (drop ?p name) @ drop ?n name"
    using *(1) by (metis append_assoc append_take_drop_id drop_drop le_add_diff_inverse2 le_diff_conv2 add_leD2 take_add add.commute)
  with * show "name = sock_name serial \<and> one_line serial" by (simp add: sock_name_def sublist_def)
qed (auto simp: sock_match_def sock_name_def sock_prefix_def sock_suffix_def Let_def sublist_def one_line_def)

lemma get_socket_list_iff:
  "\<lparr>so_serial = s, so_path = p\<rparr> \<in> set (get_socket_list dir entries) \<longleftrightarrow>
     (sock_name s, True) \<in> set entries \<and> one_line s \<and> p = entry_path dir (sock_name s)"
proof (induction dir entries rule: get_socket_list.induct)
  case (2 dir name is_socket entries)
  show ?case
  proof (cases "sock_match name")
    case None
    then have "\<not> (name = sock_name s \<and> one_line s)" using sock_match_iff [of name s] by simp
    with 2 None show ?thesis by auto
  next
    case (Some s')
    then have "name = sock_name s'" "one_line s'" by (simp_all add: sock_match_iff)
    with 2 Some show ?thesis by (auto simp: sock_name_def)
  qed
qed simp

lemma found_socket:
  assumes "(sock_name serial, True) \<in> set entries" "one_line serial"
  shows "find (\<lambda>x. so_serial x = serial) (get_socket_list dir entries) =
    Some \<lparr>so_serial = serial, so_path = entry_path dir (sock_name serial)\<rparr>"
proof -
  let ?l = "get_socket_list dir entries" and ?P = "\<lambda>x. so_serial x = serial"
  have m: "\<lparr>so_serial = serial, so_path = entry_path dir (sock_name serial)\<rparr> \<in> set ?l"
    using assms by (simp add: get_socket_list_iff)
  then have "find ?P ?l \<noteq> None" by (auto simp: find_None_iff)
  then obtain x where x: "find ?P ?l = Some x" by blast
  then have "x \<in> set ?l" "so_serial x = serial" by (auto simp: find_Some_iff)
  moreover have "x = \<lparr>so_serial = so_serial x, so_path = so_path x\<rparr>" by simp
  ultimately have "so_path x = entry_path dir (sock_name serial)" using get_socket_list_iff by metis
  with x \<open>so_serial x = serial\<close> show ?thesis by (cases x) simp
qed

section \<open>Commands of the control client\<close>

text \<open>The words of an operation on the command line.\<close>

definition op_words :: "ipc_fs_op \<Rightarrow> str list" where
  "op_words op =
     (case op of
        Info \<Rightarrow> [''info'']
      | InvalidateCache \<Rightarrow> [''invalidate_cache'']
      | ExpireStat \<Rightarrow> [''expire_stat'']
      | SetPageSize n \<Rightarrow> [''set_page_size'', show_num 10 n]
      | SetCacheSize n \<Rightarrow> [''set_cache_size'', show_num 10 n]
      | SetTTL n \<Rightarrow> [''set_ttl'', show_num 10 n]
      | SetTimeout n \<Rightarrow> [''set_timeout'', show_num 10 n]
      | SetLogLevel lvl \<Rightarrow> [''set_log_level'', lvl]
      | Unmount \<Rightarrow> [''unmount''])"

definition fits_usize :: "ipc_fs_op \<Rightarrow> bool" where
  "fits_usize op =
     (case op of SetPageSize n \<Rightarrow> n < 2 ^ 64 | SetCacheSize n \<Rightarrow> n < 2 ^ 64 | SetTTL n \<Rightarrow> n < 2 ^ 64 | SetTimeout n \<Rightarrow> n < 2 ^ 64 | _ \<Rightarrow> True)"

lemma parse_message_words: "fits_usize op \<Longrightarrow> parse_message (op_words op) = Inr (Some (FsOp op))"
  by (cases op) (simp_all add: op_words_def parse_message_def parsers_def parse_cmd_def parse_cmd_number_def parse_cmd_string_def
      fits_usize_def parse_unsigned_show)

lemma op_words_cons: "op_words op \<noteq> []"
  by (cases op) (simp_all add: op_words_def)

lemma msg_main_send:
  assumes "ma_mode args = MessageMode" "msg_parse_args host argc parsed = Inr args"
    "(sock_name (ma_serial args), True) \<in> set (mh_entries host (ma_search_path args))" "one_line (ma_serial args)"
  shows "msg_main lib ops big host signalled argc parsed =
    msg_send lib ops big host signalled (ma_message args) (entry_path (ma_search_path args) (sock_name (ma_serial args))) (ma_color args)"
  using found_socket [OF assms(3,4)] assms(1,2) by (simp add: msg_main_def Let_def)

lemma concat_split: "x \<in> set xs \<Longrightarrow> \<exists>pre post. concat (map f xs) = pre @ f x @ post"
  by (auto dest!: split_list) metis

lemma listed_socket:
  assumes "x \<in> set (get_socket_list dir entries)"
  shows "\<exists>pre post n. perform_list dir entries = (0, pre @ ''    - '' @ pad_right n (so_serial x) @ '' -> '' @ so_path x @ newline @ post)"
proof -
  let ?l = "sort_key so_path (get_socket_list dir entries)"
  let ?n = "foldl (\<lambda>m x. max m (length (so_serial x))) 0 ?l"
  have ne: "get_socket_list dir entries \<noteq> []" using assms by auto
  have "x \<in> set ?l" using assms by simp
  from concat_split [OF this, of "\<lambda>x. ''    - '' @ pad_right ?n (so_serial x) @ '' -> '' @ so_path x @ newline"]
  obtain pre post where p: "concat (map (\<lambda>x. ''    - '' @ pad_right ?n (so_serial x) @ '' -> '' @ so_path x @ newline) ?l) =
    pre @ (''    - '' @ pad_right ?n (so_serial x) @ '' -> '' @ so_path x @ newline) @ post" by blast
  show ?thesis unfolding perform_list_def Let_def if_not_P [OF ne] p
    by (intro exI [of _ "''active sockets:'' @ newline @ pre"] exI [of _ post] exI [of _ ?n]) simp
qed

text \<open>The loop over log messages ends when the stream does, and has then written every message that was forwarded.\<close>

lemma print_log_all:
  assumes "duplex_ok ops pend sent" "\<And>s. pend s = [] \<Longrightarrow> \<exists>e s'. receive_message ops big s = (Unexpect e, s')"
    "\<forall>line\<in>set lines. length line \<le> max_msg_len" "pend s = concat (map (\<lambda>line. lv big' (bytes_of line)) lines)"
  shows "\<exists>s'. print_log ops big s = Some (Inr (concat (map (\<lambda>line. line @ newline) lines)), s')"
  using assms(3,4)
proof (induction lines arbitrary: s)
  case Nil
  with assms(2) [of s] show ?case by (subst print_log.simps) auto
next
  case (Cons line lines)
  then have "pend s = lv big' (bytes_of line) @ concat (map (\<lambda>line. lv big' (bytes_of line)) lines)" by simp
  from receive_message_at [OF assms(1) this, of big] Cons.prems(1) obtain s1 where
    s1: "receive_message ops big s = (Inr line, s1)" "pend s1 = concat (map (\<lambda>line. lv big' (bytes_of line)) lines)" by auto
  from Cons.IH [OF _ s1(2)] Cons.prems(1) obtain s' where "print_log ops big s1 = Some (Inr (concat (map (\<lambda>line. line @ newline) lines)), s')"
    by auto
  then show ?case by (subst print_log.simps) (simp add: s1(1))
qed

section \<open>Properties\<close>

text \<open>The control client finds a mounted file system. The socket that is created for a serial is, once it is in the
  directory, the one the client selects for that serial, by the path it was created under, and it is in the list that
  the client prints; and every socket in that list is one that would be created for its serial.\<close>

theorem socket_found:
  assumes "ipc_dir r \<noteq> []" "last (ipc_dir r) \<noteq> CHR ''/''" "one_line serial" "(sock_name serial, True) \<in> set entries"
  shows "\<exists>path pre post n. create_ipc r (Some serial) = Some path \<and>
    find (\<lambda>x. so_serial x = serial) (get_socket_list (ipc_dir r) entries) = Some \<lparr>so_serial = serial, so_path = path\<rparr> \<and>
    perform_list (ipc_dir r) entries = (0, pre @ ''    - '' @ pad_right n serial @ '' -> '' @ path @ newline @ post) \<and>
    (\<forall>x\<in>set (get_socket_list (ipc_dir r) entries). create_ipc r (Some (so_serial x)) = Some (so_path x))"
proof -
  let ?path = "entry_path (ipc_dir r) (sock_name serial)"
  note c = create_ipc_path [OF assms(1,2)]
  have "\<lparr>so_serial = serial, so_path = ?path\<rparr> \<in> set (get_socket_list (ipc_dir r) entries)"
    using assms(3,4) by (simp add: get_socket_list_iff)
  from listed_socket [OF this] obtain pre post n where
    l: "perform_list (ipc_dir r) entries = (0, pre @ ''    - '' @ pad_right n serial @ '' -> '' @ ?path @ newline @ post)" by auto
  have "create_ipc r (Some (so_serial x)) = Some (so_path x)" if "x \<in> set (get_socket_list (ipc_dir r) entries)" for x
  proof -
    obtain s p where "x = \<lparr>so_serial = s, so_path = p\<rparr>" by (cases x)
    with that c show ?thesis by (simp add: get_socket_list_iff)
  qed
  with found_socket [OF assms(4,3)] l c [of serial] show ?thesis by blast
qed

text \<open>C10: a command of the user. With the words of an operation on the command line and the socket of the device in the
  directory, the client sends that operation to the file system mounted for the device, writes the answer, laid out, and
  exits with status zero. The file system has then run the operation exactly once, unless its argument is a number that does not fit 32 bits
  or an unknown log level: then it has not touched its state, and the answer is the error that says so.\<close>

theorem control_command:
  assumes host: "mh_exists host dir" "mh_is_directory host dir" "dir = ipc_dir (mh_runtime_dir host)" "dir \<noteq> []" "last dir \<noteq> CHR ''/''"
      "(sock_name serial, True) \<in> set (mh_entries host dir)" "one_line serial"
      "create_ipc (mh_runtime_dir host) (Some serial) = Some path" "mh_connect host path = Inr c"
    and vm: "\<not> mg_help vm" "\<not> mg_version vm" "\<not> mg_list vm" "mg_color vm = None" "mg_search_dir vm = None" "mg_serial vm = Some serial"
      "mg_message vm = op_words op" "fits_usize op" "argc \<noteq> 1"
    and sock: "duplex_ok ops pend sent"
      "js_parse lib (js_serialize lib (fs_op_json op)) = Inr (fs_op_json op)" "length (js_serialize lib (fs_op_json op)) \<le> max_msg_len"
      "reply_of lib on_op op (ip_app p) = Inr (v, m')"
      "js_parse lib (js_serialize lib v) = Inr v" "length (js_serialize lib v) \<le> max_msg_len"
      "pend peer = lv big (bytes_of (js_serialize lib (fs_op_json op)))" "pend c = lv big' (bytes_of (js_serialize lib v))"
  shows "\<exists>c' peer'. msg_main lib ops big host signalled argc (Some vm) = (Inr (0, layout lib 0 v @ newline), Some c') \<and>
    sent c' = sent c @ pend peer \<and>
    handle_peer lib on_op ops big' peer p = (Inr (Some peer'), p\<lparr>ip_app := m'\<rparr>) \<and> sent peer' = sent peer @ pend c \<and>
    (case op_error lib op of
       None \<Rightarrow> m' = snd (on_op op (ip_app p)) \<and>
         (\<forall>x. fst (on_op op (ip_app p)) = Inr x \<longrightarrow> v = response_json (''success'', x)) \<and>
         (\<forall>e. fst (on_op op (ip_app p)) = Unexpect e \<longrightarrow> v = response_json (''error'', JStr (js_errc lib e)))
     | Some text \<Rightarrow> m' = ip_app p \<and> v = response_json (''error'', JStr text))"
proof -
  from ipc_call [OF sock] obtain c' peer' where
    x: "client_send lib ops big op c = (Inr v, c')" "sent c' = sent c @ pend peer"
      "handle_peer lib on_op ops big' peer p = (Inr (Some peer'), p\<lparr>ip_app := m'\<rparr>)" "sent peer' = sent peer @ pend c" by blast
  let ?args = "\<lparr>ma_mode = MessageMode, ma_serial = serial, ma_search_path = dir, ma_message = op_words op, ma_color = mh_tty host\<rparr>"
  have a: "msg_parse_args host argc (Some vm) = Inr ?args"
    using host(1-3) vm by (simp add: msg_parse_args_def Let_def op_words_cons)
  have path: "path = entry_path dir (sock_name serial)"
    using create_ipc_path [of "mh_runtime_dir host" serial] host(3-5,8) by simp
  have "msg_send lib ops big host signalled (op_words op) path (mh_tty host) = (Inr (0, layout lib 0 v @ newline), Some c')"
    using host(9) x(1) pretty_print_at [of lib v 0]
    by (simp add: msg_send_def parse_message_words [OF vm(8)] show_response_def run_once_def del: pretty_print.simps)
  with msg_main_send [OF _ a, of lib ops big signalled] host(6,7) path
  have main: "msg_main lib ops big host signalled argc (Some vm) = (Inr (0, layout lib 0 v @ newline), Some c')" by auto
  have "case op_error lib op of
       None \<Rightarrow> m' = snd (on_op op (ip_app p)) \<and>
         (\<forall>x. fst (on_op op (ip_app p)) = Inr x \<longrightarrow> v = response_json (''success'', x)) \<and>
         (\<forall>e. fst (on_op op (ip_app p)) = Unexpect e \<longrightarrow> v = response_json (''error'', JStr (js_errc lib e)))
     | Some text \<Rightarrow> m' = ip_app p \<and> v = response_json (''error'', JStr text)"
    using sock(4) by (auto simp: reply_of_def split: option.splits prod.splits sum.splits fault.splits)
  with main x show ?thesis by blast
qed

text \<open>C13: the log of a mounted file system. When the client has subscribed and the server forwards log entries to it, the client
  writes exactly the lines of those entries in order, between its two banners, and ends with status zero when the stream does.\<close>

theorem logcat_delivered:
  assumes "duplex_ok ops pend sent" "\<And>s. pend s = [] \<Longrightarrow> \<exists>e s'. receive_message ops big s = (Unexpect e, s')"
    "list_all2 (\<lambda>e line. log_line color e = Inr line) es lines" "\<forall>line\<in>set lines. length line \<le> max_msg_len"
    "forward_to ops big' color es srv = (r, srv')" "sent srv = []" "pend c = sent srv'"
  shows "r = Inr True \<and> (\<exists>c'. show_log signalled ops big (client_logcat lib ops big color c) =
    (Inr (0, centered 80 CHR ''-'' ''[ LOGCAT START ]'' @ newline @ concat (map (\<lambda>line. line @ newline) lines) @
       centered 80 CHR ''-'' ''[ LOGCAT END ]'' @ newline), Some c'))"
proof -
  from forward_to_sent [OF assms(1,3), of big' srv] assms(5,6) have
    f: "r = Inr True" "sent srv' = concat (map (\<lambda>line. lv big' (bytes_of line)) lines)" by auto
  obtain c1 where c1: "client_logcat lib ops big color c = (Inr (), c1)" "pend c1 = pend c"
    unfolding client_logcat_def by (rule send_message_at [OF assms(1)])
  from print_log_all [OF assms(1,2,4), of c1] c1(2) assms(7) f(2) obtain c' where
    "print_log ops big c1 = Some (Inr (concat (map (\<lambda>line. line @ newline) lines)), c')" by auto
  with f(1) c1(1) show ?thesis by (simp add: show_log_def run_once_def)
qed

text \<open>A command that fails. When the exchange with the file system fails, the client has nothing left to do but does not
  exit, for it still waits for a signal: the status is returned only once one is delivered.\<close>

lemma failed_message_blocks:
  assumes "parse_message message = Inr (Some (FsOp op))" "mh_connect host path = Inr s"
    "client_send lib ops big op s = (Unexpect e, s')"
  shows "msg_send lib ops big host signalled message path color = (if signalled then Inr (1, []) else Inl Hang, Some s')"
  using assms by (simp add: msg_send_def show_response_def run_once_def)

theorem socket_found_witness:
  "find (\<lambda>x. so_serial x = ''B2'') (get_socket_list ''/tmp'' [(''x'', False), (''madbfs@A1.sock'', True), (''madbfs@B2.sock'', True)]) =
     Some \<lparr>so_serial = ''B2'', so_path = ''/tmp/madbfs@B2.sock''\<rparr> \<and>
   create_ipc None (Some ''B2'') = Some ''/tmp/madbfs@B2.sock''"
proof -
  let ?e = "[(''x'', False), (''madbfs@A1.sock'', True), (''madbfs@B2.sock'', True)]"
  have "(sock_name ''B2'', True) \<in> set ?e" "one_line ''B2''"
    by (simp_all add: sock_name_def sock_prefix_def sock_suffix_def one_line_def)
  from socket_found [of None, OF _ _ this(2,1)] show ?thesis by (auto simp: create_ipc_def)
qed

definition sample_host :: "(u8 list \<times> u8 list) msg_host" where
  "sample_host = \<lparr>mh_serial = None, mh_runtime_dir = Some ''/run/user/1000'', mh_exists = (\<lambda>_. True), mh_is_directory = (\<lambda>_. True),
     mh_entries = (\<lambda>_. [(''bus'', True), (''madbfs@B2.sock'', True)]), mh_tty = False,
     mh_connect = (\<lambda>_. Inr (lv False (bytes_of ''r''), []))\<rparr>"

definition sample_given :: msg_given where
  "sample_given = \<lparr>mg_help = False, mg_version = False, mg_color = None, mg_list = False, mg_search_dir = None, mg_serial = Some ''B2'',
     mg_message = op_words (SetTTL 5)\<rparr>"

definition ttl_op :: "ipc_fs_op \<Rightarrow> nat \<Rightarrow> json expect \<times> nat" where
  "ttl_op op ttl = (case op of SetTTL n \<Rightarrow> (Inr (JInt (int ttl)), n) | _ \<Rightarrow> (Inl UB, ttl))"

theorem control_command_witness:
  "\<exists>c' peer'. msg_main tiny_json list_ops True sample_host False 4 (Some sample_given) =
      (Inr (0, layout tiny_json 0 (response_json (''success'', JInt 3)) @ newline), Some c') \<and>
    handle_peer tiny_json ttl_op list_ops False (snd c', []) \<lparr>ip_running = True, ip_sink = None, ip_subs = [], ip_prev_empty = True, ip_app = 3\<rparr> =
      (Inr (Some peer'), \<lparr>ip_running = True, ip_sink = None, ip_subs = [], ip_prev_empty = True, ip_app = 5\<rparr>)"
proof -
  let ?p = "\<lparr>ip_running = True, ip_sink = None, ip_subs = [], ip_prev_empty = True, ip_app = 3 :: nat\<rparr>"
  let ?req = "js_serialize tiny_json (fs_op_json (SetTTL 5))" and ?v = "response_json (''success'', JInt 3)"
  let ?path = "entry_path ''/run/user/1000'' (sock_name ''B2'')" and ?c = "(lv False (bytes_of ''r''), [])" and ?peer = "(lv True (bytes_of ''q''), [])"
  have s: "?req = ''q''" "js_serialize tiny_json ?v = ''r''"
    by (simp_all add: tiny_json_def response_json_def fs_op_json_def)
  have j: "js_parse tiny_json ?req = Inr (fs_op_json (SetTTL 5))" "js_parse tiny_json (js_serialize tiny_json ?v) = Inr ?v"
    "length ?req \<le> max_msg_len" "length (js_serialize tiny_json ?v) \<le> max_msg_len"
    "fst ?peer = lv True (bytes_of ?req)" "fst ?c = lv False (bytes_of (js_serialize tiny_json ?v))"
    "reply_of tiny_json ttl_op (SetTTL 5) (ip_app ?p) = Inr (?v, 5)"
    unfolding s by (simp_all add: tiny_json_def max_msg_len_def reply_of_def op_error_def ttl_op_def)
  have h: "mh_exists sample_host ''/run/user/1000''" "mh_is_directory sample_host ''/run/user/1000''"
    "''/run/user/1000'' = ipc_dir (mh_runtime_dir sample_host)" "''/run/user/1000'' \<noteq> ([] :: str)" "last ''/run/user/1000'' \<noteq> CHR ''/''"
    "(sock_name ''B2'', True) \<in> set (mh_entries sample_host ''/run/user/1000'')" "one_line ''B2''"
    "create_ipc (mh_runtime_dir sample_host) (Some ''B2'') = Some ?path" "mh_connect sample_host ?path = Inr ?c"
    by (simp_all add: sample_host_def sock_name_def sock_prefix_def sock_suffix_def one_line_def create_ipc_def entry_path_def)
  have g: "\<not> mg_help sample_given" "\<not> mg_version sample_given" "\<not> mg_list sample_given" "mg_color sample_given = None"
    "mg_search_dir sample_given = None" "mg_serial sample_given = Some ''B2''" "mg_message sample_given = op_words (SetTTL 5)"
    "fits_usize (SetTTL 5)" "(4 :: nat) \<noteq> 1"
    by (simp_all add: sample_given_def fits_usize_def)
  from control_command [OF h g list_ops_duplex j(1,3,7,2,4,5,6), of False] obtain c' peer' where
    c: "msg_main tiny_json list_ops True sample_host False 4 (Some sample_given) = (Inr (0, layout tiny_json 0 ?v @ newline), Some c')"
      "snd c' = fst ?peer" "handle_peer tiny_json ttl_op list_ops False ?peer ?p = (Inr (Some peer'), ?p\<lparr>ip_app := 5\<rparr>)"
    by (elim exE conjE) (simp del: One_nat_def)
  then have "(snd c', []) = ?peer" by simp
  with c show ?thesis by auto
qed

lemma list_ops_closed: "fst s = [] \<Longrightarrow> \<exists>e s'. receive_message list_ops big s = (Unexpect e, s')"
  by (cases s) (simp add: receive_message_def read_lv_def list_ops_def list_read_def)

theorem logcat_delivered_witness:
  "\<exists>c' srv'. forward_to list_ops False False
       [\<lparr>lg_text = ''hi'', lg_start = 0, lg_end = 1, lg_level = 2\<rparr>, \<lparr>lg_text = ''ho'', lg_start = 0, lg_end = 1, lg_level = 2\<rparr>] ([], []) = (Inr True, srv') \<and>
     show_log False list_ops False (client_logcat tiny_json list_ops False False (snd srv', [])) =
       (Inr (0, centered 80 CHR ''-'' ''[ LOGCAT START ]'' @ newline @ ''hi'' @ newline @ ''ho'' @ newline @
          centered 80 CHR ''-'' ''[ LOGCAT END ]'' @ newline), Some c')"
proof -
  let ?es = "[\<lparr>lg_text = ''hi'', lg_start = 0, lg_end = 1, lg_level = 2\<rparr>, \<lparr>lg_text = ''ho'', lg_start = 0, lg_end = 1, lg_level = 2\<rparr>]"
  obtain r srv' where f: "forward_to list_ops False False ?es ([], []) = (r, srv')" by (rule prod.exhaust)
  have l: "list_all2 (\<lambda>e line. log_line False e = Inr line) ?es [''hi'', ''ho'']" by (simp add: log_line_def)
  have "\<forall>line\<in>set [''hi'', ''ho'']. length line \<le> max_msg_len" by (simp add: max_msg_len_def)
  from logcat_delivered [where c = "(snd srv', [])" and signalled = False and lib = tiny_json and big = False, OF list_ops_duplex list_ops_closed l this f] f
  show ?thesis by auto
qed

end
