(* ===== verification/Spec2Isabelle.thy ===== *)
theory Spec2Isabelle
  imports Path Rpc Handles Cache_Race Conc_Props Fs_Walk System Adb Startup Msg
begin

text \<open>
  A model of madbfs, a FUSE file system that mounts the storage of an Android device over adb, with the
  theorems that make its parts correct. The paths below are relative to \<^verbatim>\<open>src/\<close>.

  \<^bold>\<open>The program.\<close> The kernel calls the callbacks of \<^verbatim>\<open>madbfs/src/operations.cpp\<close>. A callback turns the path it
  is given into one below the custom root and runs an operation of \<^verbatim>\<open>Filesystem\<close>, which keeps a lazily
  built tree of nodes with expiry times, a store of open handles, and a page cache. What is not cached is
  asked of the device through \<^verbatim>\<open>Connection\<close>, whose typed requests go to a transport: \<^verbatim>\<open>ProxyTransport\<close> talks
  the RPC protocol with \<^verbatim>\<open>madbfs-server\<close> running on the device, \<^verbatim>\<open>AdbTransport\<close> runs shell commands through
  adb, \<^verbatim>\<open>NullTransport\<close> refuses everything. A watchdog pings, replaces the transport and starts it, a reaper
  closes descriptors that are no longer in use, and a control client changes settings over a local socket. At the start the options are
  checked, a device is chosen, and the server is pushed to the device and started there.

  \<^bold>\<open>Theories, bottom up.\<close>
  \<^item> \<^verbatim>\<open>Prelude\<close>: the integer types of \<^verbatim>\<open>aliases.hpp\<close> as words, \<^verbatim>\<open>std::errc\<close>, results as sums
    (\<^verbatim>\<open>Expect\<close>), undefined behaviour as the error value \<open>UB\<close>, and the generic lemmas.
  \<^item> \<^verbatim>\<open>Split\<close>, \<^verbatim>\<open>Path\<close>: \<^verbatim>\<open>util/slice.hpp\<close>, \<^verbatim>\<open>util/split.hpp\<close>, \<^verbatim>\<open>madbfs/path.hpp\<close>, \<^verbatim>\<open>path.cpp\<close>. A path is a string
    with the two offsets the class stores. The splitter equals a reference tokenizer; construction,
    resolution, parent, extension and rename are correct with respect to the list of components and keep
    the offsets right.
  \<^item> \<^verbatim>\<open>Wire\<close>, \<^verbatim>\<open>Rpc\<close>: \<^verbatim>\<open>rpc.hpp\<close> and \<^verbatim>\<open>rpc.cpp\<close>: integers in network order, payload builder and reader, one
    constructor per request and response, parsing, framing. Parsers invert builders, refuse truncated
    input, and the receive functions consume exactly one message, for either endianness of the hosts.
  \<^item> \<^verbatim>\<open>Stat\<close>, \<^verbatim>\<open>Handles\<close>: \<^verbatim>\<open>stat.hpp\<close> and \<^verbatim>\<open>file_handle_store.cpp\<close>: the handle store seats, finds, releases and
    erases.
  \<^item> \<^verbatim>\<open>Inflight\<close>: the table of promises the two transports share, the moves on it and the locale
    \<open>transport_runs\<close> of a transport whose steps are such moves, in which it is proved once that every
    accepted request is waiting or answered exactly once. \<^verbatim>\<open>Proxy\<close> (\<^verbatim>\<open>proxy_transport.cpp\<close>) and \<^verbatim>\<open>Adb\<close>
    (\<^verbatim>\<open>adb_transport.cpp\<close>) interpret it on their step relations, which have a step for each segment of a
    coroutine between two suspensions.
  \<^item> \<^verbatim>\<open>Adb_Cmd\<close>: \<^verbatim>\<open>cmd.cpp\<close>, \<^verbatim>\<open>adb.cpp\<close> and the parsing of what \<^verbatim>\<open>stat\<close> prints; a listing is read back exactly.
  \<^item> \<^verbatim>\<open>Request_Handler\<close>, \<^verbatim>\<open>Handler_Props\<close>, \<^verbatim>\<open>Server\<close>: the server. System calls are a record of functions on
    a kernel state, a parameter; the handlers answer with their own kind, close what they open, list
    directories completely and copy exactly the bytes asked for.
  \<^item> \<^verbatim>\<open>System\<close>: proxy transport and server composed over a socket, all interleavings. It refines a
    procedure call: each caller gets the handler's answer to its request, the handler runs once per
    request, and every schedule of the remaining work ends with all requests answered.
  \<^item> \<^verbatim>\<open>Lv\<close>, \<^verbatim>\<open>Ipc\<close>: length-prefixed messages of \<^verbatim>\<open>async.hpp\<close>, the handshake of server and client, and the
    control protocol of \<^verbatim>\<open>ipc.cpp\<close> with its log subscribers.
  \<^item> \<^verbatim>\<open>Connection\<close>: \<^verbatim>\<open>connection.cpp\<close>: requests over an abstract transport with the retry loop; start, cancel,
    reconnect and optimize as steps, with what their history says of the connection.
  \<^item> \<^verbatim>\<open>Cache\<close>, \<^verbatim>\<open>Cache_Inv\<close>, \<^verbatim>\<open>Cache_IO\<close>, \<^verbatim>\<open>Cache_Flush\<close>, \<^verbatim>\<open>Cache_Run\<close>, \<^verbatim>\<open>Cache_Props\<close>: \<^verbatim>\<open>cache.cpp\<close>. The list of pages in
    order of use and the index of each file agree after every operation, truncation from a size that covers the
    cached pages included, on a device that opens files; reads return the bytes of the
    file, writes are read back, flushing writes each dirty page at its place, and the number of pages
    stays bounded.
  \<^item> \<^verbatim>\<open>Cache_Conc\<close>, \<^verbatim>\<open>Conc_Props\<close>: any number of reads of the cache at once, each coroutine of \<^verbatim>\<open>read_at\<close> as steps
    between its suspension points. In every interleaving a read that returns has the bytes of the file and
    every schedule ends with no coroutine left waiting, as long as the files have descriptors; without one,
    two reads that start before the first open is answered open the file twice (\<open>open_race\<close>).
  \<^item> \<^verbatim>\<open>Cache_Race\<close>: flushes and the eviction of dirty pages as steps between suspension points. Uninterrupted, the
    steps of a flush are the flush of \<^verbatim>\<open>Cache\<close> (\<open>flush_steps\<close>); a write to a page that is being
    flushed or has been is lost (\<open>flush_race\<close>), and a page that is being evicted is reached through a dangling iterator (\<open>evict_race\<close>).
  \<^item> \<^verbatim>\<open>Node\<close>, \<^verbatim>\<open>Tree_Inv\<close>: \<^verbatim>\<open>node.cpp\<close>: nodes in a store with references; what it means to be a tree.
  \<^item> \<^verbatim>\<open>Filesystem\<close>, \<^verbatim>\<open>Fs_Ops\<close>, \<^verbatim>\<open>Fs_Inv\<close>, \<^verbatim>\<open>Fs_Run\<close>, \<^verbatim>\<open>Fs_Rename\<close>, \<^verbatim>\<open>Fs_Props\<close>, \<^verbatim>\<open>Fs_Walk\<close>: \<^verbatim>\<open>filesystem.cpp\<close> in a monad of
    state and errors with triples. Every sequence of operations keeps the tree; lookups find what a plain
    traversal finds; fresh nodes and cached errors need no request; walks end and reach each node once.
  \<^item> \<^verbatim>\<open>Callbacks\<close>, \<^verbatim>\<open>Madbfs\<close>: \<^verbatim>\<open>operations.cpp\<close> and \<^verbatim>\<open>madbfs.cpp\<close>: each callback with what it stores through its
    pointers, the handlers of the control operations, watchdog and reaper. Paths stay below the custom
    root, and in every sequence of events from the construction to the destruction the mounted file system
    keeps its tree and a started connection.
  \<^item> \<^verbatim>\<open>Startup\<close>: \<^verbatim>\<open>args.cpp\<close> and \<^verbatim>\<open>main.cpp\<close> up to the call of libfuse, the launch of the server in
    \<^verbatim>\<open>proxy_transport.cpp\<close>, and \<^verbatim>\<open>main.cpp\<close> of the server. Accepted options are usable by the rest of the
    program; launcher and server agree on the port and the line that announces the server.
  \<^item> \<^verbatim>\<open>Msg\<close>: \<^verbatim>\<open>madbfs-msg/src/main.cpp\<close> and the path of the socket in \<^verbatim>\<open>madbfs.cpp\<close>. The client finds the socket of
    a mounted device; a command typed by the user is run once by the file system, or refused for its argument, and the answer printed
    as laid out by a reference definition; forwarded log entries are printed in order.

  \<^bold>\<open>Bounds and fuel.\<close> Integers have the width of the source and wrap. Most loops are structural recursion.
  The others take fuel and return \<open>Inl Hang\<close> when it is used up, and a theorem says how much is enough:
  the walk over the tree and the path to the root have one unit per node id ever given out
  (\<open>walk_once\<close>, \<open>build_path_roundtrip\<close>), discarding input has the length of the message (\<open>Lv.lv_framing\<close>), the
  loop that flushes a page needs a unit per byte of a page (\<open>ev_fuel\<close> at least the page size in
  \<open>flush_correct\<close>), the copy loop of the server one per byte to copy and its inner loop one per byte of the
  buffer (\<open>k_fuel\<close> in \<open>copy_fallback_copies\<close>). A request is retried \<open>max_attempts\<close> = 5 times, as in the code.
  The request counter of the transports is a 32-bit word: the step relations allow a send only while it
  has not wrapped, that is for the first \<open>2^32 - 1\<close> requests of a transport. The control protocol answers
  numbers from \<open>2^32\<close> on with an error. The loop of the control client over log messages may run for ever; it
  is a partial function, shown to return when the stream ends (\<open>logcat_delivered\<close>).

  \<^bold>\<open>Parameters.\<close> Boost.JSON, the option parsers of libfuse and Boost, the answers of the user, the kernel of the device, the shell behind adb with its local time zone, the
  transport under \<^verbatim>\<open>Connection\<close>, and the contents of an uninitialised buffer are arguments of the definitions
  that use them; what is assumed of them is a hypothesis, with an instance in the witness.

  \<^bold>\<open>Not modelled.\<close>
  \<^item> Concurrent reads, flushes and evictions of the cache apart, operations of \<^verbatim>\<open>Cache\<close>, \<^verbatim>\<open>Filesystem\<close> and the callbacks run to completion:
    the interleaving of invalidation, truncation and operations on the tree at their suspension points is
    outside the model. A flush during eviction that never returns counts as failed.
  \<^item> A turn of the watchdog is one step of the mounted file system; what happens at its suspension points is in
    \<^verbatim>\<open>Connection\<close> only. A transport whose coroutines end by themselves still counts as started: it fails its requests,
    and the next ping.
  \<^item> Assertions are modelled as present, with failure as undefined behaviour, but for the one in \<^verbatim>\<open>unlink\<close> that
    fails whenever it is reached.
  \<^item> \<^verbatim>\<open>System\<close> has no timers and no closing of the socket; these are in \<^verbatim>\<open>Proxy\<close> and \<^verbatim>\<open>Server\<close>.
  \<^item> Running processes, opening sockets, the worker thread and the handlers of signals, the texts of help and
    errors, logging, and the asio wrappers of \<^verbatim>\<open>async.hpp\<close> but for \<^verbatim>\<open>once\<close>, the exact reads and the
    length-prefixed messages: input, output and library glue.
\<close>

end
